(* ===== verification/Prelude.thy ===== *)
theory Prelude
  imports Main "HOL-Library.Word"
begin

text \<open>
  Shared vocabulary of the development: the machine integer types of the C++ sources, the
  outcome of a call that may block or run into undefined behaviour, the collections of
  simplification rules the component theories extend, and the generic facts on words, lists and
  modular arithmetic that several components use.
\<close>

section \<open>Machine integers and outcomes\<close>

text \<open>\<open>uint64_t\<close>, \<open>size_t\<close> and \<open>uintptr_t\<close> are 64-bit words (LP64), \<open>uint32_t\<close> is a
  32-bit word, \<open>uint8_t\<close> and \<open>int8_t\<close> are 8-bit words read with \<open>unat\<close> and \<open>sint\<close>.\<close>

type_synonym u8 = "8 word"
type_synonym u32 = "32 word"
type_synonym u64 = "64 word"

text \<open>
  What a call does when the thread runs it alone: it returns, it waits for an event that only
  another thread can cause, or it reads storage in which no object lives.
\<close>

datatype 'r outcome = Done 'r | Blocks | Undefined

fun bind_outcome :: "'r outcome \<Rightarrow> ('r \<Rightarrow> 's outcome) \<Rightarrow> 's outcome" where
  "bind_outcome (Done r) f = f r"
| "bind_outcome Blocks f = Blocks"
| "bind_outcome Undefined f = Undefined"

lemma bind_outcome_Done_iff:
  "bind_outcome m f = Done s \<longleftrightarrow> (\<exists>r. m = Done r \<and> f r = Done s)"
  by (cases m) auto

named_theorems ticket_simps \<open>arithmetic of tickets, indices and turns\<close>
named_theorems queue_defs \<open>definitions of the queue operations, unfolded together\<close>
named_theorems pool_defs \<open>definitions of the thread pool operations, unfolded together\<close>

section \<open>Words\<close>

lemma unat_add_one:
  fixes w :: "'a::len word"
  assumes "unat w + 1 < 2 ^ LENGTH('a)"
  shows "unat (w + 1) = unat w + 1"
  using assms by (simp add: unat_word_ariths)

lemma unat_sub_le:
  fixes a b :: "'a::len word"
  assumes "b \<le> a"
  shows "unat (a - b) = unat a - unat b"
  using assms by (simp add: unat_sub)

lemma unat_of_nat_small:
  assumes "n < 2 ^ LENGTH('a)"
  shows "unat (of_nat n :: 'a::len word) = n"
  using assms by (simp add: unat_of_nat)

text \<open>A difference of two words below \<open>2 ^ (len - 1)\<close> is small enough to be read as signed.\<close>

lemma sint_word_of_int_small:
  assumes "- (2 ^ 63) \<le> x" "x < 2 ^ 63"
  shows "sint (word_of_int x :: u64) = x"
  using assms by (simp add: sint_sbintrunc' signed_take_bit_int_eq_self)

lemma u64_diff_sint:
  fixes a b :: u64
  assumes "unat a < 2 ^ 63" "unat b < 2 ^ 63"
  shows "sint (a - b) = int (unat a) - int (unat b)"
proof -
  have up: "uint w < 2 ^ 63" if "unat w < 2 ^ 63" for w :: u64
  proof -
    have "int (unat w) < int (2 ^ 63)"
      using that by (rule of_nat_less_iff [THEN iffD2])
    then show ?thesis
      by simp
  qed
  have lo: "- 9223372036854775808 \<le> uint a - uint b"
    using up[OF assms(2), simplified] uint_ge_0[of a] by linarith
  have hi: "uint a - uint b < 9223372036854775808"
    using up[OF assms(1), simplified] uint_ge_0[of b] by linarith
  have "sint (word_of_int (uint a - uint b) :: u64) = uint a - uint b"
    by (rule sint_word_of_int_small) (use lo hi in simp_all)
  then show ?thesis
    by simp
qed

text \<open>Equal residues of two close numbers are equal numbers.\<close>

lemma of_nat_word_eq_close:
  fixes m n :: nat
  assumes "(of_nat m :: 'a::len word) = of_nat n" "m \<le> n" "n - m < 2 ^ LENGTH('a)"
  shows "m = n"
proof -
  have "m mod 2 ^ LENGTH('a) = n mod 2 ^ LENGTH('a)"
    using assms(1) by (metis unat_of_nat)
  then have "2 ^ LENGTH('a) dvd n - m"
    using assms(2) by (metis mod_eq_dvd_iff_nat)
  with assms(2,3) show ?thesis
    by (auto dest: dvd_imp_le)
qed

section \<open>Lists\<close>

lemma map_upt_shift_snoc:
  assumes "m \<le> n"
  shows "map f [m..<Suc n] = map f [m..<n] @ [f n]"
  using assms by simp

lemma list_update_map_other:
  assumes "\<And>k. k \<in> set ks \<Longrightarrow> g k \<noteq> i"
  shows "map (\<lambda>k. (xs[i := x]) ! g k) ks = map (\<lambda>k. xs ! g k) ks"
  using assms by (intro map_cong refl nth_list_update_neq) auto

section \<open>Residues in a window\<close>

text \<open>Two numbers closer than the modulus with the same residue are equal.\<close>

lemma mod_eq_window:
  fixes a b n :: nat
  assumes "a mod n = b mod n" "a \<le> b" "b < a + n"
  shows "a = b"
proof -
  have "n dvd b - a"
    using assms(1,2) by (metis mod_eq_dvd_iff_nat)
  with assms(2,3) show ?thesis
    by (auto dest: dvd_imp_le)
qed

lemma coprime_mult_mod_eq:
  fixes a b s n :: nat
  assumes "coprime s n" "(a * s) mod n = (b * s) mod n"
  shows "a mod n = b mod n"
proof -
  have le: "a' mod n = b' mod n"
    if "a' \<le> b'" "(a' * s) mod n = (b' * s) mod n" for a' b' :: nat
  proof -
    have "n dvd b' * s - a' * s"
      using that by (metis mod_eq_dvd_iff_nat mult_le_mono1)
    then have "n dvd (b' - a') * s"
      by (simp add: diff_mult_distrib)
    then have "n dvd b' - a'"
      using assms(1) by (simp add: coprime_commute coprime_dvd_mult_left_iff)
    with that(1) show ?thesis
      by (metis mod_eq_dvd_iff_nat)
  qed
  show ?thesis
    using le[of a b] le[of b a] assms(2) by (metis nat_le_linear)
qed

section \<open>Sums\<close>

lemma sum_fun_upd:
  fixes g :: "'b \<Rightarrow> 'c :: comm_monoid_add"
  assumes "finite A" "c \<in> A"
  shows "(\<Sum>i\<in>A. g ((f(c := x)) i)) + g (f c) = (\<Sum>i\<in>A. g (f i)) + g x"
proof -
  have "(\<Sum>i\<in>A - {c}. g ((f(c := x)) i)) = (\<Sum>i\<in>A - {c}. g (f i))"
    by (rule sum.cong) auto
  then show ?thesis
    using sum.remove[OF assms, of "\<lambda>i. g ((f(c := x)) i)"] sum.remove[OF assms, of "\<lambda>i. g (f i)"]
    by (simp add: ac_simps)
qed

end
