(* ===== verification/Tickets.thy ===== *)
theory Tickets
  imports Prelude
begin

text \<open>
  The ticket arithmetic of \<open>MPMCQueueBase\<close> (MPMCQueue.h): which slot of the ring a ticket
  uses (\<open>idx\<close>), which turn of that slot it waits for (\<open>turn\<close>), how far apart consecutive
  tickets land (\<open>computeStride\<close>) and how much the slot array is padded (\<open>kSlotPadding\<close>).
  The lemmas show that the chosen stride is always coprime to the capacity, so that any window of
  \<open>capacity\<close> consecutive tickets uses every slot exactly once, as long as the product
  \<open>ticket * stride\<close> does not wrap.
\<close>

section \<open>Definitions\<close>

definition smallPrimes :: "int list" where
  "smallPrimes = [2, 3, 5, 7, 11, 13, 17, 19, 23]"

text \<open>The loop of \<open>computeStride\<close>: the int \<open>stride\<close> is converted to \<open>size_t\<close> in each
  operation with \<open>capacity\<close>.\<close>

fun computeStride_loop :: "u64 \<Rightarrow> int list \<Rightarrow> int \<Rightarrow> u64 \<Rightarrow> int" where
  "computeStride_loop capacity [] bestStride bestSep = bestStride"
| "computeStride_loop capacity (stride # strides) bestStride bestSep =
     (if word_of_int stride mod capacity = 0 \<or> capacity mod word_of_int stride = 0
      then computeStride_loop capacity strides bestStride bestSep
      else let sep = word_of_int stride mod capacity;
               sep' = min sep (capacity - sep)
           in if bestSep < sep'
              then computeStride_loop capacity strides stride sep'
              else computeStride_loop capacity strides bestStride bestSep)"

definition computeStride :: "u64 \<Rightarrow> int" where
  "computeStride capacity = computeStride_loop capacity smallPrimes 1 1"

text \<open>\<open>folly::hardware_destructive_interference_size\<close> and \<open>sizeof(Slot)\<close> are platform
  constants, hence arguments.\<close>

definition kSlotPadding :: "u64 \<Rightarrow> u64 \<Rightarrow> u64" where
  "kSlotPadding interferenceSize slotSize = (interferenceSize - 1) div slotSize + 1"

definition idx :: "u64 \<Rightarrow> u64 \<Rightarrow> u64 \<Rightarrow> int \<Rightarrow> u64" where
  "idx padding ticket cap stride = (ticket * word_of_int stride) mod cap + padding"

definition turn :: "u64 \<Rightarrow> u64 \<Rightarrow> u32" where
  "turn ticket cap = ucast (ticket div cap)"

text \<open>The same three notions on unbounded numbers, as the proofs use them.\<close>

definition slot_of :: "nat \<Rightarrow> nat \<Rightarrow> nat \<Rightarrow> nat" where
  "slot_of cap stride t = (t * stride) mod cap"

definition round_of :: "nat \<Rightarrow> nat \<Rightarrow> nat" where
  "round_of cap t = t div cap"

text \<open>How far apart two consecutive tickets land for a given stride.\<close>

definition separation :: "u64 \<Rightarrow> int \<Rightarrow> u64" where
  "separation capacity stride =
     (let sep = word_of_int stride mod capacity in min sep (capacity - sep))"

section \<open>The stride\<close>

lemma dvd_smallPrimes:
  assumes "int p \<in> set smallPrimes" "d dvd p"
  shows "d = 1 \<or> d = p"
proof -
  have "p \<in> {2, 3, 5, 7, 11, 13, 17, 19, 23}"
    using assms(1) by (auto simp: smallPrimes_def)
  moreover have "\<forall>p \<in> {2, 3, 5, 7, 11, 13, 17, 19, 23 :: nat}. \<forall>d \<in> {0, 1, 2, 3, 4, 5, 6, 7, 8, 9, 10, 11,
       12, 13, 14, 15, 16, 17, 18, 19, 20, 21, 22, 23 :: nat}. d dvd p \<longrightarrow> d = 1 \<or> d = p"
    by simp
  moreover have "d \<le> p" "p \<le> 23"
    using assms calculation(1) by (auto dest: dvd_imp_le)
  then have "d \<in> {0, 1, 2, 3, 4, 5, 6, 7, 8, 9, 10, 11,
       12, 13, 14, 15, 16, 17, 18, 19, 20, 21, 22, 23}"
    by simp presburger
  ultimately show ?thesis
    using assms(2) by blast
qed

lemma smallPrimes_coprime:
  assumes "int p \<in> set smallPrimes" "\<not> p dvd n"
  shows "coprime p n"
proof (rule coprimeI)
  fix d assume "d dvd p" "d dvd n"
  with dvd_smallPrimes[OF assms(1), of d] assms(2) show "d dvd 1"
    by auto
qed

lemma smallPrimes_range: "p \<in> set smallPrimes \<Longrightarrow> 2 \<le> p \<and> p \<le> 23"
  by (auto simp: smallPrimes_def)

lemma unat_word_of_stride:
  assumes "0 \<le> p" "p \<le> 23"
  shows "unat (word_of_int p :: u64) = nat p"
proof -
  have "unat (word_of_nat (nat p) :: u64) = nat p"
    using assms(2) by (intro unat_of_nat_small) simp
  then show ?thesis
    using assms(1) by (simp add: of_nat_nat)
qed

definition good_stride :: "u64 \<Rightarrow> int \<Rightarrow> bool" where
  "good_stride capacity stride \<longleftrightarrow>
     1 \<le> stride \<and> stride \<le> 23 \<and> coprime (nat stride) (unat capacity)"

lemma computeStride_loop_good:
  assumes "set ps \<subseteq> set smallPrimes" "good_stride capacity best"
  shows "good_stride capacity (computeStride_loop capacity ps best sep)"
  using assms
proof (induction capacity ps best sep rule: computeStride_loop.induct)
  case (1 capacity best sep)
  then show ?case by simp
next
  case (2 capacity p ps best sep)
  have p: "2 \<le> p" "p \<le> 23" "int (nat p) \<in> set smallPrimes"
    using "2.prems"(1) smallPrimes_range[of p] by auto
  have "good_stride capacity p" if "capacity mod word_of_int p \<noteq> 0"
  proof -
    have "\<not> nat p dvd unat capacity"
      using that p by (simp add: word_unat_eq_iff unat_mod unat_word_of_stride dvd_eq_mod_eq_0)
    with p show ?thesis
      using smallPrimes_coprime[of "nat p"] by (simp add: good_stride_def)
  qed
  with 2 show ?case
    by (auto simp: Let_def)
qed

lemma computeStride_good: "good_stride capacity (computeStride capacity)"
  unfolding computeStride_def
  by (rule computeStride_loop_good) (auto simp: good_stride_def)

text \<open>A candidate the loop does not skip.\<close>

definition eligible :: "u64 \<Rightarrow> int \<Rightarrow> bool" where
  "eligible capacity stride \<longleftrightarrow>
     word_of_int stride mod capacity \<noteq> 0 \<and> capacity mod word_of_int stride \<noteq> 0"

lemma computeStride_loop_Cons:
  "computeStride_loop capacity (p # ps) best sep =
     (if eligible capacity p \<and> sep < separation capacity p
      then computeStride_loop capacity ps p (separation capacity p)
      else computeStride_loop capacity ps best sep)"
  by (simp add: eligible_def separation_def Let_def)

lemma computeStride_loop_mem: "computeStride_loop capacity ps best sep \<in> insert best (set ps)"
proof (induction ps arbitrary: best sep)
  case (Cons p ps)
  show ?case
    using Cons[of p "separation capacity p"] Cons[of best sep]
    by (simp add: computeStride_loop_Cons del: computeStride_loop.simps) blast
qed simp

lemma computeStride_loop_best:
  "(computeStride_loop capacity ps best sep = best
      \<and> (\<forall>p \<in> set ps. eligible capacity p \<longrightarrow> separation capacity p \<le> sep))
   \<or> (sep < separation capacity (computeStride_loop capacity ps best sep)
      \<and> (\<forall>p \<in> set ps. eligible capacity p \<longrightarrow>
            separation capacity p \<le> separation capacity (computeStride_loop capacity ps best sep)))"
proof (induction ps arbitrary: best sep)
  case Nil
  then show ?case by simp
next
  case (Cons p ps)
  show ?case
  proof (cases "eligible capacity p \<and> sep < separation capacity p")
    case True
    with Cons[of p "separation capacity p"] show ?thesis
      by (fastforce simp: computeStride_loop_Cons simp del: computeStride_loop.simps)
  next
    case False
    with Cons[of best sep] show ?thesis
      by (fastforce simp: computeStride_loop_Cons simp del: computeStride_loop.simps)
  qed
qed

section \<open>Indices\<close>

lemma unat_idx:
  assumes "cap \<noteq> 0" "0 \<le> stride" "stride \<le> 23"
    and "unat t * nat stride < 2 ^ 64" "unat cap + unat padding < 2 ^ 64"
  shows "unat (idx padding t cap stride) = slot_of (unat cap) (nat stride) (unat t) + unat padding"
proof -
  have s: "unat (word_of_int stride :: u64) = nat stride"
    using assms(2,3) by (rule unat_word_of_stride)
  have "unat (t * word_of_int stride) = unat t * nat stride"
    using assms(4) by (simp add: unat_word_ariths s)
  then have m: "unat ((t * word_of_int stride) mod cap) = slot_of (unat cap) (nat stride) (unat t)"
    by (simp add: unat_mod slot_of_def)
  have "slot_of (unat cap) (nat stride) (unat t) < unat cap"
    using assms(1) by (simp add: slot_of_def unat_gt_0)
  with assms(5) have "unat ((t * word_of_int stride) mod cap) + unat padding < 2 ^ 64"
    by (simp only: m)
  then have "unat ((t * word_of_int stride) mod cap + padding)
      = unat ((t * word_of_int stride) mod cap) + unat padding"
    by (intro unat_add_lem [THEN iffD1]) simp
  then show ?thesis
    by (simp only: idx_def m)
qed

lemma unat_turn:
  "turn ticket cap = of_nat (round_of (unat cap) (unat ticket))"
  by (simp add: turn_def round_of_def flip: unat_div)

lemma slot_of_less: "0 < cap \<Longrightarrow> slot_of cap stride t < cap"
  by (simp add: slot_of_def)

lemma slot_of_eq_mod:
  assumes "coprime stride cap" "slot_of cap stride a = slot_of cap stride b"
  shows "a mod cap = b mod cap"
  using assms(2) unfolding slot_of_def by (rule coprime_mult_mod_eq[OF assms(1)])

lemma slot_of_window:
  assumes "coprime stride cap" "slot_of cap stride a = slot_of cap stride b"
    and "a \<le> b" "b < a + cap"
  shows "a = b"
  using mod_eq_window[OF slot_of_eq_mod[OF assms(1,2)] assms(3,4)] .

lemma slot_round_inj:
  assumes "coprime stride cap" "slot_of cap stride a = slot_of cap stride b"
    and "round_of cap a = round_of cap b"
  shows "a = b"
proof -
  have "a = round_of cap a * cap + a mod cap" "b = round_of cap b * cap + b mod cap"
    by (simp_all add: round_of_def)
  with slot_of_eq_mod[OF assms(1,2)] assms(3) show ?thesis
    by metis
qed

lemma slot_of_same_slot:
  assumes "coprime stride cap" "slot_of cap stride a = slot_of cap stride b"
  shows "a = b + (round_of cap a - round_of cap b) * cap \<or> b = a + (round_of cap b - round_of cap a) * cap"
proof -
  let ?qa = "round_of cap a" and ?qb = "round_of cap b"
  have m: "a mod cap = b mod cap"
    using slot_of_eq_mod[OF assms] .
  have a: "a = ?qa * cap + a mod cap" and b: "b = ?qb * cap + b mod cap"
    by (simp_all add: round_of_def)
  show ?thesis
  proof (cases "?qa \<le> ?qb")
    case True
    then have "?qb * cap = ?qa * cap + (?qb - ?qa) * cap"
      by (simp add: diff_mult_distrib)
    with a b m show ?thesis by linarith
  next
    case False
    then have "?qa * cap = ?qb * cap + (?qa - ?qb) * cap"
      by (simp add: diff_mult_distrib)
    with a b m show ?thesis by linarith
  qed
qed

lemma slot_of_add_cap: "slot_of cap stride (t + k * cap) = slot_of cap stride t"
  by (simp add: slot_of_def distrib_right mult.assoc mult.left_commute)

lemma round_of_mono: "t \<le> u \<Longrightarrow> round_of cap t \<le> round_of cap u"
  by (simp add: round_of_def div_le_mono)

lemma round_of_add_cap: "0 < cap \<Longrightarrow> round_of cap (t + k * cap) = round_of cap t + k"
  by (simp add: round_of_def add.commute)

text \<open>Every slot is reached exactly once in every window of \<open>cap\<close> tickets.\<close>

lemma slot_of_inj_window:
  assumes "coprime stride cap"
  shows "inj_on (slot_of cap stride) {b ..< b + cap}"
proof (rule inj_onI)
  fix x y assume xy: "x \<in> {b ..< b + cap}" "y \<in> {b ..< b + cap}"
    and eq: "slot_of cap stride x = slot_of cap stride y"
  show "x = y"
    using slot_of_window[OF assms eq] slot_of_window[OF assms eq[symmetric]] xy
    by (cases "x \<le> y") auto
qed

lemma slot_of_neq:
  assumes "coprime stride cap" "a \<noteq> b" "p \<le> a" "a < p + cap" "p \<le> b" "b < p + cap"
  shows "slot_of cap stride a \<noteq> slot_of cap stride b"
  using inj_onD[OF slot_of_inj_window[OF assms(1), of p], of a b] assms by auto

lemma slot_of_bij_window:
  assumes "coprime stride cap" "0 < cap"
  shows "bij_betw (slot_of cap stride) {b ..< b + cap} {..<cap}"
proof (rule bij_betw_imageI)
  show inj: "inj_on (slot_of cap stride) {b ..< b + cap}"
    by (rule slot_of_inj_window[OF assms(1)])
  show "slot_of cap stride ` {b ..< b + cap} = {..<cap}"
    using slot_of_less[OF assms(2)] inj by (intro card_subset_eq) (auto simp: card_image)
qed

lemma ticket_of_slot_round:
  assumes "coprime stride cap" "j < cap"
  obtains t where "slot_of cap stride t = j" "round_of cap t = r"
proof -
  have "j \<in> slot_of cap stride ` {r * cap ..< r * cap + cap}"
    using slot_of_bij_window[OF assms(1), of "r * cap"] assms(2) by (auto simp: bij_betw_def)
  then obtain t where t: "r * cap \<le> t" "t < r * cap + cap" "slot_of cap stride t = j"
    by auto
  have "t div cap = r"
    using t(1,2) assms(2) by (simp add: div_nat_eqI mult.commute)
  with t that show thesis
    by (auto simp: round_of_def)
qed

text \<open>C13. The stride computed for any capacity is between 1 and 23 and coprime to the capacity, so
  any window of \<open>capacity\<close> consecutive tickets whose product with the stride does not wrap is
  mapped by \<open>idx\<close> one to one onto the unpadded part of the slot array.\<close>

theorem idx_window_bij:
  fixes cap padding :: u64
  assumes "cap \<noteq> 0" "unat cap + unat padding < 2 ^ 64"
    and "(b + unat cap) * nat (computeStride cap) < 2 ^ 64"
  shows "coprime (nat (computeStride cap)) (unat cap) \<and>
         bij_betw (\<lambda>t. unat (idx padding (of_nat t) cap (computeStride cap)))
           {b ..< b + unat cap} {unat padding ..< unat padding + unat cap}"
proof -
  let ?s = "nat (computeStride cap)" and ?n = "unat cap"
  have g: "1 \<le> computeStride cap" "computeStride cap \<le> 23" "coprime ?s ?n"
    using computeStride_good[of cap] by (auto simp: good_stride_def)
  have n: "0 < ?n"
    using assms(1) by (simp add: unat_gt_0)
  have eq: "unat (idx padding (of_nat t) cap (computeStride cap)) = slot_of ?n ?s t + unat padding"
    if "t \<in> {b ..< b + ?n}" for t
  proof -
    have "t * ?s \<le> (b + ?n) * ?s"
      using that by (intro mult_right_mono) auto
    then have small: "t * ?s < 2 ^ 64"
      using assms(3) by (rule le_less_trans)
    have "t \<le> t * ?s"
      using g(1) by (cases "t = 0") auto
    then have "t < 2 ^ 64"
      using small by (rule le_less_trans)
    then have "unat (of_nat t :: u64) = t"
      by (intro unat_of_nat_small) simp
    then show ?thesis
      using unat_idx[of cap "computeStride cap" "of_nat t" padding] small assms(1,2) g by auto
  qed
  have "bij_betw ((\<lambda>j. j + unat padding) \<circ> slot_of ?n ?s) {b ..< b + ?n}
          {unat padding ..< unat padding + ?n}"
  proof (rule bij_betw_trans)
    show "bij_betw (slot_of ?n ?s) {b ..< b + ?n} {..<?n}"
      by (rule slot_of_bij_window[OF g(3) n])
    show "bij_betw (\<lambda>j. j + unat padding) {..<?n} {unat padding ..< unat padding + ?n}"
      by (rule bij_betw_imageI) (auto simp: lessThan_atLeast0 add.commute)
  qed
  then have "bij_betw (\<lambda>t. unat (idx padding (of_nat t) cap (computeStride cap)))
      {b ..< b + ?n} {unat padding ..< unat padding + ?n}"
    by (subst bij_betw_cong[where g = "(\<lambda>j. j + unat padding) \<circ> slot_of ?n ?s"]) (simp_all add: eq)
  with g(3) show ?thesis
    by simp
qed

text \<open>Witness of C13: the ring of five slots with two slots of padding, from ticket 7 on.\<close>

lemma computeStride_5: "computeStride 5 = 2"
  by code_simp

theorem idx_window_bij_witness:
  "coprime (2::nat) 5 \<and> bij_betw (\<lambda>t. unat (idx 2 (of_nat t) 5 2)) {7 ..< 12} {2 ..< 7 :: nat}"
  using idx_window_bij[of 5 2 7] by (simp add: computeStride_5)

text \<open>C14. Among the candidate primes that share no factor with the capacity, \<open>computeStride\<close>
  returns one that spreads consecutive tickets furthest apart (counting a step of \<open>-1\<close> as
  near as a step of \<open>1\<close>), or 1 when no candidate spreads them by more than one slot.\<close>

theorem computeStride_optimal:
  "(computeStride capacity = 1 \<and>
      (\<forall>p \<in> set smallPrimes. eligible capacity p \<longrightarrow> separation capacity p \<le> 1))
   \<or> (computeStride capacity \<in> set smallPrimes \<and> 1 < separation capacity (computeStride capacity) \<and>
      (\<forall>p \<in> set smallPrimes. eligible capacity p \<longrightarrow>
         separation capacity p \<le> separation capacity (computeStride capacity)))"
proof -
  have "computeStride capacity \<in> insert 1 (set smallPrimes)"
    unfolding computeStride_def by (rule computeStride_loop_mem)
  then consider "computeStride capacity = 1" | "computeStride capacity \<in> set smallPrimes"
    by blast
  moreover have "separation capacity 1 \<le> 1"
    by (simp add: separation_def Let_def)
  ultimately show ?thesis
    using computeStride_loop_best[of capacity smallPrimes 1 1]
    by (cases; auto simp: computeStride_def)
qed

theorem computeStride_optimal_witness:
  "computeStride 16 = 7 \<and> eligible 16 5 \<and> separation 16 5 \<le> separation 16 (computeStride 16)"
proof -
  have "computeStride 16 = 7" "eligible 16 5" "(5::int) \<in> set smallPrimes"
    by code_simp+
  then show ?thesis
    using computeStride_optimal[of 16] by auto
qed

end
