(* ===== verification/SingleElementQueue.thy ===== *)
theory SingleElementQueue
  imports Tickets
begin

text \<open>
  \<open>SingleElementQueue\<close> (MPMCQueue.h): one cell of the ring, a piece of raw storage and a
  \<open>folly::detail::TurnSequencer\<close>. The sequencer is third-party code: it is the record
  \<open>turn_ops\<close> of the operations the cell calls, and \<open>turn_contract\<close> states what the cell
  relies on. Enqueue and dequeue are given in the three atomic pieces the code has (wait for the
  turn, construct or move the value, complete the turn), and as their composition.
\<close>

unbundle bit_operations_syntax

section \<open>The turn sequencer the cell is built on\<close>

text \<open>
  A wait that would go on until another thread acts is \<open>Blocks\<close>. The adaptive spin cutoff is
  passed by reference in C++, so the waiting operations return its new value. The timed wait is
  told whether its deadline has passed and says whether it timed out.
\<close>

record 'ts turn_ops =
  newSequencer :: 'ts
  isTurn :: "'ts \<Rightarrow> u32 \<Rightarrow> bool"
  waitForTurn :: "'ts \<Rightarrow> u32 \<Rightarrow> u32 \<Rightarrow> bool \<Rightarrow> ('ts \<times> u32) outcome"
  tryWaitForTurn :: "'ts \<Rightarrow> u32 \<Rightarrow> u32 \<Rightarrow> bool \<Rightarrow> bool \<Rightarrow> (bool \<times> 'ts \<times> u32) outcome"
  completeTurn :: "'ts \<Rightarrow> u32 \<Rightarrow> 'ts"
  uncompletedTurnLSB :: "'ts \<Rightarrow> u8"

text \<open>How many turns lie between the current turn \<open>c\<close> and turn \<open>t\<close>, with wrap-around at
  \<open>2 ^ tb\<close>.\<close>

definition ahead :: "nat \<Rightarrow> u32 \<Rightarrow> u32 \<Rightarrow> nat" where
  "ahead tb c t = nat ((uint t - uint c) mod 2 ^ tb)"

text \<open>
  The contract of the sequencer: \<open>cur\<close> reads its current turn, turn numbers are compared modulo
  \<open>2 ^ tb\<close>, a turn in the upcoming half of that range makes a waiter block (or time out), the
  current turn lets it through, and completing the current turn moves to the next one. Of a wait
  for a turn in the past only the timed kind is assumed to return or go on waiting.
\<close>

definition turn_contract :: "nat \<Rightarrow> 'ts turn_ops \<Rightarrow> ('ts \<Rightarrow> u32) \<Rightarrow> bool" where
  "turn_contract tb ops cur \<longleftrightarrow>
     2 \<le> tb \<and> tb \<le> 32 \<and>
     ahead tb (cur (newSequencer ops)) 0 = 0 \<and>
     (\<forall>s t. isTurn ops s t \<longleftrightarrow> ahead tb (cur s) t = 0) \<and>
     (\<forall>s t c u. ahead tb (cur s) t = 0 \<longrightarrow>
        (\<exists>s' c'. waitForTurn ops s t c u = Done (s', c') \<and> cur s' = cur s)) \<and>
     (\<forall>s t c u. 0 < ahead tb (cur s) t \<longrightarrow> ahead tb (cur s) t < 2 ^ (tb - 1) \<longrightarrow>
        waitForTurn ops s t c u = Blocks) \<and>
     (\<forall>s t c u d. ahead tb (cur s) t = 0 \<longrightarrow>
        (\<exists>s' c'. tryWaitForTurn ops s t c u d = Done (False, s', c') \<and> cur s' = cur s)) \<and>
     (\<forall>s t c u. 0 < ahead tb (cur s) t \<longrightarrow> ahead tb (cur s) t < 2 ^ (tb - 1) \<longrightarrow>
        tryWaitForTurn ops s t c u False = Blocks \<and>
        (\<exists>s' c'. tryWaitForTurn ops s t c u True = Done (True, s', c') \<and> cur s' = cur s)) \<and>
     (\<forall>s t c u d b s' c'. tryWaitForTurn ops s t c u d = Done (b, s', c') \<longrightarrow> cur s' = cur s) \<and>
     (\<forall>s t. ahead tb (cur s) t = 0 \<longrightarrow> ahead tb (cur (completeTurn ops s t)) (t + 1) = 0) \<and>
     (\<forall>s. uncompletedTurnLSB ops s AND 1 = ucast (cur s) AND 1) \<and>
     (\<forall>s t c u d. tryWaitForTurn ops s t c u d \<noteq> Undefined)"

text \<open>A sequencer that counts turns in a 32-bit word satisfies the contract.\<close>

definition counting_ops :: "u32 turn_ops" where
  "counting_ops = \<lparr>newSequencer = 0,
     isTurn = (\<lambda>s t. s = t),
     waitForTurn = (\<lambda>s t c u. if s = t then Done (s, c) else Blocks),
     tryWaitForTurn = (\<lambda>s t c u d. if s = t then Done (False, s, c)
        else if d then Done (True, s, c) else Blocks),
     completeTurn = (\<lambda>s t. s + 1),
     uncompletedTurnLSB = (\<lambda>s. ucast s AND 1)\<rparr>"

section \<open>The cell\<close>

record ('ts, 'a) Slot =
  contents :: "'a option"
  sequencer :: 'ts

definition newSlot :: "'ts turn_ops \<Rightarrow> ('ts, 'a) Slot" where
  "newSlot ops = \<lparr>contents = None, sequencer = newSequencer ops\<rparr>"

definition mayEnqueue :: "'ts turn_ops \<Rightarrow> ('ts, 'a) Slot \<Rightarrow> u32 \<Rightarrow> bool" where
  "mayEnqueue ops s tn = isTurn ops (sequencer s) (tn * 2)"

definition mayDequeue :: "'ts turn_ops \<Rightarrow> ('ts, 'a) Slot \<Rightarrow> u32 \<Rightarrow> bool" where
  "mayDequeue ops s tn = isTurn ops (sequencer s) (tn * 2 + 1)"

definition tryWaitForEnqueueTurnUntil ::
  "'ts turn_ops \<Rightarrow> ('ts, 'a) Slot \<Rightarrow> u32 \<Rightarrow> u32 \<Rightarrow> bool \<Rightarrow> bool \<Rightarrow> (bool \<times> ('ts, 'a) Slot \<times> u32) outcome" where
  "tryWaitForEnqueueTurnUntil ops s tn spinCutoff updateSpinCutoff deadline =
     bind_outcome (tryWaitForTurn ops (sequencer s) (tn * 2) spinCutoff updateSpinCutoff deadline)
       (\<lambda>(timedout, q, c). Done (\<not> timedout, s\<lparr>sequencer := q\<rparr>, c))"

definition tryWaitForDequeueTurnUntil ::
  "'ts turn_ops \<Rightarrow> ('ts, 'a) Slot \<Rightarrow> u32 \<Rightarrow> u32 \<Rightarrow> bool \<Rightarrow> bool \<Rightarrow> (bool \<times> ('ts, 'a) Slot \<times> u32) outcome" where
  "tryWaitForDequeueTurnUntil ops s tn spinCutoff updateSpinCutoff deadline =
     bind_outcome (tryWaitForTurn ops (sequencer s) (tn * 2 + 1) spinCutoff updateSpinCutoff deadline)
       (\<lambda>(timedout, q, c). Done (\<not> timedout, s\<lparr>sequencer := q\<rparr>, c))"

text \<open>The three pieces of \<open>enqueue\<close>. Constructing by placement new over an object that is still
  alive is the bug the turns exclude, so it is \<open>Undefined\<close>.\<close>

definition enqueue_wait ::
  "'ts turn_ops \<Rightarrow> ('ts, 'a) Slot \<Rightarrow> u32 \<Rightarrow> u32 \<Rightarrow> bool \<Rightarrow> (('ts, 'a) Slot \<times> u32) outcome" where
  "enqueue_wait ops s tn spinCutoff updateSpinCutoff =
     bind_outcome (waitForTurn ops (sequencer s) (tn * 2) spinCutoff updateSpinCutoff)
       (\<lambda>(q, c). Done (s\<lparr>sequencer := q\<rparr>, c))"

definition enqueue_construct :: "('ts, 'a) Slot \<Rightarrow> 'a \<Rightarrow> ('ts, 'a) Slot outcome" where
  "enqueue_construct s v = (case contents s of None \<Rightarrow> Done (s\<lparr>contents := Some v\<rparr>) | Some _ \<Rightarrow> Undefined)"

definition enqueue_complete :: "'ts turn_ops \<Rightarrow> ('ts, 'a) Slot \<Rightarrow> u32 \<Rightarrow> ('ts, 'a) Slot" where
  "enqueue_complete ops s tn = s\<lparr>sequencer := completeTurn ops (sequencer s) (tn * 2)\<rparr>"

definition enqueue ::
  "'ts turn_ops \<Rightarrow> ('ts, 'a) Slot \<Rightarrow> u32 \<Rightarrow> u32 \<Rightarrow> bool \<Rightarrow> 'a \<Rightarrow> (('ts, 'a) Slot \<times> u32) outcome" where
  "enqueue ops s tn spinCutoff updateSpinCutoff v =
     bind_outcome (enqueue_wait ops s tn spinCutoff updateSpinCutoff) (\<lambda>(s1, c).
     bind_outcome (enqueue_construct s1 v) (\<lambda>s2.
     Done (enqueue_complete ops s2 tn, c)))"

text \<open>The three pieces of \<open>dequeue\<close>: the value leaves the storage whether it is moved and
  destroyed (\<open>ImplByMove\<close>) or relocated (\<open>ImplByRelocation\<close>).\<close>

definition dequeue_wait ::
  "'ts turn_ops \<Rightarrow> ('ts, 'a) Slot \<Rightarrow> u32 \<Rightarrow> u32 \<Rightarrow> bool \<Rightarrow> (('ts, 'a) Slot \<times> u32) outcome" where
  "dequeue_wait ops s tn spinCutoff updateSpinCutoff =
     bind_outcome (waitForTurn ops (sequencer s) (tn * 2 + 1) spinCutoff updateSpinCutoff)
       (\<lambda>(q, c). Done (s\<lparr>sequencer := q\<rparr>, c))"

definition dequeue_move :: "('ts, 'a) Slot \<Rightarrow> ('a \<times> ('ts, 'a) Slot) outcome" where
  "dequeue_move s = (case contents s of Some v \<Rightarrow> Done (v, s\<lparr>contents := None\<rparr>) | None \<Rightarrow> Undefined)"

definition dequeue_complete :: "'ts turn_ops \<Rightarrow> ('ts, 'a) Slot \<Rightarrow> u32 \<Rightarrow> ('ts, 'a) Slot" where
  "dequeue_complete ops s tn = s\<lparr>sequencer := completeTurn ops (sequencer s) (tn * 2 + 1)\<rparr>"

definition dequeue ::
  "'ts turn_ops \<Rightarrow> ('ts, 'a) Slot \<Rightarrow> u32 \<Rightarrow> u32 \<Rightarrow> bool \<Rightarrow> ('a \<times> ('ts, 'a) Slot \<times> u32) outcome" where
  "dequeue ops s tn spinCutoff updateSpinCutoff =
     bind_outcome (dequeue_wait ops s tn spinCutoff updateSpinCutoff) (\<lambda>(s1, c).
     bind_outcome (dequeue_move s1) (\<lambda>(v, s2).
     Done (v, dequeue_complete ops s2 tn, c)))"

text \<open>The destructor: the object in the storage is destroyed when the uncompleted turn is odd.\<close>

definition destroySlot :: "'ts turn_ops \<Rightarrow> ('ts, 'a) Slot \<Rightarrow> ('ts, 'a) Slot outcome" where
  "destroySlot ops s =
     (if uncompletedTurnLSB ops (sequencer s) AND 1 = 1
      then case contents s of Some _ \<Rightarrow> Done (s\<lparr>contents := None\<rparr>) | None \<Rightarrow> Undefined
      else Done s)"

section \<open>Turn arithmetic\<close>

text \<open>The sequencer of a cell stands for the number \<open>n\<close> of completed turns.\<close>

definition at_turn :: "nat \<Rightarrow> u32 \<Rightarrow> nat \<Rightarrow> bool" where
  "at_turn tb c n \<longleftrightarrow> uint c mod 2 ^ tb = int n mod 2 ^ tb"

lemma uint_of_nat_mod:
  assumes "tb \<le> 32"
  shows "uint (of_nat n :: u32) mod 2 ^ tb = int n mod 2 ^ tb"
proof -
  have "uint (of_nat n :: u32) = int n mod 2 ^ 32"
    by (simp add: unsigned_of_nat take_bit_eq_mod zmod_int)
  moreover have "(2::int) ^ tb dvd 2 ^ 32"
    using assms by (rule le_imp_power_dvd)
  ultimately show ?thesis
    by (metis mod_mod_cancel)
qed

lemma ahead_of_nat:
  assumes "at_turn tb c n" "tb \<le> 32"
  shows "ahead tb c (of_nat m) = nat ((int m - int n) mod 2 ^ tb)"
proof -
  have "(uint (of_nat m :: u32) - uint c) mod 2 ^ tb = (int m - int n) mod 2 ^ tb"
    using assms uint_of_nat_mod[of tb m] unfolding at_turn_def by (rule_tac mod_diff_cong) auto
  then show ?thesis
    by (simp add: ahead_def)
qed

lemma ahead_window:
  assumes "at_turn tb c n" "tb \<le> 32" "n \<le> m" "m - n < 2 ^ tb"
  shows "ahead tb c (of_nat m) = m - n"
proof -
  have "int (m - n) < 2 ^ tb"
    using assms(4) by (metis of_nat_less_iff of_nat_numeral of_nat_power)
  then have "(int m - int n) mod 2 ^ tb = int (m - n)"
    using assms(3) by (simp add: of_nat_diff)
  then show ?thesis
    using ahead_of_nat[OF assms(1,2)] by simp
qed

lemma ahead_self: "at_turn tb c n \<Longrightarrow> tb \<le> 32 \<Longrightarrow> ahead tb c (of_nat n) = 0"
  by (simp add: ahead_of_nat)

lemma at_turnI:
  assumes "ahead tb c (of_nat n) = 0" "tb \<le> 32"
  shows "at_turn tb c n"
proof -
  have "(uint (of_nat n :: u32) - uint c) mod 2 ^ tb = 0"
    using assms(1) by (simp add: ahead_def nat_eq_iff2 order.antisym)
  then have "uint (of_nat n :: u32) mod 2 ^ tb = uint c mod 2 ^ tb"
    by (simp add: mod_eq_dvd_iff mod_0_imp_dvd)
  with uint_of_nat_mod[OF assms(2)] show ?thesis
    by (simp add: at_turn_def)
qed

lemma turn_contractD:
  assumes "turn_contract tb ops cur"
  shows "2 \<le> tb" "tb \<le> 32"
    and "ahead tb (cur (newSequencer ops)) 0 = 0"
    and "isTurn ops s t \<longleftrightarrow> ahead tb (cur s) t = 0"
    and "ahead tb (cur s) t = 0 \<Longrightarrow> \<exists>s' c'. waitForTurn ops s t c u = Done (s', c') \<and> cur s' = cur s"
    and "0 < ahead tb (cur s) t \<Longrightarrow> ahead tb (cur s) t < 2 ^ (tb - 1) \<Longrightarrow> waitForTurn ops s t c u = Blocks"
    and "ahead tb (cur s) t = 0 \<Longrightarrow>
           \<exists>s' c'. tryWaitForTurn ops s t c u d = Done (False, s', c') \<and> cur s' = cur s"
    and "0 < ahead tb (cur s) t \<Longrightarrow> ahead tb (cur s) t < 2 ^ (tb - 1) \<Longrightarrow>
           tryWaitForTurn ops s t c u False = Blocks"
    and "0 < ahead tb (cur s) t \<Longrightarrow> ahead tb (cur s) t < 2 ^ (tb - 1) \<Longrightarrow>
           \<exists>s' c'. tryWaitForTurn ops s t c u True = Done (True, s', c') \<and> cur s' = cur s"
    and "tryWaitForTurn ops s t c u d = Done (b, s', c') \<Longrightarrow> cur s' = cur s"
    and "ahead tb (cur s) t = 0 \<Longrightarrow> ahead tb (cur (completeTurn ops s t)) (t + 1) = 0"
    and "uncompletedTurnLSB ops s AND 1 = ucast (cur s) AND 1"
    and "tryWaitForTurn ops s t c u d \<noteq> Undefined"
  using assms unfolding turn_contract_def by (elim conjE; metis)+

lemma ahead_32: "ahead 32 s t = 0 \<longleftrightarrow> s = t"
proof
  assume "ahead 32 s t = 0"
  then have "(uint t - uint s) mod 2 ^ 32 = 0"
    by (simp add: ahead_def nat_eq_iff2 order.antisym)
  then have "uint t mod 2 ^ 32 = uint s mod 2 ^ 32"
    by (simp add: mod_eq_dvd_iff mod_0_imp_dvd)
  moreover have "uint w mod 2 ^ 32 = uint w" for w :: u32
    using uint_lt2p[of w] by (intro mod_pos_pos_trivial) auto
  ultimately show "s = t"
    by (simp add: word_uint_eq_iff)
qed (simp add: ahead_def)

lemma counting_contract: "turn_contract 32 counting_ops id"
  unfolding turn_contract_def by (auto simp: counting_ops_def ahead_32 ahead_32[THEN iffD2])

section \<open>The cell at a given turn\<close>

text \<open>Below, \<open>g\<close> is the number of turns the cell has completed and \<open>r\<close> the round of a ticket.\<close>

definition slot_turn :: "nat \<Rightarrow> ('ts \<Rightarrow> u32) \<Rightarrow> ('ts, 'a) Slot \<Rightarrow> nat \<Rightarrow> bool" where
  "slot_turn tb cur s g \<longleftrightarrow> at_turn tb (cur (sequencer s)) g"

lemma turn_even: "(of_nat r :: u32) * 2 = of_nat (2 * r)"
  by simp

lemma turn_odd: "(of_nat r :: u32) * 2 + 1 = of_nat (2 * r + 1)"
  by simp

lemma ahead_zero_window:
  assumes "at_turn tb c n" "tb \<le> 32" "n \<le> m" "m - n < 2 ^ tb"
  shows "ahead tb c (of_nat m) = 0 \<longleftrightarrow> n = m"
  using ahead_window[OF assms] assms(3) by auto

lemma mayEnqueue_iff:
  assumes "turn_contract tb ops cur" "slot_turn tb cur s g" "g \<le> 2 * r" "2 * r - g < 2 ^ tb"
  shows "mayEnqueue ops s (of_nat r) \<longleftrightarrow> g = 2 * r"
  unfolding mayEnqueue_def turn_even turn_contractD(4)[OF assms(1)]
  using ahead_zero_window[OF assms(2)[unfolded slot_turn_def] turn_contractD(2)[OF assms(1)] assms(3,4)] .

lemma mayDequeue_iff:
  assumes "turn_contract tb ops cur" "slot_turn tb cur s g" "g \<le> 2 * r + 1" "2 * r + 1 - g < 2 ^ tb"
  shows "mayDequeue ops s (of_nat r) \<longleftrightarrow> g = 2 * r + 1"
  unfolding mayDequeue_def turn_odd turn_contractD(4)[OF assms(1)]
  using ahead_zero_window[OF assms(2)[unfolded slot_turn_def] turn_contractD(2)[OF assms(1)] assms(3,4)] .

lemma may_now:
  assumes "turn_contract tb ops cur"
  shows "slot_turn tb cur s (2 * r) \<Longrightarrow> mayEnqueue ops s (of_nat r)"
    and "slot_turn tb cur s (2 * r + 1) \<Longrightarrow> mayDequeue ops s (of_nat r)"
  using mayEnqueue_iff[OF assms, of s "2 * r" r] mayDequeue_iff[OF assms, of s "2 * r + 1" r] by auto

lemma waitForTurn_now:
  assumes "turn_contract tb ops cur" "at_turn tb (cur s) g"
  obtains s' c' where "waitForTurn ops s (of_nat g) c u = Done (s', c')" "cur s' = cur s"
  using turn_contractD(5)[OF assms(1) ahead_self[OF assms(2) turn_contractD(2)[OF assms(1)]]] by blast

lemma half_window:
  assumes "turn_contract tb ops cur" "at_turn tb (cur s) g" "g < m" "m - g < 2 ^ (tb - 1)"
  shows "0 < ahead tb (cur s) (of_nat m)" "ahead tb (cur s) (of_nat m) < 2 ^ (tb - 1)"
proof -
  have "(2::nat) ^ (tb - 1) \<le> 2 ^ tb"
    by (rule power_increasing) auto
  then have "ahead tb (cur s) (of_nat m) = m - g"
    using assms(3,4) by (intro ahead_window[OF assms(2) turn_contractD(2)[OF assms(1)]]) linarith+
  with assms(3,4) show "0 < ahead tb (cur s) (of_nat m)" "ahead tb (cur s) (of_nat m) < 2 ^ (tb - 1)"
    by simp_all
qed

lemma enqueue_wait_now:
  assumes "turn_contract tb ops cur" "slot_turn tb cur s (2 * r)"
  shows "\<exists>q c'. enqueue_wait ops s (of_nat r) c u = Done (s\<lparr>sequencer := q\<rparr>, c') \<and>
           slot_turn tb cur (s\<lparr>sequencer := q\<rparr>) (2 * r)"
proof -
  obtain q c' where "waitForTurn ops (sequencer s) (of_nat (2 * r)) c u = Done (q, c')" "cur q = cur (sequencer s)"
    using waitForTurn_now[OF assms(1) assms(2)[unfolded slot_turn_def]] .
  then have "enqueue_wait ops s (of_nat r) c u = Done (s\<lparr>sequencer := q\<rparr>, c')"
    unfolding enqueue_wait_def turn_even by simp
  moreover have "slot_turn tb cur (s\<lparr>sequencer := q\<rparr>) (2 * r)"
    using \<open>cur q = _\<close> assms(2) by (simp add: slot_turn_def)
  ultimately show ?thesis
    by blast
qed

lemma dequeue_wait_now:
  assumes "turn_contract tb ops cur" "slot_turn tb cur s (2 * r + 1)"
  shows "\<exists>q c'. dequeue_wait ops s (of_nat r) c u = Done (s\<lparr>sequencer := q\<rparr>, c') \<and>
           slot_turn tb cur (s\<lparr>sequencer := q\<rparr>) (2 * r + 1)"
proof -
  obtain q c' where "waitForTurn ops (sequencer s) (of_nat (2 * r + 1)) c u = Done (q, c')" "cur q = cur (sequencer s)"
    using waitForTurn_now[OF assms(1) assms(2)[unfolded slot_turn_def]] .
  then have "dequeue_wait ops s (of_nat r) c u = Done (s\<lparr>sequencer := q\<rparr>, c')"
    unfolding dequeue_wait_def turn_odd by simp
  moreover have "slot_turn tb cur (s\<lparr>sequencer := q\<rparr>) (2 * r + 1)"
    using \<open>cur q = _\<close> assms(2) by (simp add: slot_turn_def)
  ultimately show ?thesis
    by blast
qed

lemma enqueue_wait_blocks:
  assumes "turn_contract tb ops cur" "slot_turn tb cur s g" "g < 2 * r" "2 * r - g < 2 ^ (tb - 1)"
  shows "enqueue_wait ops s (of_nat r) c u = Blocks"
  using turn_contractD(6)[OF assms(1) half_window[OF assms(1) assms(2)[unfolded slot_turn_def] assms(3,4)]]
  unfolding enqueue_wait_def turn_even by simp

lemma dequeue_wait_blocks:
  assumes "turn_contract tb ops cur" "slot_turn tb cur s g" "g < 2 * r + 1" "2 * r + 1 - g < 2 ^ (tb - 1)"
  shows "dequeue_wait ops s (of_nat r) c u = Blocks"
  using turn_contractD(6)[OF assms(1) half_window[OF assms(1) assms(2)[unfolded slot_turn_def] assms(3,4)]]
  unfolding dequeue_wait_def turn_odd by (simp only: bind_outcome.simps)

lemma at_turn_complete:
  assumes "turn_contract tb ops cur" "at_turn tb (cur s) g"
  shows "at_turn tb (cur (completeTurn ops s (of_nat g))) (g + 1)"
proof (rule at_turnI[OF _ turn_contractD(2)[OF assms(1)]])
  have "ahead tb (cur (completeTurn ops s (of_nat g))) (of_nat g + 1) = 0"
    by (intro turn_contractD(11)[OF assms(1)] ahead_self[OF assms(2)] turn_contractD(2)[OF assms(1)])
  then show "ahead tb (cur (completeTurn ops s (of_nat g))) (of_nat (g + 1)) = 0"
    by (simp add: add.commute)
qed

lemma enqueue_complete_turn:
  assumes "turn_contract tb ops cur" "slot_turn tb cur s (2 * r)"
  shows "slot_turn tb cur (enqueue_complete ops s (of_nat r)) (2 * r + 1)"
    "contents (enqueue_complete ops s (of_nat r)) = contents s"
  using at_turn_complete[OF assms(1) assms(2)[unfolded slot_turn_def]]
  unfolding enqueue_complete_def turn_even by (simp_all add: slot_turn_def)

lemma dequeue_complete_turn:
  assumes "turn_contract tb ops cur" "slot_turn tb cur s (2 * r + 1)"
  shows "slot_turn tb cur (dequeue_complete ops s (of_nat r)) (2 * r + 2)"
    "contents (dequeue_complete ops s (of_nat r)) = contents s"
proof -
  have "at_turn tb (cur (completeTurn ops (sequencer s) (of_nat (2 * r + 1)))) (2 * r + 1 + 1)"
    by (rule at_turn_complete[OF assms(1) assms(2)[unfolded slot_turn_def]])
  moreover have "sequencer (dequeue_complete ops s (of_nat r)) = completeTurn ops (sequencer s) (of_nat (2 * r + 1))"
    unfolding dequeue_complete_def turn_odd by simp
  ultimately show "slot_turn tb cur (dequeue_complete ops s (of_nat r)) (2 * r + 2)"
    unfolding slot_turn_def by (simp only: add.assoc one_add_one)
qed (simp add: dequeue_complete_def)

lemma newSlot_turn:
  assumes "turn_contract tb ops cur"
  shows "slot_turn tb cur (newSlot ops) 0" "contents (newSlot ops) = None"
  using at_turnI[of tb "cur (newSequencer ops)" 0] turn_contractD(2,3)[OF assms]
  by (simp_all add: newSlot_def slot_turn_def)

end
