(* ===== verification/SlotDispatch.thy ===== *)
theory SlotDispatch
  imports SingleElementQueue
begin

text \<open>
  How \<open>SingleElementQueue\<close> moves values (MPMCQueue.h, from \<open>enqueue\<close> to \<open>dequeueImpl\<close>): by the move constructor and
  move assignment of the element type, or by relocation, a byte copy that ends the life of the source. Which one is used
  depends on the type at compile time. The theories on \<open>MPMCQueue\<close> use the operations \<open>enqueue\<close> and \<open>dequeue\<close> of
  \<open>SingleElementQueue\<close>; here it is shown that every variant is one of them, and what becomes of the argument.
\<close>

section \<open>Objects and their lifetimes\<close>

text \<open>Storage for one \<open>T\<close> is \<open>Some v\<close> while an object of value \<open>v\<close> lives in it. Of the type the code asks which
  constructors do not throw and whether it may be relocated; it uses the value a moved-from object is left with and the
  default value.\<close>

record 'a elem_type =
  nothrowMove :: bool       \<comment> \<open>\<open>is_nothrow_constructible<T, T &&>\<close>\<close>
  relocatable :: bool       \<comment> \<open>\<open>folly::IsRelocatable<T>\<close>\<close>
  movedFrom :: "'a \<Rightarrow> 'a"
  defaultValue :: 'a

text \<open>Placement new needs raw storage; moving, destroying and copying need a live object.\<close>

definition construct_at :: "'a option \<Rightarrow> 'a \<Rightarrow> 'a option outcome" where
  "construct_at obj v = (case obj of None \<Rightarrow> Done (Some v) | Some _ \<Rightarrow> Undefined)"

definition destroy_at :: "'a option \<Rightarrow> 'a option outcome" where
  "destroy_at obj = (case obj of Some _ \<Rightarrow> Done None | None \<Rightarrow> Undefined)"

definition move_construct :: "'a elem_type \<Rightarrow> 'a option \<Rightarrow> 'a option \<Rightarrow> ('a option \<times> 'a option) outcome" where
  "move_construct T dst src = (case src of
       None \<Rightarrow> Undefined
     | Some v \<Rightarrow> bind_outcome (construct_at dst v) (\<lambda>d. Done (d, Some (movedFrom T v))))"

definition move_assign :: "'a elem_type \<Rightarrow> 'a option \<Rightarrow> 'a option \<Rightarrow> ('a option \<times> 'a option) outcome" where
  "move_assign T dst src = (case (dst, src) of
       (Some _, Some v) \<Rightarrow> Done (Some v, Some (movedFrom T v))
     | _ \<Rightarrow> Undefined)"

text \<open>\<open>memcpy\<close> of a relocatable object: the copy is the object and the source is raw storage.\<close>

definition relocate :: "'a option \<Rightarrow> 'a option \<Rightarrow> ('a option \<times> 'a option) outcome" where
  "relocate dst src = (case src of
       None \<Rightarrow> Undefined
     | Some v \<Rightarrow> bind_outcome (construct_at dst v) (\<lambda>d. Done (d, None)))"

lemmas object_defs = construct_at_def destroy_at_def move_construct_def move_assign_def relocate_def

section \<open>The variants\<close>

text \<open>They return the cell, the spin cutoff and the argument.\<close>

definition enqueueImpl_move :: "'a elem_type \<Rightarrow> 'ts turn_ops \<Rightarrow> ('ts, 'a) Slot \<Rightarrow> u32 \<Rightarrow> u32 \<Rightarrow> bool \<Rightarrow> 'a option \<Rightarrow>
    (('ts, 'a) Slot \<times> u32 \<times> 'a option) outcome" where
  "enqueueImpl_move T ops s tn spinCutoff updateSpinCutoff goner =
     bind_outcome (waitForTurn ops (sequencer s) (tn * 2) spinCutoff updateSpinCutoff) (\<lambda>(q, c).
     bind_outcome (move_construct T (contents s) goner) (\<lambda>(obj, goner).
     Done (\<lparr>contents = obj, sequencer = completeTurn ops q (tn * 2)\<rparr>, c, goner)))"

definition enqueueImpl_relocation :: "'a elem_type \<Rightarrow> 'ts turn_ops \<Rightarrow> ('ts, 'a) Slot \<Rightarrow> u32 \<Rightarrow> u32 \<Rightarrow> bool \<Rightarrow> 'a option \<Rightarrow>
    (('ts, 'a) Slot \<times> u32 \<times> 'a option) outcome" where
  "enqueueImpl_relocation T ops s tn spinCutoff updateSpinCutoff goner =
     bind_outcome (waitForTurn ops (sequencer s) (tn * 2) spinCutoff updateSpinCutoff) (\<lambda>(q, c).
     bind_outcome (relocate (contents s) goner) (\<lambda>(obj, goner).
     bind_outcome (construct_at goner (defaultValue T)) (\<lambda>goner.
     Done (\<lparr>contents = obj, sequencer = completeTurn ops q (tn * 2)\<rparr>, c, goner))))"

definition dequeueImpl_relocation :: "'ts turn_ops \<Rightarrow> ('ts, 'a) Slot \<Rightarrow> u32 \<Rightarrow> u32 \<Rightarrow> bool \<Rightarrow> 'a option \<Rightarrow>
    (('ts, 'a) Slot \<times> u32 \<times> 'a option) outcome" where
  "dequeueImpl_relocation ops s tn spinCutoff updateSpinCutoff elem =
     bind_outcome (destroy_at elem) (\<lambda>elem.
     bind_outcome (waitForTurn ops (sequencer s) (tn * 2 + 1) spinCutoff updateSpinCutoff) (\<lambda>(q, c).
     bind_outcome (relocate elem (contents s)) (\<lambda>(elem, obj).
     Done (\<lparr>contents = obj, sequencer = completeTurn ops q (tn * 2 + 1)\<rparr>, c, elem))))"

definition dequeueImpl_move :: "'a elem_type \<Rightarrow> 'ts turn_ops \<Rightarrow> ('ts, 'a) Slot \<Rightarrow> u32 \<Rightarrow> u32 \<Rightarrow> bool \<Rightarrow> 'a option \<Rightarrow>
    (('ts, 'a) Slot \<times> u32 \<times> 'a option) outcome" where
  "dequeueImpl_move T ops s tn spinCutoff updateSpinCutoff elem =
     bind_outcome (waitForTurn ops (sequencer s) (tn * 2 + 1) spinCutoff updateSpinCutoff) (\<lambda>(q, c).
     bind_outcome (move_assign T elem (contents s)) (\<lambda>(elem, obj).
     bind_outcome (destroy_at obj) (\<lambda>obj.
     Done (\<lparr>contents = obj, sequencer = completeTurn ops q (tn * 2 + 1)\<rparr>, c, elem))))"

text \<open>The overloads of \<open>enqueue\<close>: construction from the arguments in place, here of value \<open>v\<close>, and from an object.\<close>

definition enqueue_args :: "'ts turn_ops \<Rightarrow> ('ts, 'a) Slot \<Rightarrow> u32 \<Rightarrow> u32 \<Rightarrow> bool \<Rightarrow> 'a \<Rightarrow> (('ts, 'a) Slot \<times> u32) outcome" where
  "enqueue_args ops s tn spinCutoff updateSpinCutoff v =
     bind_outcome (waitForTurn ops (sequencer s) (tn * 2) spinCutoff updateSpinCutoff) (\<lambda>(q, c).
     bind_outcome (construct_at (contents s) v) (\<lambda>obj.
     Done (\<lparr>contents = obj, sequencer = completeTurn ops q (tn * 2)\<rparr>, c)))"

definition enqueue_goner :: "'a elem_type \<Rightarrow> 'ts turn_ops \<Rightarrow> ('ts, 'a) Slot \<Rightarrow> u32 \<Rightarrow> u32 \<Rightarrow> bool \<Rightarrow> 'a option \<Rightarrow>
    (('ts, 'a) Slot \<times> u32 \<times> 'a option) outcome" where
  "enqueue_goner T ops s tn spinCutoff updateSpinCutoff goner =
     (if nothrowMove T then enqueueImpl_move T ops s tn spinCutoff updateSpinCutoff goner
      else enqueueImpl_relocation T ops s tn spinCutoff updateSpinCutoff goner)"

definition dequeue_elem :: "'a elem_type \<Rightarrow> 'ts turn_ops \<Rightarrow> ('ts, 'a) Slot \<Rightarrow> u32 \<Rightarrow> u32 \<Rightarrow> bool \<Rightarrow> 'a option \<Rightarrow>
    (('ts, 'a) Slot \<times> u32 \<times> 'a option) outcome" where
  "dequeue_elem T ops s tn spinCutoff updateSpinCutoff elem =
     (if relocatable T then dequeueImpl_relocation ops s tn spinCutoff updateSpinCutoff elem
      else dequeueImpl_move T ops s tn spinCutoff updateSpinCutoff elem)"

section \<open>The variants are equivalent\<close>

text \<open>C11. Cn. Whatever the element type, every way of writing acts on the cell as \<open>enqueue\<close> of the value, and every way of
  reading as \<open>dequeue\<close>: same waiting, same undefined cases, same cell and spin cutoff. A written argument stays a live
  object, and the element read into is live again with the value that was read.\<close>

theorem dispatch_equivalent:
  "enqueue_args ops s tn spinCutoff updateSpinCutoff v = enqueue ops s tn spinCutoff updateSpinCutoff v \<and>
   enqueue_goner T ops s tn spinCutoff updateSpinCutoff (Some v) =
     bind_outcome (enqueue ops s tn spinCutoff updateSpinCutoff v) (\<lambda>(s', c).
       Done (s', c, Some (if nothrowMove T then movedFrom T v else defaultValue T))) \<and>
   dequeue_elem T ops s tn spinCutoff updateSpinCutoff (Some old) =
     bind_outcome (dequeue ops s tn spinCutoff updateSpinCutoff) (\<lambda>(w, s', c). Done (s', c, Some w))"
proof -
  note unfolds = enqueue_def enqueue_wait_def enqueue_construct_def enqueue_complete_def
    dequeue_def dequeue_wait_def dequeue_move_def dequeue_complete_def object_defs
  have "enqueue_args ops s tn spinCutoff updateSpinCutoff v = enqueue ops s tn spinCutoff updateSpinCutoff v"
    by (cases "waitForTurn ops (sequencer s) (tn * 2) spinCutoff updateSpinCutoff"; cases "contents s")
      (auto simp: unfolds enqueue_args_def)
  moreover have "enqueue_goner T ops s tn spinCutoff updateSpinCutoff (Some v) =
     bind_outcome (enqueue ops s tn spinCutoff updateSpinCutoff v) (\<lambda>(s', c).
       Done (s', c, Some (if nothrowMove T then movedFrom T v else defaultValue T)))"
    by (cases "waitForTurn ops (sequencer s) (tn * 2) spinCutoff updateSpinCutoff"; cases "contents s")
      (auto simp: unfolds enqueue_goner_def enqueueImpl_move_def enqueueImpl_relocation_def)
  moreover have "dequeue_elem T ops s tn spinCutoff updateSpinCutoff (Some old) =
     bind_outcome (dequeue ops s tn spinCutoff updateSpinCutoff) (\<lambda>(w, s', c). Done (s', c, Some w))"
    by (cases "waitForTurn ops (sequencer s) (tn * 2 + 1) spinCutoff updateSpinCutoff"; cases "contents s")
      (auto simp: unfolds dequeue_elem_def dequeueImpl_move_def dequeueImpl_relocation_def)
  ultimately show ?thesis
    by blast
qed

end
