(* ===== verification/MPMCQueue.thy ===== *)
theory MPMCQueue
  imports SingleElementQueue
begin

text \<open>
  The fixed-capacity \<open>MPMCQueue\<close> (MPMCQueue.h): constructor, ticket acquisition, enqueue and
  dequeue with a ticket, and the public operations composed of them. Every operation is a program
  of atomic steps: one step per access to \<open>pushTicket_\<close>, \<open>popTicket_\<close> or a cell, the
  program counters between them being the values of \<open>pc\<close>. \<open>step\<close> runs one of them;
  \<open>run\<close> iterates it for a thread alone.
\<close>

section \<open>State\<close>

record ('ts, 'a) MPMCQueue =
  capacity :: u64
  slots :: "('ts, 'a) Slot list"
  stride :: int
  pushTicket :: u64
  popTicket :: u64
  pushSpinCutoff :: u32
  popSpinCutoff :: u32

text \<open>What the queue gets from outside: the turn sequencer and the padding of the slot array,
  which depends on the platform and on the element type.\<close>

record 'ts mpmc_env =
  seqOps :: "'ts turn_ops"
  slotPadding :: u64

datatype queue_error = InvalidArgument

definition newMPMCQueue :: "'ts mpmc_env \<Rightarrow> u64 \<Rightarrow> queue_error + ('ts, 'a) MPMCQueue" where
  "newMPMCQueue E queueCapacity =
     (if queueCapacity = 0 then Inl InvalidArgument
      else Inr \<lparr>capacity = queueCapacity,
                slots = replicate (unat (queueCapacity + 2 * slotPadding E)) (newSlot (seqOps E)),
                stride = computeStride queueCapacity,
                pushTicket = 0, popTicket = 0, pushSpinCutoff = 0, popSpinCutoff = 0\<rparr>)"

definition emptyMPMCQueue :: "('ts, 'a) MPMCQueue" where
  "emptyMPMCQueue = \<lparr>capacity = 0, slots = [], stride = 0, pushTicket = 0, popTicket = 0,
     pushSpinCutoff = 0, popSpinCutoff = 0\<rparr>"

text \<open>The move constructor returns the new queue and what is left of the source.\<close>

definition moveMPMCQueue :: "('ts, 'a) MPMCQueue \<Rightarrow> ('ts, 'a) MPMCQueue \<times> ('ts, 'a) MPMCQueue" where
  "moveMPMCQueue rhs =
     (\<lparr>capacity = capacity rhs, slots = slots rhs, stride = stride rhs,
       pushTicket = pushTicket rhs, popTicket = popTicket rhs,
       pushSpinCutoff = pushSpinCutoff rhs, popSpinCutoff = popSpinCutoff rhs\<rparr>,
      rhs\<lparr>capacity := 0, slots := [], stride := 0, pushTicket := 0, popTicket := 0,
          pushSpinCutoff := 0, popSpinCutoff := 0\<rparr>)"

definition kAdaptationFreq :: u64 where
  "kAdaptationFreq = 128"

text \<open>Access to \<open>slots[idx(ticket, cap, stride)]\<close>, undefined behaviour out of range.\<close>

definition slotIdx :: "'ts mpmc_env \<Rightarrow> ('ts, 'a) MPMCQueue \<Rightarrow> u64 \<Rightarrow> nat" where
  "slotIdx E q ticket = unat (idx (slotPadding E) ticket (capacity q) (stride q))"

definition with_slot :: "'ts mpmc_env \<Rightarrow> ('ts, 'a) MPMCQueue \<Rightarrow> u64 \<Rightarrow> (('ts, 'a) Slot \<Rightarrow> 'r outcome) \<Rightarrow> 'r outcome" where
  "with_slot E q ticket f =
     (if slotIdx E q ticket < length (slots q) then f (slots q ! slotIdx E q ticket) else Undefined)"

abbreviation set_slot :: "'ts mpmc_env \<Rightarrow> ('ts, 'a) MPMCQueue \<Rightarrow> u64 \<Rightarrow> ('ts, 'a) Slot \<Rightarrow> ('ts, 'a) MPMCQueue" where
  "set_slot E q ticket s \<equiv> q\<lparr>slots := (slots q)[slotIdx E q ticket := s]\<rparr>"

section \<open>Obtaining tickets\<close>

text \<open>Program counters of the two loops: the points between two accesses to shared memory.\<close>

datatype ready_pc =
    ReadyLoad           \<comment> \<open>about to load the own ticket counter\<close>
  | ReadyCheck u64      \<comment> \<open>about to ask the cell whether the ticket would block\<close>
  | ReadyReload u64     \<comment> \<open>the cell said it would: about to reload the counter\<close>
  | ReadyCas u64        \<comment> \<open>the cell said it would not: about to compare and exchange\<close>
  | ReadyTicket u64     \<comment> \<open>returned true with this ticket\<close>
  | ReadyFail           \<comment> \<open>returned false\<close>

datatype promised_pc =
    PromLoad
  | PromOther u64       \<comment> \<open>about to load the other side's counter\<close>
  | PromCas u64
  | PromTicket u64
  | PromFail u64        \<comment> \<open>returned false; the ticket is filled on failure too\<close>

fun tryObtainReadyPushTicket ::
  "'ts mpmc_env \<Rightarrow> ('ts, 'a) MPMCQueue \<Rightarrow> ready_pc \<Rightarrow> (('ts, 'a) MPMCQueue \<times> ready_pc) outcome" where
  "tryObtainReadyPushTicket E q ReadyLoad = Done (q, ReadyCheck (pushTicket q))"
| "tryObtainReadyPushTicket E q (ReadyCheck ticket) =
     with_slot E q ticket (\<lambda>s.
       if \<not> mayEnqueue (seqOps E) s (turn ticket (capacity q))
       then Done (q, ReadyReload ticket) else Done (q, ReadyCas ticket))"
| "tryObtainReadyPushTicket E q (ReadyReload prev) =
     (let ticket = pushTicket q in
      if prev = ticket then Done (q, ReadyFail) else Done (q, ReadyCheck ticket))"
| "tryObtainReadyPushTicket E q (ReadyCas ticket) =
     (if pushTicket q = ticket then Done (q\<lparr>pushTicket := ticket + 1\<rparr>, ReadyTicket ticket)
      else Done (q, ReadyCheck (pushTicket q)))"
| "tryObtainReadyPushTicket E q (ReadyTicket ticket) = Done (q, ReadyTicket ticket)"
| "tryObtainReadyPushTicket E q ReadyFail = Done (q, ReadyFail)"

fun tryObtainReadyPopTicket ::
  "'ts mpmc_env \<Rightarrow> ('ts, 'a) MPMCQueue \<Rightarrow> ready_pc \<Rightarrow> (('ts, 'a) MPMCQueue \<times> ready_pc) outcome" where
  "tryObtainReadyPopTicket E q ReadyLoad = Done (q, ReadyCheck (popTicket q))"
| "tryObtainReadyPopTicket E q (ReadyCheck ticket) =
     with_slot E q ticket (\<lambda>s.
       if \<not> mayDequeue (seqOps E) s (turn ticket (capacity q))
       then Done (q, ReadyReload ticket) else Done (q, ReadyCas ticket))"
| "tryObtainReadyPopTicket E q (ReadyReload prev) =
     (let ticket = popTicket q in
      if prev = ticket then Done (q, ReadyFail) else Done (q, ReadyCheck ticket))"
| "tryObtainReadyPopTicket E q (ReadyCas ticket) =
     (if popTicket q = ticket then Done (q\<lparr>popTicket := ticket + 1\<rparr>, ReadyTicket ticket)
      else Done (q, ReadyCheck (popTicket q)))"
| "tryObtainReadyPopTicket E q (ReadyTicket ticket) = Done (q, ReadyTicket ticket)"
| "tryObtainReadyPopTicket E q ReadyFail = Done (q, ReadyFail)"

fun tryObtainPromisedPushTicket ::
  "('ts, 'a) MPMCQueue \<Rightarrow> promised_pc \<Rightarrow> ('ts, 'a) MPMCQueue \<times> promised_pc" where
  "tryObtainPromisedPushTicket q PromLoad = (q, PromOther (pushTicket q))"
| "tryObtainPromisedPushTicket q (PromOther numPushes) =
     (let numPops = popTicket q; n = sint (numPushes - numPops)
      in if n \<ge> sint (capacity q) then (q, PromFail numPushes) else (q, PromCas numPushes))"
| "tryObtainPromisedPushTicket q (PromCas numPushes) =
     (if pushTicket q = numPushes then (q\<lparr>pushTicket := numPushes + 1\<rparr>, PromTicket numPushes)
      else (q, PromOther (pushTicket q)))"
| "tryObtainPromisedPushTicket q (PromTicket ticket) = (q, PromTicket ticket)"
| "tryObtainPromisedPushTicket q (PromFail ticket) = (q, PromFail ticket)"

fun tryObtainPromisedPopTicket ::
  "('ts, 'a) MPMCQueue \<Rightarrow> promised_pc \<Rightarrow> ('ts, 'a) MPMCQueue \<times> promised_pc" where
  "tryObtainPromisedPopTicket q PromLoad = (q, PromOther (popTicket q))"
| "tryObtainPromisedPopTicket q (PromOther numPops) =
     (let numPushes = pushTicket q
      in if numPops \<ge> numPushes then (q, PromFail numPops) else (q, PromCas numPops))"
| "tryObtainPromisedPopTicket q (PromCas numPops) =
     (if popTicket q = numPops then (q\<lparr>popTicket := numPops + 1\<rparr>, PromTicket numPops)
      else (q, PromOther (popTicket q)))"
| "tryObtainPromisedPopTicket q (PromTicket ticket) = (q, PromTicket ticket)"
| "tryObtainPromisedPopTicket q (PromFail ticket) = (q, PromFail ticket)"

text \<open>The waits of the timed operations. The pop side passes \<open>pushSpinCutoff_\<close>, as the code
  does.\<close>

definition waitForPushTurnUntil ::
  "'ts mpmc_env \<Rightarrow> bool \<Rightarrow> ('ts, 'a) MPMCQueue \<Rightarrow> u64 \<Rightarrow> (bool \<times> ('ts, 'a) MPMCQueue) outcome" where
  "waitForPushTurnUntil E deadline q ticket =
     with_slot E q ticket (\<lambda>s.
       bind_outcome (tryWaitForEnqueueTurnUntil (seqOps E) s (turn ticket (capacity q))
           (pushSpinCutoff q) (ticket mod kAdaptationFreq = 0) deadline)
         (\<lambda>(ok, s', c). Done (ok, (set_slot E q ticket s')\<lparr>pushSpinCutoff := c\<rparr>)))"

definition waitForPopTurnUntil ::
  "'ts mpmc_env \<Rightarrow> bool \<Rightarrow> ('ts, 'a) MPMCQueue \<Rightarrow> u64 \<Rightarrow> (bool \<times> ('ts, 'a) MPMCQueue) outcome" where
  "waitForPopTurnUntil E deadline q ticket =
     with_slot E q ticket (\<lambda>s.
       bind_outcome (tryWaitForDequeueTurnUntil (seqOps E) s (turn ticket (capacity q))
           (pushSpinCutoff q) (ticket mod kAdaptationFreq = 0) deadline)
         (\<lambda>(ok, s', c). Done (ok, (set_slot E q ticket s')\<lparr>pushSpinCutoff := c\<rparr>)))"

section \<open>Enqueue and dequeue with a ticket\<close>

datatype enq_pc = EnqWaitTurn | EnqConstruct | EnqCompleteTurn | EnqReturn

datatype 'a deq_pc = DeqWaitTurn | DeqMove | DeqCompleteTurn 'a | DeqReturn 'a

fun enqueueWithTicketBase ::
  "'ts mpmc_env \<Rightarrow> ('ts, 'a) MPMCQueue \<Rightarrow> u64 \<Rightarrow> 'a \<Rightarrow> enq_pc \<Rightarrow> (('ts, 'a) MPMCQueue \<times> enq_pc) outcome" where
  "enqueueWithTicketBase E q ticket v EnqWaitTurn =
     with_slot E q ticket (\<lambda>s.
       bind_outcome (enqueue_wait (seqOps E) s (turn ticket (capacity q)) (pushSpinCutoff q)
           (ticket mod kAdaptationFreq = 0))
         (\<lambda>(s', c). Done ((set_slot E q ticket s')\<lparr>pushSpinCutoff := c\<rparr>, EnqConstruct)))"
| "enqueueWithTicketBase E q ticket v EnqConstruct =
     with_slot E q ticket (\<lambda>s.
       bind_outcome (enqueue_construct s v) (\<lambda>s'. Done (set_slot E q ticket s', EnqCompleteTurn)))"
| "enqueueWithTicketBase E q ticket v EnqCompleteTurn =
     with_slot E q ticket (\<lambda>s.
       Done (set_slot E q ticket (enqueue_complete (seqOps E) s (turn ticket (capacity q))), EnqReturn))"
| "enqueueWithTicketBase E q ticket v EnqReturn = Done (q, EnqReturn)"

fun dequeueWithTicketBase ::
  "'ts mpmc_env \<Rightarrow> ('ts, 'a) MPMCQueue \<Rightarrow> u64 \<Rightarrow> 'a deq_pc \<Rightarrow> (('ts, 'a) MPMCQueue \<times> 'a deq_pc) outcome" where
  "dequeueWithTicketBase E q ticket DeqWaitTurn =
     with_slot E q ticket (\<lambda>s.
       bind_outcome (dequeue_wait (seqOps E) s (turn ticket (capacity q)) (popSpinCutoff q)
           (ticket mod kAdaptationFreq = 0))
         (\<lambda>(s', c). Done ((set_slot E q ticket s')\<lparr>popSpinCutoff := c\<rparr>, DeqMove)))"
| "dequeueWithTicketBase E q ticket DeqMove =
     with_slot E q ticket (\<lambda>s.
       bind_outcome (dequeue_move s) (\<lambda>(v, s'). Done (set_slot E q ticket s', DeqCompleteTurn v)))"
| "dequeueWithTicketBase E q ticket (DeqCompleteTurn v) =
     with_slot E q ticket (\<lambda>s.
       Done (set_slot E q ticket (dequeue_complete (seqOps E) s (turn ticket (capacity q))), DeqReturn v))"
| "dequeueWithTicketBase E q ticket (DeqReturn v) = Done (q, DeqReturn v)"

section \<open>The public operations\<close>

datatype 'a call =
    BlockingWrite 'a | Write 'a | WriteIfNotFull 'a | TryWriteUntil 'a
  | BlockingRead | Read | ReadIfNotEmpty | TryReadUntil

text \<open>
  A thread is idle, inside a call, or has returned: \<open>WReturn\<close> carries the result of a write,
  \<open>RReturn\<close> the ticket and the value of a read (none when it returned false). The flag of
  \<open>WPromised\<close> and \<open>RPromised\<close> says that the caller is the timed operation.
\<close>

datatype 'a pc =
    Idle
  | WBlocking 'a
  | WReady ready_pc 'a
  | WPromised bool promised_pc 'a
  | WWaitTurn u64 'a
  | Enqueueing u64 enq_pc 'a
  | WReturn bool
  | RBlocking
  | RReady ready_pc
  | RPromised bool promised_pc
  | RWaitTurn u64
  | Dequeueing u64 "'a deq_pc"
  | RReturn "(u64 \<times> 'a) option"

fun enter :: "'a call \<Rightarrow> 'a pc" where
  "enter (BlockingWrite v) = WBlocking v"
| "enter (Write v) = WReady ReadyLoad v"
| "enter (WriteIfNotFull v) = WPromised False PromLoad v"
| "enter (TryWriteUntil v) = WPromised True PromLoad v"
| "enter BlockingRead = RBlocking"
| "enter Read = RReady ReadyLoad"
| "enter ReadIfNotEmpty = RPromised False PromLoad"
| "enter TryReadUntil = RPromised True PromLoad"

text \<open>What the caller does when the called function has got to a program counter.\<close>

fun after_ready_push :: "'a \<Rightarrow> ready_pc \<Rightarrow> 'a pc" where
  "after_ready_push v (ReadyTicket ticket) = Enqueueing ticket EnqWaitTurn v"
| "after_ready_push v ReadyFail = WReturn False"
| "after_ready_push v c = WReady c v"

fun after_promised_push :: "bool \<Rightarrow> 'a \<Rightarrow> promised_pc \<Rightarrow> 'a pc" where
  "after_promised_push timed v (PromTicket ticket) = Enqueueing ticket EnqWaitTurn v"
| "after_promised_push timed v (PromFail ticket) = (if timed then WWaitTurn ticket v else WReturn False)"
| "after_promised_push timed v c = WPromised timed c v"

fun after_enqueue :: "u64 \<Rightarrow> 'a \<Rightarrow> enq_pc \<Rightarrow> 'a pc" where
  "after_enqueue ticket v EnqReturn = WReturn True"
| "after_enqueue ticket v c = Enqueueing ticket c v"

fun after_ready_pop :: "ready_pc \<Rightarrow> 'a pc" where
  "after_ready_pop (ReadyTicket ticket) = Dequeueing ticket DeqWaitTurn"
| "after_ready_pop ReadyFail = RReturn None"
| "after_ready_pop c = RReady c"

fun after_promised_pop :: "bool \<Rightarrow> promised_pc \<Rightarrow> 'a pc" where
  "after_promised_pop timed (PromTicket ticket) = Dequeueing ticket DeqWaitTurn"
| "after_promised_pop timed (PromFail ticket) = (if timed then RWaitTurn ticket else RReturn None)"
| "after_promised_pop timed c = RPromised timed c"

fun after_dequeue :: "u64 \<Rightarrow> 'a deq_pc \<Rightarrow> 'a pc" where
  "after_dequeue ticket (DeqReturn v) = RReturn (Some (ticket, v))"
| "after_dequeue ticket c = Dequeueing ticket c"

text \<open>One atomic step of a thread. \<open>deadline\<close> says whether the clock of a timed operation has
  passed its deadline.\<close>

fun step :: "'ts mpmc_env \<Rightarrow> bool \<Rightarrow> ('ts, 'a) MPMCQueue \<Rightarrow> 'a pc \<Rightarrow> (('ts, 'a) MPMCQueue \<times> 'a pc) outcome" where
  "step E deadline q (WBlocking v) =
     Done (q\<lparr>pushTicket := pushTicket q + 1\<rparr>, Enqueueing (pushTicket q) EnqWaitTurn v)"
| "step E deadline q (WReady c v) =
     bind_outcome (tryObtainReadyPushTicket E q c) (\<lambda>(q', c'). Done (q', after_ready_push v c'))"
| "step E deadline q (WPromised timed c v) =
     (case tryObtainPromisedPushTicket q c of (q', c') \<Rightarrow> Done (q', after_promised_push timed v c'))"
| "step E deadline q (WWaitTurn ticket v) =
     bind_outcome (waitForPushTurnUntil E deadline q ticket)
       (\<lambda>(ok, q'). Done (q', if ok then WPromised True PromLoad v else WReturn False))"
| "step E deadline q (Enqueueing ticket c v) =
     bind_outcome (enqueueWithTicketBase E q ticket v c) (\<lambda>(q', c'). Done (q', after_enqueue ticket v c'))"
| "step E deadline q RBlocking =
     Done (q\<lparr>popTicket := popTicket q + 1\<rparr>, Dequeueing (popTicket q) DeqWaitTurn)"
| "step E deadline q (RReady c) =
     bind_outcome (tryObtainReadyPopTicket E q c) (\<lambda>(q', c'). Done (q', after_ready_pop c'))"
| "step E deadline q (RPromised timed c) =
     (case tryObtainPromisedPopTicket q c of (q', c') \<Rightarrow> Done (q', after_promised_pop timed c'))"
| "step E deadline q (RWaitTurn ticket) =
     bind_outcome (waitForPopTurnUntil E deadline q ticket)
       (\<lambda>(ok, q'). Done (q', if ok then RPromised True PromLoad else RReturn None))"
| "step E deadline q (Dequeueing ticket c) =
     bind_outcome (dequeueWithTicketBase E q ticket c) (\<lambda>(q', c'). Done (q', after_dequeue ticket c'))"
| "step E deadline q c = Done (q, c)"

fun returned :: "'a pc \<Rightarrow> bool" where
  "returned (WReturn b) = True"
| "returned (RReturn r) = True"
| "returned _ = False"

text \<open>A thread alone: at most \<open>n\<close> steps, stopping at the return (\<open>None\<close>: still running).\<close>

fun run :: "'ts mpmc_env \<Rightarrow> bool \<Rightarrow> nat \<Rightarrow> ('ts, 'a) MPMCQueue \<Rightarrow> 'a pc \<Rightarrow> (('ts, 'a) MPMCQueue \<times> 'a pc) option outcome" where
  "run E deadline n q c =
     (if returned c then Done (Some (q, c))
      else case n of 0 \<Rightarrow> Done None
        | Suc m \<Rightarrow> bind_outcome (step E deadline q c) (\<lambda>(q', c'). run E deadline m q' c'))"

declare run.simps [simp del]

section \<open>Destruction\<close>

text \<open>\<open>delete[] slots_\<close>: every element of the array is destroyed, last to first.\<close>

fun destroySlots :: "'ts turn_ops \<Rightarrow> ('ts, 'a) Slot list \<Rightarrow> ('ts, 'a) Slot list outcome" where
  "destroySlots ops [] = Done []"
| "destroySlots ops (s # ss) =
     bind_outcome (destroySlots ops ss) (\<lambda>ss'.
     bind_outcome (destroySlot ops s) (\<lambda>s'. Done (s' # ss')))"

definition destroyMPMCQueue :: "'ts mpmc_env \<Rightarrow> ('ts, 'a) MPMCQueue \<Rightarrow> ('ts, 'a) Slot list outcome" where
  "destroyMPMCQueue E q = destroySlots (seqOps E) (slots q)"

text \<open>Move assignment, over the queues of a program named by numbers: the left one is destroyed and built anew from
  the right one, and assigning a queue to itself does nothing.\<close>

definition moveAssignMPMCQueue ::
  "'ts mpmc_env \<Rightarrow> nat \<Rightarrow> nat \<Rightarrow> (nat \<Rightarrow> ('ts, 'a) MPMCQueue) \<Rightarrow> (nat \<Rightarrow> ('ts, 'a) MPMCQueue) outcome" where
  "moveAssignMPMCQueue E l r qs =
     (if l \<noteq> r then bind_outcome (destroyMPMCQueue E (qs l)) (\<lambda>_.
        let (new, left) = moveMPMCQueue (qs r) in Done (qs(l := new, r := left)))
      else Done qs)"

lemma moved_from_is_empty: "snd (moveMPMCQueue q) = emptyMPMCQueue" "fst (moveMPMCQueue q) = q"
  by (simp_all add: moveMPMCQueue_def emptyMPMCQueue_def)

lemma moveAssign_exchanges:
  assumes "moveAssignMPMCQueue E l r qs = Done qs'"
  shows "qs' l = qs r" "l \<noteq> r \<Longrightarrow> qs' r = emptyMPMCQueue" "i \<noteq> l \<Longrightarrow> i \<noteq> r \<Longrightarrow> qs' i = qs i"
  using assms by (auto simp: moveAssignMPMCQueue_def bind_outcome_Done_iff case_prod_beta moved_from_is_empty split: if_splits)

section \<open>Size\<close>

text \<open>
  \<open>size()\<close> as a function of the values its loads return, in order: \<open>None\<close> when the loads run
  out while it is still looping.
\<close>

fun size_loop :: "u64 \<Rightarrow> u64 \<Rightarrow> u64 list \<Rightarrow> int option" where
  "size_loop pushes pops (nextPushes # loads) =
     (if pushes = nextPushes then Some (sint (pushes - pops))
      else case loads of
          [] \<Rightarrow> None
        | nextPops # loads' \<Rightarrow>
            if pops = nextPops then Some (sint (nextPushes - pops))
            else size_loop nextPushes nextPops loads')"
| "size_loop pushes pops [] = None"

fun mpmc_size :: "u64 list \<Rightarrow> int option" where
  "mpmc_size (pushes # pops # loads) = size_loop pushes pops loads"
| "mpmc_size _ = None"

text \<open>The loads of a caller that runs alone.\<close>

definition quietLoads :: "('ts, 'a) MPMCQueue \<Rightarrow> u64 list" where
  "quietLoads q = [pushTicket q, popTicket q, pushTicket q]"

definition mpmc_isEmpty :: "u64 list \<Rightarrow> bool option" where
  "mpmc_isEmpty loads = map_option (\<lambda>n. n \<le> 0) (mpmc_size loads)"

definition mpmc_isFull :: "('ts, 'a) MPMCQueue \<Rightarrow> u64 list \<Rightarrow> bool option" where
  "mpmc_isFull q loads = map_option (\<lambda>n. sint (capacity q) \<le> n) (mpmc_size loads)"

definition writeCount :: "('ts, 'a) MPMCQueue \<Rightarrow> u64" where
  "writeCount q = pushTicket q"

definition readCount :: "('ts, 'a) MPMCQueue \<Rightarrow> u64" where
  "readCount q = popTicket q"

definition sizeGuess :: "('ts, 'a) MPMCQueue \<Rightarrow> int" where
  "sizeGuess q = sint (writeCount q - readCount q)"

end
