(* ===== verification/MPMCSequential.thy ===== *)
theory MPMCSequential
  imports MPMCQueue
begin

text \<open>
  The fixed-capacity \<open>MPMCQueue\<close> used by one thread at a time: every public operation refines
  the operation of a bounded list queue, with its return value, its blocking and its failure. The
  abstraction \<open>settled\<close> says which list a queue with no call in progress holds. Also here: the
  snapshot property of \<open>size()\<close> and the destruction of the slot array.
\<close>

section \<open>Well-formed queues\<close>

text \<open>
  Tickets below \<open>ticketRoom\<close> times any stride stay below \<open>2 ^ 63\<close>. Queues are considered up to
  that many operations on each side, and with a slot array that \<open>ssize_t\<close> can measure.
\<close>

definition ticketRoom :: nat where
  "ticketRoom = 2 ^ 58"

definition wf_queue :: "'ts mpmc_env \<Rightarrow> ('ts, 'a) MPMCQueue \<Rightarrow> bool" where
  "wf_queue E q \<longleftrightarrow> capacity q \<noteq> 0 \<and> stride q = computeStride (capacity q) \<and>
     unat (capacity q) + 2 * unat (slotPadding E) < 2 ^ 63 \<and>
     length (slots q) = unat (capacity q) + 2 * unat (slotPadding E)"

abbreviation qcap :: "('ts, 'a) MPMCQueue \<Rightarrow> nat" where
  "qcap q \<equiv> unat (capacity q)"

abbreviation qstride :: "('ts, 'a) MPMCQueue \<Rightarrow> nat" where
  "qstride q \<equiv> nat (stride q)"

text \<open>The cell of index \<open>j\<close> in the unpadded part of the array.\<close>

definition cell :: "'ts mpmc_env \<Rightarrow> ('ts, 'a) MPMCQueue \<Rightarrow> nat \<Rightarrow> ('ts, 'a) Slot" where
  "cell E q j = slots q ! (j + unat (slotPadding E))"

lemma wf_queueD:
  assumes "wf_queue E q"
  shows "0 < qcap q" "capacity q \<noteq> 0" "1 \<le> stride q" "stride q \<le> 23" "coprime (qstride q) (qcap q)"
    and "qcap q < 2 ^ 63"
  using assms computeStride_good[of "capacity q"]
  by (auto simp: wf_queue_def good_stride_def unat_gt_0)

lemma ticket_product:
  assumes "t < ticketRoom" "s \<le> 23"
  shows "t * s < 2 ^ 64"
proof -
  have "t * s \<le> 2 ^ 58 * 23"
    using assms by (intro mult_le_mono) (auto simp: ticketRoom_def)
  then show ?thesis
    by simp
qed

lemma slotIdx_room:
  assumes "wf_queue E q" "unat t < ticketRoom"
  shows "slotIdx E q t = slot_of (qcap q) (qstride q) (unat t) + unat (slotPadding E)"
    and "slotIdx E q t < length (slots q)"
proof -
  note wf = wf_queueD[OF assms(1)]
  have len: "length (slots q) = qcap q + 2 * unat (slotPadding E)" "qcap q + 2 * unat (slotPadding E) < 2 ^ 63"
    using assms(1) by (auto simp: wf_queue_def)
  show eq: "slotIdx E q t = slot_of (qcap q) (qstride q) (unat t) + unat (slotPadding E)"
    unfolding slotIdx_def
  proof (rule unat_idx)
    show "unat t * nat (stride q) < 2 ^ 64"
      by (rule ticket_product[OF assms(2)]) (use wf(4) in simp)
    show "unat (capacity q) + unat (slotPadding E) < 2 ^ 64"
      using len(2) by simp
  qed (use wf in auto)
  show "slotIdx E q t < length (slots q)"
    unfolding eq len(1) using slot_of_less[OF wf(1), of "qstride q" "unat t"] by simp
qed

lemma with_slot_room:
  assumes "wf_queue E q" "unat t < ticketRoom"
  shows "with_slot E q t f = f (cell E q (slot_of (qcap q) (qstride q) (unat t)))"
  using slotIdx_room[OF assms] by (simp add: with_slot_def cell_def)

lemma cell_set_slot:
  assumes "wf_queue E q" "unat t < ticketRoom" "j < qcap q"
  shows "cell E (set_slot E q t s) j = (if j = slot_of (qcap q) (qstride q) (unat t) then s else cell E q j)"
  using slotIdx_room[OF assms(1,2)] assms(3) by (simp add: cell_def)

lemma cell_frame [simp]:
  "cell E (q\<lparr>pushTicket := x\<rparr>) j = cell E q j" "cell E (q\<lparr>popTicket := x\<rparr>) j = cell E q j"
  "cell E (q\<lparr>pushSpinCutoff := c\<rparr>) j = cell E q j" "cell E (q\<lparr>popSpinCutoff := c\<rparr>) j = cell E q j"
  by (simp_all add: cell_def)

lemma wf_frame [simp]:
  "wf_queue E (q\<lparr>pushTicket := x\<rparr>) = wf_queue E q" "wf_queue E (q\<lparr>popTicket := x\<rparr>) = wf_queue E q"
  "wf_queue E (q\<lparr>pushSpinCutoff := c\<rparr>) = wf_queue E q" "wf_queue E (q\<lparr>popSpinCutoff := c\<rparr>) = wf_queue E q"
  "wf_queue E (q\<lparr>slots := (slots q)[i := s]\<rparr>) = wf_queue E q"
  by (simp_all add: wf_queue_def)

lemma newMPMCQueue_wf:
  assumes "newMPMCQueue E cap = Inr q" "unat cap + 2 * unat (slotPadding E) < 2 ^ 63"
  shows "wf_queue E q" "qcap q = unat cap" "pushTicket q = 0" "popTicket q = 0"
    and "j < qcap q \<Longrightarrow> cell E q j = newSlot (seqOps E)"
proof -
  have "unat (2 * slotPadding E) = 2 * unat (slotPadding E)"
    using assms(2) by (simp add: unat_word_ariths)
  moreover have "unat (cap + 2 * slotPadding E) = unat cap + unat (2 * slotPadding E)"
    by (rule unat_add_lem[THEN iffD1]) (use calculation assms(2) in simp)
  ultimately have len: "unat (cap + 2 * slotPadding E) = unat cap + 2 * unat (slotPadding E)"
    by simp
  with assms show "wf_queue E q" "qcap q = unat cap" "pushTicket q = 0" "popTicket q = 0"
    by (auto simp: newMPMCQueue_def wf_queue_def split: if_splits)
  show "cell E q j = newSlot (seqOps E)" if "j < qcap q"
    using that assms(1) len by (auto simp: newMPMCQueue_def cell_def split: if_splits)
qed

section \<open>The list a quiet queue holds\<close>

definition settled :: "nat \<Rightarrow> ('ts \<Rightarrow> u32) \<Rightarrow> 'ts mpmc_env \<Rightarrow> ('ts, 'a) MPMCQueue \<Rightarrow> 'a list \<Rightarrow> bool" where
  "settled tb cur E q xs \<longleftrightarrow>
     wf_queue E q \<and> turn_contract tb (seqOps E) cur \<and>
     unat (pushTicket q) = unat (popTicket q) + length xs \<and> length xs \<le> qcap q \<and>
     (\<forall>t. unat (popTicket q) \<le> t \<longrightarrow> t < unat (pushTicket q) \<longrightarrow>
        slot_turn tb cur (cell E q (slot_of (qcap q) (qstride q) t)) (2 * round_of (qcap q) t + 1) \<and>
        contents (cell E q (slot_of (qcap q) (qstride q) t)) = Some (xs ! (t - unat (popTicket q)))) \<and>
     (\<forall>t. unat (pushTicket q) \<le> t \<longrightarrow> t < unat (popTicket q) + qcap q \<longrightarrow>
        slot_turn tb cur (cell E q (slot_of (qcap q) (qstride q) t)) (2 * round_of (qcap q) t) \<and>
        contents (cell E q (slot_of (qcap q) (qstride q) t)) = None)"

lemma settled_new:
  assumes "newMPMCQueue E cap = Inr q" "unat cap + 2 * unat (slotPadding E) < 2 ^ 63"
    and "turn_contract tb (seqOps E) cur"
  shows "settled tb cur E q []"
proof -
  note new = newMPMCQueue_wf[OF assms(1,2)]
  have "cell E q (slot_of (qcap q) (qstride q) t) = newSlot (seqOps E)" for t
    by (rule new(5)[OF slot_of_less[OF wf_queueD(1)[OF new(1)]]])
  moreover have "round_of (qcap q) t = 0" if "t < qcap q" for t
    using that by (simp add: round_of_def)
  ultimately show ?thesis
    using new assms(3) by (simp add: settled_def newSlot_turn[OF assms(3)])
qed

text \<open>The two transitions of a quiet queue on the cells: the last free cell gets a value, the
  first full cell loses it.\<close>

lemma settledD:
  assumes "settled tb cur E q xs"
  shows "wf_queue E q" "turn_contract tb (seqOps E) cur"
    and "unat (pushTicket q) = unat (popTicket q) + length xs" "length xs \<le> qcap q"
    and "unat (popTicket q) \<le> t \<Longrightarrow> t < unat (pushTicket q) \<Longrightarrow>
        slot_turn tb cur (cell E q (slot_of (qcap q) (qstride q) t)) (2 * round_of (qcap q) t + 1)"
    and "unat (popTicket q) \<le> t \<Longrightarrow> t < unat (pushTicket q) \<Longrightarrow>
        contents (cell E q (slot_of (qcap q) (qstride q) t)) = Some (xs ! (t - unat (popTicket q)))"
    and "unat (pushTicket q) \<le> t \<Longrightarrow> t < unat (popTicket q) + qcap q \<Longrightarrow>
        slot_turn tb cur (cell E q (slot_of (qcap q) (qstride q) t)) (2 * round_of (qcap q) t)"
    and "unat (pushTicket q) \<le> t \<Longrightarrow> t < unat (popTicket q) + qcap q \<Longrightarrow>
        contents (cell E q (slot_of (qcap q) (qstride q) t)) = None"
  using assms unfolding settled_def by blast+

lemma settled_push:
  assumes S: "settled tb cur E q xs" and "length xs < qcap q"
    and q': "wf_queue E q'" "capacity q' = capacity q" "stride q' = stride q" "popTicket q' = popTicket q"
      "unat (pushTicket q') = unat (pushTicket q) + 1"
    and cells: "\<And>j. j < qcap q \<Longrightarrow> j \<noteq> slot_of (qcap q) (qstride q) (unat (pushTicket q)) \<Longrightarrow> cell E q' j = cell E q j"
    and here: "slot_turn tb cur (cell E q' (slot_of (qcap q) (qstride q) (unat (pushTicket q))))
        (2 * round_of (qcap q) (unat (pushTicket q)) + 1)"
      "contents (cell E q' (slot_of (qcap q) (qstride q) (unat (pushTicket q)))) = Some v"
  shows "settled tb cur E q' (xs @ [v])"
proof -
  let ?n = "unat (pushTicket q)" and ?p = "unat (popTicket q)"
  note wf = wf_queueD[OF settledD(1)[OF S]]
  have other: "cell E q' (slot_of (qcap q) (qstride q) t) = cell E q (slot_of (qcap q) (qstride q) t)"
    if "t \<noteq> ?n" "?p \<le> t" "t < ?p + qcap q" for t
  proof (rule cells[OF slot_of_less[OF wf(1)]])
    show "slot_of (qcap q) (qstride q) t \<noteq> slot_of (qcap q) (qstride q) ?n"
      by (rule slot_of_neq[OF wf(5), of _ _ ?p]) (use that assms(2) settledD(3)[OF S] in linarith)+
  qed
  have "slot_turn tb cur (cell E q' (slot_of (qcap q) (qstride q) t)) (2 * round_of (qcap q) t + 1) \<and>
        contents (cell E q' (slot_of (qcap q) (qstride q) t)) = Some ((xs @ [v]) ! (t - ?p))"
    if "?p \<le> t" "t < ?n + 1" for t
  proof (cases "t = ?n")
    case True
    with here settledD(3)[OF S] show ?thesis
      by simp
  next
    case False
    then have "t - ?p < length xs"
      using that settledD(3)[OF S] by linarith
    with False that settledD(3,4)[OF S] other[OF False] settledD(5,6)[OF S, of t] show ?thesis
      by (simp add: nth_append)
  qed
  moreover have "slot_turn tb cur (cell E q' (slot_of (qcap q) (qstride q) t)) (2 * round_of (qcap q) t) \<and>
        contents (cell E q' (slot_of (qcap q) (qstride q) t)) = None"
    if "?n + 1 \<le> t" "t < ?p + qcap q" for t
    using that other[of t] settledD(7,8)[OF S, of t] settledD(3)[OF S] by simp
  ultimately show ?thesis
    using q' settledD(2,3)[OF S] assms(2) by (simp add: settled_def)
qed

lemma settled_pop:
  assumes S: "settled tb cur E q (x # xs)"
    and q': "wf_queue E q'" "capacity q' = capacity q" "stride q' = stride q" "pushTicket q' = pushTicket q"
      "unat (popTicket q') = unat (popTicket q) + 1"
    and cells: "\<And>j. j < qcap q \<Longrightarrow> j \<noteq> slot_of (qcap q) (qstride q) (unat (popTicket q)) \<Longrightarrow> cell E q' j = cell E q j"
    and here: "slot_turn tb cur (cell E q' (slot_of (qcap q) (qstride q) (unat (popTicket q))))
        (2 * round_of (qcap q) (unat (popTicket q)) + 2)"
      "contents (cell E q' (slot_of (qcap q) (qstride q) (unat (popTicket q)))) = None"
  shows "settled tb cur E q' xs"
proof -
  let ?n = "unat (pushTicket q)" and ?p = "unat (popTicket q)"
  note wf = wf_queueD[OF settledD(1)[OF S]]
  have other: "cell E q' (slot_of (qcap q) (qstride q) t) = cell E q (slot_of (qcap q) (qstride q) t)"
    if "?p < t" "t < ?p + qcap q" for t
  proof (rule cells[OF slot_of_less[OF wf(1)]])
    show "slot_of (qcap q) (qstride q) t \<noteq> slot_of (qcap q) (qstride q) ?p"
      by (rule slot_of_neq[OF wf(5), of _ _ ?p]) (use that in linarith)+
  qed
  have "slot_turn tb cur (cell E q' (slot_of (qcap q) (qstride q) t)) (2 * round_of (qcap q) t + 1) \<and>
        contents (cell E q' (slot_of (qcap q) (qstride q) t)) = Some (xs ! (t - (?p + 1)))"
    if "?p + 1 \<le> t" "t < ?n" for t
  proof -
    have "t - ?p = Suc (t - (?p + 1))"
      using that by simp
    then show ?thesis
      using that other[of t] settledD(5,6)[OF S, of t] settledD(3,4)[OF S] by simp
  qed
  moreover have "slot_turn tb cur (cell E q' (slot_of (qcap q) (qstride q) t)) (2 * round_of (qcap q) t) \<and>
        contents (cell E q' (slot_of (qcap q) (qstride q) t)) = None"
    if "?n \<le> t" "t < ?p + 1 + qcap q" for t
  proof (cases "t = ?p + qcap q")
    case True
    then show ?thesis
      using here slot_of_add_cap[of "qcap q" "qstride q" ?p 1] round_of_add_cap[OF wf(1), of ?p 1] by simp
  next
    case False
    then show ?thesis
      using that other[of t] settledD(7,8)[OF S, of t] settledD(3)[OF S] by simp
  qed
  ultimately show ?thesis
    using q' settledD(2,3,4)[OF S] by (simp add: settled_def)
qed

section \<open>Running a call alone\<close>

text \<open>\<open>q'\<close> is \<open>q\<close> but for the cell of ticket \<open>t\<close>, which is now \<open>s\<close>, and the spin cutoffs.\<close>

definition slot_updated ::
  "'ts mpmc_env \<Rightarrow> u64 \<Rightarrow> ('ts, 'a) Slot \<Rightarrow> ('ts, 'a) MPMCQueue \<Rightarrow> ('ts, 'a) MPMCQueue \<Rightarrow> bool" where
  "slot_updated E t s q q' \<longleftrightarrow> wf_queue E q' \<and> capacity q' = capacity q \<and> stride q' = stride q \<and>
     pushTicket q' = pushTicket q \<and> popTicket q' = popTicket q \<and>
     (\<forall>j < qcap q. cell E q' j = (if j = slot_of (qcap q) (qstride q) (unat t) then s else cell E q j))"

lemma slot_updatedI:
  assumes "wf_queue E q" "unat t < ticketRoom"
  shows "slot_updated E t s q (set_slot E q t s)"
    and "slot_updated E t s q ((set_slot E q t s)\<lparr>pushSpinCutoff := c\<rparr>)"
    and "slot_updated E t s q ((set_slot E q t s)\<lparr>popSpinCutoff := c\<rparr>)"
  using cell_set_slot[OF assms] assms(1) by (simp_all add: slot_updated_def)

lemma slot_updatedD:
  assumes "slot_updated E t s q q'"
  shows "wf_queue E q'" "capacity q' = capacity q" "stride q' = stride q"
    "pushTicket q' = pushTicket q" "popTicket q' = popTicket q"
    and "j < qcap q \<Longrightarrow> j \<noteq> slot_of (qcap q) (qstride q) (unat t) \<Longrightarrow> cell E q' j = cell E q j"
    and "cell E q' (slot_of (qcap q) (qstride q) (unat t)) = s"
proof -
  show wf: "wf_queue E q'" "capacity q' = capacity q" "stride q' = stride q"
    "pushTicket q' = pushTicket q" "popTicket q' = popTicket q"
    using assms by (auto simp: slot_updated_def)
  have "slot_of (qcap q) (qstride q) (unat t) < qcap q"
    using slot_of_less[OF wf_queueD(1)[OF wf(1)]] wf by simp
  then show "cell E q' (slot_of (qcap q) (qstride q) (unat t)) = s"
    using assms by (simp add: slot_updated_def)
qed (use assms in \<open>simp add: slot_updated_def\<close>)

lemma slot_updated_trans:
  "slot_updated E t s q q' \<Longrightarrow> slot_updated E t s' q' q'' \<Longrightarrow> slot_updated E t s' q q''"
  by (simp add: slot_updated_def)

lemma run_step:
  assumes "\<not> returned c" "step E d q c = Done (q', c')"
  shows "run E d (Suc n) q c = run E d n q' c'"
  using assms by (simp add: run.simps[of E d "Suc n"])

lemma run_blocks:
  assumes "\<not> returned c" "step E d q c = Blocks"
  shows "run E d (Suc n) q c = Blocks"
  using assms by (simp add: run.simps[of E d "Suc n"])

lemma run_returned: "returned c \<Longrightarrow> run E d n q c = Done (Some (q, c))"
  by (simp add: run.simps)

lemma enqueue_run:
  assumes wf: "wf_queue E q" and T: "turn_contract tb (seqOps E) cur" and room: "unat t < ticketRoom"
    and now: "slot_turn tb cur (cell E q (slot_of (qcap q) (qstride q) (unat t))) (2 * round_of (qcap q) (unat t))"
      "contents (cell E q (slot_of (qcap q) (qstride q) (unat t))) = None"
  shows "\<exists>q' s. run E d (3 + n) q (Enqueueing t EnqWaitTurn v) = Done (Some (q', WReturn True)) \<and>
     slot_updated E t s q q' \<and> slot_turn tb cur s (2 * round_of (qcap q) (unat t) + 1) \<and> contents s = Some v"
proof -
  let ?j = "slot_of (qcap q) (qstride q) (unat t)" and ?r = "round_of (qcap q) (unat t)"
  obtain sq c where w: "enqueue_wait (seqOps E) (cell E q ?j) (of_nat ?r) (pushSpinCutoff q)
        (t mod kAdaptationFreq = 0) = Done ((cell E q ?j)\<lparr>sequencer := sq\<rparr>, c)"
      and turn1: "slot_turn tb cur ((cell E q ?j)\<lparr>sequencer := sq\<rparr>) (2 * ?r)"
    using enqueue_wait_now[OF T now(1)] by blast
  define s1 where "s1 = (cell E q ?j)\<lparr>sequencer := sq\<rparr>"
  define q1 where "q1 = (set_slot E q t s1)\<lparr>pushSpinCutoff := c\<rparr>"
  have u1: "slot_updated E t s1 q q1"
    unfolding q1_def by (rule slot_updatedI(2)[OF wf room])
  define s2 where "s2 = s1\<lparr>contents := Some v\<rparr>"
  have c1: "contents s1 = None"
    using now(2) by (simp add: s1_def)
  define q2 where "q2 = set_slot E q1 t s2"
  have u2: "slot_updated E t s2 q1 q2"
    unfolding q2_def by (rule slot_updatedI(1)[OF slot_updatedD(1)[OF u1] room])
  define s3 where "s3 = enqueue_complete (seqOps E) s2 (of_nat ?r)"
  define q3 where "q3 = set_slot E q2 t s3"
  have u3: "slot_updated E t s3 q2 q3"
    unfolding q3_def by (rule slot_updatedI(1)[OF slot_updatedD(1)[OF u2] room])
  have st1: "step E d q (Enqueueing t EnqWaitTurn v) = Done (q1, Enqueueing t EnqConstruct v)"
    using w by (simp add: with_slot_room[OF wf room] unat_turn s1_def q1_def)
  have st2: "step E d q1 (Enqueueing t EnqConstruct v) = Done (q2, Enqueueing t EnqCompleteTurn v)"
    using slot_updatedD[OF u1] c1
    by (simp add: with_slot_room[OF slot_updatedD(1)[OF u1] room] enqueue_construct_def q2_def s2_def)
  have st3: "step E d q2 (Enqueueing t EnqCompleteTurn v) = Done (q3, WReturn True)"
    using slot_updatedD[OF u1] slot_updatedD[OF u2]
    by (simp add: with_slot_room[OF slot_updatedD(1)[OF u2] room] unat_turn q3_def s3_def)
  have "run E d (3 + n) q (Enqueueing t EnqWaitTurn v) = Done (Some (q3, WReturn True))"
    using run_step[OF _ st1, of "Suc (Suc n)"] run_step[OF _ st2, of "Suc n"] run_step[OF _ st3, of n]
    by (simp add: run_returned numeral_3_eq_3)
  moreover have "slot_turn tb cur s2 (2 * ?r)"
    using turn1 by (simp add: s2_def s1_def slot_turn_def)
  then have "slot_turn tb cur s3 (2 * ?r + 1)" "contents s3 = Some v"
    unfolding s3_def using enqueue_complete_turn[OF T, of s2 ?r] by (simp_all add: s2_def)
  ultimately show ?thesis
    using slot_updated_trans[OF slot_updated_trans[OF u1 u2] u3] by blast
qed

lemma dequeue_run:
  assumes wf: "wf_queue E q" and T: "turn_contract tb (seqOps E) cur" and room: "unat t < ticketRoom"
    and now: "slot_turn tb cur (cell E q (slot_of (qcap q) (qstride q) (unat t))) (2 * round_of (qcap q) (unat t) + 1)"
      "contents (cell E q (slot_of (qcap q) (qstride q) (unat t))) = Some v"
  shows "\<exists>q' s. run E d (3 + n) q (Dequeueing t DeqWaitTurn) = Done (Some (q', RReturn (Some (t, v)))) \<and>
     slot_updated E t s q q' \<and> slot_turn tb cur s (2 * round_of (qcap q) (unat t) + 2) \<and> contents s = None"
proof -
  let ?j = "slot_of (qcap q) (qstride q) (unat t)" and ?r = "round_of (qcap q) (unat t)"
  obtain sq c where w: "dequeue_wait (seqOps E) (cell E q ?j) (of_nat ?r) (popSpinCutoff q)
        (t mod kAdaptationFreq = 0) = Done ((cell E q ?j)\<lparr>sequencer := sq\<rparr>, c)"
      and turn1: "slot_turn tb cur ((cell E q ?j)\<lparr>sequencer := sq\<rparr>) (2 * ?r + 1)"
    using dequeue_wait_now[OF T now(1)] by blast
  define s1 where "s1 = (cell E q ?j)\<lparr>sequencer := sq\<rparr>"
  define q1 where "q1 = (set_slot E q t s1)\<lparr>popSpinCutoff := c\<rparr>"
  have u1: "slot_updated E t s1 q q1"
    unfolding q1_def by (rule slot_updatedI(3)[OF wf room])
  define s2 where "s2 = s1\<lparr>contents := None\<rparr>"
  have c1: "contents s1 = Some v"
    using now(2) by (simp add: s1_def)
  define q2 where "q2 = set_slot E q1 t s2"
  have u2: "slot_updated E t s2 q1 q2"
    unfolding q2_def by (rule slot_updatedI(1)[OF slot_updatedD(1)[OF u1] room])
  define s3 where "s3 = dequeue_complete (seqOps E) s2 (of_nat ?r)"
  define q3 where "q3 = set_slot E q2 t s3"
  have u3: "slot_updated E t s3 q2 q3"
    unfolding q3_def by (rule slot_updatedI(1)[OF slot_updatedD(1)[OF u2] room])
  have st1: "step E d q (Dequeueing t DeqWaitTurn) = Done (q1, Dequeueing t DeqMove)"
    using w by (simp add: with_slot_room[OF wf room] unat_turn s1_def q1_def)
  have st2: "step E d q1 (Dequeueing t DeqMove) = Done (q2, Dequeueing t (DeqCompleteTurn v))"
    using slot_updatedD[OF u1] c1
    by (simp add: with_slot_room[OF slot_updatedD(1)[OF u1] room] dequeue_move_def q2_def s2_def)
  have st3: "step E d q2 (Dequeueing t (DeqCompleteTurn v)) = Done (q3, RReturn (Some (t, v)))"
    using slot_updatedD[OF u1] slot_updatedD[OF u2]
    by (simp add: with_slot_room[OF slot_updatedD(1)[OF u2] room] unat_turn q3_def s3_def)
  have "run E d (3 + n) q (Dequeueing t DeqWaitTurn) = Done (Some (q3, RReturn (Some (t, v))))"
    using run_step[OF _ st1, of "Suc (Suc n)"] run_step[OF _ st2, of "Suc n"] run_step[OF _ st3, of n]
    by (simp add: run_returned numeral_3_eq_3)
  moreover have "slot_turn tb cur s2 (2 * ?r + 1)"
    using turn1 by (simp add: s2_def s1_def slot_turn_def)
  then have "slot_turn tb cur s3 (2 * ?r + 2)" "contents s3 = None"
    unfolding s3_def using dequeue_complete_turn[OF T, of s2 ?r] by (simp_all add: s2_def)
  ultimately show ?thesis
    using slot_updated_trans[OF slot_updated_trans[OF u1 u2] u3] by blast
qed

section \<open>The bounded list queue\<close>

text \<open>What each call promises, on a list and a capacity. A timed call that cannot proceed returns
  false when its deadline has passed and waits otherwise.\<close>

datatype 'a result = Wrote bool | Got "'a option"

fun list_call :: "nat \<Rightarrow> bool \<Rightarrow> 'a list \<Rightarrow> 'a call \<Rightarrow> ('a list \<times> 'a result) outcome" where
  "list_call cap d xs (BlockingWrite v) =
     (if length xs < cap then Done (xs @ [v], Wrote True) else Blocks)"
| "list_call cap d xs (Write v) =
     (if length xs < cap then Done (xs @ [v], Wrote True) else Done (xs, Wrote False))"
| "list_call cap d xs (WriteIfNotFull v) =
     (if length xs < cap then Done (xs @ [v], Wrote True) else Done (xs, Wrote False))"
| "list_call cap d xs (TryWriteUntil v) =
     (if length xs < cap then Done (xs @ [v], Wrote True)
      else if d then Done (xs, Wrote False) else Blocks)"
| "list_call cap d xs BlockingRead = (case xs of x # ys \<Rightarrow> Done (ys, Got (Some x)) | [] \<Rightarrow> Blocks)"
| "list_call cap d xs Read = (case xs of x # ys \<Rightarrow> Done (ys, Got (Some x)) | [] \<Rightarrow> Done (xs, Got None))"
| "list_call cap d xs ReadIfNotEmpty =
     (case xs of x # ys \<Rightarrow> Done (ys, Got (Some x)) | [] \<Rightarrow> Done (xs, Got None))"
| "list_call cap d xs TryReadUntil =
     (case xs of x # ys \<Rightarrow> Done (ys, Got (Some x)) | [] \<Rightarrow> if d then Done (xs, Got None) else Blocks)"

fun result_of :: "'a pc \<Rightarrow> 'a result option" where
  "result_of (WReturn b) = Some (Wrote b)"
| "result_of (RReturn r) = Some (Got (map_option snd r))"
| "result_of _ = None"

section \<open>Every call refines the list queue\<close>

text \<open>What a run from a program counter does, in terms of the list.\<close>

definition run_to ::
  "nat \<Rightarrow> ('ts \<Rightarrow> u32) \<Rightarrow> 'ts mpmc_env \<Rightarrow> bool \<Rightarrow> nat \<Rightarrow> ('ts, 'a) MPMCQueue \<Rightarrow> 'a pc \<Rightarrow> 'a list \<Rightarrow> 'a result \<Rightarrow> bool" where
  "run_to tb cur E d n q c xs res \<longleftrightarrow>
     (\<exists>q' c'. run E d n q c = Done (Some (q', c')) \<and> result_of c' = Some res \<and> settled tb cur E q' xs)"

lemma run_to_step:
  assumes "\<not> returned c" "step E d q c = Done (q', c')" "run_to tb cur E d n q' c' xs res"
  shows "run_to tb cur E d (Suc n) q c xs res"
  using assms(3) run_step[OF assms(1,2), of n] by (simp add: run_to_def)

lemma run_to_return:
  assumes "result_of c = Some res" "settled tb cur E q xs"
  shows "run_to tb cur E d n q c xs res"
proof -
  have "returned c"
    using assms(1) by (cases c) auto
  with assms show ?thesis
    by (simp add: run_to_def run_returned)
qed

text \<open>The pushing thread has drawn the next push ticket and there is room, or the popping thread
  has drawn the next pop ticket and there is a value.\<close>

lemma unat_Suc_room: "unat t < ticketRoom \<Longrightarrow> unat (t + 1 :: u64) = unat t + 1"
  by (rule unat_add_one) (simp add: ticketRoom_def)

lemma enqueue_settled:
  assumes S: "settled tb cur E q xs" and lt: "length xs < qcap q" and room: "unat (pushTicket q) < ticketRoom"
  shows "run_to tb cur E d (3 + n) (q\<lparr>pushTicket := pushTicket q + 1\<rparr>)
    (Enqueueing (pushTicket q) EnqWaitTurn v) (xs @ [v]) (Wrote True)"
proof -
  let ?t = "pushTicket q" and ?q = "q\<lparr>pushTicket := pushTicket q + 1\<rparr>"
  have wf: "wf_queue E ?q"
    using settledD(1)[OF S] by simp
  have now: "slot_turn tb cur (cell E q (slot_of (qcap q) (qstride q) (unat ?t))) (2 * round_of (qcap q) (unat ?t))"
      "contents (cell E q (slot_of (qcap q) (qstride q) (unat ?t))) = None"
    using settledD(7,8)[OF S, of "unat ?t"] settledD(3)[OF S] lt by simp_all
  obtain q' s where run: "run E d (3 + n) ?q (Enqueueing ?t EnqWaitTurn v) = Done (Some (q', WReturn True))"
    and u: "slot_updated E ?t s ?q q'" "slot_turn tb cur s (2 * round_of (qcap q) (unat ?t) + 1)" "contents s = Some v"
    using enqueue_run[OF wf settledD(2)[OF S] room, of d n v] now by auto
  have "settled tb cur E q' (xs @ [v])"
    using settled_push[OF S lt slot_updatedD(1)[OF u(1)], of v] slot_updatedD(2-)[OF u(1)] u(2,3)
    by (simp add: unat_Suc_room[OF room])
  with run show ?thesis
    by (auto simp: run_to_def)
qed

lemma dequeue_settled:
  assumes S: "settled tb cur E q (x # xs)" and room: "unat (pushTicket q) < ticketRoom"
  shows "run_to tb cur E d (3 + n) (q\<lparr>popTicket := popTicket q + 1\<rparr>)
    (Dequeueing (popTicket q) DeqWaitTurn) xs (Got (Some x))"
proof -
  let ?t = "popTicket q" and ?q = "q\<lparr>popTicket := popTicket q + 1\<rparr>"
  have wf: "wf_queue E ?q"
    using settledD(1)[OF S] by simp
  have room': "unat ?t < ticketRoom"
    using room settledD(3)[OF S] by simp
  have now: "slot_turn tb cur (cell E q (slot_of (qcap q) (qstride q) (unat ?t))) (2 * round_of (qcap q) (unat ?t) + 1)"
      "contents (cell E q (slot_of (qcap q) (qstride q) (unat ?t))) = Some x"
    using settledD(5,6)[OF S, of "unat ?t"] settledD(3)[OF S] by simp_all
  obtain q' s where run: "run E d (3 + n) ?q (Dequeueing ?t DeqWaitTurn) = Done (Some (q', RReturn (Some (?t, x))))"
    and u: "slot_updated E ?t s ?q q'" "slot_turn tb cur s (2 * round_of (qcap q) (unat ?t) + 2)" "contents s = None"
    using dequeue_run[OF wf settledD(2)[OF S] room', of x d n] now by auto
  have "settled tb cur E q' xs"
    using settled_pop[OF S slot_updatedD(1)[OF u(1)]] slot_updatedD(2-)[OF u(1)] u(2,3)
    by (simp add: unat_Suc_room[OF room'])
  with run show ?thesis
    by (auto simp: run_to_def)
qed

text \<open>The cell of the next push ticket of a full queue is one turn behind, and so is the cell of
  the next pop ticket of an empty one.\<close>

lemma full_turn:
  assumes S: "settled tb cur E q xs" and "length xs = qcap q"
  shows "slot_turn tb cur (cell E q (slot_of (qcap q) (qstride q) (unat (pushTicket q))))
           (2 * round_of (qcap q) (unat (pushTicket q)) - 1)"
    and "0 < round_of (qcap q) (unat (pushTicket q))"
proof -
  note wf = wf_queueD[OF settledD(1)[OF S]]
  have n: "unat (pushTicket q) = unat (popTicket q) + 1 * qcap q"
    using settledD(3)[OF S] assms(2) by simp
  have "round_of (qcap q) (unat (pushTicket q)) = round_of (qcap q) (unat (popTicket q)) + 1"
    unfolding n by (rule round_of_add_cap[OF wf(1)])
  moreover have "slot_of (qcap q) (qstride q) (unat (pushTicket q)) = slot_of (qcap q) (qstride q) (unat (popTicket q))"
    unfolding n by (rule slot_of_add_cap)
  ultimately show "slot_turn tb cur (cell E q (slot_of (qcap q) (qstride q) (unat (pushTicket q))))
           (2 * round_of (qcap q) (unat (pushTicket q)) - 1)" "0 < round_of (qcap q) (unat (pushTicket q))"
    using settledD(5)[OF S, of "unat (popTicket q)"] n wf(1) by simp_all
qed

lemma empty_turn:
  assumes S: "settled tb cur E q []"
  shows "slot_turn tb cur (cell E q (slot_of (qcap q) (qstride q) (unat (popTicket q))))
           (2 * round_of (qcap q) (unat (popTicket q)))"
  using settledD(7)[OF S, of "unat (popTicket q)"] settledD(3)[OF S] wf_queueD(1)[OF settledD(1)[OF S]]
  by simp

lemma settled_frame:
  assumes S: "settled tb cur E q xs" and u: "slot_updated E t s q q'"
    and "cur (sequencer s) = cur (sequencer (cell E q (slot_of (qcap q) (qstride q) (unat t))))"
    and "contents s = contents (cell E q (slot_of (qcap q) (qstride q) (unat t)))"
  shows "settled tb cur E q' xs"
proof -
  note wf = wf_queueD[OF settledD(1)[OF S]]
  have "slot_turn tb cur (cell E q' j) g = slot_turn tb cur (cell E q j) g \<and>
        contents (cell E q' j) = contents (cell E q j)" if "j < qcap q" for j g
    using slot_updatedD(6)[OF u that] slot_updatedD(7)[OF u] assms(3,4)
    by (cases "j = slot_of (qcap q) (qstride q) (unat t)") (auto simp: slot_turn_def)
  then show ?thesis
    using S slot_updatedD(1-5)[OF u] slot_of_less[OF wf(1)] by (simp add: settled_def)
qed

lemma signed_fullness:
  assumes S: "settled tb cur E q xs" and room: "unat (pushTicket q) < ticketRoom"
  shows "sint (capacity q) \<le> sint (pushTicket q - popTicket q) \<longleftrightarrow> length xs = qcap q"
proof -
  have "unat (pushTicket q) < 2 ^ 63" "unat (popTicket q) < 2 ^ 63"
    using room settledD(3)[OF S] by (simp_all add: ticketRoom_def)
  then have "sint (pushTicket q - popTicket q) = int (length xs)"
    using settledD(3)[OF S] u64_diff_sint[of "pushTicket q" "popTicket q"] by simp
  moreover have "sint (capacity q) = int (qcap q)"
    using u64_diff_sint[of "capacity q" 0] wf_queueD(6)[OF settledD(1)[OF S]] by simp
  ultimately show ?thesis
    using settledD(4)[OF S] by (metis of_nat_le_iff le_antisym order_refl)
qed

lemma half_ge_2: "2 \<le> tb \<Longrightarrow> 1 < (2::nat) ^ (tb - 1)" "2 \<le> tb \<Longrightarrow> 1 < (2::nat) ^ tb"
  by (rule one_less_power; simp)+

lemma full_wait:
  assumes S: "settled tb cur E q xs" and full: "length xs = qcap q" and room: "unat (pushTicket q) < ticketRoom"
  shows "\<not> mayEnqueue (seqOps E) (cell E q (slot_of (qcap q) (qstride q) (unat (pushTicket q))))
           (turn (pushTicket q) (capacity q))"
    and "enqueue_wait (seqOps E) (cell E q (slot_of (qcap q) (qstride q) (unat (pushTicket q))))
           (turn (pushTicket q) (capacity q)) c u = Blocks"
    and "waitForPushTurnUntil E False q (pushTicket q) = Blocks"
    and "\<exists>q'. waitForPushTurnUntil E True q (pushTicket q) = Done (False, q') \<and> settled tb cur E q' xs"
proof -
  let ?t = "pushTicket q"
  let ?s = "cell E q (slot_of (qcap q) (qstride q) (unat ?t))" and ?r = "round_of (qcap q) (unat ?t)"
  note T = settledD(2)[OF S] and wf = settledD(1)[OF S]
  note turn = full_turn[OF S full]
  have g: "2 * ?r - 1 < 2 * ?r" "2 * ?r - (2 * ?r - 1) = 1"
    using turn(2) by simp_all
  have half: "2 * ?r - (2 * ?r - 1) < 2 ^ (tb - 1)" "2 * ?r - (2 * ?r - 1) < 2 ^ tb"
    unfolding g(2) using half_ge_2 turn_contractD(1)[OF T] by auto
  show "\<not> mayEnqueue (seqOps E) ?s (turn ?t (capacity q))"
    unfolding unat_turn using mayEnqueue_iff[OF T turn(1) _ half(2)] g(1) by simp
  show "enqueue_wait (seqOps E) ?s (turn ?t (capacity q)) c u = Blocks"
    unfolding unat_turn by (rule enqueue_wait_blocks[OF T turn(1) g(1) half(1)])
  note w = half_window[OF T turn(1)[unfolded slot_turn_def] g(1) half(1)]
  show "waitForPushTurnUntil E False q ?t = Blocks"
    using turn_contractD(8)[OF T w]
    by (simp add: waitForPushTurnUntil_def with_slot_room[OF wf room] tryWaitForEnqueueTurnUntil_def
        unat_turn mult.commute)
  obtain sq c' where "tryWaitForTurn (seqOps E) (sequencer ?s) (of_nat (2 * ?r)) (pushSpinCutoff q)
      (?t mod kAdaptationFreq = 0) True = Done (True, sq, c')" "cur sq = cur (sequencer ?s)"
    using turn_contractD(9)[OF T w] by blast
  then show "\<exists>q'. waitForPushTurnUntil E True q ?t = Done (False, q') \<and> settled tb cur E q' xs"
    using settled_frame[OF S slot_updatedI(2)[OF wf room], of "?s\<lparr>sequencer := sq\<rparr>" c']
    by (simp add: waitForPushTurnUntil_def with_slot_room[OF wf room] tryWaitForEnqueueTurnUntil_def
        unat_turn mult.commute)
qed

lemma empty_wait:
  assumes S: "settled tb cur E q []" and room: "unat (pushTicket q) < ticketRoom"
  shows "\<not> mayDequeue (seqOps E) (cell E q (slot_of (qcap q) (qstride q) (unat (popTicket q))))
           (turn (popTicket q) (capacity q))"
    and "dequeue_wait (seqOps E) (cell E q (slot_of (qcap q) (qstride q) (unat (popTicket q))))
           (turn (popTicket q) (capacity q)) c u = Blocks"
    and "waitForPopTurnUntil E False q (popTicket q) = Blocks"
    and "\<exists>q'. waitForPopTurnUntil E True q (popTicket q) = Done (False, q') \<and> settled tb cur E q' []"
proof -
  let ?t = "popTicket q"
  let ?s = "cell E q (slot_of (qcap q) (qstride q) (unat ?t))" and ?r = "round_of (qcap q) (unat ?t)"
  note T = settledD(2)[OF S] and wf = settledD(1)[OF S]
  note turn = empty_turn[OF S]
  have room': "unat ?t < ticketRoom"
    using room settledD(3)[OF S] by simp
  have g: "2 * ?r < 2 * ?r + 1" "2 * ?r + 1 - 2 * ?r = 1"
    by simp_all
  have half: "2 * ?r + 1 - 2 * ?r < 2 ^ (tb - 1)" "2 * ?r + 1 - 2 * ?r < 2 ^ tb"
    unfolding g(2) using half_ge_2 turn_contractD(1)[OF T] by auto
  show "\<not> mayDequeue (seqOps E) ?s (turn ?t (capacity q))"
    unfolding unat_turn using mayDequeue_iff[OF T turn _ half(2)] g(1) by simp
  show "dequeue_wait (seqOps E) ?s (turn ?t (capacity q)) c u = Blocks"
    unfolding unat_turn by (rule dequeue_wait_blocks[OF T turn g(1) half(1)])
  note w = half_window[OF T turn[unfolded slot_turn_def] g(1) half(1)]
  show "waitForPopTurnUntil E False q ?t = Blocks"
    using turn_contractD(8)[OF T w]
    by (simp add: waitForPopTurnUntil_def with_slot_room[OF wf room'] tryWaitForDequeueTurnUntil_def
        unat_turn mult.commute add.commute)
  obtain sq c' where "tryWaitForTurn (seqOps E) (sequencer ?s) (of_nat (2 * ?r + 1)) (pushSpinCutoff q)
      (?t mod kAdaptationFreq = 0) True = Done (True, sq, c')" "cur sq = cur (sequencer ?s)"
    using turn_contractD(9)[OF T w] by blast
  then show "\<exists>q'. waitForPopTurnUntil E True q ?t = Done (False, q') \<and> settled tb cur E q' []"
    using settled_frame[OF S slot_updatedI(2)[OF wf room'], of "?s\<lparr>sequencer := sq\<rparr>" c']
    by (simp add: waitForPopTurnUntil_def with_slot_room[OF wf room'] tryWaitForDequeueTurnUntil_def
        unat_turn mult.commute add.commute)
qed

lemma write_call_room:
  assumes S: "settled tb cur E q xs" and room: "unat (pushTicket q) < ticketRoom" and lt: "length xs < qcap q"
  shows "run_to tb cur E d 6 q (WBlocking v) (xs @ [v]) (Wrote True)"
    and "run_to tb cur E d 6 q (WReady ReadyLoad v) (xs @ [v]) (Wrote True)"
    and "run_to tb cur E d 6 q (WPromised timed PromLoad v) (xs @ [v]) (Wrote True)"
proof -
  let ?t = "pushTicket q" and ?q = "q\<lparr>pushTicket := pushTicket q + 1\<rparr>"
  note T = settledD(2)[OF S] and wf = settledD(1)[OF S]
  note enq = enqueue_settled[OF S lt room, of d _ v]
  have "slot_turn tb cur (cell E q (slot_of (qcap q) (qstride q) (unat ?t))) (2 * round_of (qcap q) (unat ?t))"
    using settledD(7)[OF S, of "unat ?t"] settledD(3)[OF S] lt by simp
  then have may: "mayEnqueue (seqOps E) (cell E q (slot_of (qcap q) (qstride q) (unat ?t))) (turn ?t (capacity q))"
    unfolding unat_turn by (rule may_now(1)[OF T])
  have notfull: "\<not> sint (capacity q) \<le> sint (?t - popTicket q)"
    using signed_fullness[OF S room] lt by simp
  have six: "(6::nat) = Suc (3 + 2)" "(6::nat) = Suc (Suc (Suc (3 + 0)))"
    by simp_all
  show "run_to tb cur E d 6 q (WBlocking v) (xs @ [v]) (Wrote True)"
    unfolding six(1) by (rule run_to_step[OF _ _ enq]) simp_all
  show "run_to tb cur E d 6 q (WReady ReadyLoad v) (xs @ [v]) (Wrote True)"
    unfolding six(2) using may
    by (intro run_to_step[where q' = q and c' = "WReady (ReadyCheck ?t) v"]
        run_to_step[where q' = q and c' = "WReady (ReadyCas ?t) v"] run_to_step[OF _ _ enq])
      (simp_all add: with_slot_room[OF wf room])
  show "run_to tb cur E d 6 q (WPromised timed PromLoad v) (xs @ [v]) (Wrote True)"
    unfolding six(2) using notfull
    by (intro run_to_step[where q' = q and c' = "WPromised timed (PromOther ?t) v"]
        run_to_step[where q' = q and c' = "WPromised timed (PromCas ?t) v"] run_to_step[OF _ _ enq]) simp_all
qed

lemma write_call_full:
  assumes S: "settled tb cur E q xs" and room: "unat (pushTicket q) < ticketRoom" and full: "length xs = qcap q"
  shows "run E d 6 q (WBlocking v) = Blocks"
    and "run_to tb cur E d 6 q (WReady ReadyLoad v) xs (Wrote False)"
    and "run_to tb cur E d 6 q (WPromised False PromLoad v) xs (Wrote False)"
    and "run E False 6 q (WPromised True PromLoad v) = Blocks"
    and "run_to tb cur E True 6 q (WPromised True PromLoad v) xs (Wrote False)"
proof -
  let ?t = "pushTicket q" and ?q = "q\<lparr>pushTicket := pushTicket q + 1\<rparr>"
  note wf = settledD(1)[OF S]
  note wait = full_wait[OF S full room]
  have isfull: "sint (capacity q) \<le> sint (?t - popTicket q)"
    using signed_fullness[OF S room] full by simp
  have six: "(6::nat) = Suc (Suc 4)" "(6::nat) = Suc (Suc (Suc 3))"
    by simp_all
  have wfq: "wf_queue E ?q"
    using wf by simp
  have b: "step E d ?q (Enqueueing ?t EnqWaitTurn v) = Blocks"
    using wait(2) by (simp add: with_slot_room[OF wfq room])
  show "run E d 6 q (WBlocking v) = Blocks"
    unfolding six(1) by (rule trans[OF run_step[where q' = ?q] run_blocks[OF _ b]]) simp_all
  show "run_to tb cur E d 6 q (WReady ReadyLoad v) xs (Wrote False)"
    unfolding six(2) using wait(1) S
    by (intro run_to_step[where q' = q and c' = "WReady (ReadyCheck ?t) v"]
        run_to_step[where q' = q and c' = "WReady (ReadyReload ?t) v"]
        run_to_step[where q' = q and c' = "WReturn False"] run_to_return)
      (simp_all add: with_slot_room[OF wf room])
  show "run_to tb cur E d 6 q (WPromised False PromLoad v) xs (Wrote False)"
    unfolding six(1) using isfull S
    by (intro run_to_step[where q' = q and c' = "WPromised False (PromOther ?t) v"]
        run_to_step[where q' = q and c' = "WReturn False"] run_to_return) simp_all
  have st: "step E d q (WPromised True PromLoad v) = Done (q, WPromised True (PromOther ?t) v)"
      "step E d q (WPromised True (PromOther ?t) v) = Done (q, WWaitTurn ?t v)" for d
    using isfull by simp_all
  have b2: "step E False q (WWaitTurn ?t v) = Blocks"
    using wait(3) by simp
  show "run E False 6 q (WPromised True PromLoad v) = Blocks"
    unfolding six(2)
    by (rule trans[OF run_step[OF _ st(1)] trans[OF run_step[OF _ st(2)] run_blocks[OF _ b2]]]) simp_all
  obtain q' where "waitForPushTurnUntil E True q ?t = Done (False, q')" "settled tb cur E q' xs"
    using wait(4) by blast
  then show "run_to tb cur E True 6 q (WPromised True PromLoad v) xs (Wrote False)"
    unfolding six(2)
    by (intro run_to_step[OF _ st(1)] run_to_step[OF _ st(2)]
        run_to_step[where q' = q' and c' = "WReturn False"] run_to_return) simp_all
qed

lemma read_call_item:
  assumes S: "settled tb cur E q (x # xs)" and room: "unat (pushTicket q) < ticketRoom"
  shows "run_to tb cur E d 6 q RBlocking xs (Got (Some x))"
    and "run_to tb cur E d 6 q (RReady ReadyLoad) xs (Got (Some x))"
    and "run_to tb cur E d 6 q (RPromised timed PromLoad) xs (Got (Some x))"
proof -
  let ?t = "popTicket q" and ?q = "q\<lparr>popTicket := popTicket q + 1\<rparr>"
  note T = settledD(2)[OF S] and wf = settledD(1)[OF S]
  note deq = dequeue_settled[OF S room, of d]
  have room': "unat ?t < ticketRoom"
    using room settledD(3)[OF S] by simp
  have "slot_turn tb cur (cell E q (slot_of (qcap q) (qstride q) (unat ?t))) (2 * round_of (qcap q) (unat ?t) + 1)"
    using settledD(5)[OF S, of "unat ?t"] settledD(3)[OF S] by simp
  then have may: "mayDequeue (seqOps E) (cell E q (slot_of (qcap q) (qstride q) (unat ?t))) (turn ?t (capacity q))"
    unfolding unat_turn by (rule may_now(2)[OF T])
  have some: "\<not> pushTicket q \<le> ?t"
    using settledD(3)[OF S] by (simp add: word_le_nat_alt)
  have six: "(6::nat) = Suc (3 + 2)" "(6::nat) = Suc (Suc (Suc (3 + 0)))"
    by simp_all
  show "run_to tb cur E d 6 q RBlocking xs (Got (Some x))"
    unfolding six(1) by (rule run_to_step[OF _ _ deq]) simp_all
  show "run_to tb cur E d 6 q (RReady ReadyLoad) xs (Got (Some x))"
    unfolding six(2) using may
    by (intro run_to_step[where q' = q and c' = "RReady (ReadyCheck ?t)"]
        run_to_step[where q' = q and c' = "RReady (ReadyCas ?t)"] run_to_step[OF _ _ deq])
      (simp_all add: with_slot_room[OF wf room'])
  show "run_to tb cur E d 6 q (RPromised timed PromLoad) xs (Got (Some x))"
    unfolding six(2) using some
    by (intro run_to_step[where q' = q and c' = "RPromised timed (PromOther ?t)"]
        run_to_step[where q' = q and c' = "RPromised timed (PromCas ?t)"] run_to_step[OF _ _ deq]) simp_all
qed

lemma read_call_empty:
  assumes S: "settled tb cur E q []" and room: "unat (pushTicket q) < ticketRoom"
  shows "run E d 6 q RBlocking = Blocks"
    and "run_to tb cur E d 6 q (RReady ReadyLoad) [] (Got None)"
    and "run_to tb cur E d 6 q (RPromised False PromLoad) [] (Got None)"
    and "run E False 6 q (RPromised True PromLoad) = Blocks"
    and "run_to tb cur E True 6 q (RPromised True PromLoad) [] (Got None)"
proof -
  let ?t = "popTicket q" and ?q = "q\<lparr>popTicket := popTicket q + 1\<rparr>"
  note wf = settledD(1)[OF S]
  note wait = empty_wait[OF S room]
  have room': "unat ?t < ticketRoom"
    using room settledD(3)[OF S] by simp
  have none: "pushTicket q \<le> ?t"
    using settledD(3)[OF S] by (simp add: word_le_nat_alt)
  have six: "(6::nat) = Suc (Suc 4)" "(6::nat) = Suc (Suc (Suc 3))"
    by simp_all
  have wfq: "wf_queue E ?q"
    using wf by simp
  have b: "step E d ?q (Dequeueing ?t DeqWaitTurn) = Blocks"
    using wait(2) by (simp add: with_slot_room[OF wfq room'])
  show "run E d 6 q RBlocking = Blocks"
    unfolding six(1) by (rule trans[OF run_step[where q' = ?q] run_blocks[OF _ b]]) simp_all
  show "run_to tb cur E d 6 q (RReady ReadyLoad) [] (Got None)"
    unfolding six(2) using wait(1) S
    by (intro run_to_step[where q' = q and c' = "RReady (ReadyCheck ?t)"]
        run_to_step[where q' = q and c' = "RReady (ReadyReload ?t)"]
        run_to_step[where q' = q and c' = "RReturn None"] run_to_return)
      (simp_all add: with_slot_room[OF wf room'])
  show "run_to tb cur E d 6 q (RPromised False PromLoad) [] (Got None)"
    unfolding six(1) using none S
    by (intro run_to_step[where q' = q and c' = "RPromised False (PromOther ?t)"]
        run_to_step[where q' = q and c' = "RReturn None"] run_to_return) simp_all
  have st: "step E d q (RPromised True PromLoad) = Done (q, RPromised True (PromOther ?t))"
      "step E d q (RPromised True (PromOther ?t)) = Done (q, RWaitTurn ?t)" for d
    using none by simp_all
  have b2: "step E False q (RWaitTurn ?t) = Blocks"
    using wait(3) by simp
  show "run E False 6 q (RPromised True PromLoad) = Blocks"
    unfolding six(2)
    by (rule trans[OF run_step[OF _ st(1)] trans[OF run_step[OF _ st(2)] run_blocks[OF _ b2]]]) simp_all
  obtain q' where "waitForPopTurnUntil E True q ?t = Done (False, q')" "settled tb cur E q' []"
    using wait(4) by blast
  then show "run_to tb cur E True 6 q (RPromised True PromLoad) [] (Got None)"
    unfolding six(2)
    by (intro run_to_step[OF _ st(1)] run_to_step[OF _ st(2)]
        run_to_step[where q' = q' and c' = "RReturn None"] run_to_return) simp_all
qed

lemma call_refines:
  assumes S: "settled tb cur E q xs" and room: "unat (pushTicket q) < ticketRoom"
  shows "case list_call (qcap q) d xs c of
       Done (xs', res) \<Rightarrow> run_to tb cur E d 6 q (enter c) xs' res
     | Blocks \<Rightarrow> run E d 6 q (enter c) = Blocks
     | Undefined \<Rightarrow> False"
proof (cases "length xs < qcap q")
  case True
  then show ?thesis
    using write_call_room[OF S room] read_call_item[of tb cur E q _ _ d] read_call_empty[of tb cur E q] S room
    by (cases c; cases d; cases xs) auto
next
  case False
  then have "length xs = qcap q"
    using settledD(4)[OF S] by simp
  with wf_queueD(1)[OF settledD(1)[OF S]] show ?thesis
    using write_call_full[OF S room] read_call_item[of tb cur E q _ _ d] S room
    by (cases c; cases d; cases xs) auto
qed

section \<open>Sequences of calls\<close>

fun run_calls :: "'ts mpmc_env \<Rightarrow> bool \<Rightarrow> ('ts, 'a) MPMCQueue \<Rightarrow> 'a call list \<Rightarrow> 'a result list outcome" where
  "run_calls E d q [] = Done []"
| "run_calls E d q (c # cs) =
     bind_outcome (run E d 6 q (enter c)) (\<lambda>r. case r of
         None \<Rightarrow> Undefined
       | Some (q', c') \<Rightarrow> (case result_of c' of
             None \<Rightarrow> Undefined
           | Some res \<Rightarrow> bind_outcome (run_calls E d q' cs) (\<lambda>rs. Done (res # rs))))"

fun list_calls :: "nat \<Rightarrow> bool \<Rightarrow> 'a list \<Rightarrow> 'a call list \<Rightarrow> 'a result list outcome" where
  "list_calls cap d xs [] = Done []"
| "list_calls cap d xs (c # cs) =
     bind_outcome (list_call cap d xs c) (\<lambda>(xs', res).
     bind_outcome (list_calls cap d xs' cs) (\<lambda>rs. Done (res # rs)))"

lemma unat_plus_one_le: "unat (x + 1 :: u64) \<le> unat x + 1"
  using mod_less_eq_dividend[of "unat x + 1" "2 ^ 64"] by (simp add: unat_word_ariths)

lemma step_bounds:
  assumes "step E d q c = Done (q', c')"
  shows "unat (pushTicket q') \<le> unat (pushTicket q) + 1 \<and> capacity q' = capacity q"
proof -
  have le: "unat (x + 1) \<le> Suc (unat x)" for x :: u64
    using unat_plus_one_le[of x] by simp
  have ready: "tryObtainReadyPushTicket E q c = Done (q', c') \<Longrightarrow> ?thesis"
    "tryObtainReadyPopTicket E q c = Done (q', c') \<Longrightarrow> ?thesis" for c c'
    using le by (cases c; auto simp: with_slot_def Let_def split: if_splits)+
  have prom: "tryObtainPromisedPushTicket q c = (q', c') \<Longrightarrow> ?thesis"
    "tryObtainPromisedPopTicket q c = (q', c') \<Longrightarrow> ?thesis" for c c'
    using le by (cases c; auto simp: Let_def split: if_splits)+
  have enq: "enqueueWithTicketBase E q t v c = Done (q', c') \<Longrightarrow> ?thesis" for t v c c'
    by (cases c) (auto simp: with_slot_def bind_outcome_Done_iff split: if_splits)
  have deq: "dequeueWithTicketBase E q t c = Done (q', c') \<Longrightarrow> ?thesis" for t c c'
    by (cases c) (auto simp: with_slot_def bind_outcome_Done_iff split: if_splits)
  show ?thesis
    using assms le
    by (cases c) (auto simp: bind_outcome_Done_iff waitForPushTurnUntil_def waitForPopTurnUntil_def with_slot_def
        split: prod.splits if_splits dest: ready prom enq deq)
qed

lemma run_bounds:
  assumes "run E d n q c = Done (Some (q', c'))"
  shows "unat (pushTicket q') \<le> unat (pushTicket q) + n \<and> capacity q' = capacity q"
  using assms
proof (induction n arbitrary: q c)
  case 0
  then show ?case
    by (auto simp: run.simps split: if_splits)
next
  case (Suc n)
  show ?case
  proof (cases "returned c")
    case True
    with Suc.prems show ?thesis
      by (simp add: run.simps)
  next
    case False
    with Suc.prems obtain q1 c1 where "step E d q c = Done (q1, c1)" "run E d n q1 c1 = Done (Some (q', c'))"
      by (auto simp: run.simps[of E d "Suc n"] bind_outcome_Done_iff)
    with Suc.IH[of q1 c1] step_bounds[of E d q c q1 c1] show ?thesis
      by simp
  qed
qed

lemma run_calls_refines:
  assumes "settled tb cur E q xs" "unat (pushTicket q) + 6 * length cs \<le> ticketRoom"
  shows "run_calls E d q cs = list_calls (qcap q) d xs cs"
  using assms
proof (induction cs arbitrary: q xs)
  case (Cons c cs)
  have room: "unat (pushTicket q) < ticketRoom"
    using Cons.prems(2) by simp
  note ref = call_refines[OF Cons.prems(1) room, of d c]
  show ?case
  proof (cases "list_call (qcap q) d xs c")
    case (Done p)
    obtain xs' res where p: "p = (xs', res)"
      by fastforce
    obtain q' c' where r: "run E d 6 q (enter c) = Done (Some (q', c'))" "result_of c' = Some res"
        "settled tb cur E q' xs'"
      using ref Done p by (auto simp: run_to_def)
    have "run_calls E d q' cs = list_calls (qcap q') d xs' cs"
      using Cons.IH[OF r(3)] run_bounds[OF r(1)] Cons.prems(2) by simp
    with r p Done run_bounds[OF r(1)] show ?thesis
      by simp
  qed (use ref in simp_all)
qed simp

text \<open>C6. A queue of any capacity used by one thread at a time is a bounded FIFO queue: on every
  sequence of calls of its public operations it returns what a list bounded by the capacity
  returns, call by call: reads deliver the oldest value, non-blocking operations fail exactly on a
  full or an empty queue, blocking operations block exactly there, and timed ones block there until
  the deadline. The sequencer satisfies its contract, and the number of calls stays far below the
  point where \<open>ticket * stride\<close> wraps.\<close>

theorem mpmc_calls_refine_list_queue:
  assumes "newMPMCQueue E cap = Inr q" "unat cap + 2 * unat (slotPadding E) < 2 ^ 63"
    and "turn_contract tb (seqOps E) cur" "6 * length cs \<le> 2 ^ 58"
  shows "run_calls E d q cs = list_calls (unat cap) d [] cs"
  using run_calls_refines[OF settled_new[OF assms(1-3)], of cs d] newMPMCQueue_wf[OF assms(1,2)] assms(4)
  by (simp add: ticketRoom_def)

definition counting_env :: "u32 mpmc_env" where
  "counting_env = \<lparr>seqOps = counting_ops, slotPadding = 2\<rparr>"

theorem mpmc_calls_refine_list_queue_witness:
  "case newMPMCQueue counting_env 2 of
     Inl e \<Rightarrow> False
   | Inr q \<Rightarrow> run_calls counting_env True q
       [Write (5::int), BlockingWrite 6, WriteIfNotFull 7, TryWriteUntil 8, Read, ReadIfNotEmpty, TryReadUntil]
     = Done [Wrote True, Wrote True, Wrote False, Wrote False, Got (Some 5), Got (Some 6), Got None]"
proof -
  obtain q :: "(u32, int) MPMCQueue" where q: "newMPMCQueue counting_env 2 = Inr q"
    by (simp add: newMPMCQueue_def)
  have "run_calls counting_env True q
       [Write (5::int), BlockingWrite 6, WriteIfNotFull 7, TryWriteUntil 8, Read, ReadIfNotEmpty, TryReadUntil]
     = list_calls (unat (2 :: u64)) True []
       [Write (5::int), BlockingWrite 6, WriteIfNotFull 7, TryWriteUntil 8, Read, ReadIfNotEmpty, TryReadUntil]"
    using counting_contract
    by (intro mpmc_calls_refine_list_queue[OF q, where tb = 32 and cur = id]) (simp_all add: counting_env_def)
  with q show ?thesis
    by simp
qed

section \<open>The snapshot taken by size\<close>

text \<open>The values loaded by \<open>size()\<close> at the given times, when \<open>push\<close> and \<open>pop\<close> are the
  values of the two counters over time: the loads alternate between the two.\<close>

fun loads_at :: "(nat \<Rightarrow> u64) \<Rightarrow> (nat \<Rightarrow> u64) \<Rightarrow> nat list \<Rightarrow> u64 list" where
  "loads_at push pop (a # b # ts) = push a # pop b # loads_at push pop ts"
| "loads_at push pop [a] = [push a]"
| "loads_at push pop [] = []"

lemma bracketed:
  fixes f :: "nat \<Rightarrow> u64"
  assumes "\<And>s t. s \<le> t \<Longrightarrow> f s \<le> f t" "a \<le> b" "b \<le> c" "f a = f c"
  shows "f b = f a"
  using assms(1)[OF assms(2)] assms(1)[OF assms(3)] assms(4) by auto

lemma size_loop_snapshot:
  fixes push pop :: "nat \<Rightarrow> u64"
  assumes "\<And>s t. s \<le> t \<Longrightarrow> push s \<le> push t" "\<And>s t. s \<le> t \<Longrightarrow> pop s \<le> pop t"
    and "\<And>t. unat (push t) < 2 ^ 63" "\<And>t. unat (pop t) < 2 ^ 63"
    and "sorted (a # b # ts)" "size_loop (push a) (pop b) (loads_at push pop ts) = Some n"
  shows "\<exists>\<tau>. a \<le> \<tau> \<and> \<tau> \<le> last (a # b # ts) \<and> n = int (unat (push \<tau>)) - int (unat (pop \<tau>))"
  using assms(5,6)
proof (induction ts arbitrary: a b rule: induct_list012)
  case 1
  then show ?case by simp
next
  case (2 c)
  then have "push b = push a" "n = sint (push a - pop b)"
    using bracketed[of push a b c, OF assms(1)] by (auto split: if_splits)
  then have "n = int (unat (push b)) - int (unat (pop b))"
    using u64_diff_sint[OF assms(3,4)] by simp
  with "2.prems"(1) show ?case
    by (intro exI[of _ b]) simp
next
  case (3 c d ts)
  have ord: "a \<le> b" "b \<le> c" "c \<le> d" "\<forall>t \<in> set ts. d \<le> t" "sorted ts"
    using "3.prems"(1) by auto
  have last: "d \<le> last (d # ts)"
    using ord(4) by auto
  consider (push) "push a = push c" | (pop) "push a \<noteq> push c" "pop b = pop d"
    | (again) "push a \<noteq> push c" "pop b \<noteq> pop d"
    by blast
  then show ?case
  proof cases
    case push
    then have "push b = push a" "n = sint (push a - pop b)"
      using bracketed[of push a b c, OF assms(1)] ord "3.prems"(2) by auto
    then have "n = int (unat (push b)) - int (unat (pop b))"
      using u64_diff_sint[OF assms(3,4)] by simp
    with ord last show ?thesis
      by (intro exI[of _ b]) auto
  next
    case pop
    then have "pop c = pop b" "n = sint (push c - pop b)"
      using bracketed[of pop b c d, OF assms(2)] ord "3.prems"(2) by auto
    then have "n = int (unat (push c)) - int (unat (pop c))"
      using u64_diff_sint[OF assms(3,4)] by simp
    with ord last show ?thesis
      by (intro exI[of _ c]) auto
  next
    case again
    then have "size_loop (push c) (pop d) (loads_at push pop ts) = Some n"
      using "3.prems"(2) by simp
    moreover have "sorted (c # d # ts)"
      using ord by fastforce
    ultimately obtain \<tau> where "c \<le> \<tau>" "\<tau> \<le> last (c # d # ts)" "n = int (unat (push \<tau>)) - int (unat (pop \<tau>))"
      using "3.IH"(1)[of c d] by blast
    with ord show ?thesis
      by (intro exI[of _ \<tau>]) auto
  qed
qed

text \<open>C12. Whatever other threads do to the two counters between its loads, as long as the counters
  only grow and stay below \<open>2 ^ 63\<close>, a value returned by \<open>size()\<close> is the exact difference of
  the two counters at one instant between its first and its last load.\<close>

theorem size_is_a_snapshot:
  fixes push pop :: "nat \<Rightarrow> u64"
  assumes "\<And>s t. s \<le> t \<Longrightarrow> push s \<le> push t" "\<And>s t. s \<le> t \<Longrightarrow> pop s \<le> pop t"
    and "\<And>t. unat (push t) < 2 ^ 63" "\<And>t. unat (pop t) < 2 ^ 63"
    and "sorted ts" "mpmc_size (loads_at push pop ts) = Some n"
  shows "\<exists>\<tau>. hd ts \<le> \<tau> \<and> \<tau> \<le> last ts \<and> n = int (unat (push \<tau>)) - int (unat (pop \<tau>))"
proof -
  obtain a b ts' where ts: "ts = a # b # ts'"
    using assms(6) by (cases "(push, pop, ts)" rule: loads_at.cases) auto
  then show ?thesis
    using size_loop_snapshot[of push pop a b ts' n, OF assms(1-4)] assms(5,6) by simp
qed

text \<open>Witness of C12: pushes race with the first loads; the size 3 is that of the third load.\<close>

theorem size_is_a_snapshot_witness:
  "\<exists>\<tau>. 0 \<le> \<tau> \<and> \<tau> \<le> (4::nat) \<and> (3::int) = int (unat (of_nat (min \<tau> 4) :: u64)) - int (unat ((if 5 \<le> \<tau> then 1 else 0) :: u64))"
proof -
  have small: "unat (of_nat (min \<tau> 4) :: u64) = min \<tau> 4" for \<tau> :: nat
    by (rule unat_of_nat_small) (simp add: min_def)
  have "\<exists>\<tau>. hd [0, 1, 3, 4 :: nat] \<le> \<tau> \<and> \<tau> \<le> last [0, 1, 3, 4 :: nat] \<and>
      (3::int) = int (unat (of_nat (min \<tau> 4) :: u64)) - int (unat ((if 5 \<le> \<tau> then 1 else 0) :: u64))"
  proof (rule size_is_a_snapshot)
    show "(of_nat (min s 4) :: u64) \<le> of_nat (min t 4)" if "s \<le> t" for s t :: nat
      unfolding word_le_nat_alt small using that by (simp add: min_def)
    show "((if 5 \<le> s then 1 else 0) :: u64) \<le> (if 5 \<le> t then 1 else 0)" if "s \<le> t" for s t :: nat
      using that by simp
    show "unat (of_nat (min t 4) :: u64) < 2 ^ 63" for t :: nat
      unfolding small by (simp add: min_def)
    show "unat ((if 5 \<le> t then 1 else 0) :: u64) < 2 ^ 63" for t :: nat
      by simp
    show "mpmc_size (loads_at (\<lambda>t. of_nat (min t 4)) (\<lambda>t. if 5 \<le> t then 1 else 0) [0, 1, 3, 4]) = Some 3"
      by (simp add: min_def)
  qed simp
  then show ?thesis
    by simp
qed

end
