(* ===== verification/TicketRing.thy ===== *)
theory TicketRing
  imports Tickets
begin

text \<open>
  The abstract specification of \<open>MPMCQueue\<close>: a ring of cells, two ticket dispensers and, per
  cell, a count of completed turns, all on unbounded numbers. Any number of threads take tickets,
  wait for the turn of their ticket, write or read the cell and complete the turn, in any
  interleaving; the history of written values (by push ticket) and of delivered values (by pop
  ticket) is part of the state. The invariant proved here by rule induction says that the pop with
  ticket \<open>t\<close> receives exactly the value pushed with ticket \<open>t\<close>. \<open>MPMCConcurrent\<close> shows
  that the code simulates this machine.
\<close>

section \<open>The machine\<close>

text \<open>What a thread is doing: the ticket it holds and how far it is with the cell.\<close>

datatype 'a stage =
    Free
  | EnqWait nat 'a    \<comment> \<open>holds a push ticket, waits for the cell's turn\<close>
  | EnqHold nat 'a    \<comment> \<open>its turn: about to construct the value\<close>
  | EnqFull nat 'a    \<comment> \<open>value constructed, turn not yet completed\<close>
  | DeqWait nat
  | DeqHold nat
  | DeqEmpty nat 'a   \<comment> \<open>value moved out, turn not yet completed\<close>

record 'a ring =
  rcap :: nat
  rstride :: nat
  pushes :: nat
  pops :: nat
  turns :: "nat \<Rightarrow> nat"
  cells :: "nat \<Rightarrow> 'a option"
  stages :: "nat \<Rightarrow> 'a stage"
  written :: "'a list"
  taken :: "(nat \<times> 'a) list"

abbreviation rslot :: "('a, 'z) ring_scheme \<Rightarrow> nat \<Rightarrow> nat" where
  "rslot r t \<equiv> slot_of (rcap r) (rstride r) t"

abbreviation rround :: "('a, 'z) ring_scheme \<Rightarrow> nat \<Rightarrow> nat" where
  "rround r t \<equiv> round_of (rcap r) t"

definition ring_init :: "nat \<Rightarrow> nat \<Rightarrow> 'a ring" where
  "ring_init cap stride = \<lparr>rcap = cap, rstride = stride, pushes = 0, pops = 0, turns = (\<lambda>_. 0),
     cells = (\<lambda>_. None), stages = (\<lambda>_. Free), written = [], taken = []\<rparr>"

inductive ring_step :: "'a ring \<Rightarrow> 'a ring \<Rightarrow> bool" where
  take_push: "stages r i = Free \<Longrightarrow>
     ring_step r (r\<lparr>pushes := pushes r + 1, stages := (stages r)(i := EnqWait (pushes r) v),
                    written := written r @ [v]\<rparr>)"
| enq_start: "stages r i = EnqWait t v \<Longrightarrow> turns r (rslot r t) = 2 * rround r t \<Longrightarrow>
     ring_step r (r\<lparr>stages := (stages r)(i := EnqHold t v)\<rparr>)"
| enq_write: "stages r i = EnqHold t v \<Longrightarrow>
     ring_step r (r\<lparr>cells := (cells r)(rslot r t := Some v), stages := (stages r)(i := EnqFull t v)\<rparr>)"
| enq_done: "stages r i = EnqFull t v \<Longrightarrow>
     ring_step r (r\<lparr>turns := (turns r)(rslot r t := turns r (rslot r t) + 1),
                    stages := (stages r)(i := Free)\<rparr>)"
| take_pop: "stages r i = Free \<Longrightarrow>
     ring_step r (r\<lparr>pops := pops r + 1, stages := (stages r)(i := DeqWait (pops r))\<rparr>)"
| deq_start: "stages r i = DeqWait t \<Longrightarrow> turns r (rslot r t) = 2 * rround r t + 1 \<Longrightarrow>
     ring_step r (r\<lparr>stages := (stages r)(i := DeqHold t)\<rparr>)"
| deq_read: "stages r i = DeqHold t \<Longrightarrow> cells r (rslot r t) = Some v \<Longrightarrow>
     ring_step r (r\<lparr>cells := (cells r)(rslot r t := None), stages := (stages r)(i := DeqEmpty t v)\<rparr>)"
| deq_done: "stages r i = DeqEmpty t v \<Longrightarrow>
     ring_step r (r\<lparr>turns := (turns r)(rslot r t := turns r (rslot r t) + 1),
                    stages := (stages r)(i := Free), taken := taken r @ [(t, v)]\<rparr>)"

section \<open>One side of the ring\<close>

text \<open>
  Pushes and pops obey the same discipline: the side with parity \<open>b\<close> (0 for pushes, 1 for pops)
  uses the turns \<open>2 * round + b\<close> of a cell. \<open>hold i\<close> is the ticket thread \<open>i\<close> holds, \<open>act i\<close>
  says that its turn has come, \<open>n\<close> is the number of tickets issued and \<open>tn\<close> counts the
  completed turns of each cell.
\<close>

definition side_inv ::
  "nat \<Rightarrow> nat \<Rightarrow> nat \<Rightarrow> (nat \<Rightarrow> nat option) \<Rightarrow> (nat \<Rightarrow> bool) \<Rightarrow> nat \<Rightarrow> (nat \<Rightarrow> nat) \<Rightarrow> bool" where
  "side_inv cap stride b hold act n tn \<longleftrightarrow>
     (\<forall>i t. hold i = Some t \<longrightarrow> t < n \<and> tn (slot_of cap stride t) \<le> 2 * round_of cap t + b) \<and>
     (\<forall>i t. hold i = Some t \<longrightarrow> act i \<longrightarrow> tn (slot_of cap stride t) = 2 * round_of cap t + b) \<and>
     (\<forall>t < n. tn (slot_of cap stride t) \<le> 2 * round_of cap t + b \<longrightarrow> (\<exists>i. hold i = Some t)) \<and>
     (\<forall>t \<ge> n. tn (slot_of cap stride t) \<le> 2 * round_of cap t + b) \<and>
     (\<forall>i k t. hold i = Some t \<longrightarrow> hold k = Some t \<longrightarrow> i = k)"

lemma side_invD:
  assumes "side_inv cap stride b hold act n tn"
  shows "hold i = Some t \<Longrightarrow> t < n"
    and "hold i = Some t \<Longrightarrow> tn (slot_of cap stride t) \<le> 2 * round_of cap t + b"
    and "hold i = Some t \<Longrightarrow> act i \<Longrightarrow> tn (slot_of cap stride t) = 2 * round_of cap t + b"
    and "t < n \<Longrightarrow> tn (slot_of cap stride t) \<le> 2 * round_of cap t + b \<Longrightarrow> \<exists>i. hold i = Some t"
    and "n \<le> t \<Longrightarrow> tn (slot_of cap stride t) \<le> 2 * round_of cap t + b"
    and "hold i = Some t \<Longrightarrow> hold k = Some t \<Longrightarrow> i = k"
  using assms unfolding side_inv_def by blast+

lemma slot_round_cases:
  assumes "coprime stride cap" "slot_of cap stride a = slot_of cap stride b" "a \<noteq> b"
  shows "round_of cap a < round_of cap b \<or> round_of cap b < round_of cap a"
  using slot_round_inj[OF assms(1,2)] assms(3) by (metis nat_neq_iff)

lemma side_inv_take:
  assumes S: "side_inv cap stride b hold act n tn" and "hold i = None" "\<not> act i"
  shows "side_inv cap stride b (hold(i := Some n)) act (Suc n) tn"
proof -
  have ex: "\<exists>k. (hold(i := Some n)) k = Some t"
    if lt: "t < Suc n" and le: "tn (slot_of cap stride t) \<le> 2 * round_of cap t + b" for t
  proof (cases "t = n")
    case False
    with lt side_invD(4)[OF S _ le] obtain k where "hold k = Some t"
      by auto
    with assms(2) show ?thesis
      by (intro exI[of _ k]) auto
  qed auto
  have fresh: "hold k \<noteq> Some n" for k
    using side_invD(1)[OF S, of k n] by auto
  show ?thesis
    unfolding side_inv_def
    using ex fresh side_invD(1,2,3,5,6)[OF S] assms(3)
    by (auto simp: less_Suc_eq intro: less_imp_le)
qed

lemma side_inv_start:
  assumes "side_inv cap stride b hold act n tn"
    and "hold i = Some t" "tn (slot_of cap stride t) = 2 * round_of cap t + b"
  shows "side_inv cap stride b hold (act(i := True)) n tn"
  using assms unfolding side_inv_def by (auto split: if_splits)

text \<open>Completing a turn: for the side that owns it, and for the other side.\<close>

lemma side_inv_done:
  assumes S: "side_inv cap stride b hold act n tn" and cop: "coprime stride cap"
    and i: "hold i = Some t" "act i"
  shows "side_inv cap stride b (hold(i := None)) (act(i := False)) n
           (tn(slot_of cap stride t := tn (slot_of cap stride t) + 1))"
proof -
  let ?tn = "tn(slot_of cap stride t := tn (slot_of cap stride t) + 1)"
  have now: "tn (slot_of cap stride t) = 2 * round_of cap t + b"
    by (rule side_invD(3)[OF S i])
  have le: "?tn (slot_of cap stride u) \<le> 2 * round_of cap u + b"
    if "u \<noteq> t" "tn (slot_of cap stride u) \<le> 2 * round_of cap u + b" for u
    using that now slot_round_cases[OF cop, of u t] by auto
  have prev: "tn (slot_of cap stride u) \<le> 2 * round_of cap u + b \<and> u \<noteq> t"
    if "?tn (slot_of cap stride u) \<le> 2 * round_of cap u + b" for u
    using that now by (auto split: if_splits)
  have other: "hold k = Some u \<Longrightarrow> k \<noteq> i \<Longrightarrow> u \<noteq> t" for k u
    using side_invD(6)[OF S i(1), of k] by auto
  have eq: "?tn (slot_of cap stride u) = 2 * round_of cap u + b"
    if "hold k = Some u" "act k" "k \<noteq> i" for k u
    using side_invD(3)[OF S that(1,2)] le[OF other[OF that(1,3)]] by (auto split: if_splits)
  have ex: "\<exists>k. k \<noteq> i \<and> hold k = Some u"
    if lt: "u < n" and u: "?tn (slot_of cap stride u) \<le> 2 * round_of cap u + b" for u
  proof -
    obtain k where k: "hold k = Some u"
      using side_invD(4)[OF S lt] prev[OF u] by blast
    with prev[OF u] i(1) show ?thesis
      by (intro exI[of _ k]) auto
  qed
  have beyond: "n \<le> u \<Longrightarrow> ?tn (slot_of cap stride u) \<le> 2 * round_of cap u + b" for u
    using le side_invD(1)[OF S i(1)] side_invD(5)[OF S, of u] by auto
  have h: "(hold(i := None)) k = Some u \<longleftrightarrow> k \<noteq> i \<and> hold k = Some u"
    and a: "(act(i := False)) k \<longleftrightarrow> k \<noteq> i \<and> act k" for k u
    by auto
  show ?thesis
    unfolding side_inv_def h a
  proof (intro conjI allI impI)
    fix k u assume ku: "k \<noteq> i \<and> hold k = Some u"
    with side_invD(1)[OF S] show "u < n" by blast
    from ku show "?tn (slot_of cap stride u) \<le> 2 * round_of cap u + b"
      using le[OF other] side_invD(2)[OF S] by blast
    assume "k \<noteq> i \<and> act k"
    with ku eq show "?tn (slot_of cap stride u) = 2 * round_of cap u + b" by blast
  next
    fix k l u assume "k \<noteq> i \<and> hold k = Some u" "l \<noteq> i \<and> hold l = Some u"
    with side_invD(6)[OF S] show "k = l" by blast
  qed (use ex beyond in blast)+
qed

lemma side_inv_other:
  assumes S: "side_inv cap stride b hold act n tn"
    and b: "b \<le> 1" "b' \<le> 1" "b \<noteq> b'"
    and now: "tn (slot_of cap stride t) = 2 * round_of cap t + b'"
  shows "side_inv cap stride b hold act n (tn(slot_of cap stride t := tn (slot_of cap stride t) + 1))"
proof -
  let ?tn = "tn(slot_of cap stride t := tn (slot_of cap stride t) + 1)"
  have iff: "?tn (slot_of cap stride u) \<le> 2 * round_of cap u + b
      \<longleftrightarrow> tn (slot_of cap stride u) \<le> 2 * round_of cap u + b" for u
    using now b by (auto simp: le_Suc_eq) presburger+
  have "?tn (slot_of cap stride u) = 2 * round_of cap u + b"
    if "tn (slot_of cap stride u) = 2 * round_of cap u + b" for u
    using that now b by (auto split: if_splits) presburger+
  with S show ?thesis
    unfolding side_inv_def iff by blast
qed

section \<open>The invariant\<close>

text \<open>The push and the pop ticket a thread holds, and whether their turn has come.\<close>

fun enqT :: "'a stage \<Rightarrow> nat option" where
  "enqT (EnqWait t v) = Some t"
| "enqT (EnqHold t v) = Some t"
| "enqT (EnqFull t v) = Some t"
| "enqT _ = None"

fun deqT :: "'a stage \<Rightarrow> nat option" where
  "deqT (DeqWait t) = Some t"
| "deqT (DeqHold t) = Some t"
| "deqT (DeqEmpty t v) = Some t"
| "deqT _ = None"

fun enqAct :: "'a stage \<Rightarrow> bool" where
  "enqAct (EnqHold t v) = True"
| "enqAct (EnqFull t v) = True"
| "enqAct _ = False"

fun deqAct :: "'a stage \<Rightarrow> bool" where
  "deqAct (DeqHold t) = True"
| "deqAct (DeqEmpty t v) = True"
| "deqAct _ = False"

text \<open>The value a stage carries and the ticket it belongs to.\<close>

fun stageV :: "'a stage \<Rightarrow> (nat \<times> 'a) option" where
  "stageV (EnqWait t v) = Some (t, v)"
| "stageV (EnqHold t v) = Some (t, v)"
| "stageV (EnqFull t v) = Some (t, v)"
| "stageV (DeqEmpty t v) = Some (t, v)"
| "stageV _ = None"

definition push_side :: "('a, 'z) ring_scheme \<Rightarrow> bool" where
  "push_side r \<longleftrightarrow> side_inv (rcap r) (rstride r) 0 (enqT \<circ> stages r) (enqAct \<circ> stages r)
     (pushes r) (turns r)"

definition pop_side :: "('a, 'z) ring_scheme \<Rightarrow> bool" where
  "pop_side r \<longleftrightarrow> side_inv (rcap r) (rstride r) 1 (deqT \<circ> stages r) (deqAct \<circ> stages r)
     (pops r) (turns r)"

definition value_inv :: "('a, 'z) ring_scheme \<Rightarrow> bool" where
  "value_inv r \<longleftrightarrow> length (written r) = pushes r \<and>
     (\<forall>i t v. stageV (stages r i) = Some (t, v) \<longrightarrow> t < pushes r \<and> v = written r ! t)"

text \<open>
  The contents of a cell in terms of two predicates on the stages: the push with ticket \<open>t\<close> has
  written but not completed, the pop with ticket \<open>t\<close> has read but not completed.
\<close>

definition filled :: "(nat \<Rightarrow> 'a stage) \<Rightarrow> nat \<Rightarrow> bool" where
  "filled st t \<longleftrightarrow> (\<exists>i v. st i = EnqFull t v)"

definition emptied :: "(nat \<Rightarrow> 'a stage) \<Rightarrow> nat \<Rightarrow> bool" where
  "emptied st t \<longleftrightarrow> (\<exists>i v. st i = DeqEmpty t v)"

text \<open>The cell of ticket \<open>t\<close>: empty before its push has written, full until its pop has read.\<close>

definition cell_ok :: "('a, 'z) ring_scheme \<Rightarrow> nat \<Rightarrow> bool" where
  "cell_ok r t \<longleftrightarrow>
     (turns r (rslot r t) = 2 * rround r t \<longrightarrow>
        cells r (rslot r t) = (if filled (stages r) t then Some (written r ! t) else None)) \<and>
     (turns r (rslot r t) = 2 * rround r t + 1 \<longrightarrow>
        cells r (rslot r t) = (if emptied (stages r) t then None else Some (written r ! t)))"

definition cell_inv :: "('a, 'z) ring_scheme \<Rightarrow> bool" where
  "cell_inv r \<longleftrightarrow> (\<forall>t. cell_ok r t)"

definition history_inv :: "('a, 'z) ring_scheme \<Rightarrow> bool" where
  "history_inv r \<longleftrightarrow>
     distinct (map fst (taken r)) \<and>
     (\<forall>(t, v) \<in> set (taken r). t < pushes r \<and> v = written r ! t) \<and>
     fst ` set (taken r) = {t. 2 * rround r t + 1 < turns r (rslot r t)}"

definition ring_ok :: "('a, 'z) ring_scheme \<Rightarrow> bool" where
  "ring_ok r \<longleftrightarrow> 0 < rcap r \<and> coprime (rstride r) (rcap r)"

definition ring_inv :: "('a, 'z) ring_scheme \<Rightarrow> bool" where
  "ring_inv r \<longleftrightarrow> ring_ok r \<and> push_side r \<and> pop_side r \<and> value_inv r \<and> cell_inv r \<and> history_inv r"

lemma ring_inv_init: "0 < cap \<Longrightarrow> coprime stride cap \<Longrightarrow> ring_inv (ring_init cap stride)"
  by (simp add: ring_inv_def ring_ok_def push_side_def pop_side_def side_inv_def value_inv_def
      cell_inv_def cell_ok_def filled_def history_inv_def ring_init_def)

section \<open>Every step keeps the invariant\<close>

lemmas side_defs = push_side_def pop_side_def fun_upd_comp

lemma sides_step:
  assumes "ring_step r r'" "ring_ok r" "push_side r" "pop_side r"
  shows "push_side r' \<and> pop_side r'"
  using assms
proof (cases rule: ring_step.cases)
  case (take_push i v)
  with assms show ?thesis
    using side_inv_take[of "rcap r" "rstride r" 0 "enqT \<circ> stages r" "enqAct \<circ> stages r"
        "pushes r" "turns r" i]
    by (simp add: side_defs fun_upd_idem)
next
  case (take_pop i)
  with assms show ?thesis
    using side_inv_take[of "rcap r" "rstride r" 1 "deqT \<circ> stages r" "deqAct \<circ> stages r"
        "pops r" "turns r" i]
    by (simp add: side_defs fun_upd_idem)
next
  case (enq_start i t v)
  with assms show ?thesis
    using side_inv_start[of "rcap r" "rstride r" 0 "enqT \<circ> stages r" "enqAct \<circ> stages r"
        "pushes r" "turns r" i t]
    by (simp add: side_defs fun_upd_idem)
next
  case (deq_start i t)
  with assms show ?thesis
    using side_inv_start[of "rcap r" "rstride r" 1 "deqT \<circ> stages r" "deqAct \<circ> stages r"
        "pops r" "turns r" i t]
    by (simp add: side_defs fun_upd_idem)
next
  case (enq_done i t v)
  with assms have now: "turns r (rslot r t) = 2 * rround r t"
    using side_invD(3)[of "rcap r" "rstride r" 0 "enqT \<circ> stages r" _ _ _ i t]
    by (auto simp: push_side_def)
  have cop: "coprime (rstride r) (rcap r)"
    using assms(2) by (simp add: ring_ok_def)
  show ?thesis
    using enq_done assms(3,4) now cop
      side_inv_done[of "rcap r" "rstride r" 0 "enqT \<circ> stages r" "enqAct \<circ> stages r"
        "pushes r" "turns r" i t]
      side_inv_other[of "rcap r" "rstride r" 1 "deqT \<circ> stages r" "deqAct \<circ> stages r"
        "pops r" "turns r" 0 t]
    by (simp add: side_defs fun_upd_idem)
next
  case (deq_done i t v)
  with assms have now: "turns r (rslot r t) = 2 * rround r t + 1"
    using side_invD(3)[of "rcap r" "rstride r" 1 "deqT \<circ> stages r" _ _ _ i t]
    by (auto simp: pop_side_def)
  have cop: "coprime (rstride r) (rcap r)"
    using assms(2) by (simp add: ring_ok_def)
  show ?thesis
    using deq_done assms(3,4) now cop
      side_inv_done[of "rcap r" "rstride r" 1 "deqT \<circ> stages r" "deqAct \<circ> stages r"
        "pops r" "turns r" i t]
      side_inv_other[of "rcap r" "rstride r" 0 "enqT \<circ> stages r" "enqAct \<circ> stages r"
        "pushes r" "turns r" 1 t]
    by (simp add: side_defs fun_upd_idem)
qed (simp_all add: side_defs fun_upd_idem)

text \<open>What a stage says about its ticket, given the two sides.\<close>

lemma push_sideD:
  assumes "push_side r"
  shows "enqT (stages r i) = Some t \<Longrightarrow> t < pushes r"
    and "enqT (stages r i) = Some t \<Longrightarrow> enqAct (stages r i) \<Longrightarrow> turns r (rslot r t) = 2 * rround r t"
    and "2 * rround r t < turns r (rslot r t) \<Longrightarrow> t < pushes r"
    and "t < pushes r \<Longrightarrow> turns r (rslot r t) \<le> 2 * rround r t \<Longrightarrow> \<exists>i. enqT (stages r i) = Some t"
    and "enqT (stages r i) = Some t \<Longrightarrow> enqT (stages r k) = Some t \<Longrightarrow> i = k"
  using side_invD[OF assms[unfolded push_side_def]] by (force simp: not_le[symmetric])+

lemma pop_sideD:
  assumes "pop_side r"
  shows "deqT (stages r i) = Some t \<Longrightarrow> t < pops r"
    and "deqT (stages r i) = Some t \<Longrightarrow> deqAct (stages r i) \<Longrightarrow> turns r (rslot r t) = 2 * rround r t + 1"
    and "2 * rround r t + 1 < turns r (rslot r t) \<Longrightarrow> t < pops r"
    and "t < pops r \<Longrightarrow> turns r (rslot r t) \<le> 2 * rround r t + 1 \<Longrightarrow> \<exists>i. deqT (stages r i) = Some t"
    and "deqT (stages r i) = Some t \<Longrightarrow> deqT (stages r k) = Some t \<Longrightarrow> i = k"
  using side_invD[OF assms[unfolded pop_side_def]] by (force simp: not_le[symmetric])+

text \<open>The pop whose turn has come finds the value of its own ticket.\<close>

lemma cell_of_holder:
  assumes "pop_side r" "push_side r" "cell_inv r" "stages r i = DeqHold t"
  shows "cells r (rslot r t) = Some (written r ! t)" "t < pushes r"
proof -
  have now: "turns r (rslot r t) = 2 * rround r t + 1"
    using pop_sideD(2)[OF assms(1), of i t] assms(4) by simp
  have "stages r k \<noteq> DeqEmpty t v" for k v
    using pop_sideD(5)[OF assms(1), of i t k] assms(4) by auto
  then have "\<not> emptied (stages r) t"
    by (simp add: emptied_def)
  with now assms(3) show "cells r (rslot r t) = Some (written r ! t)"
    by (simp add: cell_inv_def cell_ok_def)
  show "t < pushes r"
    using push_sideD(3)[OF assms(2), of t] now by simp
qed

text \<open>The push whose turn has come finds an empty cell.\<close>

lemma cell_of_writer:
  assumes "push_side r" "cell_inv r" "stages r i = EnqHold t v"
  shows "cells r (rslot r t) = None"
proof -
  have now: "turns r (rslot r t) = 2 * rround r t"
    using push_sideD(2)[OF assms(1), of i t] assms(3) by simp
  have "stages r k \<noteq> EnqFull t w" for k w
    using push_sideD(5)[OF assms(1), of i t k] assms(3) by auto
  then have "\<not> filled (stages r) t"
    by (simp add: filled_def)
  with now assms(2) show ?thesis
    by (simp add: cell_inv_def cell_ok_def)
qed

lemma value_invD:
  assumes "value_inv r"
  shows "length (written r) = pushes r"
    and "stageV (stages r i) = Some (t, v) \<Longrightarrow> t < pushes r"
    and "stageV (stages r i) = Some (t, v) \<Longrightarrow> v = written r ! t"
  using assms by (auto simp: value_inv_def)

lemma value_inv_step:
  assumes "ring_step r r'" "push_side r" "pop_side r" "value_inv r" "cell_inv r"
  shows "value_inv r'"
  using assms(1)
proof (cases rule: ring_step.cases)
  case (deq_read i t v)
  then have "v = written r ! t" "t < pushes r"
    using cell_of_holder[OF assms(3,2,5), of i t] by auto
  with deq_read(1) assms(4) show ?thesis
    by (auto simp: value_inv_def)
next
  case (take_push i v)
  with assms(4) show ?thesis
    by (auto simp: value_inv_def nth_append less_SucI)
next
  case (enq_start i t v)
  with assms(4) value_invD(2,3)[OF assms(4), of i t v] show ?thesis
    by (auto simp: value_inv_def)
next
  case (enq_write i t v)
  with assms(4) value_invD(2,3)[OF assms(4), of i t v] show ?thesis
    by (auto simp: value_inv_def)
qed (use assms(4) in \<open>auto simp: value_inv_def\<close>)

lemma filled_upd:
  "filled (st(i := x)) t \<longleftrightarrow> (\<exists>v. x = EnqFull t v) \<or> (\<exists>k v. k \<noteq> i \<and> st k = EnqFull t v)"
  by (auto simp: filled_def)

lemma emptied_upd:
  "emptied (st(i := x)) t \<longleftrightarrow> (\<exists>v. x = DeqEmpty t v) \<or> (\<exists>k v. k \<noteq> i \<and> st k = DeqEmpty t v)"
  by (auto simp: emptied_def)

lemma filled_upd_same:
  "(\<And>v. st i \<noteq> EnqFull t v) \<Longrightarrow> (\<And>v. x \<noteq> EnqFull t v) \<Longrightarrow> filled (st(i := x)) t = filled st t"
  unfolding filled_upd unfolding filled_def by metis

lemma emptied_upd_same:
  "(\<And>v. st i \<noteq> DeqEmpty t v) \<Longrightarrow> (\<And>v. x \<noteq> DeqEmpty t v) \<Longrightarrow> emptied (st(i := x)) t = emptied st t"
  unfolding emptied_upd unfolding emptied_def by metis

lemma filledD:
  assumes "push_side r" "filled (stages r) t"
  shows "turns r (rslot r t) = 2 * rround r t \<and> t < pushes r"
proof -
  obtain i v where "stages r i = EnqFull t v"
    using assms(2) by (auto simp: filled_def)
  then show ?thesis
    using push_sideD(1,2)[OF assms(1), of i t] by simp
qed

lemma emptiedD:
  assumes "pop_side r" "emptied (stages r) t"
  shows "turns r (rslot r t) = 2 * rround r t + 1"
proof -
  obtain i v where "stages r i = DeqEmpty t v"
    using assms(2) by (auto simp: emptied_def)
  then show ?thesis
    using pop_sideD(2)[OF assms(1), of i t] by simp
qed

lemma emptied_issued:
  assumes "pop_side r" "emptied (stages r) t"
  shows "t < pops r"
proof -
  obtain i v where "stages r i = DeqEmpty t v"
    using assms(2) by (auto simp: emptied_def)
  then show ?thesis
    using pop_sideD(1)[OF assms(1), of i t] by simp
qed

lemma filled_unique:
  assumes "push_side r" "enqT (stages r i) = Some t" "filled (stages r) t"
  shows "\<exists>v. stages r i = EnqFull t v"
proof -
  obtain k v where k: "stages r k = EnqFull t v"
    using assms(3) by (auto simp: filled_def)
  then have "i = k"
    using push_sideD(5)[OF assms(1,2), of k] by simp
  with k show ?thesis
    by blast
qed

lemma emptied_unique:
  assumes "pop_side r" "deqT (stages r i) = Some t" "emptied (stages r) t"
  shows "\<exists>v. stages r i = DeqEmpty t v"
proof -
  obtain k v where k: "stages r k = DeqEmpty t v"
    using assms(3) by (auto simp: emptied_def)
  then have "i = k"
    using pop_sideD(5)[OF assms(1,2), of k] by simp
  with k show ?thesis
    by blast
qed

text \<open>Two tickets of one cell that wait for turns of the same round are one ticket.\<close>

lemma same_ticket:
  assumes "ring_ok r" "rslot r u = rslot r t"
  shows "rround r u = rround r t \<longleftrightarrow> u = t"
  using slot_round_inj[of "rstride r" "rcap r" u t] assms by (auto simp: ring_ok_def)

lemma parity_ticket:
  assumes "ring_ok r" "rslot r u = rslot r t"
  shows "turns r (rslot r t) = 2 * rround r t \<Longrightarrow> turns r (rslot r u) = 2 * rround r u \<Longrightarrow> u = t"
    and "turns r (rslot r t) = 2 * rround r t \<Longrightarrow> turns r (rslot r u) \<noteq> 2 * rround r u + 1"
    and "turns r (rslot r t) = 2 * rround r t + 1 \<Longrightarrow> turns r (rslot r u) = 2 * rround r u + 1 \<Longrightarrow> u = t"
    and "turns r (rslot r t) = 2 * rround r t + 1 \<Longrightarrow> turns r (rslot r u) \<noteq> 2 * rround r u"
  using same_ticket[OF assms] unfolding assms(2) by (simp_all, presburger+)

lemma cell_ok_take_push:
  assumes "push_side r" "value_inv r" "cell_ok r t" "stages r i = Free"
  shows "cell_ok (r\<lparr>pushes := pushes r + 1, stages := (stages r)(i := EnqWait (pushes r) v),
                    written := written r @ [v]\<rparr>) t"
proof -
  have "(written r @ [v]) ! t = written r ! t" if "t < pushes r"
    using that value_invD(1)[OF assms(2)] by (simp add: nth_append)
  moreover have "t < pushes r" if "turns r (rslot r t) = 2 * rround r t + 1"
    using push_sideD(3)[OF assms(1), of t] that by simp
  ultimately show ?thesis
    using assms(3,4) filledD[OF assms(1), of t]
    by (simp add: cell_ok_def filled_upd_same emptied_upd_same)
qed

lemma cell_ok_write:
  assumes "ring_ok r" "push_side r" "value_inv r" "cell_ok r u" "stages r i = EnqHold t v"
  shows "cell_ok (r\<lparr>cells := (cells r)(rslot r t := Some v), stages := (stages r)(i := EnqFull t v)\<rparr>) u"
proof -
  have now: "turns r (rslot r t) = 2 * rround r t" and v: "v = written r ! t"
    using push_sideD(2)[OF assms(2), of i t] value_invD(3)[OF assms(3), of i t v] assms(5) by auto
  have e: "emptied ((stages r)(i := EnqFull t v)) u = emptied (stages r) u"
    using assms(5) by (auto intro!: emptied_upd_same)
  show ?thesis
  proof (cases "u = t")
    case True
    then show ?thesis
      using now v by (simp add: cell_ok_def filled_upd)
  next
    case False
    then have f: "filled ((stages r)(i := EnqFull t v)) u = filled (stages r) u"
      using assms(5) by (auto intro!: filled_upd_same)
    show ?thesis
      using assms(4) e f parity_ticket(1,2)[OF assms(1), of u t] False now
      by (cases "rslot r u = rslot r t") (auto simp: cell_ok_def)
  qed
qed

lemma cell_ok_read:
  assumes "ring_ok r" "pop_side r" "cell_ok r u" "stages r i = DeqHold t"
  shows "cell_ok (r\<lparr>cells := (cells r)(rslot r t := None), stages := (stages r)(i := DeqEmpty t v)\<rparr>) u"
proof -
  have now: "turns r (rslot r t) = 2 * rround r t + 1"
    using pop_sideD(2)[OF assms(2), of i t] assms(4) by auto
  have f: "filled ((stages r)(i := DeqEmpty t v)) u = filled (stages r) u"
    using assms(4) by (auto intro!: filled_upd_same)
  show ?thesis
  proof (cases "u = t")
    case True
    then show ?thesis
      using now by (simp add: cell_ok_def emptied_upd)
  next
    case False
    then have e: "emptied ((stages r)(i := DeqEmpty t v)) u = emptied (stages r) u"
      using assms(4) by (auto intro!: emptied_upd_same)
    show ?thesis
      using assms(3) e f parity_ticket(3,4)[OF assms(1), of u t] False now
      by (cases "rslot r u = rslot r t") (auto simp: cell_ok_def)
  qed
qed

lemma cell_ok_enq_done:
  assumes "ring_ok r" "push_side r" "pop_side r" "cell_inv r" "stages r i = EnqFull t v"
  shows "cell_ok (r\<lparr>turns := (turns r)(rslot r t := turns r (rslot r t) + 1),
                    stages := (stages r)(i := Free)\<rparr>) u"
proof -
  have now: "turns r (rslot r t) = 2 * rround r t"
    using push_sideD(2)[OF assms(2), of i t] assms(5) by auto
  have e: "emptied ((stages r)(i := Free)) u = emptied (stages r) u"
    using assms(5) by (auto intro!: emptied_upd_same)
  have ok: "cell_ok r k" for k
    using assms(4) by (simp add: cell_inv_def)
  have t: "cells r (rslot r t) = Some (written r ! t)" "\<not> emptied (stages r) t"
    using ok[of t] now assms(5) emptiedD[OF assms(3), of t] by (auto simp: cell_ok_def filled_def)
  show ?thesis
  proof (cases "rslot r u = rslot r t")
    case True
    have even: "Suc (2 * rround r t) \<noteq> 2 * rround r u"
      by presburger
    show ?thesis
      using True now t even e same_ticket[OF assms(1) True]
      by (auto simp: cell_ok_def)
  next
    case False
    then have f: "filled ((stages r)(i := Free)) u = filled (stages r) u"
      using assms(5) by (intro filled_upd_same) auto
    show ?thesis
      using False ok[of u] e f by (simp add: cell_ok_def)
  qed
qed

lemma cell_ok_deq_done:
  assumes "ring_ok r" "push_side r" "pop_side r" "cell_inv r" "stages r i = DeqEmpty t v"
  shows "cell_ok (r\<lparr>turns := (turns r)(rslot r t := turns r (rslot r t) + 1),
                    stages := (stages r)(i := Free), taken := taken r @ [(t, v)]\<rparr>) u"
proof -
  have now: "turns r (rslot r t) = 2 * rround r t + 1"
    using pop_sideD(2)[OF assms(3), of i t] assms(5) by auto
  have f: "filled ((stages r)(i := Free)) u = filled (stages r) u"
    using assms(5) by (auto intro!: filled_upd_same)
  have ok: "cell_ok r k" for k
    using assms(4) by (simp add: cell_inv_def)
  have t: "cells r (rslot r t) = None"
    using ok[of t] now assms(5) by (auto simp: cell_ok_def emptied_def)
  show ?thesis
  proof (cases "rslot r u = rslot r t")
    case True
    have "\<not> filled (stages r) u" if "Suc (Suc (2 * rround r t)) = 2 * rround r u"
      using filledD[OF assms(2), of u] now that True by auto
    moreover have "Suc (Suc (2 * rround r t)) \<noteq> Suc (2 * rround r u)"
      by presburger
    ultimately show ?thesis
      using True now t f by (auto simp: cell_ok_def)
  next
    case False
    then have e: "emptied ((stages r)(i := Free)) u = emptied (stages r) u"
      using assms(5) by (intro emptied_upd_same) auto
    show ?thesis
      using False ok[of u] e f by (simp add: cell_ok_def)
  qed
qed

lemma cell_inv_step:
  assumes "ring_step r r'" "ring_ok r" "push_side r" "pop_side r" "value_inv r" "cell_inv r"
  shows "cell_inv r'"
proof -
  have ok: "cell_ok r k" for k
    using assms(6) by (simp add: cell_inv_def)
  have "cell_ok r' u" for u
    using assms(1)
  proof (cases rule: ring_step.cases)
    case (take_push i v)
    then show ?thesis
      using cell_ok_take_push[OF assms(3,5) ok, of i] by simp
  next
    case (enq_write i t v)
    then show ?thesis
      using cell_ok_write[OF assms(2,3,5) ok, of i t v] by simp
  next
    case (deq_read i t v)
    then show ?thesis
      using cell_ok_read[OF assms(2,4) ok, of i t] by simp
  next
    case (enq_done i t v)
    then show ?thesis
      using cell_ok_enq_done[OF assms(2,3,4,6), of i t v] by simp
  next
    case (deq_done i t v)
    then show ?thesis
      using cell_ok_deq_done[OF assms(2,3,4,6), of i t v] by simp
  qed (use ok[of u] in \<open>simp_all add: cell_ok_def filled_upd_same emptied_upd_same\<close>)
  then show ?thesis
    by (simp add: cell_inv_def)
qed

lemma history_inv_step:
  assumes "ring_step r r'" "ring_ok r" "push_side r" "pop_side r" "value_inv r" "history_inv r"
  shows "history_inv r'"
  using assms(1)
proof (cases rule: ring_step.cases)
  case (take_push i v)
  with assms(6) value_invD(1)[OF assms(5)] show ?thesis
    by (auto simp: history_inv_def nth_append)
next
  case (enq_done i t v)
  have now: "turns r (rslot r t) = 2 * rround r t"
    using push_sideD(2)[OF assms(3), of i t] enq_done(2) by simp
  have "2 * rround r u + 1 < ((turns r)(rslot r t := turns r (rslot r t) + 1)) (rslot r u)
      \<longleftrightarrow> 2 * rround r u + 1 < turns r (rslot r u)" for u
    using now by (simp, presburger)
  with enq_done(1) assms(6) show ?thesis
    by (simp add: history_inv_def)
next
  case (deq_done i t v)
  have now: "turns r (rslot r t) = 2 * rround r t + 1"
    using pop_sideD(2)[OF assms(4), of i t] deq_done(2) by simp
  have "2 * rround r u + 1 < ((turns r)(rslot r t := turns r (rslot r t) + 1)) (rslot r u)
      \<longleftrightarrow> u = t \<or> 2 * rround r u + 1 < turns r (rslot r u)" for u
  proof (cases "rslot r u = rslot r t")
    case True
    then show ?thesis
      using now same_ticket[OF assms(2) True] by auto
  qed auto
  moreover have "t \<notin> fst ` set (taken r)"
    using assms(6) now by (simp add: history_inv_def)
  ultimately show ?thesis
    using deq_done(1,2) assms(6) value_invD(2,3)[OF assms(5), of i t v]
    by (simp add: history_inv_def) blast
qed (use assms(6) in \<open>simp_all add: history_inv_def\<close>)

lemma ring_ok_step: "ring_step r r' \<Longrightarrow> ring_ok r \<Longrightarrow> ring_ok r'"
  by (induction rule: ring_step.induct) (simp_all add: ring_ok_def)

lemma ring_inv_step:
  assumes "ring_step r r'" "ring_inv r"
  shows "ring_inv r'"
  using assms sides_step value_inv_step cell_inv_step history_inv_step ring_ok_step
  unfolding ring_inv_def by metis

inductive ring_reach :: "nat \<Rightarrow> nat \<Rightarrow> 'a ring \<Rightarrow> bool" for cap stride where
  start: "ring_reach cap stride (ring_init cap stride)"
| step: "ring_reach cap stride r \<Longrightarrow> ring_step r r' \<Longrightarrow> ring_reach cap stride r'"

lemma ring_reach_inv:
  assumes "ring_reach cap stride r" "0 < cap" "coprime stride cap"
  shows "ring_inv r"
  using assms by (induction rule: ring_reach.induct) (auto intro: ring_inv_init ring_inv_step)

section \<open>Consequences of the invariant\<close>

text \<open>Every delivered value is the one pushed under the same ticket, and is delivered once.\<close>

lemma ring_inv_fifo:
  assumes "ring_inv r"
  shows "distinct (map fst (taken r))"
    and "(t, v) \<in> set (taken r) \<Longrightarrow> t < length (written r) \<and> v = written r ! t"
    and "(t, v) \<in> set (taken r) \<Longrightarrow> t < pops r"
proof -
  have inv: "history_inv r" "value_inv r" "pop_side r"
    using assms by (auto simp: ring_inv_def)
  show "distinct (map fst (taken r))"
    using inv(1) by (simp add: history_inv_def)
  assume tv: "(t, v) \<in> set (taken r)"
  then show "t < length (written r) \<and> v = written r ! t"
    using inv(1,2) by (auto simp: history_inv_def value_inv_def)
  have "t \<in> fst ` set (taken r)"
    using tv by force
  then show "t < pops r"
    using inv(1) pop_sideD(3)[OF inv(3), of t] by (auto simp: history_inv_def)
qed

text \<open>Every pop ticket that is no longer held has been served.\<close>

lemma ring_inv_served:
  assumes "ring_inv r" "t < pops r" "\<And>i. deqT (stages r i) \<noteq> Some t"
  shows "(t, written r ! t) \<in> set (taken r)"
proof -
  have inv: "history_inv r" "pop_side r"
    using assms(1) by (auto simp: ring_inv_def)
  have "t \<in> fst ` set (taken r)"
    using pop_sideD(4)[OF inv(2) assms(2)] assms(3) inv(1) by (force simp: history_inv_def not_le)
  then obtain v where "(t, v) \<in> set (taken r)"
    by auto
  with ring_inv_fifo(2)[OF assms(1)] show ?thesis
    by auto
qed

section \<open>Progress\<close>

text \<open>Thread \<open>i\<close> holds a ticket and can take its next step without anybody's help.\<close>

fun advances :: "('a, 'z) ring_scheme \<Rightarrow> nat \<Rightarrow> bool" where
  "advances r i = (case stages r i of
       Free \<Rightarrow> False
     | EnqWait t v \<Rightarrow> turns r (rslot r t) = 2 * rround r t
     | DeqWait t \<Rightarrow> turns r (rslot r t) = 2 * rround r t + 1
     | _ \<Rightarrow> True)"

lemma advances_enq: "enqT (stages r i) = Some t \<Longrightarrow> turns r (rslot r t) = 2 * rround r t \<Longrightarrow> advances r i"
  by (cases "stages r i") auto

lemma advances_deq: "deqT (stages r i) = Some t \<Longrightarrow> turns r (rslot r t) = 2 * rround r t + 1 \<Longrightarrow> advances r i"
  by (cases "stages r i") auto

text \<open>The ticket that uses the current turn of a cell is held, if it has been issued at all.\<close>

lemma current_holder:
  assumes "ring_ok r" "push_side r" "pop_side r"
    and "turns r (rslot r t) \<le> 2 * rround r t + 1"
    and "\<And>u. u \<le> t \<Longrightarrow> turns r (rslot r u) = 2 * rround r u \<Longrightarrow> u < pushes r"
    and "\<And>u. u \<le> t \<Longrightarrow> rslot r u = rslot r t \<Longrightarrow> turns r (rslot r u) = 2 * rround r u + 1 \<Longrightarrow> u < pops r"
  shows "\<exists>i. advances r i"
proof -
  define g where "g = turns r (rslot r t)"
  have cap: "0 < rcap r" "coprime (rstride r) (rcap r)"
    using assms(1) by (auto simp: ring_ok_def)
  obtain u where u: "rslot r u = rslot r t" "rround r u = g div 2"
    using ticket_of_slot_round[OF cap(2) slot_of_less[OF cap(1)]] by metis
  have "rround r u \<le> rround r t"
    using u(2) assms(4) by (simp add: g_def)
  then have le: "u \<le> t"
    using slot_of_same_slot[OF cap(2) u(1)] by auto
  consider (even) "turns r (rslot r u) = 2 * rround r u" | (odd) "turns r (rslot r u) = 2 * rround r u + 1"
    using u g_def by fastforce
  then show ?thesis
  proof cases
    case even
    then obtain i where "enqT (stages r i) = Some u"
      using push_sideD(4)[OF assms(2) assms(5)[OF le even]] by auto
    with even show ?thesis
      using advances_enq by blast
  next
    case odd
    then obtain i where "deqT (stages r i) = Some u"
      using pop_sideD(4)[OF assms(3) assms(6)[OF le u(1) odd]] by auto
    with odd show ?thesis
      using advances_deq by blast
  qed
qed

text \<open>A pop whose value has been promised, and a push whose room has been promised, never wait
  in vain: some thread that holds a ticket can move.\<close>

lemma deq_progress:
  assumes "ring_inv r" "deqT (stages r i) = Some t" "t < pushes r"
  shows "\<exists>k. advances r k"
proof (rule current_holder[of r t])
  have inv: "ring_ok r" "push_side r" "pop_side r"
    using assms(1) by (auto simp: ring_inv_def)
  then show "ring_ok r" "push_side r" "pop_side r" .
  show "turns r (rslot r t) \<le> 2 * rround r t + 1"
    using side_invD(2)[OF inv(3)[unfolded pop_side_def], of i t] assms(2) by simp
  have "t < pops r"
    using pop_sideD(1)[OF inv(3) assms(2)] .
  with assms(3) show "u \<le> t \<Longrightarrow> u < pushes r" "u \<le> t \<Longrightarrow> u < pops r" for u
    by auto
qed

lemma enq_progress:
  assumes "ring_inv r" "enqT (stages r i) = Some t" "t < pops r + rcap r"
  shows "\<exists>k. advances r k"
proof (rule current_holder[of r t])
  have inv: "ring_ok r" "push_side r" "pop_side r"
    using assms(1) by (auto simp: ring_inv_def)
  then show "ring_ok r" "push_side r" "pop_side r" .
  have cap: "0 < rcap r" "coprime (rstride r) (rcap r)"
    using inv(1) by (auto simp: ring_ok_def)
  have le: "turns r (rslot r t) \<le> 2 * rround r t"
    using side_invD(2)[OF inv(2)[unfolded push_side_def], of i t] assms(2) by simp
  then show "turns r (rslot r t) \<le> 2 * rround r t + 1"
    by simp
  show "u \<le> t \<Longrightarrow> u < pushes r" for u
    using push_sideD(1)[OF inv(2) assms(2)] by simp
  fix u assume u: "u \<le> t" "rslot r u = rslot r t" "turns r (rslot r u) = 2 * rround r u + 1"
  have "rround r u < rround r t"
    using le u(2,3) by simp
  then have "1 * rcap r \<le> (rround r t - rround r u) * rcap r"
    by (intro mult_le_mono) auto
  moreover have "t = u + (rround r t - rround r u) * rcap r"
    using slot_of_same_slot[OF cap(2) u(2)] u(1) \<open>rround r u < rround r t\<close> by auto
  ultimately have "u + rcap r \<le> t"
    by linarith
  with assms(3) show "u < pops r"
    by simp
qed

text \<open>When the cell of the next ticket is behind, the other side is behind or at work in it.\<close>

lemma next_push_behind:
  assumes "ring_ok r" "push_side r" "pop_side r" "turns r (rslot r (pushes r)) \<noteq> 2 * rround r (pushes r)"
  shows "pops r + rcap r \<le> pushes r \<or> (\<exists>k. deqT (stages r k) = Some (pushes r - rcap r) \<and> rcap r \<le> pushes r)"
proof -
  have cap: "0 < rcap r"
    using assms(1) by (simp add: ring_ok_def)
  have lt: "turns r (rslot r (pushes r)) < 2 * rround r (pushes r)"
    using push_sideD(3)[OF assms(2), of "pushes r"] assms(4) by (cases "turns r (rslot r (pushes r)) < 2 * rround r (pushes r)") auto
  then have "0 < rround r (pushes r)"
    by simp
  then have le: "rcap r \<le> pushes r"
    using cap by (simp add: round_of_def div_greater_zero_iff)
  define u where "u = pushes r - rcap r"
  have u: "pushes r = u + 1 * rcap r"
    using le by (simp add: u_def)
  have "rslot r (pushes r) = rslot r u" "rround r (pushes r) = rround r u + 1"
    unfolding u by (rule slot_of_add_cap, rule round_of_add_cap[OF cap])
  then have "turns r (rslot r u) \<le> 2 * rround r u + 1"
    using lt by simp
  then have "u < pops r \<Longrightarrow> \<exists>k. deqT (stages r k) = Some u"
    using pop_sideD(4)[OF assms(3), of u] by blast
  then show ?thesis
    using le unfolding u_def by (cases "pushes r - rcap r < pops r") auto
qed

lemma next_pop_behind:
  assumes "ring_ok r" "push_side r" "pop_side r" "turns r (rslot r (pops r)) \<noteq> 2 * rround r (pops r) + 1"
  shows "pushes r \<le> pops r \<or> (\<exists>k. enqT (stages r k) = Some (pops r))"
proof -
  have "turns r (rslot r (pops r)) < 2 * rround r (pops r) + 1"
    using pop_sideD(3)[OF assms(3), of "pops r"] assms(4) by (cases "turns r (rslot r (pops r)) < 2 * rround r (pops r) + 1") auto
  then show ?thesis
    using push_sideD(4)[OF assms(2), of "pops r"] by (cases "pops r < pushes r") auto
qed

section \<open>What other threads cannot change\<close>

lemma ring_step_static: "ring_step r r' \<Longrightarrow> rcap r' = rcap r \<and> rstride r' = rstride r"
  by (induction rule: ring_step.induct) auto

lemma ring_step_mono: "ring_step r r' \<Longrightarrow> pushes r \<le> pushes r' \<and> pops r \<le> pops r'"
  by (induction rule: ring_step.induct) auto

text \<open>A push turn that has come stays until its own push completes it, and so does a pop turn.\<close>

lemma push_turn_stable:
  assumes "ring_inv r" "ring_step r r'" "turns r (rslot r t) = 2 * rround r t" "\<not> filled (stages r) t"
  shows "turns r' (rslot r t) = 2 * rround r t"
proof -
  have inv: "ring_ok r" "push_side r" "pop_side r"
    using assms(1) by (auto simp: ring_inv_def)
  show ?thesis
    using assms(2)
  proof (cases rule: ring_step.cases)
    case (enq_done i u v)
    have "turns r (rslot r u) = 2 * rround r u" "u \<noteq> t"
      using push_sideD(2)[OF inv(2), of i u] enq_done(2) assms(4) by (auto simp: filled_def)
    then have "rslot r t \<noteq> rslot r u"
      using parity_ticket(1)[OF inv(1), of t u] assms(3) by auto
    with enq_done(1) assms(3) show ?thesis
      by simp
  next
    case (deq_done i u v)
    have "turns r (rslot r u) = 2 * rround r u + 1"
      using pop_sideD(2)[OF inv(3), of i u] deq_done(2) by auto
    then have "rslot r t \<noteq> rslot r u"
      using parity_ticket(4)[OF inv(1), of t u] assms(3) by auto
    with deq_done(1) assms(3) show ?thesis
      by simp
  qed (use assms(3) in simp_all)
qed

lemma pop_turn_stable:
  assumes "ring_inv r" "ring_step r r'" "turns r (rslot r t) = 2 * rround r t + 1" "\<not> emptied (stages r) t"
  shows "turns r' (rslot r t) = 2 * rround r t + 1"
proof -
  have inv: "ring_ok r" "push_side r" "pop_side r"
    using assms(1) by (auto simp: ring_inv_def)
  show ?thesis
    using assms(2)
  proof (cases rule: ring_step.cases)
    case (enq_done i u v)
    have "turns r (rslot r u) = 2 * rround r u"
      using push_sideD(2)[OF inv(2), of i u] enq_done(2) by auto
    then have "rslot r t \<noteq> rslot r u"
      using parity_ticket(2)[OF inv(1), of t u] assms(3) by auto
    with enq_done(1) assms(3) show ?thesis
      by simp
  next
    case (deq_done i u v)
    have "turns r (rslot r u) = 2 * rround r u + 1" "u \<noteq> t"
      using pop_sideD(2)[OF inv(3), of i u] deq_done(2) assms(4) by (auto simp: emptied_def)
    then have "rslot r t \<noteq> rslot r u"
      using parity_ticket(3)[OF inv(1), of t u] assms(3) by auto
    with deq_done(1) assms(3) show ?thesis
      by simp
  qed (use assms(3) in simp_all)
qed

section \<open>How far a cell can lag behind a ticket\<close>

text \<open>
  Between the current turn of a cell and the turn of an issued (or the next) ticket, every ticket
  of the cell is held by some thread. With \<open>N\<close> threads the distance is at most \<open>2 * N + 1\<close>, which
  is why the narrow turn numbers of the code never become ambiguous.
\<close>

lemma lag_arith:
  fixes b g R N :: nat
  assumes "b \<le> 1"
  shows "R - (g + 1 - b) div 2 \<le> N \<Longrightarrow> 2 * R + b - g \<le> 2 * N + 1"
    and "(g + 1 - b) div 2 \<le> R \<Longrightarrow> g \<le> 2 * R + b"
  using assms by presburger+

lemma side_lag:
  assumes S: "side_inv cap stride b hold act n tn" and cop: "coprime stride cap" and "0 < cap" "b \<le> 1"
    and bound: "\<And>i u. hold i = Some u \<Longrightarrow> i < N" and t: "t \<le> n"
  shows "2 * round_of cap t + b - tn (slot_of cap stride t) \<le> 2 * N + 1"
proof -
  let ?g = "tn (slot_of cap stride t)"
  let ?rs = "{(?g + 1 - b) div 2 ..< round_of cap t}"
  have "\<exists>i. i < N \<and> hold i = Some u"
    if u: "slot_of cap stride u = slot_of cap stride t" "round_of cap u \<in> ?rs" for u
  proof -
    have "u < t"
      using u(2) round_of_mono[of t u cap] by (cases "u < t") auto
    then have "u < n"
      using t by simp
    moreover have "(?g + 1 - b) div 2 \<le> round_of cap u"
      using u(2) by simp
    then have "tn (slot_of cap stride u) \<le> 2 * round_of cap u + b"
      unfolding u(1) by (rule lag_arith(2)[OF assms(4)])
    ultimately obtain i where "hold i = Some u"
      using side_invD(4)[OF S] by blast
    with bound show ?thesis
      by blast
  qed
  note held = this
  have "\<exists>i. i < N \<and> (\<exists>u. hold i = Some u \<and> round_of cap u = k)" if k: "k \<in> ?rs" for k
  proof -
    obtain u where u: "slot_of cap stride u = slot_of cap stride t" "round_of cap u = k"
      using ticket_of_slot_round[OF cop slot_of_less[OF assms(3)]] .
    with held[OF u(1)] k show ?thesis
      by blast
  qed
  then have "\<forall>k \<in> ?rs. \<exists>i. i < N \<and> (\<exists>u. hold i = Some u \<and> round_of cap u = k)"
    by blast
  then obtain f where f: "\<And>k. k \<in> ?rs \<Longrightarrow> f k < N \<and> (\<exists>u. hold (f k) = Some u \<and> round_of cap u = k)"
    using bchoice[of ?rs "\<lambda>k i. i < N \<and> (\<exists>u. hold i = Some u \<and> round_of cap u = k)"] by blast
  have "inj_on f ?rs"
  proof (rule inj_onI)
    fix k l assume kl: "k \<in> ?rs" "l \<in> ?rs" "f k = f l"
    obtain u w where "hold (f k) = Some u" "round_of cap u = k" "hold (f l) = Some w" "round_of cap w = l"
      using f[OF kl(1)] f[OF kl(2)] by blast
    with kl(3) show "k = l"
      by simp
  qed
  then have "card ?rs \<le> card {..<N}"
    using f by (intro card_inj_on_le[of f]) auto
  then have "round_of cap t - (?g + 1 - b) div 2 \<le> N"
    by simp
  then show ?thesis
    by (rule lag_arith(1)[OF assms(4)])
qed

lemma push_lag:
  assumes "ring_inv r" "\<And>i. stages r i \<noteq> Free \<Longrightarrow> i < N" "t \<le> pushes r"
  shows "2 * rround r t - turns r (rslot r t) \<le> 2 * N + 1"
proof -
  have inv: "ring_ok r" "push_side r"
    using assms(1) by (auto simp: ring_inv_def)
  have "2 * rround r t + 0 - turns r (rslot r t) \<le> 2 * N + 1"
  proof (rule side_lag[OF inv(2)[unfolded push_side_def] _ _ _ _ assms(3)])
    show "i < N" if "(enqT \<circ> stages r) i = Some u" for i u
      by (rule assms(2)) (use that in auto)
  qed (use inv(1) in \<open>auto simp: ring_ok_def\<close>)
  then show ?thesis
    by simp
qed

lemma pop_lag:
  assumes "ring_inv r" "\<And>i. stages r i \<noteq> Free \<Longrightarrow> i < N" "t \<le> pops r"
  shows "2 * rround r t + 1 - turns r (rslot r t) \<le> 2 * N + 1"
proof -
  have inv: "ring_ok r" "pop_side r"
    using assms(1) by (auto simp: ring_inv_def)
  show ?thesis
  proof (rule side_lag[OF inv(2)[unfolded pop_side_def] _ _ _ _ assms(3)])
    show "i < N" if "(deqT \<circ> stages r) i = Some u" for i u
      by (rule assms(2)) (use that in auto)
  qed (use inv(1) in \<open>auto simp: ring_ok_def\<close>)
qed

end
