(* ===== verification/MPMCConcurrent.thy ===== *)
theory MPMCConcurrent
  imports MPMCSequential TicketRing
begin

text \<open>
  Any number of threads using one \<open>MPMCQueue\<close> at the same time: an interleaving of the atomic
  steps of \<open>MPMCQueue\<close>, with the history of pushed and delivered values as auxiliary state. A
  simulation relates every reachable state to a state of the abstract machine \<open>TicketRing\<close>, from
  which the properties of the code follow: nothing undefined happens, every value is delivered once
  and under the ticket it was pushed with, tickets validated before being taken never block, failed
  attempts were justified, and promised tickets never deadlock.
\<close>

section \<open>The system\<close>

record ('ts, 'a) sys =
  queue :: "('ts, 'a) MPMCQueue"
  pcs :: "nat \<Rightarrow> 'a pc"
  pushed :: "'a list"            \<comment> \<open>values in the order their push tickets were issued\<close>
  popsIssued :: nat
  delivered :: "(nat \<times> 'a) list"  \<comment> \<open>pop tickets and values, in the order the pops completed\<close>

definition sys_init :: "('ts, 'a) MPMCQueue \<Rightarrow> ('ts, 'a) sys" where
  "sys_init q = \<lparr>queue = q, pcs = (\<lambda>_. Idle), pushed = [], popsIssued = 0, delivered = []\<rparr>"

text \<open>What a step adds to the history: a new push ticket with its value, a new pop ticket, a
  completed delivery.\<close>

fun new_push :: "'a pc \<Rightarrow> 'a list" where
  "new_push (Enqueueing t EnqWaitTurn v) = [v]"
| "new_push _ = []"

fun new_pop :: "'a pc \<Rightarrow> nat" where
  "new_pop (Dequeueing t DeqWaitTurn) = 1"
| "new_pop _ = 0"

fun new_delivery :: "'a pc \<Rightarrow> (nat \<times> 'a) list" where
  "new_delivery (Dequeueing t (DeqCompleteTurn v)) = [(unat t, v)]"
| "new_delivery _ = []"

fun inside :: "'a pc \<Rightarrow> bool" where
  "inside Idle = False"
| "inside (WReturn b) = False"
| "inside (RReturn r) = False"
| "inside _ = True"

definition after_step :: "('ts, 'a) sys \<Rightarrow> nat \<Rightarrow> ('ts, 'a) MPMCQueue \<Rightarrow> 'a pc \<Rightarrow> ('ts, 'a) sys" where
  "after_step s i q c = s\<lparr>queue := q, pcs := (pcs s)(i := c), pushed := pushed s @ new_push c,
     popsIssued := popsIssued s + new_pop c, delivered := delivered s @ new_delivery (pcs s i)\<rparr>"

inductive sys_step :: "'ts mpmc_env \<Rightarrow> nat \<Rightarrow> ('ts, 'a) sys \<Rightarrow> ('ts, 'a) sys \<Rightarrow> bool" for E N where
  invoke: "i < N \<Longrightarrow> \<not> inside (pcs s i) \<Longrightarrow> sys_step E N s (s\<lparr>pcs := (pcs s)(i := enter c)\<rparr>)"
| advance: "i < N \<Longrightarrow> inside (pcs s i) \<Longrightarrow> step E d (queue s) (pcs s i) = Done (q, c) \<Longrightarrow>
     sys_step E N s (after_step s i q c)"

inductive sys_reach :: "'ts mpmc_env \<Rightarrow> nat \<Rightarrow> ('ts, 'a) MPMCQueue \<Rightarrow> ('ts, 'a) sys \<Rightarrow> bool" for E N q where
  init: "sys_reach E N q (sys_init q)"
| step: "sys_reach E N q s \<Longrightarrow> sys_step E N s s' \<Longrightarrow> sys_reach E N q s'"

definition has_room :: "('ts, 'a) sys \<Rightarrow> bool" where
  "has_room s \<longleftrightarrow> length (pushed s) < ticketRoom \<and> popsIssued s < ticketRoom"

section \<open>The simulation relation\<close>

fun stage_of :: "'a pc \<Rightarrow> 'a stage" where
  "stage_of (Enqueueing t EnqWaitTurn v) = EnqWait (unat t) v"
| "stage_of (Enqueueing t EnqConstruct v) = EnqHold (unat t) v"
| "stage_of (Enqueueing t EnqCompleteTurn v) = EnqFull (unat t) v"
| "stage_of (Dequeueing t DeqWaitTurn) = DeqWait (unat t)"
| "stage_of (Dequeueing t DeqMove) = DeqHold (unat t)"
| "stage_of (Dequeueing t (DeqCompleteTurn v)) = DeqEmpty (unat t) v"
| "stage_of _ = Free"

text \<open>What a thread without a ticket knows: counters it has loaded are not ahead of the real ones,
  a ticket about to be taken by compare and exchange is still ready, or promised, if it is still the
  next one. Program counters of called functions that the callers leave at once do not occur.\<close>

fun local_ok :: "'a ring \<Rightarrow> 'a pc \<Rightarrow> bool" where
  "local_ok r (WReady ReadyLoad v) = True"
| "local_ok r (WReady (ReadyCheck t) v) = (unat t \<le> pushes r)"
| "local_ok r (WReady (ReadyReload t) v) = (unat t \<le> pushes r)"
| "local_ok r (WReady (ReadyCas t) v) = (unat t \<le> pushes r \<and>
     (unat t = pushes r \<longrightarrow> turns r (rslot r (unat t)) = 2 * rround r (unat t)))"
| "local_ok r (WReady _ v) = False"
| "local_ok r (WPromised b PromLoad v) = True"
| "local_ok r (WPromised b (PromOther t) v) = (unat t \<le> pushes r)"
| "local_ok r (WPromised b (PromCas t) v) = (unat t \<le> pushes r \<and> unat t < pops r + rcap r)"
| "local_ok r (WPromised b _ v) = False"
| "local_ok r (WWaitTurn t v) = (unat t \<le> pushes r)"
| "local_ok r (Enqueueing t EnqReturn v) = False"
| "local_ok r (RReady ReadyLoad) = True"
| "local_ok r (RReady (ReadyCheck t)) = (unat t \<le> pops r)"
| "local_ok r (RReady (ReadyReload t)) = (unat t \<le> pops r)"
| "local_ok r (RReady (ReadyCas t)) = (unat t \<le> pops r \<and>
     (unat t = pops r \<longrightarrow> turns r (rslot r (unat t)) = 2 * rround r (unat t) + 1))"
| "local_ok r (RReady _) = False"
| "local_ok r (RPromised b PromLoad) = True"
| "local_ok r (RPromised b (PromOther t)) = (unat t \<le> pops r)"
| "local_ok r (RPromised b (PromCas t)) = (unat t \<le> pops r \<and> unat t < pushes r)"
| "local_ok r (RPromised b _) = False"
| "local_ok r (RWaitTurn t) = (unat t \<le> pops r)"
| "local_ok r (Dequeueing t (DeqReturn v)) = False"
| "local_ok r _ = True"

definition cells_match :: "nat \<Rightarrow> ('ts \<Rightarrow> u32) \<Rightarrow> 'ts mpmc_env \<Rightarrow> ('ts, 'a) MPMCQueue \<Rightarrow> 'a ring \<Rightarrow> bool" where
  "cells_match tb cur E q r \<longleftrightarrow>
     (\<forall>j < qcap q. slot_turn tb cur (cell E q j) (turns r j) \<and> contents (cell E q j) = cells r j)"

definition queue_match :: "nat \<Rightarrow> ('ts \<Rightarrow> u32) \<Rightarrow> 'ts mpmc_env \<Rightarrow> ('ts, 'a) MPMCQueue \<Rightarrow> 'a ring \<Rightarrow> bool" where
  "queue_match tb cur E q r \<longleftrightarrow> wf_queue E q \<and> rcap r = qcap q \<and> rstride r = qstride q \<and>
     pushes r = unat (pushTicket q) \<and> pops r = unat (popTicket q) \<and> cells_match tb cur E q r"

definition sim :: "nat \<Rightarrow> ('ts \<Rightarrow> u32) \<Rightarrow> 'ts mpmc_env \<Rightarrow> nat \<Rightarrow> ('ts, 'a) sys \<Rightarrow> 'a ring \<Rightarrow> bool" where
  "sim tb cur E N s r \<longleftrightarrow> ring_inv r \<and> queue_match tb cur E (queue s) r \<and>
     (\<forall>i. stages r i = stage_of (pcs s i) \<and> local_ok r (pcs s i) \<and> (N \<le> i \<longrightarrow> pcs s i = Idle)) \<and>
     written r = pushed s \<and> pops r = popsIssued s \<and> taken r = delivered s"

lemma simD:
  assumes "sim tb cur E N s r"
  shows "ring_inv r" "queue_match tb cur E (queue s) r"
    and "stages r i = stage_of (pcs s i)" "local_ok r (pcs s i)" "N \<le> i \<Longrightarrow> pcs s i = Idle"
    and "written r = pushed s" "pops r = popsIssued s" "taken r = delivered s"
    and "pushes r = length (pushed s)"
  using assms by (auto simp: sim_def ring_inv_def value_inv_def)

text \<open>\<open>s'\<close> matches the ring after at most one step from \<open>r\<close>.\<close>

definition sim_to :: "nat \<Rightarrow> ('ts \<Rightarrow> u32) \<Rightarrow> 'ts mpmc_env \<Rightarrow> nat \<Rightarrow> 'a ring \<Rightarrow> ('ts, 'a) sys \<Rightarrow> bool" where
  "sim_to tb cur E N r s' \<longleftrightarrow> (\<exists>r'. sim tb cur E N s' r' \<and> (r' = r \<or> ring_step r r'))"

lemma queue_matchD:
  assumes "queue_match tb cur E q r"
  shows "wf_queue E q" "rcap r = qcap q" "rstride r = qstride q"
    "pushes r = unat (pushTicket q)" "pops r = unat (popTicket q)"
    and "slot_turn tb cur (cell E q (slot_of (qcap q) (qstride q) t)) (turns r (slot_of (qcap q) (qstride q) t))"
    and "contents (cell E q (slot_of (qcap q) (qstride q) t)) = cells r (slot_of (qcap q) (qstride q) t)"
proof -
  show *: "wf_queue E q" "rcap r = qcap q" "rstride r = qstride q"
    "pushes r = unat (pushTicket q)" "pops r = unat (popTicket q)"
    using assms by (auto simp: queue_match_def)
  have "slot_of (qcap q) (qstride q) t < qcap q"
    by (rule slot_of_less[OF wf_queueD(1)[OF *(1)]])
  then show "slot_turn tb cur (cell E q (slot_of (qcap q) (qstride q) t)) (turns r (slot_of (qcap q) (qstride q) t))"
    "contents (cell E q (slot_of (qcap q) (qstride q) t)) = cells r (slot_of (qcap q) (qstride q) t)"
    using assms by (auto simp: queue_match_def cells_match_def)
qed

text \<open>What a thread knows survives the steps of the others.\<close>

lemma local_ok_step:
  assumes inv: "ring_inv r" and st: "ring_step r r'" and ok: "local_ok r c"
  shows "local_ok r' c"
proof -
  have sides: "push_side r" "pop_side r"
    using inv by (auto simp: ring_inv_def)
  note mono = ring_step_mono[OF st] and static = ring_step_static[OF st]
  have push: "turns r' (rslot r t) = 2 * rround r t"
    if "turns r (rslot r t) = 2 * rround r t" "t = pushes r" for t
    using push_turn_stable[OF inv st that(1)] filledD[OF sides(1), of t] that(2) by auto
  have pop: "turns r' (rslot r t) = 2 * rround r t + 1"
    if "turns r (rslot r t) = 2 * rround r t + 1" "t = pops r" for t
  proof (rule pop_turn_stable[OF inv st that(1)])
    show "\<not> emptied (stages r) t"
      using emptied_issued[OF sides(2), of t] that(2) by auto
  qed
  show ?thesis
    using ok mono static push pop by (cases "(r, c)" rule: local_ok.cases) auto
qed

section \<open>Composing the simulation\<close>

lemma stage_Free_new: "stage_of c = Free \<Longrightarrow> new_push c = [] \<and> new_pop c = 0 \<and> new_delivery c = []"
  by (cases c rule: stage_of.cases) auto

lemma sim_stutter:
  assumes "sim tb cur E N s r" "i < N" "queue_match tb cur E q r" "local_ok r c"
    and "stage_of (pcs s i) = Free" "stage_of c = Free"
  shows "sim_to tb cur E N r (after_step s i q c)"
proof -
  have "sim tb cur E N (after_step s i q c) r"
    using assms stage_Free_new[OF assms(5)] stage_Free_new[OF assms(6)]
    by (auto simp: sim_def after_step_def)
  then show ?thesis
    by (auto simp: sim_to_def)
qed

lemma sim_ring:
  assumes S: "sim tb cur E N s r" and "i < N" and st: "ring_step r r'" and "queue_match tb cur E q r'"
    and "local_ok r' c" "stages r' = (stages r)(i := stage_of c)"
    and "written r' = written r @ new_push c" "pops r' = pops r + new_pop c"
      "taken r' = taken r @ new_delivery (pcs s i)"
  shows "sim_to tb cur E N r (after_step s i q c)"
proof -
  have "sim tb cur E N (after_step s i q c) r'"
    using assms ring_inv_step[OF st simD(1)[OF S]] local_ok_step[OF simD(1)[OF S] st simD(4)[OF S]]
    by (auto simp: sim_def after_step_def)
  with st show ?thesis
    by (auto simp: sim_to_def)
qed

lemma queue_match_upd:
  assumes M: "queue_match tb cur E q r" and U: "slot_updated E t s q q'"
    and "rcap r' = rcap r" "rstride r' = rstride r" "pushes r' = pushes r" "pops r' = pops r"
    and "turns r' = (turns r)(rslot r (unat t) := g)" "cells r' = (cells r)(rslot r (unat t) := contents s)"
    and "slot_turn tb cur s g"
  shows "queue_match tb cur E q' r'"
proof -
  note m = queue_matchD(1-5)[OF M] and u = slot_updatedD(1-5)[OF U]
  have "slot_turn tb cur (cell E q' j) (turns r' j) \<and> contents (cell E q' j) = cells r' j" if "j < qcap q" for j
    using slot_updatedD(6)[OF U that] slot_updatedD(7)[OF U] m(2,3) assms(7-9) M that
    by (cases "j = slot_of (qcap q) (qstride q) (unat t)") (auto simp: queue_match_def cells_match_def)
  with m u assms(3-6) show ?thesis
    by (simp add: queue_match_def cells_match_def)
qed

lemma queue_match_ticket:
  assumes "queue_match tb cur E q r"
  shows "unat (pushTicket q) < ticketRoom \<Longrightarrow>
      queue_match tb cur E (q\<lparr>pushTicket := pushTicket q + 1\<rparr>) (r\<lparr>pushes := pushes r + 1, stages := st, written := w\<rparr>)"
    and "unat (popTicket q) < ticketRoom \<Longrightarrow>
      queue_match tb cur E (q\<lparr>popTicket := popTicket q + 1\<rparr>) (r\<lparr>pops := pops r + 1, stages := st\<rparr>)"
  using assms by (simp_all add: queue_match_def cells_match_def unat_Suc_room)

text \<open>Rooms and lags, as the code sees them.\<close>

lemma sim_room:
  assumes "sim tb cur E N s r" "has_room s"
  shows "pushes r < ticketRoom" "pops r < ticketRoom"
    "unat (pushTicket (queue s)) < ticketRoom" "unat (popTicket (queue s)) < ticketRoom"
  using assms simD(7,9)[OF assms(1)] queue_matchD(4,5)[OF simD(2)[OF assms(1)]]
  by (auto simp: has_room_def)

lemma sim_active:
  assumes "sim tb cur E N s r" "stages r i \<noteq> Free"
  shows "i < N"
  using assms simD(3,5)[OF assms(1), of i] by (cases "i < N") auto

lemma sim_lag:
  assumes "sim tb cur E N s r"
  shows "t \<le> pushes r \<Longrightarrow> 2 * rround r t - turns r (rslot r t) \<le> 2 * N + 1"
    and "t \<le> pops r \<Longrightarrow> 2 * rround r t + 1 - turns r (rslot r t) \<le> 2 * N + 1"
  using push_lag[OF simD(1)[OF assms] sim_active[OF assms]] pop_lag[OF simD(1)[OF assms] sim_active[OF assms]]
  by blast+

section \<open>Taking a ticket\<close>

lemma sim_take_push:
  assumes S: "sim tb cur E N s r" and R: "has_room s" and i: "i < N" and c: "stage_of (pcs s i) = Free"
  shows "sim_to tb cur E N r (after_step s i ((queue s)\<lparr>pushTicket := pushTicket (queue s) + 1\<rparr>)
           (Enqueueing (pushTicket (queue s)) EnqWaitTurn v))"
proof -
  note M = simD(2)[OF S]
  let ?r = "r\<lparr>pushes := pushes r + 1, stages := (stages r)(i := EnqWait (pushes r) v), written := written r @ [v]\<rparr>"
  have "ring_step r ?r"
    using simD(3)[OF S, of i] c by (intro ring_step.take_push) simp
  then have "sim_to tb cur E N r (after_step s i ((queue s)\<lparr>pushTicket := pushTicket (queue s) + 1\<rparr>)
           (Enqueueing (pushTicket (queue s)) EnqWaitTurn v))"
    by (rule sim_ring[OF S i])
      (use queue_match_ticket(1)[OF M sim_room(3)[OF S R]] queue_matchD(4)[OF M] stage_Free_new[OF c] in simp_all)
  then show ?thesis .
qed

lemma sim_take_pop:
  assumes S: "sim tb cur E N s r" and R: "has_room s" and i: "i < N" and c: "stage_of (pcs s i) = Free"
  shows "sim_to tb cur E N r (after_step s i ((queue s)\<lparr>popTicket := popTicket (queue s) + 1\<rparr>)
           (Dequeueing (popTicket (queue s)) DeqWaitTurn))"
proof -
  note M = simD(2)[OF S]
  let ?r = "r\<lparr>pops := pops r + 1, stages := (stages r)(i := DeqWait (pops r))\<rparr>"
  have "ring_step r ?r"
    using simD(3)[OF S, of i] c by (intro ring_step.take_pop) simp
  then have "sim_to tb cur E N r (after_step s i ((queue s)\<lparr>popTicket := popTicket (queue s) + 1\<rparr>)
           (Dequeueing (popTicket (queue s)) DeqWaitTurn))"
    by (rule sim_ring[OF S i])
      (use queue_match_ticket(2)[OF M sim_room(4)[OF S R]] queue_matchD(5)[OF M] stage_Free_new[OF c] in simp_all)
  then show ?thesis .
qed

section \<open>Every step of the code is simulated\<close>

definition good_env :: "nat \<Rightarrow> ('ts \<Rightarrow> u32) \<Rightarrow> 'ts mpmc_env \<Rightarrow> nat \<Rightarrow> bool" where
  "good_env tb cur E N \<longleftrightarrow> turn_contract tb (seqOps E) cur \<and> 2 * N + 1 < 2 ^ (tb - 1)"

text \<open>A step of thread \<open>i\<close> in a state that matches \<open>r\<close> ends in a matching state or waits; it
  is never undefined.\<close>

definition simulated ::
  "nat \<Rightarrow> ('ts \<Rightarrow> u32) \<Rightarrow> 'ts mpmc_env \<Rightarrow> nat \<Rightarrow> 'a ring \<Rightarrow> ('ts, 'a) sys \<Rightarrow> nat \<Rightarrow> (('ts, 'a) MPMCQueue \<times> 'a pc) outcome \<Rightarrow> bool" where
  "simulated tb cur E N r s i out = (case out of
       Done (q, c) \<Rightarrow> sim_to tb cur E N r (after_step s i q c)
     | Blocks \<Rightarrow> True
     | Undefined \<Rightarrow> False)"

lemma simulated_simps [simp]:
  "simulated tb cur E N r s i (Done (q, c)) = (sim_to tb cur E N r (after_step s i q c))"
  "simulated tb cur E N r s i Blocks"
  "\<not> simulated tb cur E N r s i Undefined"
  by (simp_all add: simulated_def)

lemma lag_small:
  assumes "good_env tb cur E N" "n \<le> 2 * N + (1::nat)"
  shows "n < 2 ^ (tb - 1)" "n < 2 ^ tb"
proof -
  show "n < 2 ^ (tb - 1)"
    using assms by (simp add: good_env_def)
  moreover have "(2::nat) ^ (tb - 1) \<le> 2 ^ tb"
    by (rule power_increasing) auto
  ultimately show "n < 2 ^ tb"
    by linarith
qed

text \<open>The readiness check is exact for the next ticket.\<close>

lemma mayEnqueue_next:
  assumes S: "sim tb cur E N s r" and G: "good_env tb cur E N" and t: "unat t = pushes r"
  shows "mayEnqueue (seqOps E) (cell E (queue s) (slot_of (qcap (queue s)) (qstride (queue s)) (unat t)))
           (turn t (capacity (queue s))) \<longleftrightarrow> turns r (rslot r (unat t)) = 2 * rround r (unat t)"
proof -
  note m = queue_matchD[OF simD(2)[OF S]]
  have T: "turn_contract tb (seqOps E) cur"
    using G by (simp add: good_env_def)
  have "push_side r"
    using simD(1)[OF S] by (simp add: ring_inv_def)
  then have le: "turns r (rslot r (unat t)) \<le> 2 * rround r (unat t)"
    using push_sideD(3)[of r "unat t"] t by (auto simp: not_le[symmetric])
  have "2 * rround r (unat t) - turns r (rslot r (unat t)) < 2 ^ tb"
    using lag_small(2)[OF G sim_lag(1)[OF S]] t by simp
  with mayEnqueue_iff[OF T m(6)] le show ?thesis
    unfolding unat_turn by (simp add: m(2,3))
qed

lemma mayDequeue_next:
  assumes S: "sim tb cur E N s r" and G: "good_env tb cur E N" and t: "unat t = pops r"
  shows "mayDequeue (seqOps E) (cell E (queue s) (slot_of (qcap (queue s)) (qstride (queue s)) (unat t)))
           (turn t (capacity (queue s))) \<longleftrightarrow> turns r (rslot r (unat t)) = 2 * rround r (unat t) + 1"
proof -
  note m = queue_matchD[OF simD(2)[OF S]]
  have T: "turn_contract tb (seqOps E) cur"
    using G by (simp add: good_env_def)
  have "pop_side r"
    using simD(1)[OF S] by (simp add: ring_inv_def)
  then have le: "turns r (rslot r (unat t)) \<le> 2 * rround r (unat t) + 1"
    using pop_sideD(3)[of r "unat t"] t by (auto simp: not_le[symmetric])
  have "2 * rround r (unat t) + 1 - turns r (rslot r (unat t)) < 2 ^ tb"
    using lag_small(2)[OF G sim_lag(2)[OF S]] t by simp
  with mayDequeue_iff[OF T m(6)] le show ?thesis
    unfolding unat_turn by (simp add: m(2,3))
qed

lemma simulated_WReady:
  assumes S: "sim tb cur E N s r" and G: "good_env tb cur E N" and R: "has_room s" and i: "i < N"
    and c: "pcs s i = WReady c v"
  shows "simulated tb cur E N r s i (step E d (queue s) (pcs s i))"
proof -
  note m = queue_matchD[OF simD(2)[OF S]] and ok = simD(4)[OF S, of i] and room = sim_room[OF S R]
  have stutter: "sim_to tb cur E N r (after_step s i (queue s) c')"
    if "local_ok r c'" "stage_of c' = Free" for c'
    using sim_stutter[OF S i simD(2)[OF S] that(1) _ that(2)] c by auto
  have take: "sim_to tb cur E N r (after_step s i ((queue s)\<lparr>pushTicket := pushTicket (queue s) + 1\<rparr>)
           (Enqueueing (pushTicket (queue s)) EnqWaitTurn v))"
    by (rule sim_take_push[OF S R i]) (simp add: c)
  show ?thesis
  proof (cases c)
    case ReadyLoad
    then show ?thesis
      using assms(5) stutter m(4) by simp
  next
    case (ReadyCheck t)
    have t: "unat t \<le> pushes r" "unat t < ticketRoom"
      using ok assms(5) ReadyCheck room(1) by auto
    have cas: "sim_to tb cur E N r (after_step s i (queue s) (WReady (ReadyCas t) v))"
      if "mayEnqueue (seqOps E) (cell E (queue s) (slot_of (qcap (queue s)) (qstride (queue s)) (unat t)))
           (turn t (capacity (queue s)))"
      by (rule stutter) (use mayEnqueue_next[OF S G, of t] that t(1) in auto)
    show ?thesis
      using assms(5) ReadyCheck stutter[of "WReady (ReadyReload t) v"] cas t(1)
      by (cases "mayEnqueue (seqOps E) (cell E (queue s)
          (slot_of (qcap (queue s)) (qstride (queue s)) (unat t))) (turn t (capacity (queue s)))")
        (simp_all add: with_slot_room[OF m(1) t(2)])
  next
    case (ReadyReload t)
    then show ?thesis
      using assms(5) stutter[of "WReturn False"] stutter[of "WReady (ReadyCheck (pushTicket (queue s))) v"] m(4)
      by (simp add: Let_def)
  next
    case (ReadyCas t)
    then show ?thesis
      using assms(5) take stutter[of "WReady (ReadyCheck (pushTicket (queue s))) v"] m(4) by auto
  qed (use ok assms(5) in simp_all)
qed

lemma simulated_RReady:
  assumes S: "sim tb cur E N s r" and G: "good_env tb cur E N" and R: "has_room s" and i: "i < N"
    and c: "pcs s i = RReady c"
  shows "simulated tb cur E N r s i (step E d (queue s) (pcs s i))"
proof -
  note m = queue_matchD[OF simD(2)[OF S]] and ok = simD(4)[OF S, of i] and room = sim_room[OF S R]
  have stutter: "sim_to tb cur E N r (after_step s i (queue s) c')"
    if "local_ok r c'" "stage_of c' = Free" for c'
    using sim_stutter[OF S i simD(2)[OF S] that(1) _ that(2)] c by auto
  have take: "sim_to tb cur E N r (after_step s i ((queue s)\<lparr>popTicket := popTicket (queue s) + 1\<rparr>)
           (Dequeueing (popTicket (queue s)) DeqWaitTurn))"
    by (rule sim_take_pop[OF S R i]) (simp add: c)
  show ?thesis
  proof (cases c)
    case ReadyLoad
    then show ?thesis
      using assms(5) stutter m(5) by simp
  next
    case (ReadyCheck t)
    have t: "unat t \<le> pops r" "unat t < ticketRoom"
      using ok assms(5) ReadyCheck room(2) by auto
    have cas: "sim_to tb cur E N r (after_step s i (queue s) (RReady (ReadyCas t)))"
      if "mayDequeue (seqOps E) (cell E (queue s) (slot_of (qcap (queue s)) (qstride (queue s)) (unat t)))
           (turn t (capacity (queue s)))"
      by (rule stutter) (use mayDequeue_next[OF S G, of t] that t(1) in auto)
    show ?thesis
      using assms(5) ReadyCheck stutter[of "RReady (ReadyReload t)"] cas t(1)
      by (cases "mayDequeue (seqOps E) (cell E (queue s)
          (slot_of (qcap (queue s)) (qstride (queue s)) (unat t))) (turn t (capacity (queue s)))")
        (simp_all add: with_slot_room[OF m(1) t(2)])
  next
    case (ReadyReload t)
    then show ?thesis
      using assms(5) stutter[of "RReturn None"] stutter[of "RReady (ReadyCheck (popTicket (queue s)))"] m(5)
      by (simp add: Let_def)
  next
    case (ReadyCas t)
    then show ?thesis
      using assms(5) take stutter[of "RReady (ReadyCheck (popTicket (queue s)))"] m(5) by auto
  qed (use ok assms(5) in simp_all)
qed

lemma signed_full:
  fixes n p cap :: u64
  assumes "unat n < ticketRoom" "unat p < ticketRoom" "unat cap < 2 ^ 63"
  shows "sint cap \<le> sint (n - p) \<longleftrightarrow> unat p + unat cap \<le> unat n"
proof -
  have "unat n < 2 ^ 63" "unat p < 2 ^ 63"
    using assms(1,2) by (simp_all add: ticketRoom_def)
  then have "sint (n - p) = int (unat n) - int (unat p)"
    by (rule u64_diff_sint)
  moreover have "sint cap = int (unat cap)"
    using u64_diff_sint[of cap 0] assms(3) by simp
  ultimately show ?thesis
    by linarith
qed

lemma simulated_WPromised:
  assumes S: "sim tb cur E N s r" and R: "has_room s" and i: "i < N" and c: "pcs s i = WPromised timed c v"
  shows "simulated tb cur E N r s i (step E d (queue s) (pcs s i))"
proof -
  note m = queue_matchD[OF simD(2)[OF S]] and ok = simD(4)[OF S, of i] and room = sim_room[OF S R]
  have stutter: "sim_to tb cur E N r (after_step s i (queue s) c')"
    if "local_ok r c'" "stage_of c' = Free" for c'
    using sim_stutter[OF S i simD(2)[OF S] that(1) _ that(2)] c by auto
  have take: "sim_to tb cur E N r (after_step s i ((queue s)\<lparr>pushTicket := pushTicket (queue s) + 1\<rparr>)
           (Enqueueing (pushTicket (queue s)) EnqWaitTurn v))"
    by (rule sim_take_push[OF S R i]) (simp add: c)
  show ?thesis
  proof (cases c)
    case PromLoad
    then show ?thesis
      using assms(4) stutter m(4) by simp
  next
    case (PromOther t)
    have t: "unat t \<le> pushes r" "unat t < ticketRoom"
      using ok assms(4) PromOther room(1) by auto
    show ?thesis
    proof (cases "sint (capacity (queue s)) \<le> sint (t - popTicket (queue s))")
      case True
      then show ?thesis
        using assms(4) PromOther stutter[of "if timed then WWaitTurn t v else WReturn False"] t(1)
        by (cases timed) simp_all
    next
      case False
      then have "unat t < pops r + rcap r"
        using signed_full[OF t(2) room(4) wf_queueD(6)[OF m(1)]] m(2,5) by simp
      then have "sim_to tb cur E N r (after_step s i (queue s) (WPromised timed (PromCas t) v))"
        by (intro stutter) (use t(1) in simp_all)
      with False show ?thesis
        using assms(4) PromOther by simp
    qed
  next
    case (PromCas t)
    then show ?thesis
      using assms(4) take stutter[of "WPromised timed (PromOther (pushTicket (queue s))) v"] m(4) by auto
  qed (use ok assms(4) in simp_all)
qed

lemma simulated_RPromised:
  assumes S: "sim tb cur E N s r" and R: "has_room s" and i: "i < N" and c: "pcs s i = RPromised timed c"
  shows "simulated tb cur E N r s i (step E d (queue s) (pcs s i))"
proof -
  note m = queue_matchD[OF simD(2)[OF S]] and ok = simD(4)[OF S, of i] and room = sim_room[OF S R]
  have stutter: "sim_to tb cur E N r (after_step s i (queue s) c')"
    if "local_ok r c'" "stage_of c' = Free" for c'
    using sim_stutter[OF S i simD(2)[OF S] that(1) _ that(2)] c by auto
  have take: "sim_to tb cur E N r (after_step s i ((queue s)\<lparr>popTicket := popTicket (queue s) + 1\<rparr>)
           (Dequeueing (popTicket (queue s)) DeqWaitTurn))"
    by (rule sim_take_pop[OF S R i]) (simp add: c)
  show ?thesis
  proof (cases c)
    case PromLoad
    then show ?thesis
      using assms(4) stutter m(5) by simp
  next
    case (PromOther t)
    have t: "unat t \<le> pops r"
      using ok assms(4) PromOther by auto
    show ?thesis
    proof (cases "pushTicket (queue s) \<le> t")
      case True
      then show ?thesis
        using assms(4) PromOther stutter[of "if timed then RWaitTurn t else RReturn None"] t
        by (cases timed) simp_all
    next
      case False
      then have "unat t < pushes r"
        using m(4) by (simp add: word_le_nat_alt)
      then have "sim_to tb cur E N r (after_step s i (queue s) (RPromised timed (PromCas t)))"
        by (intro stutter) (use t in simp_all)
      with False show ?thesis
        using assms(4) PromOther by simp
    qed
  next
    case (PromCas t)
    then show ?thesis
      using assms(4) take stutter[of "RPromised timed (PromOther (popTicket (queue s)))"] m(5) by auto
  qed (use ok assms(4) in simp_all)
qed

text \<open>The timed waits leave the turn of the cell alone.\<close>

lemma simulated_waits:
  assumes S: "sim tb cur E N s r" and G: "good_env tb cur E N" and R: "has_room s" and i: "i < N"
    and c: "pcs s i = WWaitTurn t v \<or> pcs s i = RWaitTurn t"
  shows "simulated tb cur E N r s i (step E d (queue s) (pcs s i))"
proof -
  note m = queue_matchD[OF simD(2)[OF S]] and ok = simD(4)[OF S, of i] and room = sim_room[OF S R]
  have T: "turn_contract tb (seqOps E) cur"
    using G by (simp add: good_env_def)
  let ?s = "cell E (queue s) (slot_of (qcap (queue s)) (qstride (queue s)) (unat t))"
  have t: "unat t < ticketRoom"
    using ok c room(1,2) by auto
  have stutter: "sim_to tb cur E N r (after_step s i ((set_slot E (queue s) t (?s\<lparr>sequencer := sq\<rparr>))\<lparr>pushSpinCutoff := x\<rparr>) c')"
    if "local_ok r c'" "stage_of c' = Free" "cur sq = cur (sequencer ?s)" for c' sq x
  proof -
    have "queue_match tb cur E ((set_slot E (queue s) t (?s\<lparr>sequencer := sq\<rparr>))\<lparr>pushSpinCutoff := x\<rparr>) r"
      by (rule queue_match_upd[OF simD(2)[OF S] slot_updatedI(2)[OF m(1) t], where g = "turns r (rslot r (unat t))"])
        (use m(6)[of "unat t"] m(7)[of "unat t"] m(2,3) that(3) in \<open>simp_all add: slot_turn_def\<close>)
    then show ?thesis
      by (rule sim_stutter[OF S i _ that(1) _ that(2)]) (use c in auto)
  qed
  show ?thesis
  proof (cases "pcs s i")
    case (WWaitTurn t' v')
    then have t': "t' = t"
      using c by simp
    note tw = turn_contractD(10)[OF T]
    show ?thesis
      using WWaitTurn stutter[of "WPromised True PromLoad v'"] stutter[of "WReturn False"] t'
      by (cases "tryWaitForTurn (seqOps E) (sequencer ?s) (turn t (capacity (queue s)) * 2)
           (pushSpinCutoff (queue s)) (t mod kAdaptationFreq = 0) d")
        (auto simp: waitForPushTurnUntil_def with_slot_room[OF m(1) t] tryWaitForEnqueueTurnUntil_def turn_contractD(13)[OF T] dest: tw)
  next
    case (RWaitTurn t')
    then have t': "t' = t"
      using c by simp
    note tw = turn_contractD(10)[OF T]
    show ?thesis
      using RWaitTurn stutter[of "RPromised True PromLoad"] stutter[of "RReturn None"] t'
      by (cases "tryWaitForTurn (seqOps E) (sequencer ?s) (turn t (capacity (queue s)) * 2 + 1)
           (pushSpinCutoff (queue s)) (t mod kAdaptationFreq = 0) d")
        (auto simp: waitForPopTurnUntil_def with_slot_room[OF m(1) t] tryWaitForDequeueTurnUntil_def turn_contractD(13)[OF T] dest: tw)
  qed (use c in auto)
qed

section \<open>Enqueue and dequeue are simulated\<close>

lemma simulated_Enqueueing:
  assumes S: "sim tb cur E N s r" and G: "good_env tb cur E N" and R: "has_room s" and i: "i < N"
    and c: "pcs s i = Enqueueing t c v"
  shows "simulated tb cur E N r s i (step E d (queue s) (pcs s i))"
proof -
  let ?q = "queue s" and ?R = "rround r (unat t)"
  let ?s = "cell E ?q (slot_of (qcap ?q) (qstride ?q) (unat t))"
  note M = simD(2)[OF S]
  note m = queue_matchD[OF M] and ok = simD(4)[OF S, of i] and st = simD(3)[OF S, of i]
  have T: "turn_contract tb (seqOps E) cur"
    using G by (simp add: good_env_def)
  have inv: "push_side r" "cell_inv r" "value_inv r"
    using simD(1)[OF S] by (auto simp: ring_inv_def)
  have held: "enqT (stages r i) = Some (unat t)"
    using st ok c by (cases c) auto
  then have t: "unat t < pushes r"
    using push_sideD(1)[OF inv(1)] by blast
  then have room: "unat t < ticketRoom"
    using sim_room(1)[OF S R] by simp
  have turn: "turn t (capacity ?q) = of_nat ?R"
    by (simp add: unat_turn m(2))
  have slot: "slot_turn tb cur ?s (turns r (rslot r (unat t)))" "contents ?s = cells r (rslot r (unat t))"
    using m(2,3,6,7) by simp_all
  show ?thesis
  proof (cases c)
    case EnqWaitTurn
    have le: "turns r (rslot r (unat t)) \<le> 2 * ?R"
      using side_invD(2)[OF inv(1)[unfolded push_side_def], of i "unat t"] held by simp
    show ?thesis
    proof (cases "turns r (rslot r (unat t)) = 2 * ?R")
      case False
      have "2 * ?R - turns r (rslot r (unat t)) < 2 ^ (tb - 1)"
        using lag_small(1)[OF G sim_lag(1)[OF S]] t by simp
      with False le have "step E d ?q (pcs s i) = Blocks"
        using enqueue_wait_blocks[OF T slot(1)] c EnqWaitTurn
        by (simp add: with_slot_room[OF m(1) room] turn)
      then show ?thesis by simp
    next
      case True
      then obtain sq x where w: "enqueue_wait (seqOps E) ?s (of_nat ?R) (pushSpinCutoff ?q)
          (t mod kAdaptationFreq = 0) = Done (?s\<lparr>sequencer := sq\<rparr>, x)" "slot_turn tb cur (?s\<lparr>sequencer := sq\<rparr>) (2 * ?R)"
        using enqueue_wait_now[OF T] slot(1) by metis
      have "ring_step r (r\<lparr>stages := (stages r)(i := EnqHold (unat t) v)\<rparr>)"
        using st c EnqWaitTurn True by (intro ring_step.enq_start) auto
      then have "sim_to tb cur E N r (after_step s i ((set_slot E ?q t (?s\<lparr>sequencer := sq\<rparr>))\<lparr>pushSpinCutoff := x\<rparr>)
          (Enqueueing t EnqConstruct v))"
        by (rule sim_ring[OF S i])
          (use queue_match_upd[OF M slot_updatedI(2)[OF m(1) room], where g = "2 * ?R"] w(2) slot(2) True c EnqWaitTurn
            in \<open>simp_all add: fun_upd_idem\<close>)
      then show ?thesis
        using c EnqWaitTurn w(1) by (auto simp: with_slot_room[OF m(1) room] turn)
    qed
  next
    case EnqConstruct
    have now: "turns r (rslot r (unat t)) = 2 * ?R"
      using push_sideD(2)[OF inv(1), of i "unat t"] st c EnqConstruct by simp
    have none: "contents ?s = None"
      using cell_of_writer[OF inv(1,2), of i "unat t" v] st c EnqConstruct slot(2) by simp
    let ?r = "r\<lparr>cells := (cells r)(rslot r (unat t) := Some v), stages := (stages r)(i := EnqFull (unat t) v)\<rparr>"
    have "ring_step r ?r"
      using st c EnqConstruct by (intro ring_step.enq_write) auto
    then have "sim_to tb cur E N r (after_step s i (set_slot E ?q t (?s\<lparr>contents := Some v\<rparr>)) (Enqueueing t EnqCompleteTurn v))"
      by (rule sim_ring[OF S i])
        (use queue_match_upd[OF M slot_updatedI(1)[OF m(1) room], where g = "2 * ?R"] slot(1) now c EnqConstruct
          in \<open>simp_all add: fun_upd_idem slot_turn_def\<close>)
    then show ?thesis
      using c EnqConstruct none by (auto simp: with_slot_room[OF m(1) room] enqueue_construct_def)
  next
    case EnqCompleteTurn
    have now: "turns r (rslot r (unat t)) = 2 * ?R"
      using push_sideD(2)[OF inv(1), of i "unat t"] st c EnqCompleteTurn by simp
    let ?r = "r\<lparr>turns := (turns r)(rslot r (unat t) := turns r (rslot r (unat t)) + 1), stages := (stages r)(i := Free)\<rparr>"
    have "ring_step r ?r"
      using st c EnqCompleteTurn by (intro ring_step.enq_done) auto
    then have "sim_to tb cur E N r (after_step s i (set_slot E ?q t (enqueue_complete (seqOps E) ?s (of_nat ?R))) (WReturn True))"
      by (rule sim_ring[OF S i])
        (use queue_match_upd[OF M slot_updatedI(1)[OF m(1) room], where g = "2 * ?R + 1"]
          enqueue_complete_turn[OF T, of ?s ?R] slot now c EnqCompleteTurn in \<open>simp_all add: fun_upd_idem\<close>)
    then show ?thesis
      using c EnqCompleteTurn by (auto simp: with_slot_room[OF m(1) room] turn)
  qed (use ok c in simp)
qed

lemma simulated_Dequeueing:
  assumes S: "sim tb cur E N s r" and G: "good_env tb cur E N" and R: "has_room s" and i: "i < N"
    and c: "pcs s i = Dequeueing t c"
  shows "simulated tb cur E N r s i (step E d (queue s) (pcs s i))"
proof -
  let ?q = "queue s" and ?R = "rround r (unat t)"
  let ?s = "cell E ?q (slot_of (qcap ?q) (qstride ?q) (unat t))"
  note M = simD(2)[OF S]
  note m = queue_matchD[OF M] and ok = simD(4)[OF S, of i] and st = simD(3)[OF S, of i]
  have T: "turn_contract tb (seqOps E) cur"
    using G by (simp add: good_env_def)
  have inv: "pop_side r" "push_side r" "cell_inv r"
    using simD(1)[OF S] by (auto simp: ring_inv_def)
  have held: "deqT (stages r i) = Some (unat t)"
    using st ok c by (cases c) auto
  then have t: "unat t < pops r"
    using pop_sideD(1)[OF inv(1)] by blast
  then have room: "unat t < ticketRoom"
    using sim_room(2)[OF S R] by simp
  have turn: "turn t (capacity ?q) = of_nat ?R"
    by (simp add: unat_turn m(2))
  have slot: "slot_turn tb cur ?s (turns r (rslot r (unat t)))" "contents ?s = cells r (rslot r (unat t))"
    using m(2,3,6,7) by simp_all
  show ?thesis
  proof (cases c)
    case DeqWaitTurn
    have le: "turns r (rslot r (unat t)) \<le> 2 * ?R + 1"
      using side_invD(2)[OF inv(1)[unfolded pop_side_def], of i "unat t"] held by simp
    show ?thesis
    proof (cases "turns r (rslot r (unat t)) = 2 * ?R + 1")
      case False
      have "2 * ?R + 1 - turns r (rslot r (unat t)) < 2 ^ (tb - 1)"
        using lag_small(1)[OF G sim_lag(2)[OF S]] t by simp
      with False le have "step E d ?q (pcs s i) = Blocks"
        using dequeue_wait_blocks[OF T slot(1)] c DeqWaitTurn
        by (simp add: with_slot_room[OF m(1) room] turn)
      then show ?thesis by simp
    next
      case True
      then obtain sq x where w: "dequeue_wait (seqOps E) ?s (of_nat ?R) (popSpinCutoff ?q)
          (t mod kAdaptationFreq = 0) = Done (?s\<lparr>sequencer := sq\<rparr>, x)"
          "slot_turn tb cur (?s\<lparr>sequencer := sq\<rparr>) (2 * ?R + 1)"
        using dequeue_wait_now[OF T] slot(1) by metis
      have "ring_step r (r\<lparr>stages := (stages r)(i := DeqHold (unat t))\<rparr>)"
        using st c DeqWaitTurn True by (intro ring_step.deq_start) auto
      then have "sim_to tb cur E N r (after_step s i ((set_slot E ?q t (?s\<lparr>sequencer := sq\<rparr>))\<lparr>popSpinCutoff := x\<rparr>)
          (Dequeueing t DeqMove))"
        by (rule sim_ring[OF S i])
          (use queue_match_upd[OF M slot_updatedI(3)[OF m(1) room], where g = "2 * ?R + 1"] w(2) slot(2) True c DeqWaitTurn
            in \<open>simp_all add: fun_upd_idem\<close>)
      then show ?thesis
        using c DeqWaitTurn w(1) by (auto simp: with_slot_room[OF m(1) room] turn)
    qed
  next
    case DeqMove
    have now: "turns r (rslot r (unat t)) = 2 * ?R + 1"
      using pop_sideD(2)[OF inv(1), of i "unat t"] st c DeqMove by simp
    obtain v where v: "cells r (rslot r (unat t)) = Some v"
      using cell_of_holder(1)[OF inv, of i "unat t"] st c DeqMove by simp
    let ?r = "r\<lparr>cells := (cells r)(rslot r (unat t) := None), stages := (stages r)(i := DeqEmpty (unat t) v)\<rparr>"
    have "ring_step r ?r"
      using st c DeqMove v by (intro ring_step.deq_read) auto
    then have "sim_to tb cur E N r (after_step s i (set_slot E ?q t (?s\<lparr>contents := None\<rparr>)) (Dequeueing t (DeqCompleteTurn v)))"
      by (rule sim_ring[OF S i])
        (use queue_match_upd[OF M slot_updatedI(1)[OF m(1) room], where g = "2 * ?R + 1"] slot(1) now c DeqMove
          in \<open>simp_all add: fun_upd_idem slot_turn_def\<close>)
    then show ?thesis
      using c DeqMove v slot(2) by (auto simp: with_slot_room[OF m(1) room] dequeue_move_def)
  next
    case (DeqCompleteTurn v)
    have now: "turns r (rslot r (unat t)) = 2 * ?R + 1"
      using pop_sideD(2)[OF inv(1), of i "unat t"] st c DeqCompleteTurn by simp
    let ?r = "r\<lparr>turns := (turns r)(rslot r (unat t) := turns r (rslot r (unat t)) + 1), stages := (stages r)(i := Free),
        taken := taken r @ [(unat t, v)]\<rparr>"
    have "ring_step r ?r"
      using st c DeqCompleteTurn by (intro ring_step.deq_done) auto
    then have "sim_to tb cur E N r (after_step s i (set_slot E ?q t (dequeue_complete (seqOps E) ?s (of_nat ?R)))
        (RReturn (Some (t, v))))"
      by (rule sim_ring[OF S i])
        (use queue_match_upd[OF M slot_updatedI(1)[OF m(1) room], where g = "2 * ?R + 2"]
          dequeue_complete_turn[OF T, of ?s ?R] slot now c DeqCompleteTurn in \<open>simp_all add: fun_upd_idem\<close>)
    then show ?thesis
      using c DeqCompleteTurn by (auto simp: with_slot_room[OF m(1) room] turn)
  qed (use ok c in simp)
qed

lemma simulated_step:
  assumes S: "sim tb cur E N s r" and G: "good_env tb cur E N" and R: "has_room s" and i: "i < N"
    and "inside (pcs s i)"
  shows "simulated tb cur E N r s i (step E d (queue s) (pcs s i))"
proof (cases "pcs s i")
  case (WBlocking v)
  then show ?thesis
    using sim_take_push[OF S R i, of v] by simp
next
  case RBlocking
  then show ?thesis
    using sim_take_pop[OF S R i] by simp
next
  case (WReady c v)
  then show ?thesis
    by (rule simulated_WReady[OF S G R i])
next
  case (WPromised b c v)
  then show ?thesis
    by (rule simulated_WPromised[OF S R i])
next
  case (WWaitTurn t v)
  then show ?thesis
    by (intro simulated_waits[OF S G R i, of t v] disjI1)
next
  case (Enqueueing t c v)
  then show ?thesis
    by (rule simulated_Enqueueing[OF S G R i])
next
  case (RReady c)
  then show ?thesis
    by (rule simulated_RReady[OF S G R i])
next
  case (RPromised b c)
  then show ?thesis
    by (rule simulated_RPromised[OF S R i])
next
  case (RWaitTurn t)
  then show ?thesis
    by (intro simulated_waits[OF S G R i, of t] disjI2)
next
  case (Dequeueing t c)
  then show ?thesis
    by (rule simulated_Dequeueing[OF S G R i])
qed (use assms(5) in simp_all)

section \<open>Reachable states\<close>

lemma not_inside_Free: "\<not> inside c \<Longrightarrow> stage_of c = Free"
  by (cases c) auto

lemma enter_ok: "local_ok r (enter c)" "stage_of (enter c) = Free"
  by (cases c; simp)+

lemma has_room_back: "sys_step E N s s' \<Longrightarrow> has_room s' \<Longrightarrow> has_room s"
  by (induction rule: sys_step.induct) (auto simp: has_room_def after_step_def)

lemma sim_sys_step:
  assumes "sys_step E N s s'" "sim tb cur E N s r" "good_env tb cur E N" "has_room s"
  shows "sim_to tb cur E N r s'"
  using assms
proof (induction rule: sys_step.induct)
  case (invoke i s c)
  then have "sim tb cur E N (s\<lparr>pcs := (pcs s)(i := enter c)\<rparr>) r"
    using not_inside_Free[OF invoke(2)] by (auto simp: sim_def enter_ok)
  then show ?case
    by (auto simp: sim_to_def)
next
  case (advance i s d q c)
  then show ?case
    using simulated_step[of tb cur E N s r i d] by simp
qed

lemma sim_init:
  assumes "newMPMCQueue E cap = Inr q" "unat cap + 2 * unat (slotPadding E) < 2 ^ 63" "good_env tb cur E N"
  shows "sim tb cur E N (sys_init q) (ring_init (qcap q) (qstride q))"
proof -
  note new = newMPMCQueue_wf[OF assms(1,2)]
  have T: "turn_contract tb (seqOps E) cur"
    using assms(3) by (simp add: good_env_def)
  have "ring_inv (ring_init (qcap q) (qstride q))"
    using wf_queueD(1,5)[OF new(1)] by (rule ring_inv_init)
  moreover have "cells_match tb cur E q (ring_init (qcap q) (qstride q))"
    using new(5) by (simp add: cells_match_def ring_init_def newSlot_turn[OF T])
  ultimately show ?thesis
    using new by (simp add: sim_def queue_match_def sys_init_def ring_init_def)
qed

lemma reach_sim:
  assumes "sys_reach E N q s" "newMPMCQueue E cap = Inr q" "unat cap + 2 * unat (slotPadding E) < 2 ^ 63"
    "good_env tb cur E N" "has_room s"
  shows "\<exists>r. sim tb cur E N s r"
  using assms(1,5)
proof (induction rule: sys_reach.induct)
  case init
  then show ?case
    using sim_init[OF assms(2-4)] by blast
next
  case (step s s')
  then obtain r where "sim tb cur E N s r"
    using has_room_back by blast
  then show ?case
    using sim_sys_step[OF step.hyps(2) _ assms(4)] has_room_back[OF step.hyps(2) step.prems]
    by (auto simp: sim_to_def)
qed

lemma step_capacity: "step E d q c = Done (q', c') \<Longrightarrow> capacity q' = capacity q"
  by (simp add: step_bounds del: step.simps)

lemma reach_capacity: "sys_reach E N q s \<Longrightarrow> capacity (queue s) = capacity q"
proof (induction rule: sys_reach.induct)
  case (step s s')
  from step.hyps(2) step.IH show ?case
    by (induction rule: sys_step.induct) (auto simp: after_step_def step_capacity simp del: step.simps)
qed (simp add: sys_init_def)

section \<open>Which steps can wait\<close>

text \<open>Only the waits block: a thread that holds a ticket whose turn has come can move.\<close>

lemma advances_moves:
  assumes S: "sim tb cur E N s r" and G: "good_env tb cur E N" and R: "has_room s" and a: "advances r k"
  shows "k < N \<and> inside (pcs s k) \<and> (\<exists>q c. step E d (queue s) (pcs s k) = Done (q, c))"
proof -
  have st: "stages r k = stage_of (pcs s k)"
    by (rule simD(3)[OF S])
  have "stages r k \<noteq> Free"
    using a by auto
  then have k: "k < N" "inside (pcs s k)"
    using sim_active[OF S, of k] not_inside_Free[of "pcs s k"] st by auto
  note m = queue_matchD[OF simD(2)[OF S]] and room = sim_room[OF S R]
  have T: "turn_contract tb (seqOps E) cur"
    using G by (simp add: good_env_def)
  have sides: "push_side r" "pop_side r"
    using simD(1)[OF S] by (auto simp: ring_inv_def)
  have "step E d (queue s) (pcs s k) \<noteq> Blocks"
  proof (cases "pcs s k")
    case (Enqueueing t c v)
    then have t: "enqT (stages r k) = Some (unat t)"
      using st simD(4)[OF S, of k] by (cases c) auto
    then have rt: "unat t < ticketRoom"
      using push_sideD(1)[OF sides(1)] room(1) by fastforce
    show ?thesis
    proof (cases c)
      case EnqWaitTurn
      then have "slot_turn tb cur (cell E (queue s) (slot_of (qcap (queue s)) (qstride (queue s)) (unat t)))
          (2 * round_of (qcap (queue s)) (unat t))"
        using a st Enqueueing m(2,3) m(6)[of "unat t"] by simp
      then show ?thesis
        using Enqueueing EnqWaitTurn enqueue_wait_now[OF T, of _ _ "pushSpinCutoff (queue s)" "t mod kAdaptationFreq = 0"]
        by (force simp: with_slot_room[OF m(1) rt] unat_turn)
    qed (use Enqueueing in \<open>auto simp: with_slot_room[OF m(1) rt] enqueue_construct_def split: option.splits\<close>)
  next
    case (Dequeueing t c)
    then have t: "deqT (stages r k) = Some (unat t)"
      using st simD(4)[OF S, of k] by (cases c) auto
    then have rt: "unat t < ticketRoom"
      using pop_sideD(1)[OF sides(2)] room(2) by fastforce
    show ?thesis
    proof (cases c)
      case DeqWaitTurn
      then have "slot_turn tb cur (cell E (queue s) (slot_of (qcap (queue s)) (qstride (queue s)) (unat t)))
          (2 * round_of (qcap (queue s)) (unat t) + 1)"
        using a st Dequeueing m(2,3) m(6)[of "unat t"] by simp
      then show ?thesis
        using Dequeueing DeqWaitTurn dequeue_wait_now[OF T, of _ _ "popSpinCutoff (queue s)" "t mod kAdaptationFreq = 0"]
        by (force simp: with_slot_room[OF m(1) rt] unat_turn)
    qed (use Dequeueing in \<open>auto simp: with_slot_room[OF m(1) rt] dequeue_move_def split: option.splits\<close>)
  qed (use a st in auto)
  with k simulated_step[OF S G R k, of d] show ?thesis
    by (cases "step E d (queue s) (pcs s k)") auto
qed

end
