(* ===== verification/MPMCProperties.thy ===== *)
theory MPMCProperties
  imports MPMCConcurrent
begin

text \<open>
  The properties of \<open>MPMCQueue\<close> under concurrent use, read off the simulation of
  \<open>MPMCConcurrent\<close>, and an executable scheduler that replays an interleaving given as a list of
  events, used to show concrete instances.
\<close>

section \<open>Replaying an interleaving\<close>

datatype 'a event =
    Call nat "'a call"     \<comment> \<open>thread, public operation\<close>
  | Move nat bool          \<comment> \<open>thread, whether its deadline has passed\<close>

fun sys_event :: "'ts mpmc_env \<Rightarrow> nat \<Rightarrow> ('ts, 'a) sys \<Rightarrow> 'a event \<Rightarrow> ('ts, 'a) sys option" where
  "sys_event E N s (Call i c) =
     (if i < N \<and> \<not> inside (pcs s i) then Some (s\<lparr>pcs := (pcs s)(i := enter c)\<rparr>) else None)"
| "sys_event E N s (Move i d) =
     (if i < N \<and> inside (pcs s i)
      then case step E d (queue s) (pcs s i) of Done (q, c) \<Rightarrow> Some (after_step s i q c) | _ \<Rightarrow> None
      else None)"

fun sys_run :: "'ts mpmc_env \<Rightarrow> nat \<Rightarrow> ('ts, 'a) sys \<Rightarrow> 'a event list \<Rightarrow> ('ts, 'a) sys option" where
  "sys_run E N s [] = Some s"
| "sys_run E N s (e # es) = (case sys_event E N s e of None \<Rightarrow> None | Some s' \<Rightarrow> sys_run E N s' es)"

lemma sys_event_step: "sys_event E N s e = Some s' \<Longrightarrow> sys_step E N s s'"
  by (cases e) (auto split: if_splits outcome.splits intro: sys_step.intros)

lemma sys_run_reach: "sys_run E N s es = Some s' \<Longrightarrow> sys_reach E N q s \<Longrightarrow> sys_reach E N q s'"
  by (induction es arbitrary: s) (auto split: option.splits intro: sys_reach.step dest: sys_event_step)

text \<open>Replays on the queue of one slot with two threads.\<close>

definition oneSlot :: "(u32, int) MPMCQueue" where
  "oneSlot = \<lparr>capacity = 1, slots = replicate 5 (newSlot counting_ops), stride = 1,
     pushTicket = 0, popTicket = 0, pushSpinCutoff = 0, popSpinCutoff = 0\<rparr>"

lemma oneSlot_new: "newMPMCQueue counting_env 1 = Inr oneSlot"
  by code_simp

lemma oneSlot_room: "unat (1 :: u64) + 2 * unat (slotPadding counting_env) < 2 ^ 63"
  by (simp add: counting_env_def)

lemma counting_good: "good_env 32 id counting_env 2"
  using counting_contract by (simp add: good_env_def counting_env_def)

text \<open>Observations of a replayed state that can be evaluated.\<close>

definition observe :: "(u32, int) sys \<Rightarrow> int list \<times> nat \<times> (nat \<times> int) list \<times> int pc \<times> int pc" where
  "observe s = (pushed s, popsIssued s, delivered s, pcs s 0, pcs s 1)"

definition replay :: "int event list \<Rightarrow> (int list \<times> nat \<times> (nat \<times> int) list \<times> int pc \<times> int pc) option" where
  "replay es = map_option observe (sys_run counting_env 2 (sys_init oneSlot) es)"

lemma replay_reach:
  assumes "replay es = Some (ws, n, ds, c0, c1)"
  obtains s where "sys_reach counting_env 2 oneSlot s" "pushed s = ws" "popsIssued s = n" "delivered s = ds"
    "pcs s 0 = c0" "pcs s 1 = c1"
proof -
  obtain s where "sys_run counting_env 2 (sys_init oneSlot) es = Some s" "observe s = (ws, n, ds, c0, c1)"
    using assms by (auto simp: replay_def)
  moreover from this(1) have "sys_reach counting_env 2 oneSlot s"
    by (rule sys_run_reach[OF _ sys_reach.init])
  ultimately show thesis
    by (intro that[of s]) (auto simp: observe_def)
qed

lemma sys_run_append:
  "sys_run E N s (es @ fs) = (case sys_run E N s es of None \<Rightarrow> None | Some s' \<Rightarrow> sys_run E N s' fs)"
  by (induction es arbitrary: s) (auto split: option.splits)

lemma replay_move:
  assumes "replay es = Some (ws, n, ds, c0, c1)" "replay (es @ [Move 0 d]) = Some (ws', n', ds', c0', c1')"
  obtains s q where "sys_reach counting_env 2 oneSlot s" "pushed s = ws" "popsIssued s = n" "delivered s = ds"
    "pcs s 0 = c0" "pcs s 1 = c1" "step counting_env d (queue s) (pcs s 0) = Done (q, c0')"
proof -
  obtain s where s: "sys_run counting_env 2 (sys_init oneSlot) es = Some s" "observe s = (ws, n, ds, c0, c1)"
    using assms(1) by (auto simp: replay_def)
  then obtain s' where s': "sys_event counting_env 2 s (Move 0 d) = Some s'" "observe s' = (ws', n', ds', c0', c1')"
    using assms(2) by (auto simp: replay_def sys_run_append split: option.splits)
  then obtain q where "step counting_env d (queue s) (pcs s 0) = Done (q, c0')"
    by (auto simp: observe_def after_step_def simp del: step.simps split: if_splits outcome.splits)
  moreover have "sys_reach counting_env 2 oneSlot s"
    using s(1) by (rule sys_run_reach[OF _ sys_reach.init])
  ultimately show thesis
    using s(2) by (intro that[of s q]) (auto simp: observe_def)
qed

section \<open>First in, first out\<close>

text \<open>C1. Any number of threads use a queue of any capacity at the same time, in any interleaving of
  the atomic steps of its eight public operations. No pop ticket delivers twice, every delivered
  value is the one pushed under the same ticket number, and when no call is in progress exactly the
  issued pop tickets have delivered: the reads have returned the values in the order in which their
  writes drew tickets, none lost and none duplicated. Bounds: fewer than \<open>2 ^ 58\<close> tickets on each
  side and fewer threads than a quarter of the range of turn numbers.\<close>

theorem mpmc_fifo:
  assumes "newMPMCQueue E cap = Inr q" "unat cap + 2 * unat (slotPadding E) < 2 ^ 63"
    and "good_env tb cur E N" "sys_reach E N q s" "has_room s"
  shows "distinct (map fst (delivered s)) \<and>
         (\<forall>t v. (t, v) \<in> set (delivered s) \<longrightarrow> t < length (pushed s) \<and> v = pushed s ! t) \<and>
         ((\<forall>i. \<not> inside (pcs s i)) \<longrightarrow>
            set (delivered s) = (\<lambda>t. (t, pushed s ! t)) ` {..<popsIssued s} \<and> popsIssued s \<le> length (pushed s))"
proof -
  obtain r where S: "sim tb cur E N s r"
    using reach_sim[OF assms(4,1-3,5)] ..
  note inv = simD(1)[OF S] and f = ring_inv_fifo[OF simD(1)[OF S]]
  have all: "(t, pushed s ! t) \<in> set (delivered s)" if "\<forall>i. \<not> inside (pcs s i)" "t < popsIssued s" for t
  proof -
    have "stages r i = Free" for i
      using simD(3)[OF S, of i] not_inside_Free[of "pcs s i"] that(1) by simp
    then show ?thesis
      using ring_inv_served[OF inv, of t] that(2) simD(6-8)[OF S] by simp
  qed
  have val: "t < length (pushed s) \<and> v = pushed s ! t" and issued: "t < popsIssued s"
    if "(t, v) \<in> set (delivered s)" for t v
    using f(2,3)[of t v] that simD(6-8)[OF S] by simp_all
  have ex: "set (delivered s) = (\<lambda>t. (t, pushed s ! t)) ` {..<popsIssued s}" if quiet: "\<forall>i. \<not> inside (pcs s i)"
  proof (intro equalityI subsetI)
    fix p assume p: "p \<in> set (delivered s)"
    obtain t v where tv: "p = (t, v)"
      by fastforce
    then have "v = pushed s ! t" "t < popsIssued s"
      using val issued p by blast+
    with tv show "p \<in> (\<lambda>t. (t, pushed s ! t)) ` {..<popsIssued s}"
      by blast
  qed (use all[OF quiet] in blast)
  have le: "popsIssued s \<le> length (pushed s)" if "\<forall>i. \<not> inside (pcs s i)"
    using all[OF that, of "length (pushed s)"] val by (meson less_irrefl not_le)
  have "distinct (map fst (delivered s))"
    using f(1) simD(8)[OF S] by simp
  with val ex le show ?thesis
    by blast
qed

text \<open>Witness of C1: a read and two writes of two threads on a queue of one slot, interleaved: the
  second write waits for the read of the first value.\<close>

definition demoSchedule :: "int event list" where
  "demoSchedule =
     [Call 0 (Write 7), Call 1 BlockingRead, Move 0 False, Move 1 False, Move 0 False, Move 0 False,
      Move 0 False, Move 0 False, Move 0 False, Call 0 (BlockingWrite 8), Move 0 False, Move 1 False,
      Move 1 False, Move 1 False, Move 0 False, Move 0 False, Move 0 False]"

theorem mpmc_fifo_witness:
  "\<exists>s. sys_reach counting_env 2 oneSlot s \<and> pushed s = [7, 8] \<and> set (delivered s) = {(0, 7)}"
proof -
  have "replay demoSchedule = Some ([7, 8], 1, [(0, 7)], WReturn True, RReturn (Some (0, 7)))"
    by code_simp
  then obtain s where s: "sys_reach counting_env 2 oneSlot s" "pushed s = [7, 8]" "popsIssued s = 1"
      "delivered s = [(0, 7)]"
    by (rule replay_reach)
  have "has_room s"
    using s by (simp add: has_room_def ticketRoom_def)
  with mpmc_fifo[OF oneSlot_new oneSlot_room counting_good s(1)] s show ?thesis
    by auto
qed

section \<open>Nothing undefined\<close>

text \<open>C2. Under the same conditions no thread ever executes undefined behaviour: it never indexes the
  slot array out of bounds, never constructs a value over a live one and never moves a value out of
  an empty slot.\<close>

theorem mpmc_never_undefined:
  assumes "newMPMCQueue E cap = Inr q" "unat cap + 2 * unat (slotPadding E) < 2 ^ 63"
    and "good_env tb cur E N" "sys_reach E N q s" "has_room s" "i < N"
  shows "step E d (queue s) (pcs s i) \<noteq> Undefined"
proof (cases "inside (pcs s i)")
  case True
  obtain r where "sim tb cur E N s r"
    using reach_sim[OF assms(4,1-3,5)] ..
  then show ?thesis
    using simulated_step[of tb cur E N s r i d] True assms(3,5,6) by auto
next
  case False
  then show ?thesis
    by (cases "pcs s i") auto
qed

theorem mpmc_never_undefined_witness:
  "\<exists>s. sys_reach counting_env 2 oneSlot s \<and> inside (pcs s 1) \<and> step counting_env False (queue s) (pcs s 1) \<noteq> Undefined"
proof -
  have "replay (take 9 demoSchedule) = Some ([7], 1, [], WReturn True, Dequeueing 0 DeqWaitTurn)"
    by code_simp
  then obtain s where s: "sys_reach counting_env 2 oneSlot s" "pushed s = [7]" "popsIssued s = 1"
      "pcs s 1 = Dequeueing 0 DeqWaitTurn"
    by (rule replay_reach)
  have "has_room s"
    using s by (simp add: has_room_def ticketRoom_def)
  with mpmc_never_undefined[OF oneSlot_new oneSlot_room counting_good s(1), of 1 False] s show ?thesis
    by (intro exI[of _ s]) (simp del: step.simps)
qed

section \<open>Validated tickets do not block\<close>

text \<open>Steps of threads other than \<open>i\<close>.\<close>

inductive others :: "'ts mpmc_env \<Rightarrow> nat \<Rightarrow> nat \<Rightarrow> ('ts, 'a) sys \<Rightarrow> ('ts, 'a) sys \<Rightarrow> bool" for E N i where
  refl: "others E N i s s"
| step: "others E N i s s1 \<Longrightarrow> sys_step E N s1 s2 \<Longrightarrow> pcs s2 i = pcs s1 i \<Longrightarrow> others E N i s s2"

lemma others_room: "others E N i s s' \<Longrightarrow> has_room s' \<Longrightarrow> has_room s"
  by (induction rule: others.induct) (auto dest: has_room_back)

lemma others_push_turn:
  assumes "others E N i s s'" "sim tb cur E N s r" "good_env tb cur E N" "has_room s'"
    and "pcs s i = Enqueueing t EnqWaitTurn v" "turns r (rslot r (unat t)) = 2 * rround r (unat t)"
  shows "\<exists>r'. sim tb cur E N s' r' \<and> pcs s' i = Enqueueing t EnqWaitTurn v \<and>
           turns r' (rslot r' (unat t)) = 2 * rround r' (unat t)"
  using assms
proof (induction rule: others.induct)
  case (step s s1 s2)
  have room: "has_room s1"
    using has_room_back[OF step.hyps(2) step.prems(3)] .
  obtain r1 where r1: "sim tb cur E N s1 r1" "pcs s1 i = Enqueueing t EnqWaitTurn v"
      "turns r1 (rslot r1 (unat t)) = 2 * rround r1 (unat t)"
    using step.IH[OF step.prems(1,2) room step.prems(4,5)] by blast
  obtain r2 where r2: "sim tb cur E N s2 r2" "r2 = r1 \<or> ring_step r1 r2"
    using sim_sys_step[OF step.hyps(2) r1(1) step.prems(2) room] by (auto simp: sim_to_def)
  have "push_side r1"
    using simD(1)[OF r1(1)] by (simp add: ring_inv_def)
  then have nf: "\<not> filled (stages r1) (unat t)"
    using filled_unique[of r1 i "unat t"] simD(3)[OF r1(1), of i] r1(2) by auto
  have "turns r2 (rslot r2 (unat t)) = 2 * rround r2 (unat t)"
    using r2(2) push_turn_stable[OF simD(1)[OF r1(1)] _ r1(3) nf, of r2] ring_step_static[of r1 r2] r1(3) by auto
  with r2(1) step.hyps(3) r1(2) show ?case
    by auto
qed blast

lemma others_pop_turn:
  assumes "others E N i s s'" "sim tb cur E N s r" "good_env tb cur E N" "has_room s'"
    and "pcs s i = Dequeueing t DeqWaitTurn" "turns r (rslot r (unat t)) = 2 * rround r (unat t) + 1"
  shows "\<exists>r'. sim tb cur E N s' r' \<and> pcs s' i = Dequeueing t DeqWaitTurn \<and>
           turns r' (rslot r' (unat t)) = 2 * rround r' (unat t) + 1"
  using assms
proof (induction rule: others.induct)
  case (step s s1 s2)
  have room: "has_room s1"
    using has_room_back[OF step.hyps(2) step.prems(3)] .
  obtain r1 where r1: "sim tb cur E N s1 r1" "pcs s1 i = Dequeueing t DeqWaitTurn"
      "turns r1 (rslot r1 (unat t)) = 2 * rround r1 (unat t) + 1"
    using step.IH[OF step.prems(1,2) room step.prems(4,5)] by blast
  obtain r2 where r2: "sim tb cur E N s2 r2" "r2 = r1 \<or> ring_step r1 r2"
    using sim_sys_step[OF step.hyps(2) r1(1) step.prems(2) room] by (auto simp: sim_to_def)
  have "pop_side r1"
    using simD(1)[OF r1(1)] by (simp add: ring_inv_def)
  then have ne: "\<not> emptied (stages r1) (unat t)"
    using emptied_unique[of r1 i "unat t"] simD(3)[OF r1(1), of i] r1(2) by auto
  have "turns r2 (rslot r2 (unat t)) = 2 * rround r2 (unat t) + 1"
    using r2(2) pop_turn_stable[OF simD(1)[OF r1(1)] _ r1(3) ne, of r2] ring_step_static[of r1 r2] r1(3) by auto
  with r2(1) step.hyps(3) r1(2) show ?case
    by auto
qed blast

lemma ready_push_ticket:
  assumes "step E d q (WReady c v) = Done (q1, Enqueueing t EnqWaitTurn v1)"
  shows "c = ReadyTicket t \<or> c = ReadyCas t \<and> pushTicket q = t" "v1 = v"
  using assms by (cases c; auto simp: with_slot_def Let_def bind_outcome_Done_iff split: if_splits)+

lemma ready_pop_ticket:
  assumes "step E d q (RReady c) = Done (q1, Dequeueing t DeqWaitTurn)"
  shows "c = ReadyTicket t \<or> c = ReadyCas t \<and> popTicket q = t"
  using assms by (cases c; auto simp: with_slot_def Let_def bind_outcome_Done_iff split: if_splits)

text \<open>A push ticket.\<close>

lemma write_ticket_turn:
  assumes "newMPMCQueue E cap = Inr q" "unat cap + 2 * unat (slotPadding E) < 2 ^ 63"
    and "good_env tb cur E N" "sys_reach E N q s" "i < N"
    and "pcs s i = WReady c v" "step E d (queue s) (pcs s i) = Done (q1, Enqueueing t EnqWaitTurn v)"
    and "others E N i (after_step s i q1 (Enqueueing t EnqWaitTurn v)) s2" "has_room s2"
  shows "\<exists>q2. step E d2 (queue s2) (pcs s2 i) = Done (q2, Enqueueing t EnqConstruct v)"
proof -
  let ?s1 = "after_step s i q1 (Enqueueing t EnqWaitTurn v)"
  have st: "sys_step E N s ?s1"
    by (rule sys_step.advance[OF assms(5) _ assms(7)]) (simp add: assms(6))
  have room: "has_room s"
    using has_room_back[OF st others_room[OF assms(8,9)]] .
  obtain r where S: "sim tb cur E N s r"
    using reach_sim[OF assms(4,1-3) room] ..
  note m = queue_matchD[OF simD(2)[OF S]]
  have c: "c = ReadyCas t" "pushTicket (queue s) = t"
    using ready_push_ticket(1)[of E d "queue s" c v q1 t v] assms(6,7) simD(4)[OF S, of i] by auto
  have now: "turns r (rslot r (unat t)) = 2 * rround r (unat t)" and nxt: "unat t = pushes r"
    using simD(4)[OF S, of i] assms(6) c m(4) by simp_all
  obtain r1 where r1: "sim tb cur E N ?s1 r1" "r1 = r \<or> ring_step r r1"
    using sim_sys_step[OF st S assms(3) room] by (auto simp: sim_to_def)
  have "push_side r"
    using simD(1)[OF S] by (simp add: ring_inv_def)
  then have "\<not> filled (stages r) (unat t)"
    using filledD[of r "unat t"] nxt by auto
  then have "turns r1 (rslot r1 (unat t)) = 2 * rround r1 (unat t)"
    using r1(2) push_turn_stable[OF simD(1)[OF S] _ now, of r1] ring_step_static[of r r1] now by auto
  then obtain r2 where r2: "sim tb cur E N s2 r2" "pcs s2 i = Enqueueing t EnqWaitTurn v"
      "turns r2 (rslot r2 (unat t)) = 2 * rround r2 (unat t)"
    using others_push_turn[OF assms(8) r1(1) assms(3,9), of t v] by (auto simp: after_step_def)
  then have "advances r2 i"
    using simD(3)[OF r2(1), of i] by simp
  then obtain q2 c2 where "step E d2 (queue s2) (pcs s2 i) = Done (q2, c2)"
    using advances_moves[OF r2(1) assms(3,9)] by blast
  with r2(2) show ?thesis
    by (auto simp: bind_outcome_Done_iff with_slot_def split: if_splits)
qed

text \<open>A pop ticket.\<close>

lemma read_ticket_turn:
  assumes "newMPMCQueue E cap = Inr q" "unat cap + 2 * unat (slotPadding E) < 2 ^ 63"
    and "good_env tb cur E N" "sys_reach E N q s" "i < N"
    and "pcs s i = RReady c" "step E d (queue s) (pcs s i) = Done (q1, Dequeueing t DeqWaitTurn)"
    and "others E N i (after_step s i q1 (Dequeueing t DeqWaitTurn)) s2" "has_room s2"
  shows "\<exists>q2. step E d2 (queue s2) (pcs s2 i) = Done (q2, Dequeueing t DeqMove)"
proof -
  let ?s1 = "after_step s i q1 (Dequeueing t DeqWaitTurn)"
  have st: "sys_step E N s ?s1"
    by (rule sys_step.advance[OF assms(5) _ assms(7)]) (simp add: assms(6))
  have room: "has_room s"
    using has_room_back[OF st others_room[OF assms(8,9)]] .
  obtain r where S: "sim tb cur E N s r"
    using reach_sim[OF assms(4,1-3) room] ..
  note m = queue_matchD[OF simD(2)[OF S]]
  have c: "c = ReadyCas t" "popTicket (queue s) = t"
    using ready_pop_ticket[of E d "queue s" c q1 t] assms(6,7) simD(4)[OF S, of i] by auto
  have now: "turns r (rslot r (unat t)) = 2 * rround r (unat t) + 1" and nxt: "unat t = pops r"
    using simD(4)[OF S, of i] assms(6) c m(5) by simp_all
  obtain r1 where r1: "sim tb cur E N ?s1 r1" "r1 = r \<or> ring_step r r1"
    using sim_sys_step[OF st S assms(3) room] by (auto simp: sim_to_def)
  have "pop_side r"
    using simD(1)[OF S] by (simp add: ring_inv_def)
  then have "\<not> emptied (stages r) (unat t)"
    using emptied_issued[of r "unat t"] nxt by auto
  then have "turns r1 (rslot r1 (unat t)) = 2 * rround r1 (unat t) + 1"
    using r1(2) pop_turn_stable[OF simD(1)[OF S] _ now, of r1] ring_step_static[of r r1] now by auto
  then obtain r2 where r2: "sim tb cur E N s2 r2" "pcs s2 i = Dequeueing t DeqWaitTurn"
      "turns r2 (rslot r2 (unat t)) = 2 * rround r2 (unat t) + 1"
    using others_pop_turn[OF assms(8) r1(1) assms(3,9), of t] by (auto simp: after_step_def)
  then have "advances r2 i"
    using simD(3)[OF r2(1), of i] by simp
  then obtain q2 c2 where "step E d2 (queue s2) (pcs s2 i) = Done (q2, c2)"
    using advances_moves[OF r2(1) assms(3,9)] by blast
  with r2(2) show ?thesis
    by (auto simp: bind_outcome_Done_iff with_slot_def split: if_splits)
qed

text \<open>C7. Cn. A call of \<open>write\<close> that obtains a push ticket, and a call of \<open>read\<close> that obtains a pop ticket, has
  validated it: from that moment on, whatever the other threads do, the wait for the ticket's turn returns at
  once, so neither ever blocks.\<close>

theorem ready_tickets_never_block:
  assumes "newMPMCQueue E cap = Inr q" "unat cap + 2 * unat (slotPadding E) < 2 ^ 63"
    and "good_env tb cur E N" "sys_reach E N q s" "i < N"
    and "pcs s i = WReady c v \<and> p = Enqueueing t EnqWaitTurn v \<and> p' = Enqueueing t EnqConstruct v \<or>
      pcs s i = RReady c \<and> p = Dequeueing t DeqWaitTurn \<and> p' = Dequeueing t DeqMove"
    and "step E d (queue s) (pcs s i) = Done (q1, p)" "others E N i (after_step s i q1 p) s2" "has_room s2"
  shows "\<exists>q2. step E d2 (queue s2) (pcs s2 i) = Done (q2, p')"
  using assms(6)
proof (elim disjE conjE)
  assume "pcs s i = WReady c v" "p = Enqueueing t EnqWaitTurn v" "p' = Enqueueing t EnqConstruct v"
  with write_ticket_turn[OF assms(1-5), of c v d q1 t s2 d2] assms(7-9) show ?thesis
    by simp
next
  assume "pcs s i = RReady c" "p = Dequeueing t DeqWaitTurn" "p' = Dequeueing t DeqMove"
  with read_ticket_turn[OF assms(1-5), of c d q1 t s2 d2] assms(7-9) show ?thesis
    by simp
qed

text \<open>Witness of Cn: after \<open>write(7)\<close> has returned, the replay of \<open>read\<close> by the other thread.\<close>

theorem ready_tickets_never_block_witness:
  "\<exists>s q1 q2. sys_reach counting_env 2 oneSlot s \<and>
     step counting_env False (queue s) (pcs s 1) = Done (q1, Dequeueing 0 DeqWaitTurn) \<and>
     step counting_env False q1 (Dequeueing 0 DeqWaitTurn) = Done (q2, Dequeueing 0 DeqMove)"
proof -
  have "replay ([Call 0 (Write 7)] @ replicate 6 (Move 0 False) @ [Call 1 Read, Move 1 False, Move 1 False])
      = Some ([7], 0, [], WReturn True, RReady (ReadyCas 0))"
    by code_simp
  then obtain s where s: "sys_reach counting_env 2 oneSlot s" "pushed s = [7]" "popsIssued s = 0"
      "pcs s 1 = RReady (ReadyCas 0)"
    by (rule replay_reach)
  have "has_room s"
    using s by (simp add: has_room_def ticketRoom_def)
  then obtain r where S: "sim 32 id counting_env 2 s r"
    using reach_sim[OF s(1) oneSlot_new oneSlot_room counting_good] by blast
  have "unat (popTicket (queue s)) = 0"
    using queue_matchD(5)[OF simD(2)[OF S]] simD(7)[OF S] s(3) by simp
  then have st: "step counting_env False (queue s) (pcs s 1) =
      Done ((queue s)\<lparr>popTicket := 0 + 1\<rparr>, Dequeueing 0 DeqWaitTurn)"
    using s(4) by (simp add: unat_eq_zero)
  let ?s1 = "after_step s 1 ((queue s)\<lparr>popTicket := 0 + 1\<rparr>) (Dequeueing 0 DeqWaitTurn)"
  have room1: "has_room ?s1"
    using s by (simp add: has_room_def ticketRoom_def after_step_def)
  have d: "pcs s 1 = WReady (ReadyCas 0) 0 \<and> Dequeueing 0 DeqWaitTurn = Enqueueing 0 EnqWaitTurn 0 \<and>
        Dequeueing 0 DeqMove = Enqueueing 0 EnqConstruct 0 \<or>
      pcs s 1 = RReady (ReadyCas 0) \<and> Dequeueing 0 DeqWaitTurn = (Dequeueing 0 DeqWaitTurn :: int pc) \<and>
        Dequeueing 0 DeqMove = (Dequeueing 0 DeqMove :: int pc)"
    using s(4) by simp
  have "\<exists>q2. step counting_env False (queue ?s1) (pcs ?s1 1) = Done (q2, Dequeueing 0 DeqMove)"
    by (rule ready_tickets_never_block[OF oneSlot_new oneSlot_room counting_good s(1) _ d st others.refl room1]) simp
  with s st show ?thesis
    by (auto simp: after_step_def simp del: step.simps)
qed

section \<open>Failures are justified\<close>

lemma promised_outcomes:
  assumes "newMPMCQueue E cap = Inr q" "unat cap + 2 * unat (slotPadding E) < 2 ^ 63"
    and "good_env tb cur E N" "sys_reach E N q s" "has_room s"
    and "step E d (queue s) (pcs s i) = Done (q', c')"
  shows "(pcs s i = WPromised timed c v \<longrightarrow>
            (c' = WReturn False \<or> (\<exists>t. c' = WWaitTurn t v) \<longrightarrow> popsIssued s + unat cap \<le> length (pushed s)) \<and>
            (\<forall>t. c' = Enqueueing t EnqWaitTurn v \<longrightarrow> unat t < popsIssued s + unat cap)) \<and>
         (pcs s i = RPromised timed c \<longrightarrow>
            (c' = RReturn None \<or> (\<exists>t. c' = RWaitTurn t) \<longrightarrow> length (pushed s) \<le> popsIssued s) \<and>
            (\<forall>t. c' = Dequeueing t DeqWaitTurn \<longrightarrow> unat t < length (pushed s)))"
proof -
  obtain r where S: "sim tb cur E N s r"
    using reach_sim[OF assms(4,1-3,5)] ..
  note m = queue_matchD[OF simD(2)[OF S]] and ok = simD(4)[OF S, of i] and room = sim_room[OF S assms(5)]
  have cap: "rcap r = unat cap"
    using reach_capacity[OF assms(4)] m(2) newMPMCQueue_wf(2)[OF assms(1,2)] by simp
  have full: "pops r + rcap r \<le> pushes r"
    if "unat t \<le> pushes r" "sint (capacity (queue s)) \<le> sint (t - popTicket (queue s))" for t
  proof -
    have "unat t < ticketRoom"
      using that(1) room(1) by simp
    then show ?thesis
      using signed_full[of t "popTicket (queue s)" "capacity (queue s)"] room(4) wf_queueD(6)[OF m(1)] that m(2,5) by simp
  qed
  have empty: "pushes r \<le> pops r" if "unat t \<le> pops r" "pushTicket (queue s) \<le> t" for t
    using that m(4) by (simp add: word_le_nat_alt)
  have W: "(c' = WReturn False \<or> (\<exists>t. c' = WWaitTurn t v) \<longrightarrow> pops r + rcap r \<le> pushes r) \<and>
      (\<forall>t. c' = Enqueueing t EnqWaitTurn v \<longrightarrow> unat t < pops r + rcap r)" if "pcs s i = WPromised timed c v"
    using that assms(6) ok full by (cases c) (auto simp: Let_def split: if_splits)
  have R: "(c' = RReturn None \<or> (\<exists>t. c' = RWaitTurn t) \<longrightarrow> pushes r \<le> pops r) \<and>
      (\<forall>t. c' = Dequeueing t DeqWaitTurn \<longrightarrow> unat t < pushes r)" if "pcs s i = RPromised timed c"
    using that assms(6) ok empty by (cases c) (auto simp: Let_def split: if_splits)
  show ?thesis
    using W R simD(7,9)[OF S] cap by simp
qed

lemma ready_check_failures:
  assumes "newMPMCQueue E cap = Inr q" "unat cap + 2 * unat (slotPadding E) < 2 ^ 63"
    and "good_env tb cur E N" "sys_reach E N q s" "has_room s"
  shows "(pcs s i = WReady (ReadyCheck (pushTicket (queue s))) v \<and>
            step E d (queue s) (pcs s i) = Done (q', WReady (ReadyReload (pushTicket (queue s))) v) \<longrightarrow>
            popsIssued s + unat cap \<le> length (pushed s) \<or>
            (\<exists>k t c. k < N \<and> pcs s k = Dequeueing t c \<and> unat t + unat cap = length (pushed s))) \<and>
         (pcs s i = RReady (ReadyCheck (popTicket (queue s))) \<and>
            step E d (queue s) (pcs s i) = Done (q', RReady (ReadyReload (popTicket (queue s)))) \<longrightarrow>
            length (pushed s) \<le> popsIssued s \<or>
            (\<exists>k t c w. k < N \<and> pcs s k = Enqueueing t c w \<and> unat t = popsIssued s))"
proof -
  obtain r where S: "sim tb cur E N s r"
    using reach_sim[OF assms(4,1-3,5)] ..
  note m = queue_matchD[OF simD(2)[OF S]] and room = sim_room[OF S assms(5)]
  have cap: "rcap r = unat cap"
    using reach_capacity[OF assms(4)] m(2) newMPMCQueue_wf(2)[OF assms(1,2)] by simp
  have inv: "ring_ok r" "push_side r" "pop_side r"
    using simD(1)[OF S] by (auto simp: ring_inv_def)
  have W: "pops r + rcap r \<le> pushes r \<or> (\<exists>k. deqT (stages r k) = Some (pushes r - rcap r) \<and> rcap r \<le> pushes r)"
    if "turns r (rslot r (pushes r)) \<noteq> 2 * rround r (pushes r)"
    using next_push_behind[OF inv that] .
  have R: "pushes r \<le> pops r \<or> (\<exists>k. enqT (stages r k) = Some (pops r))"
    if "turns r (rslot r (pops r)) \<noteq> 2 * rround r (pops r) + 1"
    using next_pop_behind[OF inv that] .
  have deq: "k < N \<and> (\<exists>t c. pcs s k = Dequeueing t c \<and> unat t = u)" if "deqT (stages r k) = Some u" for k u
    using that simD(3)[OF S, of k] sim_active[OF S, of k] by (cases "pcs s k" rule: stage_of.cases) auto
  have enq: "k < N \<and> (\<exists>t c w. pcs s k = Enqueueing t c w \<and> unat t = u)" if "enqT (stages r k) = Some u" for k u
    using that simD(3)[OF S, of k] sim_active[OF S, of k] by (cases "pcs s k" rule: stage_of.cases) auto
  have checkW: "turns r (rslot r (pushes r)) \<noteq> 2 * rround r (pushes r)"
    if "step E d (queue s) (WReady (ReadyCheck (pushTicket (queue s))) v) = Done (q', WReady (ReadyReload (pushTicket (queue s))) v)"
    using that mayEnqueue_next[OF S assms(3), of "pushTicket (queue s)"] m(4)
    by (auto simp: with_slot_room[OF m(1) room(3)] split: if_splits)
  have checkR: "turns r (rslot r (pops r)) \<noteq> 2 * rround r (pops r) + 1"
    if "step E d (queue s) (RReady (ReadyCheck (popTicket (queue s)))) = Done (q', RReady (ReadyReload (popTicket (queue s))))"
    using that mayDequeue_next[OF S assms(3), of "popTicket (queue s)"] m(5)
    by (auto simp: with_slot_room[OF m(1) room(4)] split: if_splits)
  have "popsIssued s + unat cap \<le> length (pushed s) \<or>
        (\<exists>k t c. k < N \<and> pcs s k = Dequeueing t c \<and> unat t + unat cap = length (pushed s))"
    if "turns r (rslot r (pushes r)) \<noteq> 2 * rround r (pushes r)"
    using W[OF that] deq simD(7,9)[OF S] cap by fastforce
  moreover have "length (pushed s) \<le> popsIssued s \<or>
        (\<exists>k t c w. k < N \<and> pcs s k = Enqueueing t c w \<and> unat t = popsIssued s)"
    if "turns r (rslot r (pops r)) \<noteq> 2 * rround r (pops r) + 1"
    using R[OF that] enq simD(7,9)[OF S] by fastforce
  ultimately show ?thesis
    using checkW checkR by metis
qed

lemma others_counters:
  assumes "others E N i s s'"
  shows "length (pushed s) \<le> length (pushed s') \<and> popsIssued s \<le> popsIssued s' \<and> pcs s' i = pcs s i"
proof -
  have "length (pushed s) \<le> length (pushed s') \<and> popsIssued s \<le> popsIssued s'"
    if "sys_step E N s s'" for s s' :: "('a, 'b) sys"
    using that by (induction rule: sys_step.induct) (simp_all add: after_step_def)
  with assms show ?thesis
    by (induction rule: others.induct) (fastforce dest: le_trans)+
qed

lemma others_reach: "others E N i s s' \<Longrightarrow> sys_reach E N q s \<Longrightarrow> sys_reach E N q s'"
  by (induction rule: others.induct) (auto intro: sys_reach.step)

text \<open>The ticket a call has found not ready is the next one if the counter still has that value at the reload: a counter
  that was ahead of the ticket stays ahead.\<close>

lemma checked_ticket_is_next:
  assumes "newMPMCQueue E cap = Inr q" "unat cap + 2 * unat (slotPadding E) < 2 ^ 63"
    and "good_env tb cur E N" "sys_reach E N q s" "has_room s"
    and "step E d (queue s) (pcs s i) = Done (q', c')" "others E N i (after_step s i q' c') s1" "has_room s1"
    and "step E d1 (queue s1) (pcs s1 i) = Done (q1, c1)"
    and "pcs s i = WReady (ReadyCheck t) v \<and> c' = WReady (ReadyReload t) v \<and> c1 = WReturn False \<or>
      pcs s i = RReady (ReadyCheck t) \<and> c' = RReady (ReadyReload t) \<and> c1 = RReturn None"
  shows "(if c1 = WReturn False then pushTicket (queue s) else popTicket (queue s)) = t"
proof -
  obtain r where S: "sim tb cur E N s r"
    using reach_sim[OF assms(4,1-3,5)] ..
  have "i < N" "inside (pcs s i)"
    using simD(5)[OF S, of i] assms(10) by (cases "i < N"; auto)+
  then have st: "sys_step E N s (after_step s i q' c')"
    using assms(6) by (rule sys_step.advance)
  obtain r1 where S1: "sim tb cur E N s1 r1"
    using reach_sim[OF others_reach[OF assms(7) sys_reach.step[OF assms(4) st]] assms(1-3,8)] ..
  note m = queue_matchD(4,5)[OF simD(2)[OF S]] queue_matchD(4,5)[OF simD(2)[OF S1]] simD(7,9)[OF S] simD(7,9)[OF S1]
  have mono: "pushTicket (queue s) \<le> pushTicket (queue s1)" "popTicket (queue s) \<le> popTicket (queue s1)"
    and p1: "pcs s1 i = c'"
    using others_counters[OF assms(7)] m by (simp_all add: after_step_def word_le_nat_alt)
  from assms(10) show ?thesis
  proof (elim disjE conjE)
    assume c: "pcs s i = WReady (ReadyCheck t) v" "c' = WReady (ReadyReload t) v" "c1 = WReturn False"
    have "pushTicket (queue s1) = t"
      using assms(9) p1 c(2,3) by (auto simp: Let_def split: if_splits)
    moreover have "t \<le> pushTicket (queue s)"
      using simD(4)[OF S, of i] c(1) m(1) by (simp add: word_le_nat_alt)
    ultimately show ?thesis
      using mono(1) c(3) by simp
  next
    assume c: "pcs s i = RReady (ReadyCheck t)" "c' = RReady (ReadyReload t)" "c1 = RReturn None"
    have "popTicket (queue s1) = t"
      using assms(9) p1 c(2,3) by (auto simp: Let_def split: if_splits)
    moreover have "t \<le> popTicket (queue s)"
      using simD(4)[OF S, of i] c(1) m(2) by (simp add: word_le_nat_alt)
    ultimately show ?thesis
      using mono(2) c(3) by simp
  qed
qed

text \<open>C10. Cn. Attempts that fail, fail for a reason. When \<open>writeIfNotFull\<close> returns false, at the instant of its last load as
  many writes have drawn tickets as reads have and the capacity allows: the queue is full. When \<open>readIfNotEmpty\<close> returns
  false, every issued push ticket already has its pop ticket: the queue is empty. When they obtain a ticket, the ticket is
  one that the other side has already promised to serve. When \<open>write\<close> returns false (it checked the cell of a ticket, other
  threads did any steps, and the reloaded counter equals that ticket), then at the instant of that last check the queue is
  full, or the read that frees that very cell has its ticket and is still in progress; when \<open>read\<close> returns false, then at its
  last check the queue is empty, or the write of the next value has its ticket and is still in progress. Checks of a
  ticket that others have drawn meanwhile are followed by another attempt, and nothing is said of them.\<close>

theorem attempts_fail_justly:
  assumes "newMPMCQueue E cap = Inr q" "unat cap + 2 * unat (slotPadding E) < 2 ^ 63"
    and "good_env tb cur E N" "sys_reach E N q s" "has_room s"
    and "step E d (queue s) (pcs s i) = Done (q', c')"
  shows "(pcs s i = WPromised timed c v \<longrightarrow>
            (c' = WReturn False \<or> (\<exists>t. c' = WWaitTurn t v) \<longrightarrow> popsIssued s + unat cap \<le> length (pushed s)) \<and>
            (\<forall>t. c' = Enqueueing t EnqWaitTurn v \<longrightarrow> unat t < popsIssued s + unat cap)) \<and>
         (pcs s i = RPromised timed r \<longrightarrow>
            (c' = RReturn None \<or> (\<exists>t. c' = RWaitTurn t) \<longrightarrow> length (pushed s) \<le> popsIssued s) \<and>
            (\<forall>t. c' = Dequeueing t DeqWaitTurn \<longrightarrow> unat t < length (pushed s))) \<and>
         (\<forall>t s1 d1 q1. pcs s i = WReady (ReadyCheck t) v \<and> c' = WReady (ReadyReload t) v \<and>
            others E N i (after_step s i q' c') s1 \<and> has_room s1 \<and>
            step E d1 (queue s1) (pcs s1 i) = Done (q1, WReturn False) \<longrightarrow>
            popsIssued s + unat cap \<le> length (pushed s) \<or>
            (\<exists>k u c. k < N \<and> pcs s k = Dequeueing u c \<and> unat u + unat cap = length (pushed s))) \<and>
         (\<forall>t s1 d1 q1. pcs s i = RReady (ReadyCheck t) \<and> c' = RReady (ReadyReload t) \<and>
            others E N i (after_step s i q' c') s1 \<and> has_room s1 \<and>
            step E d1 (queue s1) (pcs s1 i) = Done (q1, RReturn None) \<longrightarrow>
            length (pushed s) \<le> popsIssued s \<or>
            (\<exists>k u c w. k < N \<and> pcs s k = Enqueueing u c w \<and> unat u = popsIssued s))"
proof (intro conjI allI impI; (elim conjE)?)
  fix t s1 d1 q1
  assume c: "pcs s i = WReady (ReadyCheck t) v" "c' = WReady (ReadyReload t) v"
    and o: "others E N i (after_step s i q' c') s1" "has_room s1" "step E d1 (queue s1) (pcs s1 i) = Done (q1, WReturn False)"
  have "pushTicket (queue s) = t"
    using checked_ticket_is_next[OF assms(1-6) o, of t v] c by simp
  with c assms(6) show "popsIssued s + unat cap \<le> length (pushed s) \<or>
      (\<exists>k u c. k < N \<and> pcs s k = Dequeueing u c \<and> unat u + unat cap = length (pushed s))"
    using ready_check_failures[OF assms(1-5), of i v d q'] by blast
next
  fix t s1 d1 q1
  assume c: "pcs s i = RReady (ReadyCheck t)" "c' = RReady (ReadyReload t)"
    and o: "others E N i (after_step s i q' c') s1" "has_room s1" "step E d1 (queue s1) (pcs s1 i) = Done (q1, RReturn None)"
  have "popTicket (queue s) = t"
    using checked_ticket_is_next[OF assms(1-6) o, of t] c by simp
  with c assms(6) show "length (pushed s) \<le> popsIssued s \<or>
      (\<exists>k u c w. k < N \<and> pcs s k = Enqueueing u c w \<and> unat u = popsIssued s)"
    using ready_check_failures[OF assms(1-5), of i v d q'] by blast
qed (use promised_outcomes[OF assms] in blast)+

text \<open>Witness of Cn: \<open>writeIfNotFull(8)\<close>, and \<open>write(8)\<close>, on the queue of one slot that already holds 7.\<close>

theorem attempts_fail_justly_witness:
  "(\<exists>s. sys_reach counting_env 2 oneSlot s \<and>
     step counting_env False (queue s) (pcs s 0) = Done (queue s, WReturn False) \<and>
     popsIssued s + 1 \<le> length (pushed s)) \<and>
   (\<exists>s q' q1. sys_reach counting_env 2 oneSlot s \<and>
     step counting_env False (queue s) (pcs s 0) = Done (q', WReady (ReadyReload 1) 8) \<and>
     step counting_env False q' (WReady (ReadyReload 1) 8) = Done (q1, WReturn False) \<and>
     (popsIssued s + 1 \<le> length (pushed s) \<or>
      (\<exists>k t c. k < 2 \<and> pcs s k = Dequeueing t c \<and> unat t + 1 = length (pushed s))))"
proof (intro conjI)
  show "\<exists>s. sys_reach counting_env 2 oneSlot s \<and>
     step counting_env False (queue s) (pcs s 0) = Done (queue s, WReturn False) \<and>
     popsIssued s + 1 \<le> length (pushed s)"
  proof -
    have "replay ([Call 0 (Write 7)] @ replicate 6 (Move 0 False) @ [Call 0 (WriteIfNotFull 8), Move 0 False])
        = Some ([7], 0, [], WPromised False (PromOther 1) 8, Idle)"
      by code_simp
    then obtain s where s: "sys_reach counting_env 2 oneSlot s" "pushed s = [7]" "popsIssued s = 0"
        "pcs s 0 = WPromised False (PromOther 1) 8"
      by (rule replay_reach)
    have room: "has_room s"
      using s by (simp add: has_room_def ticketRoom_def)
    then obtain r where S: "sim 32 id counting_env 2 s r"
      using reach_sim[OF s(1) oneSlot_new oneSlot_room counting_good] by blast
    have "popTicket (queue s) = 0" "capacity (queue s) = 1"
      using queue_matchD(5)[OF simD(2)[OF S]] simD(7)[OF S] s(3) reach_capacity[OF s(1)]
      by (simp_all add: unat_eq_zero oneSlot_def)
    then have st: "step counting_env False (queue s) (pcs s 0) = Done (queue s, WReturn False)"
      using s(4) by simp
    show ?thesis
      using attempts_fail_justly[OF oneSlot_new oneSlot_room counting_good s(1) room st, of False "PromOther 1" 8] s st
      by (intro exI[of _ s]) (simp del: step.simps)
  qed
next
  show "\<exists>s q' q1. sys_reach counting_env 2 oneSlot s \<and>
     step counting_env False (queue s) (pcs s 0) = Done (q', WReady (ReadyReload 1) 8) \<and>
     step counting_env False q' (WReady (ReadyReload 1) 8) = Done (q1, WReturn False) \<and>
     (popsIssued s + 1 \<le> length (pushed s) \<or>
      (\<exists>k t c. k < 2 \<and> pcs s k = Dequeueing t c \<and> unat t + 1 = length (pushed s)))"
  proof -
    let ?es = "[Call 0 (Write 7)] @ replicate 6 (Move 0 False) @ [Call 0 (Write 8), Move 0 False]"
    have "replay ?es = Some ([7], 0, [], WReady (ReadyCheck 1) 8, Idle)"
      "replay (?es @ [Move 0 False]) = Some ([7], 0, [], WReady (ReadyReload 1) 8, Idle)"
      by code_simp+
    then obtain s q' where s: "sys_reach counting_env 2 oneSlot s" "pushed s = [7]" "popsIssued s = 0"
        "pcs s 0 = WReady (ReadyCheck 1) 8" "step counting_env False (queue s) (pcs s 0) = Done (q', WReady (ReadyReload 1) 8)"
      by (rule replay_move)
    have room: "has_room s"
      using s by (simp add: has_room_def ticketRoom_def)
    then obtain r where S: "sim 32 id counting_env 2 s r"
      using reach_sim[OF s(1) oneSlot_new oneSlot_room counting_good] by blast
    have "unat (pushTicket (queue s)) = 1"
      using queue_matchD(4)[OF simD(2)[OF S]] simD(9)[OF S] s(2) by simp
    moreover have "q' = queue s"
      using s(4,5) by (auto simp: bind_outcome_Done_iff with_slot_def split: if_splits)
    ultimately have "pushTicket q' = 1"
      by (simp add: word_unat_eq_iff)
    then have re: "step counting_env False q' (WReady (ReadyReload 1) 8) = Done (q', WReturn False)"
      by simp
    let ?s1 = "after_step s 0 q' (WReady (ReadyReload 1) 8)"
    have room1: "has_room ?s1"
      using room by (simp add: has_room_def after_step_def)
    have re1: "step counting_env False (queue ?s1) (pcs ?s1 0) = Done (q', WReturn False)"
      using re by (simp add: after_step_def del: step.simps)
    have "popsIssued s + unat (1 :: u64) \<le> length (pushed s) \<or>
        (\<exists>k t c. k < 2 \<and> pcs s k = Dequeueing t c \<and> unat t + unat (1 :: u64) = length (pushed s))"
      using attempts_fail_justly[OF oneSlot_new oneSlot_room counting_good s(1) room s(5), where v = 8]
        s(4) others.refl[of counting_env 2 0 ?s1] room1 re1 by blast
    with s(1,5) re show ?thesis
      by (intro exI[of _ s] exI[of _ q']) (simp del: step.simps)
  qed
qed

section \<open>No deadlock\<close>

text \<open>C8. A thread that waits in an enqueue whose ticket is less than the capacity ahead of the pop
  tickets issued (as every ticket obtained by \<open>writeIfNotFull\<close> and \<open>tryWriteUntil\<close> is), or in
  a dequeue whose push ticket has been issued (as for \<open>readIfNotEmpty\<close> and \<open>tryReadUntil\<close>), never
  waits in vain: some thread inside an enqueue or a dequeue can take its next step.\<close>

theorem promised_no_deadlock:
  assumes "newMPMCQueue E cap = Inr q" "unat cap + 2 * unat (slotPadding E) < 2 ^ 63"
    and "good_env tb cur E N" "sys_reach E N q s" "has_room s"
    and "(\<exists>c v. pcs s i = Enqueueing t c v \<and> unat t < popsIssued s + unat cap) \<or>
         (\<exists>c. pcs s i = Dequeueing t c \<and> unat t < length (pushed s))"
  shows "\<exists>k q' c'. k < N \<and> stage_of (pcs s k) \<noteq> Free \<and> step E d (queue s) (pcs s k) = Done (q', c')"
proof -
  obtain r where S: "sim tb cur E N s r"
    using reach_sim[OF assms(4,1-3,5)] ..
  note m = queue_matchD[OF simD(2)[OF S]] and ok = simD(4)[OF S, of i]
  have cap: "rcap r = unat cap"
    using reach_capacity[OF assms(4)] m(2) newMPMCQueue_wf(2)[OF assms(1,2)] by simp
  have "\<exists>k. advances r k"
    using assms(6)
  proof (elim disjE exE conjE)
    fix c v assume "pcs s i = Enqueueing t c v" "unat t < popsIssued s + unat cap"
    moreover from this(1) have "enqT (stages r i) = Some (unat t)"
      using simD(3)[OF S, of i] ok by (cases c) auto
    ultimately show ?thesis
      using enq_progress[OF simD(1)[OF S]] simD(7)[OF S] cap by simp
  next
    fix c assume "pcs s i = Dequeueing t c" "unat t < length (pushed s)"
    moreover from this(1) have "deqT (stages r i) = Some (unat t)"
      using simD(3)[OF S, of i] ok by (cases c) auto
    ultimately show ?thesis
      using deq_progress[OF simD(1)[OF S]] simD(9)[OF S] by simp
  qed
  then obtain k where k: "advances r k" ..
  moreover have "stages r k \<noteq> Free"
    using k by auto
  ultimately show ?thesis
    using advances_moves[OF S assms(3,5), of k d] simD(3)[OF S, of k] by metis
qed

text \<open>Witness of C8: a \<open>readIfNotEmpty\<close> waits for the value of a \<open>write\<close> that has its ticket.\<close>

theorem promised_no_deadlock_witness:
  "\<exists>s k q' c'. sys_reach counting_env 2 oneSlot s \<and> pcs s 1 = Dequeueing 0 DeqWaitTurn \<and>
     stage_of (pcs s k) \<noteq> Free \<and> step counting_env False (queue s) (pcs s k) = Done (q', c')"
proof -
  have "replay ([Call 0 (Write 7)] @ replicate 3 (Move 0 False) @ [Call 1 ReadIfNotEmpty] @ replicate 3 (Move 1 False))
      = Some ([7], 1, [], Enqueueing 0 EnqWaitTurn 7, Dequeueing 0 DeqWaitTurn)"
    by code_simp
  then obtain s where s: "sys_reach counting_env 2 oneSlot s" "pushed s = [7]" "popsIssued s = 1"
      "pcs s 1 = Dequeueing 0 DeqWaitTurn"
    by (rule replay_reach)
  have "has_room s"
    using s by (simp add: has_room_def ticketRoom_def)
  then have "\<exists>k q' c'. k < 2 \<and> stage_of (pcs s k) \<noteq> Free \<and> step counting_env False (queue s) (pcs s k) = Done (q', c')"
    using s by (intro promised_no_deadlock[OF oneSlot_new oneSlot_room counting_good s(1), of 1 0]) simp_all
  with s show ?thesis
    by blast
qed

end
