(* ===== verification/DynamicMPMC.thy ===== *)
theory DynamicMPMC
  imports MPMCSequential
begin

text \<open>
  The dynamic \<open>MPMCQueue\<close> (MPMCQueue.h, the specialization with \<open>Dynamic == true\<close>): a queue that starts with a small
  array of slots and replaces it by larger ones, up to its capacity. A seqlock with the ticket offset of the
  current array packed into one word (\<open>dstate_\<close>) guards the description of the current array; the descriptions of
  replaced arrays are kept in \<open>closed_\<close> for operations that hold an old ticket. As for the fixed queue, an
  operation is a program of atomic steps, one for each access to shared memory; the entries of \<open>closed_\<close> are
  read and written together with the neighbouring access, since they do not change once they are visible.

  Pointers to arrays of slots are positions in the list \<open>arrays\<close>; position 0 stands for the null pointer.
  Cells are accessed by the operations of the fixed queue on a view of one array. Whether an allocation
  succeeds and whether a deadline has passed are arguments of a step. A failed assertion is \<open>Undefined\<close>.
\<close>

unbundle bit_operations_syntax

section \<open>State\<close>

record ClosedArray =
  clOffset :: u64
  clSlots :: nat
  clCapacity :: u64
  clStride :: int

definition newClosedArray :: ClosedArray where
  "newClosedArray = \<lparr>clOffset = 0, clSlots = 0, clCapacity = 0, clStride = 0\<rparr>"

record ('ts, 'a) DynQueue =
  maxCapacity :: u64
  dslots :: nat
  dstride :: int
  dstate :: u64
  dcapacity :: u64
  dmult :: u64
  closed :: "ClosedArray list"
  dpushTicket :: u64
  dpopTicket :: u64
  dpushSpinCutoff :: u32
  dpopSpinCutoff :: u32
  arrays :: "('ts, 'a) Slot list list"

text \<open>Beside the turn sequencer and the padding, the order in which the compiler evaluates the two arguments of
  \<open>std::max(pushTicket_.load(), popTicket_.load())\<close>.\<close>

record 'ts dyn_env =
  fixedEnv :: "'ts mpmc_env"
  pushFirst :: bool

definition kSeqlockBits :: nat where
  "kSeqlockBits = 6"

definition kDefaultMinDynamicCapacity :: u64 where
  "kDefaultMinDynamicCapacity = 10"

definition kDefaultExpansionMultiplier :: u64 where
  "kDefaultExpansionMultiplier = 10"

definition getOffset :: "u64 \<Rightarrow> u64" where
  "getOffset state = drop_bit kSeqlockBits state"

definition getNumClosed :: "u64 \<Rightarrow> nat" where
  "getNumClosed state = unat (drop_bit 1 (state AND (push_bit kSeqlockBits 1 - 1)))"

definition locked :: "u64 \<Rightarrow> bool" where
  "locked state \<longleftrightarrow> state AND 1 \<noteq> 0"

section \<open>Construction\<close>

text \<open>The loop of \<open>initQueue\<close> that counts the expansions.\<close>

partial_function (option) maxClosed_loop :: "u64 \<Rightarrow> u64 \<Rightarrow> u64 \<Rightarrow> nat \<Rightarrow> nat option" where
  "maxClosed_loop limit mult expanded n =
     (if expanded < limit then maxClosed_loop limit mult (expanded * mult) (n + 1) else Some n)"

definition newArray :: "'ts dyn_env \<Rightarrow> u64 \<Rightarrow> ('ts, 'a) Slot list" where
  "newArray E cap = replicate (unat (cap + 2 * slotPadding (fixedEnv E))) (newSlot (seqOps (fixedEnv E)))"

definition initQueue :: "'ts dyn_env \<Rightarrow> u64 \<Rightarrow> u64 \<Rightarrow> u64 \<Rightarrow> ('ts, 'a) DynQueue option" where
  "initQueue E queueCapacity cap mult =
     map_option (\<lambda>maxClosed.
       \<lparr>maxCapacity = queueCapacity, dslots = 1, dstride = computeStride cap, dstate = 0, dcapacity = cap, dmult = mult,
        closed = replicate maxClosed newClosedArray, dpushTicket = 0, dpopTicket = 0, dpushSpinCutoff = 0,
        dpopSpinCutoff = 0, arrays = [[], newArray E cap]\<rparr>)
     (maxClosed_loop queueCapacity mult cap 0)"

definition newDynQueue ::
  "'ts dyn_env \<Rightarrow> u64 \<Rightarrow> u64 \<Rightarrow> u64 \<Rightarrow> (queue_error + ('ts, 'a) DynQueue) option" where
  "newDynQueue E queueCapacity minCapacity expansionMultiplier =
     (if queueCapacity = 0 then Some (Inl InvalidArgument)
      else let minCapacity = max 1 minCapacity;
               cap = min minCapacity queueCapacity;
               expansionMultiplier = max 2 expansionMultiplier
           in map_option Inr (initQueue E queueCapacity cap expansionMultiplier))"

definition newDefaultDynQueue :: "'ts dyn_env \<Rightarrow> u64 \<Rightarrow> (queue_error + ('ts, 'a) DynQueue) option" where
  "newDefaultDynQueue E queueCapacity =
     (if queueCapacity = 0 then Some (Inl InvalidArgument)
      else map_option Inr (initQueue E queueCapacity (min kDefaultMinDynamicCapacity queueCapacity) kDefaultExpansionMultiplier))"

definition emptyDynQueue :: "('ts, 'a) DynQueue" where
  "emptyDynQueue = \<lparr>maxCapacity = 0, dslots = 0, dstride = 0, dstate = 0, dcapacity = 0, dmult = 0, closed = [],
     dpushTicket = 0, dpopTicket = 0, dpushSpinCutoff = 0, dpopSpinCutoff = 0, arrays = [[]]\<rparr>"

text \<open>The move constructor: the new queue, and what is left of the source.\<close>

definition moveDynQueue :: "('ts, 'a) DynQueue \<Rightarrow> ('ts, 'a) DynQueue \<times> ('ts, 'a) DynQueue" where
  "moveDynQueue rhs =
     (\<lparr>maxCapacity = maxCapacity rhs, dslots = dslots rhs, dstride = dstride rhs, dstate = dstate rhs, dcapacity = dcapacity rhs,
       dmult = dmult rhs, closed = closed rhs, dpushTicket = dpushTicket rhs, dpopTicket = dpopTicket rhs,
       dpushSpinCutoff = dpushSpinCutoff rhs, dpopSpinCutoff = dpopSpinCutoff rhs, arrays = arrays rhs\<rparr>,
      rhs\<lparr>maxCapacity := 0, dslots := 0, dstride := 0, dstate := 0, dcapacity := 0, dpushTicket := 0, dpopTicket := 0,
        dpushSpinCutoff := 0, dpopSpinCutoff := 0, dmult := 0, closed := []\<rparr>)"

text \<open>The destructor: the positions of the arrays that are deleted, in this order; \<open>~MPMCQueueBase\<close> deletes the last.\<close>

definition destroyDynQueue :: "('ts, 'a) DynQueue \<Rightarrow> nat list outcome" where
  "destroyDynQueue q =
     (if closed q = [] then Done [dslots q]
      else if getNumClosed (dstate q) \<le> length (closed q)
           then Done (rev (map clSlots (take (getNumClosed (dstate q)) (closed q))) @ [dslots q])
           else Undefined)"

definition dynAllocatedCapacity :: "('ts, 'a) DynQueue \<Rightarrow> u64" where
  "dynAllocatedCapacity q = dcapacity q"

section \<open>Which array a ticket uses\<close>

text \<open>The local variables \<open>offset\<close>, \<open>slots\<close>, \<open>cap\<close> and \<open>stride\<close> of an operation.\<close>

record arrayRef =
  refOffset :: u64
  refSlots :: nat
  refCap :: u64
  refStride :: int

definition closedRef :: "ClosedArray \<Rightarrow> arrayRef" where
  "closedRef c = \<lparr>refOffset = clOffset c, refSlots = clSlots c, refCap = clCapacity c, refStride = clStride c\<rparr>"

text \<open>The seqlock read section.\<close>

datatype section_pc =
    SecState
  | SecSlots u64
  | SecCap u64 nat
  | SecStride u64 nat u64
  | SecValidate u64 nat u64 int
  | SecTrue u64 nat u64 int
  | SecFalse

fun trySeqlockReadSection :: "('ts, 'a) DynQueue \<Rightarrow> section_pc \<Rightarrow> section_pc" where
  "trySeqlockReadSection q SecState = (if locked (dstate q) then SecFalse else SecSlots (dstate q))"
| "trySeqlockReadSection q (SecSlots state) = SecCap state (dslots q)"
| "trySeqlockReadSection q (SecCap state sl) = SecStride state sl (dcapacity q)"
| "trySeqlockReadSection q (SecStride state sl cap) = SecValidate state sl cap (dstride q)"
| "trySeqlockReadSection q (SecValidate state sl cap str) = (if state = dstate q then SecTrue state sl cap str else SecFalse)"
| "trySeqlockReadSection q c = c"

fun search_closed :: "ClosedArray list \<Rightarrow> u64 \<Rightarrow> nat \<Rightarrow> arrayRef outcome" where
  "search_closed cs ticket 0 = Undefined"
| "search_closed cs ticket (Suc i) =
     (if i < length cs
      then if clOffset (cs ! i) \<le> ticket then Done (closedRef (cs ! i)) else search_closed cs ticket i
      else Undefined)"

definition maybeUpdateFromClosed :: "('ts, 'a) DynQueue \<Rightarrow> u64 \<Rightarrow> u64 \<Rightarrow> nat \<Rightarrow> u64 \<Rightarrow> int \<Rightarrow> (bool \<times> arrayRef) outcome" where
  "maybeUpdateFromClosed q state ticket sl cap str =
     (if ticket \<ge> getOffset state
      then Done (False, \<lparr>refOffset = getOffset state, refSlots = sl, refCap = cap, refStride = str\<rparr>)
      else bind_outcome (search_closed (closed q) ticket (getNumClosed state)) (\<lambda>r. Done (True, r)))"

section \<open>Expansion\<close>

text \<open>After \<open>ExpandAlloc\<close> the program counter carries the new ticket offset, the new array and its capacity.\<close>

datatype expand_pc =
    ExpandCas
  | ExpandLoad
  | ExpandLoad2 u64
  | ExpandAlloc u64
  | ExpandRestore
  | ExpandSlots u64 nat u64
  | ExpandCapacity u64 nat u64
  | ExpandStride u64 nat u64
  | ExpandRelease u64 nat u64
  | ExpandReturn bool

fun tryExpand ::
  "'ts dyn_env \<Rightarrow> bool \<Rightarrow> ('ts, 'a) DynQueue \<Rightarrow> u64 \<Rightarrow> u64 \<Rightarrow> expand_pc \<Rightarrow> (('ts, 'a) DynQueue \<times> expand_pc) outcome" where
  "tryExpand E alloc q state cap ExpandCas =
     (if cap = maxCapacity q then Done (q, ExpandReturn False)
      else if locked state then Undefined
      else if dstate q = state
           then if cap = dcapacity q then Done (q\<lparr>dstate := state + 1\<rparr>, ExpandLoad) else Undefined
           else Done (q, ExpandReturn True))"
| "tryExpand E alloc q state cap ExpandLoad = Done (q, ExpandLoad2 (if pushFirst E then dpushTicket q else dpopTicket q))"
| "tryExpand E alloc q state cap (ExpandLoad2 t) =
     Done (q, ExpandAlloc (1 + max t (if pushFirst E then dpopTicket q else dpushTicket q)))"
| "tryExpand E alloc q state cap (ExpandAlloc ticket) =
     (let newCapacity = min (dmult q * cap) (maxCapacity q)
      in if \<not> alloc then Done (q, ExpandRestore)
         else let index = getNumClosed state
              in if 2 * index < 2 ^ kSeqlockBits \<and> index < length (closed q)
                 then Done (q\<lparr>arrays := arrays q @ [newArray E newCapacity],
                              closed := (closed q)[index := \<lparr>clOffset = getOffset state, clSlots = dslots q,
                                                             clCapacity = cap, clStride = dstride q\<rparr>]\<rparr>,
                            ExpandSlots ticket (length (arrays q)) newCapacity)
                 else Undefined)"
| "tryExpand E alloc q state cap ExpandRestore = Done (q\<lparr>dstate := state\<rparr>, ExpandReturn False)"
| "tryExpand E alloc q state cap (ExpandSlots ticket sl n) = Done (q\<lparr>dslots := sl\<rparr>, ExpandCapacity ticket sl n)"
| "tryExpand E alloc q state cap (ExpandCapacity ticket sl n) = Done (q\<lparr>dcapacity := n\<rparr>, ExpandStride ticket sl n)"
| "tryExpand E alloc q state cap (ExpandStride ticket sl n) = Done (q\<lparr>dstride := computeStride n\<rparr>, ExpandRelease ticket sl n)"
| "tryExpand E alloc q state cap (ExpandRelease ticket sl n) =
     Done (q\<lparr>dstate := push_bit kSeqlockBits ticket + of_nat (2 * (getNumClosed state + 1))\<rparr>, ExpandReturn True)"
| "tryExpand E alloc q state cap (ExpandReturn b) = Done (q, ExpandReturn b)"

section \<open>Cells\<close>

definition array_view :: "('ts, 'a) DynQueue \<Rightarrow> arrayRef \<Rightarrow> ('ts, 'a) MPMCQueue" where
  "array_view q r = \<lparr>capacity = refCap r, slots = arrays q ! refSlots r, stride = refStride r, pushTicket = dpushTicket q,
     popTicket = dpopTicket q, pushSpinCutoff = dpushSpinCutoff q, popSpinCutoff = dpopSpinCutoff q\<rparr>"

definition put_view :: "('ts, 'a) DynQueue \<Rightarrow> arrayRef \<Rightarrow> ('ts, 'a) MPMCQueue \<Rightarrow> ('ts, 'a) DynQueue" where
  "put_view q r v = q\<lparr>arrays := (arrays q)[refSlots r := slots v], dpushSpinCutoff := pushSpinCutoff v, dpopSpinCutoff := popSpinCutoff v\<rparr>"

text \<open>An operation of the fixed queue on the array of \<open>r\<close>.\<close>

definition in_array ::
  "('ts, 'a) DynQueue \<Rightarrow> arrayRef \<Rightarrow> (('ts, 'a) MPMCQueue \<Rightarrow> (('ts, 'a) MPMCQueue \<times> 'r) outcome) \<Rightarrow> (('ts, 'a) DynQueue \<times> 'r) outcome" where
  "in_array q r f =
     (if refSlots r < length (arrays q)
      then bind_outcome (f (array_view q r)) (\<lambda>(v, x). Done (put_view q r v, x))
      else Undefined)"

definition slot_check ::
  "'ts dyn_env \<Rightarrow> ('ts, 'a) DynQueue \<Rightarrow> arrayRef \<Rightarrow> u64 \<Rightarrow> bool \<Rightarrow> bool outcome" where
  "slot_check E q r ticket push =
     (if refSlots r < length (arrays q)
      then with_slot (fixedEnv E) (array_view q r) (ticket - refOffset r) (\<lambda>s.
        Done (if push then mayEnqueue (seqOps (fixedEnv E)) s (turn (ticket - refOffset r) (refCap r))
              else mayDequeue (seqOps (fixedEnv E)) s (turn (ticket - refOffset r) (refCap r))))
      else Undefined)"

section \<open>Operations\<close>

text \<open>What an operation wants from a read section, with the ticket it has taken or loaded; the other counter and the
  kind of caller (timed or not) for promised tickets.\<close>

datatype 'a job =
    JWrite u64 'a
  | JReadyPush u64 'a
  | JPromPush bool u64 u64 'a
  | JRead u64
  | JReadyPop u64
  | JPromPop bool u64 u64

fun job_ticket :: "'a job \<Rightarrow> u64" where
  "job_ticket (JWrite t v) = t"
| "job_ticket (JReadyPush t v) = t"
| "job_ticket (JPromPush b t n v) = t"
| "job_ticket (JRead t) = t"
| "job_ticket (JReadyPop t) = t"
| "job_ticket (JPromPop b t n) = t"

text \<open>A thread of the dynamic queue: \<open>DSection\<close> inside the read section, \<open>DCheck\<close> about to ask the cell, \<open>DLoad\<close> about to
  load a counter again, \<open>DExpand\<close> inside \<open>tryExpand\<close>, \<open>DCas\<close> about to take the ticket. The flag of \<open>DDequeue\<close> says
  that the ticket reported to the caller is reduced by the offset.\<close>

datatype 'a dpc =
    DIdle
  | DWriteStart 'a
  | DReadStart
  | DReadyPushLoad 'a
  | DPromPushLoad bool 'a
  | DPromPushPops bool u64 'a
  | DReadyPopLoad
  | DPromPopLoad bool
  | DPromPopPushes bool u64
  | DSection "'a job" section_pc
  | DCheck "'a job" u64 arrayRef
  | DLoad "'a job" u64 arrayRef
  | DExpand "'a job" u64 arrayRef expand_pc
  | DCas "'a job" arrayRef
  | DWaitPush u64 arrayRef 'a
  | DWaitPop u64 arrayRef
  | DEnqueue u64 arrayRef enq_pc 'a
  | DDequeue bool u64 arrayRef "'a deq_pc"
  | DWReturn bool
  | DRReturn "(u64 \<times> 'a) option"

fun denter :: "'a call \<Rightarrow> 'a dpc" where
  "denter (BlockingWrite v) = DWriteStart v"
| "denter (Write v) = DReadyPushLoad v"
| "denter (WriteIfNotFull v) = DPromPushLoad False v"
| "denter (TryWriteUntil v) = DPromPushLoad True v"
| "denter BlockingRead = DReadStart"
| "denter Read = DReadyPopLoad"
| "denter ReadIfNotEmpty = DPromPopLoad False"
| "denter TryReadUntil = DPromPopLoad True"

text \<open>\<open>continue\<close> of each loop.\<close>

fun restart :: "'a job \<Rightarrow> 'a dpc" where
  "restart (JWrite t v) = DSection (JWrite t v) SecState"
| "restart (JReadyPush t v) = DReadyPushLoad v"
| "restart (JPromPush timed t n v) = DPromPushLoad timed v"
| "restart (JRead t) = DSection (JRead t) SecState"
| "restart (JReadyPop t) = DReadyPopLoad"
| "restart (JPromPop timed t n) = DPromPopLoad timed"

text \<open>What follows when no ticket is obtained: the caller returns false, or waits when it is a timed operation; a
  blocking write goes on with the array it has.\<close>

fun give_up :: "'a job \<Rightarrow> arrayRef \<Rightarrow> 'a dpc" where
  "give_up (JWrite t v) r = DEnqueue t r EnqWaitTurn v"
| "give_up (JReadyPush t v) r = DWReturn False"
| "give_up (JPromPush timed t n v) r = (if timed then DWaitPush t r v else DWReturn False)"
| "give_up (JRead t) r = DRReturn None"
| "give_up (JReadyPop t) r = DRReturn None"
| "give_up (JPromPop timed t n) r = (if timed then DWaitPop t r else DRReturn None)"

text \<open>After a successful read section: \<open>found\<close> is the result of \<open>maybeUpdateFromClosed\<close>, \<open>curCap\<close> the capacity before it.\<close>

fun after_section :: "'a job \<Rightarrow> bool \<Rightarrow> u64 \<Rightarrow> u64 \<Rightarrow> arrayRef \<Rightarrow> 'a dpc" where
  "after_section (JWrite t v) found state curCap r =
     (if found then DEnqueue t r EnqWaitTurn v else DCheck (JWrite t v) state r)"
| "after_section (JReadyPush t v) found state curCap r = DCheck (JReadyPush t v) state r"
| "after_section (JPromPush timed t numPops v) found state curCap r =
     (if sint (t - numPops) \<ge> sint (refCap r)
      then if refCap r = curCap then DExpand (JPromPush timed t numPops v) state r ExpandCas
           else give_up (JPromPush timed t numPops v) r
      else DCas (JPromPush timed t numPops v) r)"
| "after_section (JRead t) found state curCap r = DDequeue False t r DeqWaitTurn"
| "after_section (JReadyPop t) found state curCap r = DCheck (JReadyPop t) state r"
| "after_section (JPromPop timed t numPushes) found state curCap r =
     (if t \<ge> numPushes then give_up (JPromPop timed t numPushes) r else DCas (JPromPop timed t numPushes) r)"

fun after_check :: "'a job \<Rightarrow> u64 \<Rightarrow> arrayRef \<Rightarrow> bool \<Rightarrow> 'a dpc" where
  "after_check (JWrite t v) state r may = (if may then DEnqueue t r EnqWaitTurn v else DLoad (JWrite t v) state r)"
| "after_check (JReadyPop t) state r may = (if may then DCas (JReadyPop t) r else DRReturn None)"
| "after_check job state r may = (if may then DCas job r else DLoad job state r)"

fun after_load :: "('ts, 'a) DynQueue \<Rightarrow> 'a job \<Rightarrow> u64 \<Rightarrow> arrayRef \<Rightarrow> 'a dpc" where
  "after_load q (JWrite t v) state r =
     (if dpopTicket q + refCap r > t then restart (JWrite t v) else DExpand (JWrite t v) state r ExpandCas)"
| "after_load q job state r =
     (if job_ticket job \<noteq> dpushTicket q then restart job
      else if refOffset r = getOffset state then DExpand job state r ExpandCas
      else give_up job r)"

fun is_push :: "'a job \<Rightarrow> bool" where
  "is_push (JWrite t v) = True"
| "is_push (JReadyPush t v) = True"
| "is_push (JPromPush timed t n v) = True"
| "is_push _ = False"

text \<open>The compare and exchange of the counter.\<close>

fun after_cas :: "('ts, 'a) DynQueue \<Rightarrow> 'a job \<Rightarrow> arrayRef \<Rightarrow> ('ts, 'a) DynQueue \<times> 'a dpc" where
  "after_cas q (JWrite t v) r = (q, DEnqueue t r EnqWaitTurn v)"
| "after_cas q (JReadyPush t v) r =
     (if dpushTicket q = t then (q\<lparr>dpushTicket := t + 1\<rparr>, DEnqueue t r EnqWaitTurn v) else (q, restart (JReadyPush t v)))"
| "after_cas q (JPromPush timed t n v) r =
     (if dpushTicket q = t then (q\<lparr>dpushTicket := t + 1\<rparr>, DEnqueue t r EnqWaitTurn v) else (q, restart (JPromPush timed t n v)))"
| "after_cas q (JRead t) r = (q, DDequeue False t r DeqWaitTurn)"
| "after_cas q (JReadyPop t) r =
     (if dpopTicket q = t then (q\<lparr>dpopTicket := t + 1\<rparr>, DDequeue True t r DeqWaitTurn) else (q, restart (JReadyPop t)))"
| "after_cas q (JPromPop timed t n) r =
     (if dpopTicket q = t then (q\<lparr>dpopTicket := t + 1\<rparr>, DDequeue True t r DeqWaitTurn) else (q, restart (JPromPop timed t n)))"

fun after_expand :: "'a job \<Rightarrow> u64 \<Rightarrow> arrayRef \<Rightarrow> expand_pc \<Rightarrow> 'a dpc" where
  "after_expand job state r (ExpandReturn b) = (if b then restart job else give_up job r)"
| "after_expand job state r c = DExpand job state r c"

fun after_denqueue :: "u64 \<Rightarrow> arrayRef \<Rightarrow> 'a \<Rightarrow> enq_pc \<Rightarrow> 'a dpc" where
  "after_denqueue t r v EnqReturn = DWReturn True"
| "after_denqueue t r v c = DEnqueue t r c v"

fun after_ddequeue :: "bool \<Rightarrow> u64 \<Rightarrow> arrayRef \<Rightarrow> 'a deq_pc \<Rightarrow> 'a dpc" where
  "after_ddequeue adjusted t r (DeqReturn v) = DRReturn (Some (if adjusted then t - refOffset r else t, v))"
| "after_ddequeue adjusted t r c = DDequeue adjusted t r c"

definition section_step :: "('ts, 'a) DynQueue \<Rightarrow> 'a job \<Rightarrow> section_pc \<Rightarrow> 'a dpc outcome" where
  "section_step q job c = (case trySeqlockReadSection q c of
       SecTrue state sl cap str \<Rightarrow>
         bind_outcome (maybeUpdateFromClosed q state (job_ticket job) sl cap str)
           (\<lambda>(found, r). Done (after_section job found state cap r))
     | SecFalse \<Rightarrow> Done (restart job)
     | c' \<Rightarrow> Done (DSection job c'))"

fun dstep :: "'ts dyn_env \<Rightarrow> bool \<Rightarrow> bool \<Rightarrow> ('ts, 'a) DynQueue \<Rightarrow> 'a dpc \<Rightarrow> (('ts, 'a) DynQueue \<times> 'a dpc) outcome" where
  "dstep E deadline alloc q (DWriteStart v) =
     Done (q\<lparr>dpushTicket := dpushTicket q + 1\<rparr>, DSection (JWrite (dpushTicket q) v) SecState)"
| "dstep E deadline alloc q DReadStart =
     Done (q\<lparr>dpopTicket := dpopTicket q + 1\<rparr>, DSection (JRead (dpopTicket q)) SecState)"
| "dstep E deadline alloc q (DReadyPushLoad v) = Done (q, DSection (JReadyPush (dpushTicket q) v) SecState)"
| "dstep E deadline alloc q (DPromPushLoad timed v) = Done (q, DPromPushPops timed (dpushTicket q) v)"
| "dstep E deadline alloc q (DPromPushPops timed t v) = Done (q, DSection (JPromPush timed t (dpopTicket q) v) SecState)"
| "dstep E deadline alloc q DReadyPopLoad = Done (q, DSection (JReadyPop (dpopTicket q)) SecState)"
| "dstep E deadline alloc q (DPromPopLoad timed) = Done (q, DPromPopPushes timed (dpopTicket q))"
| "dstep E deadline alloc q (DPromPopPushes timed t) = Done (q, DSection (JPromPop timed t (dpushTicket q)) SecState)"
| "dstep E deadline alloc q (DSection job c) = bind_outcome (section_step q job c) (\<lambda>c'. Done (q, c'))"
| "dstep E deadline alloc q (DCheck job state r) =
     bind_outcome (slot_check E q r (job_ticket job) (is_push job)) (\<lambda>may. Done (q, after_check job state r may))"
| "dstep E deadline alloc q (DLoad job state r) = Done (q, after_load q job state r)"
| "dstep E deadline alloc q (DExpand job state r c) =
     bind_outcome (tryExpand E alloc q state (refCap r) c) (\<lambda>(q', c'). Done (q', after_expand job state r c'))"
| "dstep E deadline alloc q (DCas job r) = Done (after_cas q job r)"
| "dstep E deadline alloc q (DWaitPush t r v) =
     in_array q r (\<lambda>a. bind_outcome (waitForPushTurnUntil (fixedEnv E) deadline a (t - refOffset r))
       (\<lambda>(ok, a'). Done (a', if ok then DPromPushLoad True v else DWReturn False)))"
| "dstep E deadline alloc q (DWaitPop t r) =
     in_array q r (\<lambda>a. bind_outcome (waitForPopTurnUntil (fixedEnv E) deadline a (t - refOffset r))
       (\<lambda>(ok, a'). Done (a', if ok then DPromPopLoad True else DRReturn None)))"
| "dstep E deadline alloc q (DEnqueue t r c v) =
     in_array q r (\<lambda>a. bind_outcome (enqueueWithTicketBase (fixedEnv E) a (t - refOffset r) v c)
       (\<lambda>(a', c'). Done (a', after_denqueue t r v c')))"
| "dstep E deadline alloc q (DDequeue adjusted t r c) =
     in_array q r (\<lambda>a. bind_outcome (dequeueWithTicketBase (fixedEnv E) a (t - refOffset r) c)
       (\<lambda>(a', c'). Done (a', after_ddequeue adjusted t r c')))"
| "dstep E deadline alloc q c = Done (q, c)"

section \<open>Threads\<close>

fun dinside :: "'a dpc \<Rightarrow> bool" where
  "dinside DIdle = False"
| "dinside (DWReturn b) = False"
| "dinside (DRReturn r) = False"
| "dinside _ = True"

text \<open>The state of a run carries its history: the values in the order of their push tickets, and the pop tickets and values in
  the order in which the pops completed.\<close>

record ('ts, 'a) dsys =
  dqueue :: "('ts, 'a) DynQueue"
  dpcs :: "nat \<Rightarrow> 'a dpc"
  dpushed :: "'a list"
  ddelivered :: "(nat \<times> 'a) list"

datatype 'a devent = DInvoke nat "'a call" | DAdvance nat bool bool

text \<open>The value of a thread that may take a push ticket with its next step, and the value a thread hands over with it.\<close>

fun pushing :: "'a dpc \<Rightarrow> 'a list" where
  "pushing (DWriteStart v) = [v]"
| "pushing (DCas (JReadyPush t v) r) = [v]"
| "pushing (DCas (JPromPush timed t n v) r) = [v]"
| "pushing _ = []"

fun handing :: "'a dpc \<Rightarrow> (nat \<times> 'a) list" where
  "handing (DDequeue adjusted t r (DeqCompleteTurn v)) = [(unat t, v)]"
| "handing _ = []"

definition after_dstep :: "('ts, 'a) dsys \<Rightarrow> nat \<Rightarrow> ('ts, 'a) DynQueue \<Rightarrow> 'a dpc \<Rightarrow> ('ts, 'a) dsys" where
  "after_dstep s i q c =
     \<lparr>dqueue = q, dpcs = (dpcs s)(i := c),
      dpushed = dpushed s @ (if dpushTicket q = dpushTicket (dqueue s) then [] else pushing (dpcs s i)),
      ddelivered = ddelivered s @ handing (dpcs s i)\<rparr>"

fun dsys_step :: "'ts dyn_env \<Rightarrow> nat \<Rightarrow> ('ts, 'a) dsys \<Rightarrow> 'a devent \<Rightarrow> ('ts, 'a) dsys option" where
  "dsys_step E N s (DInvoke i c) =
     (if i < N \<and> \<not> dinside (dpcs s i) then Some (s\<lparr>dpcs := (dpcs s)(i := denter c)\<rparr>) else None)"
| "dsys_step E N s (DAdvance i deadline alloc) =
     (if i < N \<and> dinside (dpcs s i)
      then case dstep E deadline alloc (dqueue s) (dpcs s i) of
          Done (q, c) \<Rightarrow> Some (after_dstep s i q c)
        | _ \<Rightarrow> None
      else None)"

fun dsys_run :: "'ts dyn_env \<Rightarrow> nat \<Rightarrow> ('ts, 'a) dsys \<Rightarrow> 'a devent list \<Rightarrow> ('ts, 'a) dsys option" where
  "dsys_run E N s [] = Some s"
| "dsys_run E N s (e # es) = (case dsys_step E N s e of None \<Rightarrow> None | Some s' \<Rightarrow> dsys_run E N s' es)"

definition dsys_init :: "('ts, 'a) DynQueue \<Rightarrow> ('ts, 'a) dsys" where
  "dsys_init q = \<lparr>dqueue = q, dpcs = (\<lambda>i. DIdle), dpushed = [], ddelivered = []\<rparr>"

end
