(* ===== verification/DynamicSeqlock.thy ===== *)
theory DynamicSeqlock
  imports DynamicMPMC
begin

text \<open>
  The seqlock of the dynamic queue: every interleaving of its operations keeps an invariant that relates the packed state, the
  current array, the closed arrays and what each thread has read of them to the history of the queue's arrays.
  From it follow that operations agree on the array of a ticket and that no assertion fails.
\<close>

unbundle bit_operations_syntax

section \<open>The packed state\<close>

definition pack :: "u64 \<Rightarrow> nat \<Rightarrow> u64" where
  "pack offset n = push_bit kSeqlockBits offset + of_nat (2 * n)"

lemma unat_pack:
  assumes "unat offset < 2 ^ 58" "n < 32"
  shows "unat (pack offset n) = 64 * unat offset + 2 * n"
proof -
  have p: "push_bit kSeqlockBits offset = 64 * offset"
    by (simp add: kSeqlockBits_def push_bit_eq_mult)
  have u: "unat (64 * offset) = 64 * unat offset"
    using assms(1) by (simp add: unat_word_ariths)
  have v: "unat (of_nat (2 * n) :: u64) = 2 * n"
    using assms(2) by (intro unat_of_nat_small) simp
  show ?thesis
    unfolding pack_def p unat_word_ariths(1) u v using assms by simp
qed

lemma unat_state:
  "unat (getOffset st) = unat st div 64" "getNumClosed st = unat st mod 64 div 2" "locked st \<longleftrightarrow> odd (unat st)"
proof -
  show "unat (getOffset st) = unat st div 64"
    by (simp add: getOffset_def kSeqlockBits_def drop_bit_eq_div unat_div)
  have "st AND (push_bit kSeqlockBits 1 - 1) = st mod 64"
    using take_bit_eq_mask[of 6 st] by (simp add: kSeqlockBits_def mask_eq_exp_minus_1 take_bit_eq_mod)
  then show "getNumClosed st = unat st mod 64 div 2"
    by (simp add: getNumClosed_def drop_bit_eq_div unat_div unat_mod)
  show "locked st \<longleftrightarrow> odd (unat st)"
    by (simp add: locked_def and_one_eq word_unat_eq_iff unat_mod odd_iff_mod_2_eq_one)
qed

lemma pack_unpack_state:
  assumes "unat offset < 2 ^ 58" "n < 32"
  shows "getOffset (pack offset n) = offset" "getNumClosed (pack offset n) = n" "\<not> locked (pack offset n)" "locked (pack offset n + 1)"
proof -
  note u = unat_pack[OF assms]
  show "getOffset (pack offset n) = offset"
    using assms(2) by (simp add: word_unat_eq_iff unat_state u)
  show "getNumClosed (pack offset n) = n" "\<not> locked (pack offset n)"
    using assms(2) by (simp_all add: unat_state u)
  have "unat (pack offset n + 1) = unat (pack offset n) + 1"
    using assms by (intro unat_add_one) (simp add: u)
  then show "locked (pack offset n + 1)"
    by (simp add: unat_state u)
qed

section \<open>Arrays and tickets\<close>

text \<open>The history of a queue is the list of its arrays, oldest first; a ticket belongs to the last array whose offset it
  has reached.\<close>

definition lookup :: "arrayRef list \<Rightarrow> u64 \<Rightarrow> arrayRef" where
  "lookup hist t = last (filter (\<lambda>r. refOffset r \<le> t) hist)"

definition rising :: "arrayRef list \<Rightarrow> bool" where
  "rising hist \<longleftrightarrow> hist \<noteq> [] \<and> refOffset (hd hist) = 0 \<and>
     sorted_wrt (\<lambda>a b. refOffset a < refOffset b \<and> refCap a < refCap b) hist"

lemma lookup_mem:
  assumes "rising hist"
  shows "lookup hist t \<in> set hist" "refOffset (lookup hist t) \<le> t"
proof -
  have "hd hist \<in> set (filter (\<lambda>r. refOffset r \<le> t) hist)"
    using assms by (simp add: rising_def)
  then have "lookup hist t \<in> set (filter (\<lambda>r. refOffset r \<le> t) hist)"
    unfolding lookup_def by (metis empty_iff empty_set last_in_set)
  then show "lookup hist t \<in> set hist" "refOffset (lookup hist t) \<le> t"
    by simp_all
qed

lemma lookup_snoc:
  "lookup (hist @ [r]) t = (if refOffset r \<le> t then r else lookup hist t)"
  by (simp add: lookup_def)

lemma lookup_last:
  assumes "hist \<noteq> []" "refOffset (last hist) \<le> t"
  shows "lookup hist t = last hist"
  using lookup_snoc[of "butlast hist" "last hist" t] assms by simp

lemma rising_inj:
  assumes "rising hist" "a \<in> set hist" "b \<in> set hist" "refOffset a = refOffset b \<or> refCap a = refCap b"
  shows "a = b"
proof -
  obtain i k where "i < length hist" "k < length hist" "a = hist ! i" "b = hist ! k"
    using assms(2,3) by (metis in_set_conv_nth)
  then show ?thesis
    using assms(1,4) sorted_wrt_nth_less[of "\<lambda>a b. refOffset a < refOffset b \<and> refCap a < refCap b" hist]
    by (cases i k rule: linorder_cases) (fastforce simp: rising_def)+
qed

lemma rising_snoc:
  assumes "rising hist" "refOffset (last hist) < refOffset r" "refCap (last hist) < refCap r"
  shows "rising (hist @ [r])"
proof -
  have "refOffset a \<le> refOffset (last hist) \<and> refCap a \<le> refCap (last hist)" if "a \<in> set hist" for a
  proof -
    have "sorted_wrt (\<lambda>a b. refOffset a < refOffset b \<and> refCap a < refCap b) (butlast hist @ [last hist])"
      using assms(1) by (simp add: rising_def)
    then have "\<forall>b\<in>set (butlast hist). refOffset b < refOffset (last hist) \<and> refCap b < refCap (last hist)"
      by (simp add: sorted_wrt_append)
    moreover have "a \<in> set (butlast hist @ [last hist])"
      using that assms(1) by (simp add: rising_def)
    ultimately show ?thesis
      by auto
  qed
  then show ?thesis
    using assms by (fastforce simp: rising_def sorted_wrt_append)
qed

lemma search_closed_lookup:
  assumes "rising hist" "n \<le> length hist" "n \<le> length cs" "\<forall>k<n. closedRef (cs ! k) = hist ! k"
    "\<exists>k<n. refOffset (hist ! k) \<le> t"
  shows "search_closed cs t n = Done (lookup (take n hist) t)"
  using assms(2-5)
proof (induction n)
  case (Suc n)
  have n: "n < length hist" "n < length cs" "closedRef (cs ! n) = hist ! n"
    using Suc.prems by simp_all
  have t: "take (Suc n) hist = take n hist @ [hist ! n]"
    using n(1) by (rule take_Suc_conv_app_nth)
  have o: "clOffset (cs ! n) = refOffset (hist ! n)"
    using n(3) by (metis arrayRef.select_convs(1) closedRef_def)
  show ?case
  proof (cases "refOffset (hist ! n) \<le> t")
    case True
    then show ?thesis
      using n o by (simp add: t lookup_snoc)
  next
    case False
    then have "\<exists>k<n. refOffset (hist ! k) \<le> t"
      using Suc.prems(4) by (metis less_Suc_eq)
    then show ?thesis
      using Suc.IH Suc.prems n o False by (simp add: t lookup_snoc)
  qed
qed simp

section \<open>The invariant\<close>

definition grows :: "'ts dyn_env \<Rightarrow> ('ts, 'a) DynQueue \<Rightarrow> nat \<Rightarrow> bool" where
  "grows E q c0 \<longleftrightarrow> 2 \<le> unat (dmult q) \<and> unat (dmult q) * unat (maxCapacity q) < 2 ^ 64 \<and>
     unat (maxCapacity q) + 2 * unat (slotPadding (fixedEnv E)) < 2 ^ 63 \<and> 0 < c0 \<and> length (closed q) < 32 \<and>
     (\<forall>k. c0 * unat (dmult q) ^ k < unat (maxCapacity q) \<longrightarrow> k < length (closed q))"

definition ref_ok :: "'ts dyn_env \<Rightarrow> ('ts, 'a) DynQueue \<Rightarrow> arrayRef \<Rightarrow> bool" where
  "ref_ok E q r \<longleftrightarrow> 0 < refCap r \<and> refCap r \<le> maxCapacity q \<and> refStride r = computeStride (refCap r) \<and>
     refSlots r < length (arrays q) \<and>
     length (arrays q ! refSlots r) = unat (refCap r) + 2 * unat (slotPadding (fixedEnv E)) \<and> unat (refOffset r) < 2 ^ 58"

definition hist_inv :: "'ts dyn_env \<Rightarrow> ('ts, 'a) DynQueue \<Rightarrow> nat \<Rightarrow> arrayRef list \<Rightarrow> bool" where
  "hist_inv E q c0 hist \<longleftrightarrow> rising hist \<and> (\<forall>r\<in>set hist. ref_ok E q r) \<and> distinct (map refSlots hist) \<and>
     length hist \<le> Suc (length (closed q)) \<and> (\<forall>k<length hist - 1. closedRef (closed q ! k) = hist ! k) \<and>
     (\<forall>k<length hist. unat (refCap (hist ! k)) = min (c0 * unat (dmult q) ^ k) (unat (maxCapacity q)))"

text \<open>The value of \<open>dstate_\<close> when no expansion is going on.\<close>

definition sealed :: "arrayRef list \<Rightarrow> u64" where
  "sealed hist = pack (refOffset (last hist)) (length hist - 1)"

definition current_is :: "('ts, 'a) DynQueue \<Rightarrow> arrayRef \<Rightarrow> bool" where
  "current_is q r \<longleftrightarrow> dslots q = refSlots r \<and> dcapacity q = refCap r \<and> dstride q = refStride r"

text \<open>The side, ticket and array of a thread that has been through its read section.\<close>

fun located :: "'a dpc \<Rightarrow> (bool \<times> u64 \<times> arrayRef) option" where
  "located (DCheck job st r) = Some (is_push job, job_ticket job, r)"
| "located (DLoad job st r) = Some (is_push job, job_ticket job, r)"
| "located (DExpand job st r c) = Some (is_push job, job_ticket job, r)"
| "located (DCas job r) = Some (is_push job, job_ticket job, r)"
| "located (DWaitPush t r v) = Some (True, t, r)"
| "located (DWaitPop t r) = Some (False, t, r)"
| "located (DEnqueue t r c v) = Some (True, t, r)"
| "located (DDequeue b t r c) = Some (False, t, r)"
| "located _ = None"

text \<open>The point at which a thread holds the seqlock.\<close>

fun lock_pc :: "'a dpc \<Rightarrow> expand_pc option" where
  "lock_pc (DExpand job st r ExpandCas) = None"
| "lock_pc (DExpand job st r (ExpandReturn b)) = None"
| "lock_pc (DExpand job st r c) = Some c"
| "lock_pc _ = None"

fun stores :: "expand_pc \<Rightarrow> bool" where
  "stores (ExpandCapacity t sl n) = True"
| "stores (ExpandStride t sl n) = True"
| "stores (ExpandRelease t sl n) = True"
| "stores _ = False"

definition storing :: "(nat \<Rightarrow> 'a dpc) \<Rightarrow> bool" where
  "storing pcs \<longleftrightarrow> (\<exists>i c. lock_pc (pcs i) = Some c \<and> stores c)"

definition ticket_le :: "u64 \<Rightarrow> u64 \<Rightarrow> bool \<Rightarrow> u64 \<Rightarrow> bool" where
  "ticket_le p d b t \<longleftrightarrow> t \<le> (if b then p else d)"

definition state_ok :: "arrayRef list \<Rightarrow> u64 \<Rightarrow> bool" where
  "state_ok hist st \<longleftrightarrow> \<not> locked st \<and> getNumClosed st < length hist"

text \<open>What a thread inside the read section has loaded describes the current array, unless its state is already outdated
  or is going to be.\<close>

fun section_ok :: "arrayRef list \<Rightarrow> bool \<Rightarrow> section_pc \<Rightarrow> bool" where
  "section_ok hist w SecState = True"
| "section_ok hist w (SecSlots st) = state_ok hist st"
| "section_ok hist w (SecCap st sl) = (state_ok hist st \<and> (st = sealed hist \<and> \<not> w \<longrightarrow> sl = refSlots (last hist)))"
| "section_ok hist w (SecStride st sl cap) =
     (state_ok hist st \<and> (st = sealed hist \<and> \<not> w \<longrightarrow> sl = refSlots (last hist) \<and> cap = refCap (last hist)))"
| "section_ok hist w (SecValidate st sl cap str) =
     (state_ok hist st \<and>
      (st = sealed hist \<and> \<not> w \<longrightarrow> sl = refSlots (last hist) \<and> cap = refCap (last hist) \<and> str = refStride (last hist)))"
| "section_ok hist w _ = False"

fun is_write :: "'a job \<Rightarrow> bool" where
  "is_write (JWrite t v) = True"
| "is_write _ = False"

fun point_ok :: "u64 \<Rightarrow> u64 \<Rightarrow> arrayRef list \<Rightarrow> bool \<Rightarrow> 'a dpc \<Rightarrow> bool" where
  "point_ok p d hist w (DPromPushPops b t v) = (t \<le> p)"
| "point_ok p d hist w (DPromPopPushes b t) = (t \<le> d)"
| "point_ok p d hist w (DSection job c) = (ticket_le p d (is_push job) (job_ticket job) \<and> section_ok hist w c)"
| "point_ok p d hist w (DCheck job st r) =
     ((is_push job \<or> job = JReadyPop (job_ticket job)) \<and> state_ok hist st \<and> (is_write job \<and> st = sealed hist \<longrightarrow> r = last hist))"
| "point_ok p d hist w (DLoad job st r) =
     (is_push job \<and> state_ok hist st \<and> (is_write job \<and> st = sealed hist \<longrightarrow> r = last hist))"
| "point_ok p d hist w (DExpand job st r c) =
     (is_push job \<and> (c = ExpandCas \<longrightarrow> state_ok hist st \<and> (st = sealed hist \<longrightarrow> r = last hist)) \<and> (\<forall>b. c \<noteq> ExpandReturn b))"
| "point_ok p d hist w _ = True"

definition place_ok :: "u64 \<Rightarrow> u64 \<Rightarrow> arrayRef list \<Rightarrow> 'a dpc \<Rightarrow> bool" where
  "place_ok p d hist c \<longleftrightarrow> (\<forall>b t r. located c = Some (b, t, r) \<longrightarrow> r = lookup hist t \<and> ticket_le p d b t)"

text \<open>A lower bound of the offset that the expansion in progress will publish.\<close>

fun expand_floor :: "'ts dyn_env \<Rightarrow> ('ts, 'a) DynQueue \<Rightarrow> expand_pc \<Rightarrow> nat" where
  "expand_floor E q (ExpandLoad2 x) = 1 + max (unat x) (unat (if pushFirst E then dpopTicket q else dpushTicket q))"
| "expand_floor E q (ExpandAlloc t) = unat t"
| "expand_floor E q (ExpandSlots t sl n) = unat t"
| "expand_floor E q (ExpandCapacity t sl n) = unat t"
| "expand_floor E q (ExpandStride t sl n) = unat t"
| "expand_floor E q (ExpandRelease t sl n) = unat t"
| "expand_floor E q _ = 1 + max (unat (dpushTicket q)) (unat (dpopTicket q))"

definition newRef :: "u64 \<Rightarrow> nat \<Rightarrow> u64 \<Rightarrow> arrayRef" where
  "newRef t sl n = \<lparr>refOffset = t, refSlots = sl, refCap = n, refStride = computeStride n\<rparr>"

definition new_ok :: "'ts dyn_env \<Rightarrow> ('ts, 'a) DynQueue \<Rightarrow> nat \<Rightarrow> arrayRef list \<Rightarrow> u64 \<Rightarrow> nat \<Rightarrow> u64 \<Rightarrow> bool" where
  "new_ok E q c0 hist t sl n \<longleftrightarrow> hist_inv E q c0 (hist @ [newRef t sl n])"

fun phase_ok :: "'ts dyn_env \<Rightarrow> ('ts, 'a) DynQueue \<Rightarrow> nat \<Rightarrow> arrayRef list \<Rightarrow> expand_pc \<Rightarrow> bool" where
  "phase_ok E q c0 hist ExpandLoad = current_is q (last hist)"
| "phase_ok E q c0 hist (ExpandLoad2 x) = (current_is q (last hist) \<and> x \<le> (if pushFirst E then dpushTicket q else dpopTicket q))"
| "phase_ok E q c0 hist (ExpandAlloc t) = (current_is q (last hist) \<and> unat t < 2 ^ 58)"
| "phase_ok E q c0 hist ExpandRestore = current_is q (last hist)"
| "phase_ok E q c0 hist (ExpandSlots t sl n) = (current_is q (last hist) \<and> new_ok E q c0 hist t sl n)"
| "phase_ok E q c0 hist (ExpandCapacity t sl n) =
     (dslots q = sl \<and> dcapacity q = refCap (last hist) \<and> dstride q = refStride (last hist) \<and> new_ok E q c0 hist t sl n)"
| "phase_ok E q c0 hist (ExpandStride t sl n) =
     (dslots q = sl \<and> dcapacity q = n \<and> dstride q = refStride (last hist) \<and> new_ok E q c0 hist t sl n)"
| "phase_ok E q c0 hist (ExpandRelease t sl n) = (current_is q (newRef t sl n) \<and> new_ok E q c0 hist t sl n)"
| "phase_ok E q c0 hist _ = False"

definition holder_ok :: "'ts dyn_env \<Rightarrow> ('ts, 'a) DynQueue \<Rightarrow> nat \<Rightarrow> arrayRef list \<Rightarrow> (nat \<Rightarrow> 'a dpc) \<Rightarrow> u64 \<Rightarrow> arrayRef \<Rightarrow> expand_pc \<Rightarrow> bool" where
  "holder_ok E q c0 hist pcs st r c \<longleftrightarrow>
     dstate q = sealed hist + 1 \<and> st = sealed hist \<and> r = last hist \<and> refCap r \<noteq> maxCapacity q \<and> phase_ok E q c0 hist c \<and>
     (\<forall>k b t r'. located (pcs k) = Some (b, t, r') \<longrightarrow> unat t < expand_floor E q c)"

definition lock_inv :: "'ts dyn_env \<Rightarrow> ('ts, 'a) DynQueue \<Rightarrow> nat \<Rightarrow> arrayRef list \<Rightarrow> (nat \<Rightarrow> 'a dpc) \<Rightarrow> bool" where
  "lock_inv E q c0 hist pcs \<longleftrightarrow>
     (\<forall>i k. lock_pc (pcs i) \<noteq> None \<longrightarrow> lock_pc (pcs k) \<noteq> None \<longrightarrow> i = k) \<and>
     ((\<forall>i. lock_pc (pcs i) = None) \<longrightarrow> dstate q = sealed hist \<and> current_is q (last hist)) \<and>
     (\<forall>i job st r c. pcs i = DExpand job st r c \<longrightarrow> lock_pc (pcs i) \<noteq> None \<longrightarrow> holder_ok E q c0 hist pcs st r c)"

definition dyn_inv :: "'ts dyn_env \<Rightarrow> nat \<Rightarrow> ('ts, 'a) DynQueue \<Rightarrow> arrayRef list \<Rightarrow> (nat \<Rightarrow> 'a dpc) \<Rightarrow> bool" where
  "dyn_inv E c0 q hist pcs \<longleftrightarrow> grows E q c0 \<and> hist_inv E q c0 hist \<and> lock_inv E q c0 hist pcs \<and>
     (\<forall>i. place_ok (dpushTicket q) (dpopTicket q) hist (pcs i) \<and>
          point_ok (dpushTicket q) (dpopTicket q) hist (storing pcs) (pcs i))"

lemma dyn_invD:
  assumes "dyn_inv E c0 q hist pcs"
  shows "grows E q c0" "hist_inv E q c0 hist" "lock_inv E q c0 hist pcs"
    "place_ok (dpushTicket q) (dpopTicket q) hist (pcs i)" "point_ok (dpushTicket q) (dpopTicket q) hist (storing pcs) (pcs i)"
  using assms by (simp_all add: dyn_inv_def)

section \<open>Steps outside the seqlock\<close>

text \<open>Everything but cells, spin cutoffs and counters is the same, and the counters have not gone back.\<close>

definition same_arrays :: "('ts, 'a) DynQueue \<Rightarrow> ('ts, 'a) DynQueue \<Rightarrow> bool" where
  "same_arrays q q' \<longleftrightarrow> maxCapacity q' = maxCapacity q \<and> dslots q' = dslots q \<and> dstride q' = dstride q \<and> dstate q' = dstate q \<and>
     dcapacity q' = dcapacity q \<and> dmult q' = dmult q \<and> closed q' = closed q \<and> map length (arrays q') = map length (arrays q) \<and>
     dpushTicket q \<le> dpushTicket q' \<and> dpopTicket q \<le> dpopTicket q'"

lemma lengths_eq:
  assumes "map length xs = map length ys"
  shows "length xs = length ys" "k < length ys \<Longrightarrow> length (xs ! k) = length (ys ! k)"
  using assms by (metis length_map, metis length_map nth_map)

lemma same_hist:
  assumes "same_arrays q q'" "hist_inv E q c0 hist"
  shows "hist_inv E q' c0 hist"
proof -
  have "ref_ok E q' r" if "ref_ok E q r" for r
    using that assms(1) lengths_eq[of "arrays q'" "arrays q"] by (simp add: ref_ok_def same_arrays_def)
  then show ?thesis
    using assms by (simp add: hist_inv_def same_arrays_def)
qed

lemma same_floor:
  assumes "same_arrays q q'"
  shows "expand_floor E q c \<le> expand_floor E q' c"
proof -
  have "unat (dpushTicket q) \<le> unat (dpushTicket q')" "unat (dpopTicket q) \<le> unat (dpopTicket q')"
    using assms by (simp_all add: same_arrays_def word_le_nat_alt)
  then show ?thesis
    by (cases c) auto
qed

lemma same_phase:
  assumes "same_arrays q q'" "phase_ok E q c0 hist c"
  shows "phase_ok E q' c0 hist c"
proof -
  have "x \<le> (if pushFirst E then dpushTicket q' else dpopTicket q')" if "x \<le> (if pushFirst E then dpushTicket q else dpopTicket q)" for x
    using that assms(1) by (auto simp: same_arrays_def split: if_splits)
  then show ?thesis
    using assms same_hist[OF assms(1)] by (cases c) (auto simp: new_ok_def current_is_def same_arrays_def)
qed

lemma ticket_le_mono: "ticket_le p d b t \<Longrightarrow> p \<le> p' \<Longrightarrow> d \<le> d' \<Longrightarrow> ticket_le p' d' b t"
  by (auto simp: ticket_le_def split: if_splits)

lemma point_mono:
  assumes "point_ok p d hist w c" "p \<le> p'" "d \<le> d'"
  shows "point_ok p' d' hist w c"
  using assms ticket_le_mono[OF _ assms(2,3)] by (cases c) auto

lemma place_okD: "place_ok p d hist c \<Longrightarrow> located c = Some (b, t, r) \<Longrightarrow> r = lookup hist t \<and> ticket_le p d b t"
  by (simp add: place_ok_def)

lemma place_mono: "place_ok p d hist c \<Longrightarrow> p \<le> p' \<Longrightarrow> d \<le> d' \<Longrightarrow> place_ok p' d' hist c"
  unfolding place_ok_def using ticket_le_mono by blast

lemma dyn_inv_quiet:
  assumes I: "dyn_inv E c0 q hist pcs" and S: "same_arrays q q'" and L: "lock_pc (pcs i) = None" "lock_pc c' = None"
    and C: "place_ok (dpushTicket q') (dpopTicket q') hist c'" "point_ok (dpushTicket q') (dpopTicket q') hist (storing pcs) c'"
    and N: "\<And>b t r. located c' = Some (b, t, r) \<Longrightarrow> (\<exists>r'. located (pcs i) = Some (b, t, r')) \<or> (\<forall>k. lock_pc (pcs k) = None)"
  shows "dyn_inv E c0 q' hist (pcs(i := c'))"
proof -
  have le: "dpushTicket q \<le> dpushTicket q'" "dpopTicket q \<le> dpopTicket q'"
    using S by (simp_all add: same_arrays_def)
  have lk: "lock_pc ((pcs(i := c')) k) = lock_pc (pcs k)" for k
    using L by simp
  have st: "storing (pcs(i := c')) = storing pcs"
    unfolding storing_def lk ..
  note li = dyn_invD(3)[OF I]
  have h: "holder_ok E q' c0 hist (pcs(i := c')) st r c"
    if h0: "holder_ok E q c0 hist pcs st r c" and k: "lock_pc (pcs k) \<noteq> None" for st r c k
  proof -
    have fl: "unat t < expand_floor E q' c" if "located ((pcs(i := c')) j) = Some (b, t, r')" for j b t r'
    proof -
      have "\<exists>j r'. located (pcs j) = Some (b, t, r')"
        using that N[of b t r'] k by (cases "j = i") auto
      then have "unat t < expand_floor E q c"
        using h0 unfolding holder_ok_def by blast
      then show ?thesis
        using same_floor[OF S, of E c] by simp
    qed
    have "dstate q' = dstate q" "maxCapacity q' = maxCapacity q"
      using S by (simp_all add: same_arrays_def)
    then show ?thesis
      using h0 same_phase[OF S] fl unfolding holder_ok_def by (metis (no_types, lifting))
  qed
  have "lock_inv E q' c0 hist (pcs(i := c'))"
    unfolding lock_inv_def lk
  proof (intro conjI allI impI)
    fix k job st r c
    assume a: "(pcs(i := c')) k = DExpand job st r c" "lock_pc (pcs k) \<noteq> None"
    then have "pcs k = DExpand job st r c"
      using L by (auto split: if_splits)
    then show "holder_ok E q' c0 hist (pcs(i := c')) st r c"
      using li a(2) by (intro h[of st r c k]) (auto simp: lock_inv_def)
  qed (use li S in \<open>auto simp: lock_inv_def same_arrays_def current_is_def\<close>)
  moreover have "place_ok (dpushTicket q') (dpopTicket q') hist ((pcs(i := c')) k) \<and>
      point_ok (dpushTicket q') (dpopTicket q') hist (storing pcs) ((pcs(i := c')) k)" for k
    using C place_mono[OF dyn_invD(4)[OF I] le] point_mono[OF dyn_invD(5)[OF I] le] by simp
  moreover have "grows E q' c0"
    using dyn_invD(1)[OF I] S by (simp add: grows_def same_arrays_def)
  ultimately show ?thesis
    using same_hist[OF S dyn_invD(2)[OF I]] by (simp add: dyn_inv_def st)
qed

lemma sealed_fields:
  assumes "grows E q c0" "hist_inv E q c0 hist"
  shows "getOffset (sealed hist) = refOffset (last hist)" "getNumClosed (sealed hist) = length hist - 1"
    "\<not> locked (sealed hist)" "locked (sealed hist + 1)" "state_ok hist (sealed hist)"
proof -
  have h: "hist \<noteq> []" "length hist - 1 < 32" "last hist \<in> set hist"
    using assms by (auto simp: grows_def hist_inv_def rising_def)
  then have "unat (refOffset (last hist)) < 2 ^ 58"
    using assms(2) by (simp add: hist_inv_def ref_ok_def)
  note f = pack_unpack_state[OF this h(2), folded sealed_def]
  show "getOffset (sealed hist) = refOffset (last hist)" "getNumClosed (sealed hist) = length hist - 1"
    "\<not> locked (sealed hist)" "locked (sealed hist + 1)"
    by (fact f)+
  show "state_ok hist (sealed hist)"
    using f h(1) by (simp add: state_ok_def)
qed

lemma lock_pc_Expand: "lock_pc c \<noteq> None \<Longrightarrow> \<exists>job st r e. c = DExpand job st r e \<and> lock_pc c = Some e"
  by (cases c rule: lock_pc.cases) auto

lemma holderD:
  assumes "dyn_inv E c0 q hist pcs" "lock_pc (pcs i) = Some e"
  obtains job st r where "pcs i = DExpand job st r e" "holder_ok E q c0 hist pcs st r e"
proof -
  obtain job st r where "pcs i = DExpand job st r e"
    using lock_pc_Expand[of "pcs i"] assms(2) by auto
  then show thesis
    using that dyn_invD(3)[OF assms(1)] assms(2) unfolding lock_inv_def by blast
qed

lemma dyn_unlocked:
  assumes "dyn_inv E c0 q hist pcs" "\<not> locked (dstate q)"
  shows "lock_pc (pcs k) = None" "dstate q = sealed hist" "current_is q (last hist)" "\<not> storing pcs"
proof -
  have n: "\<forall>k. lock_pc (pcs k) = None"
  proof (rule ccontr)
    assume "\<not> ?thesis"
    then obtain i e where "lock_pc (pcs i) = Some e"
      by auto
    then obtain job st r where "holder_ok E q c0 hist pcs st r e"
      using holderD[OF assms(1)] by metis
    then show False
      using assms(2) sealed_fields(4)[OF dyn_invD(1,2)[OF assms(1)]] by (simp add: holder_ok_def)
  qed
  then show "lock_pc (pcs k) = None" "\<not> storing pcs"
    by (simp_all add: storing_def)
  show "dstate q = sealed hist" "current_is q (last hist)"
    using dyn_invD(3)[OF assms(1)] n by (simp_all add: lock_inv_def)
qed

lemma current_unless_storing:
  assumes "dyn_inv E c0 q hist pcs" "\<not> storing pcs"
  shows "current_is q (last hist)"
proof (cases "\<forall>k. lock_pc (pcs k) = None")
  case True
  then show ?thesis
    using dyn_invD(3)[OF assms(1)] by (simp add: lock_inv_def)
next
  case False
  then obtain i e where e: "lock_pc (pcs i) = Some e"
    by auto
  then obtain job st r where "holder_ok E q c0 hist pcs st r e"
    using holderD[OF assms(1)] by metis
  moreover have "\<not> stores e"
    using assms(2) e by (auto simp: storing_def)
  ultimately show ?thesis
    by (cases e) (auto simp: holder_ok_def)
qed

lemma maybe_update:
  assumes I: "dyn_inv E c0 q hist pcs" and u: "\<not> locked (dstate q)"
  shows "maybeUpdateFromClosed q (sealed hist) t (refSlots (last hist)) (refCap (last hist)) (refStride (last hist)) =
    Done (t < refOffset (last hist), lookup hist t)"
proof -
  note f = sealed_fields[OF dyn_invD(1,2)[OF I]]
  have h: "rising hist" "hist \<noteq> []" "length hist \<le> Suc (length (closed q))" "\<forall>k<length hist - 1. closedRef (closed q ! k) = hist ! k"
    using dyn_invD(2)[OF I] by (simp_all add: hist_inv_def rising_def)
  show ?thesis
  proof (cases "refOffset (last hist) \<le> t")
    case True
    then show ?thesis
      using lookup_last[OF h(2) True] by (simp add: maybeUpdateFromClosed_def f(1))
  next
    case False
    have hd: "refOffset (hist ! 0) = 0"
      using h(1) by (simp add: rising_def hd_conv_nth[symmetric])
    have "length hist - 1 \<noteq> 0"
    proof
      assume "length hist - 1 = 0"
      then have "last hist = hist ! 0"
        using h(2) by (simp add: last_conv_nth)
      with hd False show False
        by simp
    qed
    then have "\<exists>k<length hist - 1. refOffset (hist ! k) \<le> t"
      using hd by (intro exI[of _ 0]) simp
    then have "search_closed (closed q) t (length hist - 1) = Done (lookup (take (length hist - 1) hist) t)"
      using h by (intro search_closed_lookup) auto
    moreover have "lookup hist t = lookup (butlast hist) t"
      using lookup_snoc[of "butlast hist" "last hist" t] h(2) False by simp
    ultimately show ?thesis
      using False by (simp add: maybeUpdateFromClosed_def f(1,2) butlast_conv_take)
  qed
qed

lemma restart_ok:
  assumes "ticket_le p d (is_push job) (job_ticket job)"
  shows "place_ok p d hist (restart job)" "point_ok p d hist w (restart job)" "located (restart job) = None" "lock_pc (restart job) = None"
  using assms by (cases job; simp add: place_ok_def)+

lemma give_up_ok:
  "point_ok p d hist w (give_up job r)" "lock_pc (give_up job r) = None"
  "located (give_up job r) = Some (b, t, r') \<Longrightarrow> b = is_push job \<and> t = job_ticket job \<and> r' = r"
  by (cases job; simp split: if_splits)+

lemma give_up_place:
  assumes "r = lookup hist (job_ticket job)" "ticket_le p d (is_push job) (job_ticket job)"
  shows "place_ok p d hist (give_up job r)"
  unfolding place_ok_def
proof (intro allI impI)
  fix b t r'
  assume "located (give_up job r) = Some (b, t, r')"
  from give_up_ok(3)[OF this] assms show "r' = lookup hist t \<and> ticket_le p d b t"
    by simp
qed

lemma after_section_ok:
  assumes I: "dyn_inv E c0 q hist pcs" and t: "ticket_le (dpushTicket q) (dpopTicket q) (is_push job) (job_ticket job)"
  shows "point_ok (dpushTicket q) (dpopTicket q) hist w
      (after_section job (job_ticket job < refOffset (last hist)) (sealed hist) (refCap (last hist)) (lookup hist (job_ticket job)))"
    "place_ok (dpushTicket q) (dpopTicket q) hist
      (after_section job (job_ticket job < refOffset (last hist)) (sealed hist) (refCap (last hist)) (lookup hist (job_ticket job)))"
    "lock_pc (after_section job f st cap r) = None"
proof -
  have r: "rising hist"
    using dyn_invD(2)[OF I] by (simp add: hist_inv_def)
  then have n: "hist \<noteq> []"
    by (simp add: rising_def)
  have l: "lookup hist x = last hist" if "refCap (lookup hist x) = refCap (last hist) \<or> refOffset (last hist) \<le> x" for x
    using that rising_inj[OF r lookup_mem(1)[OF r], of "last hist" x] n lookup_last[OF n, of x] by auto
  note f = sealed_fields[OF dyn_invD(1,2)[OF I]]
  show "point_ok (dpushTicket q) (dpopTicket q) hist w
      (after_section job (job_ticket job < refOffset (last hist)) (sealed hist) (refCap (last hist)) (lookup hist (job_ticket job)))"
    using l f(5) by (cases job) (auto simp: not_less)
  show "place_ok (dpushTicket q) (dpopTicket q) hist
      (after_section job (job_ticket job < refOffset (last hist)) (sealed hist) (refCap (last hist)) (lookup hist (job_ticket job)))"
    using t by (cases job) (auto simp: place_ok_def)
  show "lock_pc (after_section job f st cap r) = None" for r
    by (cases job) auto
qed

lemma section_inv:
  assumes I: "dyn_inv E c0 q hist pcs" and i: "pcs i = DSection job c"
  shows "\<exists>c'. section_step q job c = Done c' \<and> dyn_inv E c0 q hist (pcs(i := c'))"
proof -
  let ?p = "dpushTicket q" and ?d = "dpopTicket q"
  have p: "ticket_le ?p ?d (is_push job) (job_ticket job)" "section_ok hist (storing pcs) c"
    using dyn_invD(5)[OF I, of i] i by simp_all
  have same: "same_arrays q q"
    by (simp add: same_arrays_def)
  have L: "lock_pc (pcs i) = None"
    by (simp add: i)
  have again: "dyn_inv E c0 q hist (pcs(i := restart job))"
    using restart_ok[OF p(1)] by (intro dyn_inv_quiet[OF I same L]) simp_all
  have go: "dyn_inv E c0 q hist (pcs(i := DSection job c'))" if "section_ok hist (storing pcs) c'" for c'
    using that p(1) by (intro dyn_inv_quiet[OF I same L]) (simp_all add: place_ok_def)
  have cur: "\<not> storing pcs \<Longrightarrow> current_is q (last hist)"
    by (rule current_unless_storing[OF I])
  note f = sealed_fields[OF dyn_invD(1,2)[OF I]]
  show ?thesis
  proof (cases c)
    case SecState
    then show ?thesis
      using again go[of "SecSlots (dstate q)"] dyn_unlocked(2)[OF I] f(5)
      by (cases "locked (dstate q)") (auto simp: section_step_def)
  next
    case (SecSlots st)
    then show ?thesis
      using go[of "SecCap st (dslots q)"] p(2) cur by (auto simp: section_step_def current_is_def)
  next
    case (SecCap st sl)
    then show ?thesis
      using go[of "SecStride st sl (dcapacity q)"] p(2) cur by (auto simp: section_step_def current_is_def)
  next
    case (SecStride st sl cap)
    then show ?thesis
      using go[of "SecValidate st sl cap (dstride q)"] p(2) cur by (auto simp: section_step_def current_is_def)
  next
    case (SecValidate st sl cap str)
    show ?thesis
    proof (cases "st = dstate q")
      case False
      then show ?thesis
        using SecValidate again by (simp add: section_step_def)
    next
      case True
      then have u: "\<not> locked (dstate q)"
        using p(2) SecValidate by (simp add: state_ok_def)
      note U = dyn_unlocked[OF I u]
      have v: "st = sealed hist" "sl = refSlots (last hist)" "cap = refCap (last hist)" "str = refStride (last hist)"
        using p(2) SecValidate True U(2,4) by simp_all
      let ?c = "after_section job (job_ticket job < refOffset (last hist)) (sealed hist) (refCap (last hist)) (lookup hist (job_ticket job))"
      have "section_step q job c = Done ?c"
        using maybe_update[OF I u, of "job_ticket job"] True by (simp add: section_step_def SecValidate v)
      moreover have "dyn_inv E c0 q hist (pcs(i := ?c))"
        using after_section_ok[OF I p(1)] U(1) by (intro dyn_inv_quiet[OF I same L]) simp_all
      ultimately show ?thesis
        by blast
    qed
  qed (use p(2) in simp_all)
qed

section \<open>Steps of an expansion\<close>

definition roomy :: "('ts, 'a) DynQueue \<Rightarrow> bool" where
  "roomy q \<longleftrightarrow> unat (dpushTicket q) + 1 < 2 ^ 58 \<and> unat (dpopTicket q) + 1 < 2 ^ 58"

lemma point_weaken:
  assumes "point_ok p d hist w c" "w \<Longrightarrow> w'"
  shows "point_ok p d hist w' c"
proof (cases c)
  case (DSection job sc)
  then show ?thesis
    using assms by (cases sc) auto
qed (use assms in auto)

lemma hist_inv_prefix:
  assumes "hist_inv E q c0 (hist @ [r])" "hist \<noteq> []"
  shows "hist_inv E q c0 hist"
proof -
  have "unat (refCap (hist ! k)) = min (c0 * unat (dmult q) ^ k) (unat (maxCapacity q))" if "k < length hist" for k
    using assms(1) that unfolding hist_inv_def by (metis length_append_singleton less_SucI nth_append)
  then show ?thesis
    using assms by (auto simp: hist_inv_def rising_def sorted_wrt_append nth_append)
qed

lemma others_unlocked:
  assumes "dyn_inv E c0 q hist pcs" "lock_pc (pcs i) \<noteq> None" "k \<noteq> i"
  shows "lock_pc (pcs k) = None"
  using dyn_invD(3)[OF assms(1)] assms(2,3) unfolding lock_inv_def by blast

lemma lock_inv_single:
  assumes "holder_ok E q c0 hist pcs st r c" "pcs i = DExpand job st r c" "lock_pc (pcs i) = Some c"
    "\<And>k. k \<noteq> i \<Longrightarrow> lock_pc (pcs k) = None"
  shows "lock_inv E q c0 hist pcs"
  unfolding lock_inv_def
proof (intro conjI allI impI)
  show "k = l" if "lock_pc (pcs k) \<noteq> None" "lock_pc (pcs l) \<noteq> None" for k l
    using that assms(4) by metis
  show "dstate q = sealed hist" "current_is q (last hist)" if "\<forall>k. lock_pc (pcs k) = None"
    using that assms(3) by simp_all
  show "holder_ok E q c0 hist pcs st' r' e" if "pcs k = DExpand job' st' r' e" "lock_pc (pcs k) \<noteq> None" for k job' st' r' e
  proof -
    have "k = i"
      by (rule ccontr) (use that(2) assms(4)[of k] in simp)
    with that(1) assms(1,2) show ?thesis
      by simp
  qed
qed

lemma storing_single:
  assumes "lock_pc (pcs i) = Some c" "\<And>k. k \<noteq> i \<Longrightarrow> lock_pc (pcs k) = None"
  shows "storing pcs = stores c"
proof
  show "stores c" if "storing pcs"
    using that assms unfolding storing_def by (metis option.distinct(1) option.inject)
  show "storing pcs" if "stores c"
    using that assms(1) by (auto simp: storing_def)
qed

text \<open>A step of the holder that keeps the lock.\<close>

lemma holder_moves:
  assumes I: "dyn_inv E c0 q hist pcs" and i: "pcs i = DExpand job st r c" "lock_pc (pcs i) = Some c"
    and c': "lock_pc (DExpand job st r c') = Some c'" "stores c \<Longrightarrow> stores c'"
    and q': "grows E q' c0" "hist_inv E q' c0 hist" "phase_ok E q' c0 hist c'" "dstate q' = dstate q" "maxCapacity q' = maxCapacity q"
      "dpushTicket q' = dpushTicket q" "dpopTicket q' = dpopTicket q"
    and F: "\<And>k b t r'. located (pcs k) = Some (b, t, r') \<Longrightarrow> unat t < expand_floor E q' c'"
  shows "dyn_inv E c0 q' hist (pcs(i := DExpand job st r c'))"
proof -
  let ?pcs = "pcs(i := DExpand job st r c')"
  have o: "k \<noteq> i \<Longrightarrow> lock_pc (pcs k) = None" for k
    using others_unlocked[OF I _, of i k] i(2) by simp
  have h: "holder_ok E q c0 hist pcs st r c"
    by (rule holderD[OF I i(2)]) (use i(1) in simp)
  have loc: "located (?pcs k) = located (pcs k)" for k
    using i(1) by simp
  have "holder_ok E q' c0 hist ?pcs st r c'"
    using h q'(3-5) F unfolding holder_ok_def loc by auto
  then have "lock_inv E q' c0 hist ?pcs"
    by (rule lock_inv_single) (use o c'(1) in simp_all)
  moreover have "storing ?pcs = stores c'" "storing pcs = stores c"
    by (rule storing_single[where i = i]; use o i(2) c'(1) in simp)+
  then have "point_ok (dpushTicket q) (dpopTicket q) hist (storing ?pcs) (?pcs k)" for k
    using point_weaken[OF dyn_invD(5)[OF I, of k], of "stores c'"] dyn_invD(5)[OF I, of i] c' i
    by (cases "k = i"; cases c') auto
  moreover have "place_ok (dpushTicket q) (dpopTicket q) hist (?pcs k)" for k
    using dyn_invD(4)[OF I, of k] unfolding place_ok_def loc .
  ultimately show ?thesis
    using q' by (simp add: dyn_inv_def)
qed

text \<open>Taking the lock.\<close>

lemma expand_acquire:
  assumes I: "dyn_inv E c0 q hist pcs" and i: "pcs i = DExpand job st r ExpandCas"
    and u: "dstate q = st" "refCap r \<noteq> maxCapacity q"
  shows "refCap r = dcapacity q" "dyn_inv E c0 (q\<lparr>dstate := st + 1\<rparr>) hist (pcs(i := DExpand job st r ExpandLoad))"
proof -
  let ?q = "q\<lparr>dstate := st + 1\<rparr>" and ?pcs = "pcs(i := DExpand job st r ExpandLoad)"
  have st: "state_ok hist st" "st = sealed hist \<Longrightarrow> r = last hist" "is_push job"
    using dyn_invD(5)[OF I, of i] i by simp_all
  then have "\<not> locked (dstate q)"
    using u(1) by (simp add: state_ok_def)
  note U = dyn_unlocked[OF I this]
  have s: "st = sealed hist" "r = last hist"
    using st u(1) U(2) by auto
  then show "refCap r = dcapacity q"
    using U(3) by (simp add: current_is_def)
  have loc: "located (?pcs k) = located (pcs k)" for k
    using i by simp
  have fl: "unat t < expand_floor E ?q ExpandLoad" if "located (pcs k) = Some (b, t, r')" for k b t r'
  proof -
    have "ticket_le (dpushTicket q) (dpopTicket q) b t"
      using dyn_invD(4)[OF I, of k] that by (auto simp: place_ok_def)
    then show ?thesis
      by (auto simp: ticket_le_def word_le_nat_alt split: if_splits)
  qed
  have "current_is ?q (last hist)"
    using U(3) by (simp add: current_is_def)
  then have "holder_ok E ?q c0 hist ?pcs st r ExpandLoad"
    using s u(2) fl unfolding holder_ok_def loc by auto
  then have "lock_inv E ?q c0 hist ?pcs"
    by (rule lock_inv_single[where i = i and job = job]) (use U(1) in simp_all)
  moreover have "\<not> storing ?pcs"
    using storing_single[of ?pcs i ExpandLoad] U(1) by simp
  then have "point_ok (dpushTicket q) (dpopTicket q) hist (storing ?pcs) (?pcs k)" for k
    using dyn_invD(5)[OF I, of k] st(3) U(4) by simp
  moreover have "place_ok (dpushTicket q) (dpopTicket q) hist (?pcs k)" for k
    using dyn_invD(4)[OF I, of k] unfolding place_ok_def loc .
  moreover have "grows E ?q c0" "hist_inv E ?q c0 hist"
    using dyn_invD(1,2)[OF I] by (simp_all add: grows_def hist_inv_def ref_ok_def)
  ultimately show "dyn_inv E c0 ?q hist ?pcs"
    by (simp add: dyn_inv_def)
qed

text \<open>Giving it back, with the history as it was or longer by one array.\<close>

lemma expand_leave:
  assumes I: "dyn_inv E c0 q hist pcs" and i: "pcs i = DExpand job st r c" "lock_pc (pcs i) = Some c"
    and c': "lock_pc c' = None" "place_ok (dpushTicket q) (dpopTicket q) hist' c'" "point_ok (dpushTicket q) (dpopTicket q) hist' False c'"
    and q': "grows E q' c0" "hist_inv E q' c0 hist'" "dstate q' = sealed hist'" "current_is q' (last hist')"
      "dpushTicket q' = dpushTicket q" "dpopTicket q' = dpopTicket q"
    and o: "\<And>k. k \<noteq> i \<Longrightarrow> place_ok (dpushTicket q) (dpopTicket q) hist' (pcs k) \<and>
      point_ok (dpushTicket q) (dpopTicket q) hist' False (pcs k)"
  shows "dyn_inv E c0 q' hist' (pcs(i := c'))"
proof -
  let ?pcs = "pcs(i := c')"
  have n: "lock_pc (?pcs k) = None" for k
    using others_unlocked[OF I _, of i k] i(2) c'(1) by simp
  have "lock_inv E q' c0 hist' ?pcs"
    using q'(3,4) unfolding lock_inv_def n by simp
  moreover have "\<not> storing ?pcs"
    unfolding storing_def n by simp
  then have "point_ok (dpushTicket q) (dpopTicket q) hist' (storing ?pcs) (?pcs k)" "place_ok (dpushTicket q) (dpopTicket q) hist' (?pcs k)" for k
    using o[of k] c' by simp_all
  ultimately show ?thesis
    using q' by (simp add: dyn_inv_def)
qed

lemma point_extend:
  assumes "point_ok p d hist w c" "lock_pc c = None" "getNumClosed (sealed (hist @ [r])) = length hist"
  shows "point_ok p d (hist @ [r]) False c"
proof -
  have st: "state_ok (hist @ [r]) st \<and> st \<noteq> sealed (hist @ [r])" if "state_ok hist st" for st
    using that assms(3) by (auto simp: state_ok_def)
  show ?thesis
  proof (cases c)
    case (DSection job sc)
    then show ?thesis
      using assms(1) st by (cases sc) auto
  next
    case (DExpand job s r' e)
    then show ?thesis
      using assms(1,2) st by (cases e) auto
  qed (use assms(1) st in auto)
qed

lemma place_extend:
  assumes "place_ok p d hist c" "\<And>b t r'. located c = Some (b, t, r') \<Longrightarrow> unat t < unat (refOffset r)"
  shows "place_ok p d (hist @ [r]) c"
  using assms unfolding place_ok_def lookup_snoc by (metis linorder_not_le word_le_nat_alt)

lemma next_capacity:
  assumes G: "grows E q c0" and H: "hist_inv E q c0 hist" and m: "refCap (last hist) \<noteq> maxCapacity q"
  defines "n \<equiv> min (dmult q * refCap (last hist)) (maxCapacity q)"
  shows "length hist - 1 < length (closed q)" "unat n = min (c0 * unat (dmult q) ^ length hist) (unat (maxCapacity q))"
    "refCap (last hist) < n" "n \<le> maxCapacity q"
proof -
  let ?m = "unat (dmult q)" and ?M = "unat (maxCapacity q)" and ?K = "length hist - 1"
  have h: "hist \<noteq> []" "last hist = hist ! ?K" "?K < length hist" "Suc ?K = length hist"
    using H by (auto simp: hist_inv_def rising_def last_conv_nth)
  have c: "unat (refCap (last hist)) = min (c0 * ?m ^ ?K) ?M"
    using H h by (simp add: hist_inv_def)
  have "refCap (last hist) \<le> maxCapacity q"
    using H h by (simp add: hist_inv_def ref_ok_def)
  then have less: "unat (refCap (last hist)) < ?M"
    using m by (metis le_neq_implies_less word_le_nat_alt word_unat_eq_iff)
  then have c2: "unat (refCap (last hist)) = c0 * ?m ^ ?K" "c0 * ?m ^ ?K < ?M"
    using c by simp_all
  then show "length hist - 1 < length (closed q)"
    using G unfolding grows_def by blast
  have le: "?m * unat (refCap (last hist)) \<le> ?m * ?M"
    using less by simp
  moreover have "?m * ?M < 2 ^ 64"
    using G by (simp add: grows_def)
  ultimately have "?m * unat (refCap (last hist)) < 2 ^ 64"
    by (rule le_less_trans)
  then have "unat (dmult q * refCap (last hist)) = ?m * unat (refCap (last hist))"
    by (simp add: unat_word_ariths)
  then have n: "unat n = min (?m * unat (refCap (last hist))) ?M"
    by (simp add: n_def min_def word_le_nat_alt)
  moreover have "?m * unat (refCap (last hist)) = c0 * ?m ^ length hist"
    using c2(1) h(4) by (metis mult.left_commute power_Suc)
  ultimately show "unat n = min (c0 * ?m ^ length hist) ?M"
    by simp
  have pos: "0 < unat (refCap (last hist))"
    using H h(1) last_in_set[OF h(1)] unfolding hist_inv_def ref_ok_def word_less_nat_alt by fastforce
  have "2 \<le> ?m"
    using G by (simp add: grows_def)
  then have "2 * unat (refCap (last hist)) \<le> ?m * unat (refCap (last hist))"
    by (rule mult_le_mono1)
  then have "unat (refCap (last hist)) < ?m * unat (refCap (last hist))"
    using pos by linarith
  then show "refCap (last hist) < n"
    using less by (simp add: word_less_nat_alt n)
  show "n \<le> maxCapacity q"
    by (simp add: n_def)
qed

lemma alloc_hist:
  assumes G: "grows E q c0" and H: "hist_inv E q c0 hist" and m: "refCap (last hist) \<noteq> maxCapacity q"
    and cur: "current_is q (last hist)" and t: "refOffset (last hist) < t" "unat t < 2 ^ 58"
  defines "n \<equiv> min (dmult q * refCap (last hist)) (maxCapacity q)"
  defines "q' \<equiv> q\<lparr>arrays := arrays q @ [newArray E n],
     closed := (closed q)[length hist - 1 := \<lparr>clOffset = refOffset (last hist), clSlots = dslots q,
       clCapacity = refCap (last hist), clStride = dstride q\<rparr>]\<rparr>"
  shows "hist_inv E q' c0 (hist @ [newRef t (length (arrays q)) n])"
proof -
  let ?r = "newRef t (length (arrays q)) n"
  note nc = next_capacity[OF G H m, folded n_def]
  have h: "hist \<noteq> []" "rising hist" "last hist = hist ! (length hist - 1)"
    using H by (auto simp: hist_inv_def rising_def last_conv_nth)
  have old: "ref_ok E q' r" if "r \<in> set hist" for r
    using H that by (auto simp: hist_inv_def ref_ok_def q'_def nth_append)
  have "unat n \<le> unat (maxCapacity q)"
    using nc(4) by (simp add: word_le_nat_alt)
  then have "unat (n + 2 * slotPadding (fixedEnv E)) = unat n + 2 * unat (slotPadding (fixedEnv E))"
    using G by (simp add: grows_def unat_word_ariths)
  moreover have "0 < n"
    using nc(3) by (metis le_less_trans word_zero_le)
  ultimately have new: "ref_ok E q' ?r"
    using nc(4) t(2) by (simp add: ref_ok_def newRef_def q'_def newArray_def)
  have fresh: "length (arrays q) \<notin> refSlots ` set hist"
    using H by (auto simp: hist_inv_def ref_ok_def)
  have "closedRef (closed q' ! k) = (hist @ [?r]) ! k" if "k < length hist" for k
  proof (cases "k = length hist - 1")
    case True
    then show ?thesis
      using nc(1) cur that h(3) by (simp add: q'_def closedRef_def current_is_def nth_append)
  next
    case False
    then show ?thesis
      using H that by (simp add: q'_def hist_inv_def nth_append)
  qed
  moreover have "unat (refCap ((hist @ [?r]) ! k)) = min (c0 * unat (dmult q) ^ k) (unat (maxCapacity q))" if "k < Suc (length hist)" for k
    using H that nc(2) by (cases "k = length hist") (auto simp: hist_inv_def nth_append newRef_def)
  moreover have "rising (hist @ [?r])"
    using rising_snoc[OF h(2), of ?r] t(1) nc(3) by (simp add: newRef_def)
  ultimately show ?thesis
    using H old new fresh nc(1) by (auto simp: hist_inv_def newRef_def q'_def)
qed

text \<open>The history after the next step of a thread: the last store of an expansion adds the new array.\<close>

fun grown :: "arrayRef list \<Rightarrow> 'a dpc \<Rightarrow> arrayRef list" where
  "grown hist (DExpand job st r (ExpandRelease t sl n)) = hist @ [newRef t sl n]"
| "grown hist _ = hist"

lemma grown_unlocked: "lock_pc c = None \<Longrightarrow> grown hist c = hist"
  by (cases "(hist, c)" rule: grown.cases) auto

text \<open>One lemma for each kind of step; \<open>goes\<close> says that the step of thread \<open>i\<close> has a result that keeps the invariant.\<close>

definition goes :: "'ts dyn_env \<Rightarrow> nat \<Rightarrow> arrayRef list \<Rightarrow> (nat \<Rightarrow> 'a dpc) \<Rightarrow> nat \<Rightarrow> (('ts, 'a) DynQueue \<times> 'a dpc) outcome \<Rightarrow> bool" where
  "goes E c0 hist pcs i out \<longleftrightarrow> (\<exists>q' c'. out = Done (q', c') \<and> dyn_inv E c0 q' (grown hist (pcs i)) (pcs(i := c')))"

lemma goesI:
  "out = Done (q', c') \<Longrightarrow> grown hist (pcs i) = hist \<Longrightarrow> dyn_inv E c0 q' hist (pcs(i := c')) \<Longrightarrow> goes E c0 hist pcs i out"
  unfolding goes_def by simp

lemma own_ticket:
  assumes "dyn_inv E c0 q hist pcs" "located (pcs i) = Some (b, t, r)"
  shows "r = lookup hist t" "ticket_le (dpushTicket q) (dpopTicket q) b t"
  using place_okD[OF dyn_invD(4)[OF assms(1)] assms(2)] by simp_all

lemma holder_facts:
  assumes I: "dyn_inv E c0 q hist pcs" and i: "pcs i = DExpand job st r c" "lock_pc (pcs i) = Some c"
  shows "st = sealed hist" "r = last hist" "refCap r \<noteq> maxCapacity q" "phase_ok E q c0 hist c"
    "located (pcs k) = Some (b, t, r') \<Longrightarrow> unat t < expand_floor E q c"
    "refOffset (last hist) \<le> job_ticket job" "unat (job_ticket job) < expand_floor E q c"
proof -
  have h: "holder_ok E q c0 hist pcs st r c"
    by (rule holderD[OF I i(2)]) (use i in simp)
  then show "st = sealed hist" "r = last hist" "refCap r \<noteq> maxCapacity q" "phase_ok E q c0 hist c"
    unfolding holder_ok_def by blast+
  have F: "unat t < expand_floor E q c" if "located (pcs k) = Some (b, t, r')" for k b t r'
    using h that unfolding holder_ok_def by blast
  then show "located (pcs k) = Some (b, t, r') \<Longrightarrow> unat t < expand_floor E q c"
    by blast
  have own: "located (pcs i) = Some (is_push job, job_ticket job, r)"
    by (simp add: i)
  from own_ticket(1)[OF I own] show "refOffset (last hist) \<le> job_ticket job"
    using lookup_mem(2)[of hist "job_ticket job"] dyn_invD(2)[OF I] \<open>r = last hist\<close> by (simp add: hist_inv_def)
  show "unat (job_ticket job) < expand_floor E q c"
    by (rule F[OF own])
qed

lemma expand_enter:
  assumes I: "dyn_inv E c0 q hist pcs" and i: "pcs i = DExpand job st r ExpandCas"
  shows "goes E c0 hist pcs i (dstep E deadline alloc q (pcs i))"
proof -
  have L: "lock_pc (pcs i) = None"
    by (simp add: i)
  have loc: "located (pcs i) = Some (is_push job, job_ticket job, r)"
    by (simp add: i)
  note t = own_ticket[OF I loc]
  have "state_ok hist st"
    using dyn_invD(5)[OF I, of i] i by simp
  then have "\<not> locked st"
    by (simp add: state_ok_def)
  moreover have same: "same_arrays q q"
    by (simp add: same_arrays_def)
  have "dyn_inv E c0 q hist (pcs(i := give_up job r))"
  proof (intro dyn_inv_quiet[OF I same L])
    show "(\<exists>r'. located (pcs i) = Some (b, x, r')) \<or> (\<forall>k. lock_pc (pcs k) = None)" if "located (give_up job r) = Some (b, x, r')" for b x r'
      using give_up_ok(3)[OF that] i by simp
  qed (rule give_up_ok give_up_place[OF t])+
  moreover have "dyn_inv E c0 q hist (pcs(i := restart job))"
    using restart_ok[OF t(2)] by (intro dyn_inv_quiet[OF I same L]) simp_all
  moreover note expand_acquire[OF I i]
  ultimately show ?thesis
    by (cases "refCap r = maxCapacity q"; cases "dstate q = st") (auto simp: i intro!: goesI)
qed

lemma expand_moves:
  assumes I: "dyn_inv E c0 q hist pcs" and i: "pcs i = DExpand job st r c" "lock_pc (pcs i) = Some c"
    and T: "tryExpand E alloc q st (refCap r) c = Done (q', c')" "lock_pc (DExpand job st r c') = Some c'" "stores c \<Longrightarrow> stores c'"
    and q': "grows E q' c0" "hist_inv E q' c0 hist" "phase_ok E q' c0 hist c'" "dstate q' = dstate q" "maxCapacity q' = maxCapacity q"
      "dpushTicket q' = dpushTicket q" "dpopTicket q' = dpopTicket q"
    and F: "c' = ExpandRestore \<or> expand_floor E q c \<le> expand_floor E q' c'"
  shows "goes E c0 hist pcs i (dstep E deadline alloc q (pcs i))"
proof -
  have fl: "unat t < expand_floor E q' c'" if "located (pcs k) = Some (b, t, r')" for k b t r'
  proof (cases "c' = ExpandRestore")
    case True
    then show ?thesis
      using own_ticket(2)[OF I that] q' by (auto simp: ticket_le_def word_le_nat_alt split: if_splits)
  next
    case False
    then show ?thesis
      using holder_facts(5)[OF I i that] F by simp
  qed
  have "dyn_inv E c0 q' hist (pcs(i := DExpand job st r c'))"
    by (rule holder_moves[OF I i T(2,3) q' fl])
  moreover have "after_expand job st r c' = DExpand job st r c'"
    using T(2) by (cases c') auto
  moreover have "grown hist (pcs i) = hist"
    using T(1,2) by (cases c) (auto simp: i)
  ultimately show ?thesis
    using T(1) i by (intro goesI) simp_all
qed

lemma expand_offset:
  assumes I: "dyn_inv E c0 q hist pcs" and R: "roomy q" and i: "pcs i = DExpand job st r (ExpandLoad2 x)"
  shows "goes E c0 hist pcs i (dstep E deadline alloc q (pcs i))"
proof -
  let ?y = "if pushFirst E then dpopTicket q else dpushTicket q"
  have lk: "lock_pc (pcs i) = Some (ExpandLoad2 x)"
    by (simp add: i)
  note h = holder_facts(1-4)[OF I i lk]
  have x: "unat x < 2 ^ 58 - 1"
    using h(4) R by (auto simp: roomy_def word_le_nat_alt split: if_splits)
  have m: "unat (max x ?y) = max (unat x) (unat ?y)"
    by (simp add: max_def word_le_nat_alt)
  have "unat ?y < 2 ^ 58 - 1"
    using R by (auto simp: roomy_def)
  with x m have u2: "unat (max x ?y) < 2 ^ 58 - 1"
    by (simp only: max_less_iff_conj)
  then have u: "unat (max x ?y + 1) = unat (max x ?y) + 1"
    by (intro unat_add_one) simp
  show ?thesis
    using h dyn_invD(1,2)[OF I] m u u2
    by (intro expand_moves[OF I i lk, where q' = q and c' = "ExpandAlloc (max x ?y + 1)"]) (simp_all add: add.commute)
qed

lemma expand_alloc:
  assumes I: "dyn_inv E c0 q hist pcs" and i: "pcs i = DExpand job st r (ExpandAlloc t)"
  shows "goes E c0 hist pcs i (dstep E deadline alloc q (pcs i))"
proof -
  have lk: "lock_pc (pcs i) = Some (ExpandAlloc t)"
    by (simp add: i)
  note h = holder_facts[OF I i lk] and GH = dyn_invD(1,2)[OF I]
  note f = sealed_fields[OF GH]
  show ?thesis
  proof (cases alloc)
    case False
    then show ?thesis
      using h GH by (intro expand_moves[OF I i lk, where q' = q and c' = ExpandRestore]) simp_all
  next
    case True
    let ?n = "min (dmult q * refCap r) (maxCapacity q)"
    let ?q = "q\<lparr>arrays := arrays q @ [newArray E ?n], closed := (closed q)[length hist - 1 :=
       \<lparr>clOffset = refOffset (last hist), clSlots = dslots q, clCapacity = refCap r, clStride = dstride q\<rparr>]\<rparr>"
    have t: "refOffset (last hist) < t" "unat t < 2 ^ 58" "current_is q (last hist)"
      using h(4,6,7) by (auto simp: word_less_nat_alt word_le_nat_alt)
    have H: "hist_inv E ?q c0 (hist @ [newRef t (length (arrays q)) ?n])"
      using alloc_hist[OF GH _ t(3,1,2)] h(2,3) by simp
    note nc = next_capacity[OF GH, folded h(2), OF h(3)]
    have "2 * (length hist - 1) < 2 ^ kSeqlockBits"
      using nc(1) GH(1) by (simp add: kSeqlockBits_def grows_def)
    then have T: "tryExpand E alloc q st (refCap r) (ExpandAlloc t) = Done (?q, ExpandSlots t (length (arrays q)) ?n)"
      using nc(1) True f(1,2) h(1) by (simp add: Let_def)
    show ?thesis
    proof (rule expand_moves[OF I i lk T])
      show "hist_inv E ?q c0 hist"
        using hist_inv_prefix[OF H] GH(2) by (simp add: hist_inv_def rising_def)
      show "phase_ok E ?q c0 hist (ExpandSlots t (length (arrays q)) ?n)"
        using H t(3) by (simp add: new_ok_def current_is_def)
    qed (use GH(1) in \<open>simp_all add: grows_def\<close>)
  qed
qed

lemma expand_restore:
  assumes I: "dyn_inv E c0 q hist pcs" and i: "pcs i = DExpand job st r ExpandRestore"
  shows "goes E c0 hist pcs i (dstep E deadline alloc q (pcs i))"
proof -
  let ?q = "q\<lparr>dstate := st\<rparr>"
  have lk: "lock_pc (pcs i) = Some ExpandRestore"
    by (simp add: i)
  note h = holder_facts(1-4)[OF I i lk] and GH = dyn_invD(1,2)[OF I]
  have "\<not> storing pcs"
    using storing_single[where pcs = pcs and i = i and c = ExpandRestore] others_unlocked[OF I, of i] lk by simp
  then have o: "place_ok (dpushTicket q) (dpopTicket q) hist (pcs k) \<and> point_ok (dpushTicket q) (dpopTicket q) hist False (pcs k)" for k
    using dyn_invD(4,5)[OF I, of k] by simp
  have "dyn_inv E c0 ?q hist (pcs(i := give_up job r))"
  proof (rule expand_leave[OF I i lk])
    show "place_ok (dpushTicket q) (dpopTicket q) hist (give_up job r)"
      using own_ticket[OF I, of i "is_push job" "job_ticket job" r] i by (intro give_up_place) simp_all
  qed (use o h GH give_up_ok in \<open>simp_all add: hist_inv_def ref_ok_def grows_def current_is_def\<close>)
  then show ?thesis
    by (rule goesI[rotated 2]) (simp_all add: i)
qed

lemma expand_release:
  assumes I: "dyn_inv E c0 q hist pcs" and i: "pcs i = DExpand job st r (ExpandRelease t sl n)"
  shows "goes E c0 hist pcs i (dstep E deadline alloc q (pcs i))"
proof -
  let ?r = "newRef t sl n" and ?q = "q\<lparr>dstate := push_bit kSeqlockBits t + of_nat (2 * (getNumClosed st + 1))\<rparr>"
  have lk: "lock_pc (pcs i) = Some (ExpandRelease t sl n)"
    by (simp add: i)
  note h = holder_facts[OF I i lk] and GH = dyn_invD(1,2)[OF I]
  have H: "hist_inv E q c0 (hist @ [?r])" "current_is q ?r"
    using h(4) by (simp_all add: new_ok_def)
  have n: "hist \<noteq> []"
    using GH(2) by (simp add: hist_inv_def rising_def)
  have s: "dstate ?q = sealed (hist @ [?r])"
    using sealed_fields(2)[OF GH] h(1) n by (simp add: sealed_def pack_def newRef_def)
  have g: "getNumClosed (sealed (hist @ [?r])) = length hist"
    using sealed_fields(2)[OF GH(1) H(1)] by simp
  have o: "place_ok (dpushTicket q) (dpopTicket q) (hist @ [?r]) (pcs k) \<and>
      point_ok (dpushTicket q) (dpopTicket q) (hist @ [?r]) False (pcs k)" if "k \<noteq> i" for k
  proof
    show "place_ok (dpushTicket q) (dpopTicket q) (hist @ [?r]) (pcs k)"
      using h(5)[of k] by (intro place_extend[OF dyn_invD(4)[OF I, of k]]) (simp add: newRef_def)
    show "point_ok (dpushTicket q) (dpopTicket q) (hist @ [?r]) False (pcs k)"
      using others_unlocked[OF I, of i k] lk that by (intro point_extend[OF dyn_invD(5)[OF I, of k] _ g]) simp
  qed
  have t: "ticket_le (dpushTicket q) (dpopTicket q) (is_push job) (job_ticket job)"
    by (rule own_ticket(2)[OF I, of i]) (simp add: i)
  have q': "hist_inv E ?q c0 (hist @ [?r])" "grows E ?q c0" "current_is ?q ?r"
    using H GH(1) by (simp_all add: hist_inv_def ref_ok_def grows_def current_is_def)
  have "dyn_inv E c0 ?q (hist @ [?r]) (pcs(i := restart job))"
    by (rule expand_leave[OF I i lk restart_ok(4)[OF t] restart_ok(1,2)[OF t] q'(2,1) s _ _ _ o]) (use q'(3) in simp_all)
  then show ?thesis
    unfolding goes_def by (intro exI[of _ ?q] exI[of _ "restart job"]) (simp add: i)
qed

lemma expand_goes:
  assumes I: "dyn_inv E c0 q hist pcs" and R: "roomy q" and i: "pcs i = DExpand job st r c"
  shows "goes E c0 hist pcs i (dstep E deadline alloc q (pcs i))"
proof -
  note GH = dyn_invD(1,2)[OF I]
  have h: "phase_ok E q c0 hist c" if "lock_pc (pcs i) = Some c"
    by (rule holder_facts(4)[OF I i that])
  note simps = new_ok_def hist_inv_def ref_ok_def grows_def current_is_def newRef_def
  show ?thesis
  proof (cases c)
    case ExpandLoad
    then show ?thesis
      using h GH i by (cases "pushFirst E"; intro expand_moves[OF I i, where q' = q]) auto
  next
    case (ExpandSlots t sl n)
    then show ?thesis
      using h GH i by (intro expand_moves[OF I i, where q' = "q\<lparr>dslots := sl\<rparr>" and c' = "ExpandCapacity t sl n"]) (simp_all add: simps)
  next
    case (ExpandCapacity t sl n)
    then show ?thesis
      using h GH i by (intro expand_moves[OF I i, where q' = "q\<lparr>dcapacity := n\<rparr>" and c' = "ExpandStride t sl n"]) (simp_all add: simps)
  next
    case (ExpandStride t sl n)
    then show ?thesis
      using h GH i by (intro expand_moves[OF I i, where q' = "q\<lparr>dstride := computeStride n\<rparr>" and c' = "ExpandRelease t sl n"])
        (simp_all add: simps)
  next
    case (ExpandReturn b)
    then have False
      using dyn_invD(5)[OF I, of i] i by auto
    then show ?thesis ..
  qed (use expand_enter[OF I] expand_offset[OF I R] expand_alloc[OF I] expand_restore[OF I] expand_release[OF I] i in auto)
qed

section \<open>Cells and counters\<close>

lemma base_lengths:
  "enqueueWithTicketBase B a t v c = Done (a', c') \<Longrightarrow> length (slots a') = length (slots a)"
  "dequeueWithTicketBase B a t d = Done (a', d') \<Longrightarrow> length (slots a') = length (slots a)"
  "waitForPushTurnUntil B dl a t = Done (ok, a') \<Longrightarrow> length (slots a') = length (slots a)"
  "waitForPopTurnUntil B dl a t = Done (ok, a') \<Longrightarrow> length (slots a') = length (slots a)"
proof -
  show "length (slots a') = length (slots a)" if "enqueueWithTicketBase B a t v c = Done (a', c')"
    using that by (cases c) (auto simp: with_slot_def bind_outcome_Done_iff split: if_splits)
  show "length (slots a') = length (slots a)" if "dequeueWithTicketBase B a t d = Done (a', d')"
    using that by (cases d) (auto simp: with_slot_def bind_outcome_Done_iff split: if_splits)
  show "length (slots a') = length (slots a)" if "waitForPushTurnUntil B dl a t = Done (ok, a')"
    using that by (auto simp: waitForPushTurnUntil_def with_slot_def bind_outcome_Done_iff split: if_splits)
  show "length (slots a') = length (slots a)" if "waitForPopTurnUntil B dl a t = Done (ok, a')"
    using that by (auto simp: waitForPopTurnUntil_def with_slot_def bind_outcome_Done_iff split: if_splits)
qed

lemma put_view_same:
  assumes "refSlots r < length (arrays q)" "length (slots a') = length (slots (array_view q r))"
  shows "same_arrays q (put_view q r a')"
proof -
  have "map length ((arrays q)[refSlots r := slots a']) = map length (arrays q)"
    using assms by (simp add: map_update array_view_def list_update_same_conv)
  then show ?thesis
    by (simp add: same_arrays_def put_view_def)
qed

text \<open>Steps of a thread that does not hold the lock and keeps its ticket, if it has one.\<close>

lemma quiet_goes:
  assumes I: "dyn_inv E c0 q hist pcs" and out: "out = Done (q', c')" and S: "same_arrays q q'"
    and L: "lock_pc (pcs i) = None" "lock_pc c' = None"
    and C: "point_ok (dpushTicket q') (dpopTicket q') hist (storing pcs) c'"
    and N: "located c' = None \<or> located c' = located (pcs i)"
  shows "goes E c0 hist pcs i out"
proof (rule goesI[OF out grown_unlocked[OF L(1)] dyn_inv_quiet[OF I S L _ C]])
  have "place_ok (dpushTicket q') (dpopTicket q') hist (pcs i)"
    using place_mono[OF dyn_invD(4)[OF I, of i]] S by (simp add: same_arrays_def)
  then show "place_ok (dpushTicket q') (dpopTicket q') hist c'"
    using N by (auto simp: place_ok_def)
  show "(\<exists>r'. located (pcs i) = Some (b, t, r')) \<or> (\<forall>k. lock_pc (pcs k) = None)" if "located c' = Some (b, t, r)" for b t r
    using N that by (metis option.distinct(1))
qed

lemma same_push: "roomy q \<Longrightarrow> same_arrays q (q\<lparr>dpushTicket := dpushTicket q + 1\<rparr>)"
  and same_pop: "roomy q \<Longrightarrow> same_arrays q (q\<lparr>dpopTicket := dpopTicket q + 1\<rparr>)"
  using unat_add_one[of "dpushTicket q"] unat_add_one[of "dpopTicket q"]
  by (simp_all add: same_arrays_def roomy_def word_le_nat_alt)

lemma same_refl: "same_arrays q q"
  by (simp add: same_arrays_def)

text \<open>An array is a well-formed queue of its own, and the ticket of a thread finds its cell there.\<close>

lemma array_wf:
  assumes "grows E q c0" "ref_ok E q r"
  shows "wf_queue (fixedEnv E) (array_view q r)"
proof -
  have "unat (refCap r) \<le> unat (maxCapacity q)" "refCap r \<noteq> 0"
    using assms(2) by (auto simp: ref_ok_def word_le_nat_alt)
  then show ?thesis
    using assms by (simp add: wf_queue_def array_view_def grows_def ref_ok_def)
qed

lemma located_cell:
  assumes I: "dyn_inv E c0 q hist pcs" and R: "roomy q" and l: "located (pcs i) = Some (b, t, r)"
  shows "r \<in> set hist" "ref_ok E q r" "refOffset r \<le> t" "unat (t - refOffset r) = unat t - unat (refOffset r)"
    "unat (t - refOffset r) < ticketRoom" "wf_queue (fixedEnv E) (array_view q r)" "refSlots r < length (arrays q)"
proof -
  note o = own_ticket[OF I l]
  have h: "rising hist" "\<forall>r\<in>set hist. ref_ok E q r"
    using dyn_invD(2)[OF I] by (simp_all add: hist_inv_def)
  show m: "r \<in> set hist" "refOffset r \<le> t"
    using lookup_mem[OF h(1), of t] o(1) by simp_all
  then show r: "ref_ok E q r"
    using h(2) by blast
  show u: "unat (t - refOffset r) = unat t - unat (refOffset r)"
    using m(2) by (rule unat_sub_le)
  have "unat t < 2 ^ 58"
    using o(2) R by (auto simp: ticket_le_def roomy_def word_le_nat_alt split: if_splits)
  then show "unat (t - refOffset r) < ticketRoom"
    unfolding u ticketRoom_def by linarith
  show "wf_queue (fixedEnv E) (array_view q r)"
    by (rule array_wf[OF dyn_invD(1)[OF I] r])
  show "refSlots r < length (arrays q)"
    using r by (simp add: ref_ok_def)
qed

section \<open>Every step\<close>

lemma check_goes:
  assumes I: "dyn_inv E c0 q hist pcs" and R: "roomy q" and i: "pcs i = DCheck job st r"
  shows "goes E c0 hist pcs i (dstep E deadline alloc q (pcs i))"
proof -
  have loc: "located (pcs i) = Some (is_push job, job_ticket job, r)"
    by (simp add: i)
  note c = located_cell[OF I R loc]
  obtain may where "slot_check E q r (job_ticket job) (is_push job) = Done may"
    using c(7) by (simp add: slot_check_def with_slot_room[OF c(6,5)])
  then have "dstep E deadline alloc q (pcs i) = Done (q, after_check job st r may)"
    by (simp add: i)
  then show ?thesis
  proof (rule quiet_goes[OF I _ same_refl])
    show "located (after_check job st r may) = None \<or> located (after_check job st r may) = located (pcs i)"
      "lock_pc (after_check job st r may) = None"
      by (cases job; simp add: i)+
    show "point_ok (dpushTicket q) (dpopTicket q) hist (storing pcs) (after_check job st r may)"
      using dyn_invD(5)[OF I, of i] i by (cases job) simp_all
  qed (simp add: i)
qed

lemma load_goes:
  assumes I: "dyn_inv E c0 q hist pcs" and R: "roomy q" and i: "pcs i = DLoad job st r"
  shows "goes E c0 hist pcs i (dstep E deadline alloc q (pcs i))"
proof -
  have loc: "located (pcs i) = Some (is_push job, job_ticket job, r)"
    by (simp add: i)
  note c = located_cell[OF I R loc] and o = own_ticket[OF I loc]
  have p: "is_push job" "state_ok hist st" "is_write job \<Longrightarrow> st = sealed hist \<Longrightarrow> r = last hist"
    using dyn_invD(5)[OF I, of i] i by auto
  have "r = last hist" if "refOffset r = getOffset st" "st = sealed hist"
    using that rising_inj[of hist r "last hist"] c(1) sealed_fields(1)[OF dyn_invD(1,2)[OF I]] dyn_invD(2)[OF I]
    by (simp add: hist_inv_def rising_def)
  then have e: "goes E c0 hist pcs i (Done (q, DExpand job st r ExpandCas))" if "refOffset r = getOffset st \<or> is_write job"
    using p that i by (intro quiet_goes[OF I refl same_refl]) auto
  have again: "goes E c0 hist pcs i (Done (q, restart job))"
    using restart_ok[OF o(2)] i by (intro quiet_goes[OF I refl same_refl]) simp_all
  have giveup: "goes E c0 hist pcs i (Done (q, give_up job r))"
  proof (rule quiet_goes[OF I refl same_refl])
    show "located (give_up job r) = None \<or> located (give_up job r) = located (pcs i)"
      using give_up_ok(3)[of job r] i by (cases "located (give_up job r)") auto
  qed (simp_all add: i give_up_ok)
  show ?thesis
    using e again giveup i by (cases job) auto
qed

lemma cas_goes:
  assumes I: "dyn_inv E c0 q hist pcs" and R: "roomy q" and i: "pcs i = DCas job r"
  shows "goes E c0 hist pcs i (dstep E deadline alloc q (pcs i))"
proof -
  have loc: "located (pcs i) = Some (is_push job, job_ticket job, r)"
    by (simp add: i)
  note o = own_ticket[OF I loc]
  have again: "goes E c0 hist pcs i (Done (q, restart job))"
    using restart_ok[OF o(2)] i by (intro quiet_goes[OF I refl same_refl]) simp_all
  have enq: "goes E c0 hist pcs i (Done (q', DEnqueue t r EnqWaitTurn v))" if "is_push job" "job_ticket job = t" "same_arrays q q'" for q' t v
    using that i by (intro quiet_goes[OF I refl]) simp_all
  have deq: "goes E c0 hist pcs i (Done (q', DDequeue b t r DeqWaitTurn))" if "\<not> is_push job" "job_ticket job = t" "same_arrays q q'" for q' b t
    using that i by (intro quiet_goes[OF I refl]) simp_all
  show ?thesis
    using again enq deq same_push[OF R] same_pop[OF R] same_refl[of q] i by (cases job) auto
qed

text \<open>Points before the read section.\<close>

fun starting :: "'a dpc \<Rightarrow> bool" where
  "starting (DWriteStart v) = True"
| "starting DReadStart = True"
| "starting (DReadyPushLoad v) = True"
| "starting (DPromPushLoad b v) = True"
| "starting (DPromPushPops b t v) = True"
| "starting DReadyPopLoad = True"
| "starting (DPromPopLoad b) = True"
| "starting (DPromPopPushes b t) = True"
| "starting _ = False"

lemma start_goes:
  assumes I: "dyn_inv E c0 q hist pcs" and R: "roomy q" and i: "starting (pcs i)"
  shows "goes E c0 hist pcs i (dstep E deadline alloc q (pcs i))"
proof -
  have le: "dpushTicket q \<le> dpushTicket q + 1" "dpopTicket q \<le> dpopTicket q + 1"
    using same_push[OF R] same_pop[OF R] by (simp_all add: same_arrays_def)
  have go: "goes E c0 hist pcs i (Done (q', c'))"
    if "same_arrays q q'" "located c' = None" "lock_pc c' = None" "point_ok (dpushTicket q') (dpopTicket q') hist (storing pcs) c'" for q' c'
    using that i by (intro quiet_goes[OF I refl]) (cases "pcs i"; simp)+
  from i show ?thesis
    using dyn_invD(5)[OF I, of i] le
    by (cases "pcs i") (auto intro!: go same_push[OF R] same_pop[OF R] same_refl simp: ticket_le_def)
qed

lemma in_array_Done:
  assumes "in_array q r f = Done (q', x)"
  obtains a' where "f (array_view q r) = Done (a', x)" "q' = put_view q r a'" "refSlots r < length (arrays q)"
  using assms that by (auto simp: in_array_def bind_outcome_Done_iff split: if_splits)

lemma cell_goes:
  assumes I: "dyn_inv E c0 q hist pcs"
    and i: "(\<exists>t r v. pcs i = DWaitPush t r v) \<or> (\<exists>t r. pcs i = DWaitPop t r) \<or> (\<exists>t r c v. pcs i = DEnqueue t r c v) \<or>
      (\<exists>b t r c. pcs i = DDequeue b t r c)"
    and out: "dstep E deadline alloc q (pcs i) = Done (q', c')"
  shows "goes E c0 hist pcs i (Done (q', c'))"
proof -
  have go: "goes E c0 hist pcs i (Done (put_view q r a', c'))"
    if "refSlots r < length (arrays q)" "length (slots a') = length (slots (array_view q r))" "lock_pc c' = None"
      "\<And>p d w. point_ok p d hist w c'" "located c' = None \<or> located c' = located (pcs i)" for r a' c'
    using that i by (intro quiet_goes[OF I refl put_view_same[OF that(1,2)]]) auto
  from i consider (wpush) t r v where "pcs i = DWaitPush t r v" | (wpop) t r where "pcs i = DWaitPop t r"
    | (enq) t r c v where "pcs i = DEnqueue t r c v" | (deq) b t r c where "pcs i = DDequeue b t r c"
    by blast
  then show ?thesis
  proof cases
    case wpush
    with out show ?thesis
      by (auto elim!: in_array_Done simp: bind_outcome_Done_iff base_lengths intro!: go)
  next
    case wpop
    with out show ?thesis
      by (auto elim!: in_array_Done simp: bind_outcome_Done_iff base_lengths intro!: go)
  next
    case (enq t r c v)
    then obtain a' x where a: "refSlots r < length (arrays q)" "q' = put_view q r a'" "c' = after_denqueue t r v x"
      "length (slots a') = length (slots (array_view q r))"
      using out by (auto elim!: in_array_Done simp: bind_outcome_Done_iff base_lengths)
    show ?thesis
      unfolding a(2,3) using a(1,4) enq by (cases x) (auto intro!: go)
  next
    case (deq b t r c)
    then obtain a' x where a: "refSlots r < length (arrays q)" "q' = put_view q r a'" "c' = after_ddequeue b t r x"
      "length (slots a') = length (slots (array_view q r))"
      using out by (auto elim!: in_array_Done simp: bind_outcome_Done_iff base_lengths)
    show ?thesis
      unfolding a(2,3) using a(1,4) deq by (cases x) (auto intro!: go)
  qed
qed

text \<open>Only inside a cell can a step be undefined or wait.\<close>

fun at_cell :: "'a dpc \<Rightarrow> bool" where
  "at_cell (DWaitPush t r v) = True"
| "at_cell (DWaitPop t r) = True"
| "at_cell (DEnqueue t r c v) = True"
| "at_cell (DDequeue b t r c) = True"
| "at_cell _ = False"

lemma free_goes:
  assumes I: "dyn_inv E c0 q hist pcs" and R: "roomy q" and c: "\<not> at_cell (pcs i)" "dinside (pcs i)"
  shows "goes E c0 hist pcs i (dstep E deadline alloc q (pcs i))"
proof (rule ccontr)
  assume n: "\<not> ?thesis"
  then have s: "\<not> starting (pcs i)"
    using start_goes[OF I R] by blast
  have ?thesis
  proof (cases "pcs i")
    case (DSection job sc)
    then show ?thesis
      using section_inv[OF I DSection] by (auto intro!: goesI)
  next
    case (DCheck job st r)
    then show ?thesis
      by (rule check_goes[OF I R])
  next
    case (DLoad job st r)
    then show ?thesis
      by (rule load_goes[OF I R])
  next
    case (DExpand job st r e)
    then show ?thesis
      by (rule expand_goes[OF I R])
  next
    case (DCas job r)
    then show ?thesis
      by (rule cas_goes[OF I R])
  qed (use c s in simp_all)
  with n show False ..
qed

lemma idle_step: "\<not> dinside c \<Longrightarrow> dstep E deadline alloc q c = Done (q, c)"
  by (cases c) auto

lemma dyn_step:
  assumes I: "dyn_inv E c0 q hist pcs" and R: "roomy q" and out: "dstep E deadline alloc q (pcs i) = Done (q', c')"
  shows "dyn_inv E c0 q' (grown hist (pcs i)) (pcs(i := c'))"
proof -
  consider "\<not> dinside (pcs i)" | "at_cell (pcs i)" | "\<not> at_cell (pcs i)" "dinside (pcs i)"
    by blast
  then show ?thesis
  proof cases
    case 1
    then have "q' = q" "pcs(i := c') = pcs" "grown hist (pcs i) = hist"
      using idle_step[OF 1, of E deadline alloc q] out by (auto, cases "pcs i", auto)
    then show ?thesis
      using I by simp
  next
    case 2
    then have "goes E c0 hist pcs i (Done (q', c'))"
      by (intro cell_goes[OF I _ out]) (cases "pcs i"; simp)
    then show ?thesis
      by (auto simp: goes_def)
  next
    case 3
    then show ?thesis
      using free_goes[OF I R 3, of deadline alloc] by (auto simp: goes_def out)
  qed
qed

lemma dyn_defined:
  assumes "dyn_inv E c0 q hist pcs" "roomy q" "\<not> at_cell (pcs i)"
  shows "\<exists>q' c'. dstep E deadline alloc q (pcs i) = Done (q', c')"
proof (cases "dinside (pcs i)")
  case True
  then show ?thesis
    using free_goes[OF assms, of deadline alloc] by (auto simp: goes_def)
qed (simp add: idle_step)

section \<open>Runs\<close>

lemma step_counters:
  assumes "dstep E deadline alloc q c = Done (q', c')" "roomy q"
  shows "unat (dpushTicket q') \<le> unat (dpushTicket q) + 1 \<and> unat (dpopTicket q') \<le> unat (dpopTicket q) + 1"
proof -
  have a: "unat (dpushTicket q + 1) = unat (dpushTicket q) + 1" "unat (dpopTicket q + 1) = unat (dpopTicket q) + 1"
    using assms(2) by (intro unat_add_one; simp add: roomy_def)+
  have e: "dpushTicket x = dpushTicket q \<and> dpopTicket x = dpopTicket q" if "tryExpand E alloc q st cap e = Done (x, y)" for st cap e x y
    using that by (cases e) (auto simp: Let_def split: if_splits)
  show ?thesis
  proof (cases c)
    case (DExpand job st r e)
    then show ?thesis
      using assms(1) e by (auto simp: bind_outcome_Done_iff)
  next
    case (DCas job r)
    then show ?thesis
      using assms(1) a by (cases job) (auto split: if_splits)
  qed (use assms(1) a in \<open>auto simp: bind_outcome_Done_iff put_view_def elim!: in_array_Done\<close>)
qed

lemma invoke_inv:
  assumes I: "dyn_inv E c0 q hist pcs" and i: "\<not> dinside (pcs i)"
  shows "dyn_inv E c0 q hist (pcs(i := denter c))"
proof -
  have "lock_pc (pcs i) = None" "grown hist (pcs i) = hist"
    using i by (cases "pcs i"; simp)+
  moreover have "lock_pc (denter c) = None" "located (denter c) = None"
    "point_ok (dpushTicket q) (dpopTicket q) hist (storing pcs) (denter c)"
    by (cases c; simp)+
  ultimately show ?thesis
    using quiet_goes[OF I refl same_refl, of i "denter c"] by (simp add: goes_def)
qed

lemma run_inv_from:
  assumes "dsys_run E N s es = Some s'" "dyn_inv E c0 (dqueue s) hist (dpcs s)"
    "unat (dpushTicket (dqueue s)) \<le> n" "unat (dpopTicket (dqueue s)) \<le> n" "n + length es + 1 < 2 ^ 58"
  shows "\<exists>hist'. dyn_inv E c0 (dqueue s') hist' (dpcs s') \<and> roomy (dqueue s')"
  using assms
proof (induction es arbitrary: s n hist)
  case Nil
  then show ?case
    by (auto simp: roomy_def)
next
  case (Cons e es)
  have R: "roomy (dqueue s)"
    using Cons.prems(3-5) by (simp add: roomy_def)
  obtain s1 where s1: "dsys_step E N s e = Some s1" "dsys_run E N s1 es = Some s'"
    using Cons.prems(1) by (auto split: option.splits)
  have "\<exists>hist1. dyn_inv E c0 (dqueue s1) hist1 (dpcs s1) \<and>
      unat (dpushTicket (dqueue s1)) \<le> n + 1 \<and> unat (dpopTicket (dqueue s1)) \<le> n + 1"
  proof (cases e)
    case (DInvoke i c)
    then have i: "\<not> dinside (dpcs s i)" "s1 = s\<lparr>dpcs := (dpcs s)(i := denter c)\<rparr>"
      using s1(1) by (simp_all split: if_splits)
    show ?thesis
      using invoke_inv[OF Cons.prems(2) i(1), of c] i(2) Cons.prems(3,4) by auto
  next
    case (DAdvance i dl al)
    then obtain q c where d: "dstep E dl al (dqueue s) (dpcs s i) = Done (q, c)" "s1 = after_dstep s i q c"
      using s1(1) by (auto split: if_splits outcome.splits)
    then have "dyn_inv E c0 (dqueue s1) (grown hist (dpcs s i)) (dpcs s1)" "dqueue s1 = q"
      using dyn_step[OF Cons.prems(2) R d(1)] by (simp_all add: after_dstep_def)
    then show ?thesis
      using step_counters[OF d(1) R] Cons.prems(3,4) by auto
  qed
  then obtain hist1 where h: "dyn_inv E c0 (dqueue s1) hist1 (dpcs s1)"
    "unat (dpushTicket (dqueue s1)) \<le> n + 1" "unat (dpopTicket (dqueue s1)) \<le> n + 1"
    by blast
  show ?case
    using Cons.IH[OF s1(2) h] Cons.prems(5) by auto
qed

section \<open>A new queue\<close>

lemma maxClosed_loop_counts:
  assumes "2 \<le> unat mult" "unat mult * unat limit < 2 ^ 64" "0 < unat expanded"
  shows "\<exists>m. maxClosed_loop limit mult expanded n = Some (n + m) \<and>
    (\<forall>k. unat expanded * unat mult ^ k < unat limit \<longleftrightarrow> k < m)"
  using assms(3)
proof (induction "unat limit - unat expanded" arbitrary: expanded n rule: less_induct)
  case less
  show ?case
  proof (cases "expanded < limit")
    case False
    have "\<not> unat expanded * unat mult ^ k < unat limit" for k
    proof -
      have "1 \<le> unat mult ^ k"
        using assms(1) by simp
      then have "unat expanded * 1 \<le> unat expanded * unat mult ^ k"
        by (rule mult_le_mono2)
      then show ?thesis
        using False unfolding word_less_nat_alt by linarith
    qed
    then show ?thesis
      using False by (subst maxClosed_loop.simps) auto
  next
    case True
    then have l: "unat expanded < unat limit"
      by (simp add: word_less_nat_alt)
    then have "unat mult * unat expanded \<le> unat mult * unat limit"
      by (intro mult_le_mono2) simp
    from le_less_trans[OF this assms(2)] have "unat expanded * unat mult < 2 ^ 64"
      by (simp only: mult.commute)
    then have u: "unat (expanded * mult) = unat expanded * unat mult"
      by (simp add: unat_word_ariths)
    have "2 * unat expanded \<le> unat mult * unat expanded"
      using assms(1) by (rule mult_le_mono1)
    then have bigger: "unat expanded < unat (expanded * mult)"
      using less.prems by (simp add: u mult.commute)
    then have "unat limit - unat (expanded * mult) < unat limit - unat expanded" "0 < unat (expanded * mult)"
      using l by linarith+
    from less.hyps[OF this] obtain m where m: "maxClosed_loop limit mult (expanded * mult) (n + 1) = Some (n + 1 + m)"
      "\<forall>k. unat (expanded * mult) * unat mult ^ k < unat limit \<longleftrightarrow> k < m"
      by blast
    have "maxClosed_loop limit mult expanded n = Some (n + Suc m)"
      using True m(1) by (subst maxClosed_loop.simps) simp
    moreover have "unat expanded * unat mult ^ k < unat limit \<longleftrightarrow> k < Suc m" for k
      using m(2) l by (cases k) (auto simp: u mult.assoc)
    ultimately show ?thesis
      by blast
  qed
qed

lemma initial_capacity:
  fixes queueCapacity minCapacity :: u64
  assumes "queueCapacity \<noteq> 0"
  defines "cap \<equiv> min (max 1 minCapacity) queueCapacity"
  shows "0 < unat cap" "unat cap \<le> unat queueCapacity" "0 < cap" "cap \<le> queueCapacity"
proof -
  have "unat cap = min (max 1 (unat minCapacity)) (unat queueCapacity)"
    by (simp add: cap_def min_def max_def word_le_nat_alt)
  then show "0 < unat cap" "unat cap \<le> unat queueCapacity"
    using assms(1) by (simp_all add: unat_gt_0)
  then show "0 < cap" "cap \<le> queueCapacity"
    by (simp_all add: word_less_nat_alt word_le_nat_alt)
qed

lemma init_dyn_inv:
  assumes new: "newDynQueue E queueCapacity minCapacity mult = Some (Inr q)"
    and b: "unat (max 2 mult) * unat queueCapacity < 2 ^ 64"
      "unat queueCapacity + 2 * unat (slotPadding (fixedEnv E)) < 2 ^ 63" "length (closed q) < 32"
  shows "\<exists>c0 r. dyn_inv E c0 q [r] (\<lambda>i. DIdle) \<and> dpushTicket q = 0 \<and> dpopTicket q = 0 \<and>
    arrays q ! refSlots r = newArray E (refCap r)"
proof -
  let ?cap = "min (max 1 minCapacity) queueCapacity" and ?m = "max 2 mult"
  have qc: "queueCapacity \<noteq> 0"
    using new by (auto simp: newDynQueue_def)
  then obtain k where k: "maxClosed_loop queueCapacity ?m ?cap 0 = Some k" "initQueue E queueCapacity ?cap ?m = Some q"
    using new by (auto simp: newDynQueue_def Let_def initQueue_def)
  have q: "q = \<lparr>maxCapacity = queueCapacity, dslots = 1, dstride = computeStride ?cap, dstate = 0, dcapacity = ?cap, dmult = ?m,
        closed = replicate k newClosedArray, dpushTicket = 0, dpopTicket = 0, dpushSpinCutoff = 0,
        dpopSpinCutoff = 0, arrays = [[], newArray E ?cap]\<rparr>"
    using k by (simp add: initQueue_def)
  note c = initial_capacity[OF qc, of minCapacity]
  have m: "2 \<le> unat ?m"
    by (simp add: max_def word_le_nat_alt)
  obtain n where n: "maxClosed_loop queueCapacity ?m ?cap 0 = Some (0 + n)" "\<forall>j. unat ?cap * unat ?m ^ j < unat queueCapacity \<longleftrightarrow> j < n"
    using maxClosed_loop_counts[OF m b(1) c(1), of 0] by blast
  have kn: "k = n"
    using n(1) k(1) by simp
  let ?r = "\<lparr>refOffset = 0, refSlots = 1, refCap = ?cap, refStride = computeStride ?cap\<rparr>"
  have "unat (?cap + 2 * slotPadding (fixedEnv E)) = unat ?cap + 2 * unat (slotPadding (fixedEnv E))"
    using b(2) c(2) by (simp add: unat_word_ariths)
  then have "ref_ok E q ?r"
    using c(3,4) by (simp add: ref_ok_def q newArray_def)
  then have "hist_inv E q (unat ?cap) [?r]"
    using c(2) by (simp add: hist_inv_def rising_def) (simp add: q)
  moreover have "grows E q (unat ?cap)"
    using b c(1) m n(2) kn by (simp add: grows_def q)
  moreover have "lock_inv E q (unat ?cap) [?r] (\<lambda>i. DIdle)"
    by (simp add: lock_inv_def sealed_def pack_def current_is_def q)
  ultimately have "dyn_inv E (unat ?cap) q [?r] (\<lambda>i. DIdle)"
    by (simp add: dyn_inv_def place_ok_def)
  then show ?thesis
    by (intro exI[of _ "unat ?cap"] exI[of _ ?r]) (simp add: q)
qed

lemma dyn_run_inv:
  assumes "newDynQueue E queueCapacity minCapacity mult = Some (Inr q)" "unat (max 2 mult) * unat queueCapacity < 2 ^ 64"
    "unat queueCapacity + 2 * unat (slotPadding (fixedEnv E)) < 2 ^ 63" "length (closed q) < 32"
    "dsys_run E N (dsys_init q) es = Some s" "length es + 1 < 2 ^ 58"
  obtains c0 hist where "dyn_inv E c0 (dqueue s) hist (dpcs s)" "roomy (dqueue s)"
proof -
  obtain c0 r where i: "dyn_inv E c0 q [r] (\<lambda>i. DIdle)" "dpushTicket q = 0" "dpopTicket q = 0"
    using init_dyn_inv[OF assms(1-4)] by blast
  then show thesis
    using run_inv_from[OF assms(5), of c0 "[r]" 0] assms(6) that by (auto simp: dsys_init_def)
qed

end
