(* ===== verification/RingCut.thy ===== *)
theory RingCut
  imports TicketRing
begin

text \<open>
  Two more facts on the abstract machine \<open>TicketRing\<close>, for rings that are replaced: a ring of which only the first tickets
  are kept, the later ones being with operations that still wait, and a ring that starts with waiting operations.
\<close>

section \<open>Cutting a ring off\<close>

text \<open>When an array is closed at ticket \<open>L\<close>, later tickets are no longer its own. They have not been used yet: their
  owners are still waiting.\<close>

fun cut_stage :: "nat \<Rightarrow> 'a stage \<Rightarrow> 'a stage" where
  "cut_stage L (EnqWait t v) = (if t < L then EnqWait t v else Free)"
| "cut_stage L (DeqWait t) = (if t < L then DeqWait t else Free)"
| "cut_stage L c = c"

definition ring_cut :: "nat \<Rightarrow> 'a ring \<Rightarrow> 'a ring" where
  "ring_cut L r = r\<lparr>pushes := min L (pushes r), pops := min L (pops r), stages := (\<lambda>i. cut_stage L (stages r i)),
     written := take L (written r)\<rparr>"

definition trim :: "nat \<Rightarrow> (nat \<Rightarrow> nat option) \<Rightarrow> nat \<Rightarrow> nat option" where
  "trim L hold i = (case hold i of Some t \<Rightarrow> if t < L then Some t else None | None \<Rightarrow> None)"

lemma trim_Some: "trim L hold i = Some t \<longleftrightarrow> hold i = Some t \<and> t < L"
  by (auto simp: trim_def split: option.splits)

lemma side_inv_trim:
  assumes S: "side_inv cap stride b hold act n tn" and L: "\<And>t. L \<le> t \<Longrightarrow> t < n \<Longrightarrow> \<exists>i. hold i = Some t"
  shows "side_inv cap stride b (trim L hold) act (min L n) tn"
proof -
  have "tn (slot_of cap stride t) \<le> 2 * round_of cap t + b" if "min L n \<le> t" for t
  proof (cases "n \<le> t")
    case True
    then show ?thesis
      by (rule side_invD(5)[OF S])
  next
    case False
    then have "L \<le> t"
      using that by auto
    then obtain i where "hold i = Some t"
      using L False by force
    then show ?thesis
      by (rule side_invD(2)[OF S])
  qed
  then show ?thesis
    using S unfolding side_inv_def trim_Some by (auto simp: min_def)
qed

definition late_waits :: "nat \<Rightarrow> 'a ring \<Rightarrow> bool" where
  "late_waits L r \<longleftrightarrow> (\<forall>t. L \<le> t \<longrightarrow> t < pushes r \<longrightarrow> (\<exists>i v. stages r i = EnqWait t v)) \<and>
     (\<forall>t. L \<le> t \<longrightarrow> t < pops r \<longrightarrow> (\<exists>i. stages r i = DeqWait t))"

lemma late_stage:
  assumes "ring_inv r" "late_waits L r"
  shows "enqT (stages r i) = Some t \<Longrightarrow> L \<le> t \<Longrightarrow> \<exists>v. stages r i = EnqWait t v"
    and "deqT (stages r i) = Some t \<Longrightarrow> L \<le> t \<Longrightarrow> stages r i = DeqWait t"
    and "2 * rround r t < turns r (rslot r t) \<Longrightarrow> t < min L (pushes r)"
    and "2 * rround r t + 1 < turns r (rslot r t) \<Longrightarrow> t < min L (pops r)"
proof -
  have s: "push_side r" "pop_side r"
    using assms(1) by (auto simp: ring_inv_def)
  have w: "\<exists>k v. stages r k = EnqWait t v" if "L \<le> t" "t < pushes r" for t
    using that assms(2) by (simp add: late_waits_def)
  have w': "\<exists>k. stages r k = DeqWait t" if "L \<le> t" "t < pops r" for t
    using that assms(2) by (simp add: late_waits_def)
  show "\<exists>v. stages r i = EnqWait t v" if "enqT (stages r i) = Some t" "L \<le> t"
    using w[OF that(2) push_sideD(1)[OF s(1) that(1)]] push_sideD(5)[OF s(1) that(1)] by force
  show "stages r i = DeqWait t" if "deqT (stages r i) = Some t" "L \<le> t"
    using w'[OF that(2) pop_sideD(1)[OF s(2) that(1)]] pop_sideD(5)[OF s(2) that(1)] by force
  show "t < min L (pushes r)" if g: "2 * rround r t < turns r (rslot r t)"
  proof -
    have t: "t < pushes r"
      by (rule push_sideD(3)[OF s(1) g])
    moreover have "\<not> L \<le> t"
    proof
      assume "L \<le> t"
      then obtain k v where "stages r k = EnqWait t v"
        using w t by blast
      then show False
        using side_invD(2)[OF s(1)[unfolded push_side_def], of k t] g by simp
    qed
    ultimately show ?thesis
      by simp
  qed
  show "t < min L (pops r)" if g: "2 * rround r t + 1 < turns r (rslot r t)"
  proof -
    have t: "t < pops r"
      by (rule pop_sideD(3)[OF s(2) g])
    moreover have "\<not> L \<le> t"
    proof
      assume "L \<le> t"
      then obtain k where "stages r k = DeqWait t"
        using w' t by blast
      then show False
        using side_invD(2)[OF s(2)[unfolded pop_side_def], of k t] g by simp
    qed
    ultimately show ?thesis
      by simp
  qed
qed

lemma ring_inv_cut:
  assumes R: "ring_inv r" and W: "late_waits L r"
  shows "ring_inv (ring_cut L r)"
proof -
  have inv: "ring_ok r" "push_side r" "pop_side r" "value_inv r" "cell_inv r" "history_inv r"
    using R by (auto simp: ring_inv_def)
  note late = late_stage[OF R W]
  have act: "t < L" if a: "enqAct (stages r i)" "enqT (stages r i) = Some t" for i t
  proof (rule ccontr)
    assume "\<not> t < L"
    then obtain v where "stages r i = EnqWait t v"
      using late(1)[OF a(2)] by auto
    with a(1) show False
      by simp
  qed
  have act': "t < L" if a: "deqAct (stages r i)" "deqT (stages r i) = Some t" for i t
  proof (rule ccontr)
    assume "\<not> t < L"
    then have "stages r i = DeqWait t"
      using late(2)[OF a(2)] by auto
    with a(1) show False
      by simp
  qed
  have e: "enqT (cut_stage L (stages r i)) = trim L (enqT \<circ> stages r) i" "enqAct (cut_stage L (stages r i)) = enqAct (stages r i)" for i
    using act[of i] by (cases "stages r i"; simp add: trim_def)+
  have d: "deqT (cut_stage L (stages r i)) = trim L (deqT \<circ> stages r) i" "deqAct (cut_stage L (stages r i)) = deqAct (stages r i)" for i
    using act'[of i] by (cases "stages r i"; simp add: trim_def)+
  have w: "\<exists>i. (enqT \<circ> stages r) i = Some t" if t: "L \<le> t" "t < pushes r" for t
  proof -
    obtain i v where "stages r i = EnqWait t v"
      using W t unfolding late_waits_def by blast
    then show ?thesis
      by (intro exI[of _ i]) simp
  qed
  have w': "\<exists>i. (deqT \<circ> stages r) i = Some t" if t: "L \<le> t" "t < pops r" for t
  proof -
    obtain i where "stages r i = DeqWait t"
      using W t unfolding late_waits_def by blast
    then show ?thesis
      by (intro exI[of _ i]) simp
  qed
  have E: "enqT \<circ> stages (ring_cut L r) = trim L (enqT \<circ> stages r)" "enqAct \<circ> stages (ring_cut L r) = enqAct \<circ> stages r"
    "deqT \<circ> stages (ring_cut L r) = trim L (deqT \<circ> stages r)" "deqAct \<circ> stages (ring_cut L r) = deqAct \<circ> stages r"
    by (simp_all add: fun_eq_iff ring_cut_def e d)
  have F: "rcap (ring_cut L r) = rcap r" "rstride (ring_cut L r) = rstride r" "turns (ring_cut L r) = turns r"
    "pushes (ring_cut L r) = min L (pushes r)" "pops (ring_cut L r) = min L (pops r)"
    by (simp_all add: ring_cut_def)
  have "push_side (ring_cut L r)"
    unfolding push_side_def E F by (rule side_inv_trim[OF inv(2)[unfolded push_side_def] w])
  moreover have "pop_side (ring_cut L r)"
    unfolding pop_side_def E F by (rule side_inv_trim[OF inv(3)[unfolded pop_side_def] w'])
  moreover have "value_inv (ring_cut L r)"
  proof -
    have "t < min L (pushes r) \<and> v = written r ! t" if c: "stageV (cut_stage L (stages r i)) = Some (t, v)" for i t v
    proof -
      have V: "stageV (stages r i) = Some (t, v)"
        using c by (cases "stages r i") (auto split: if_splits)
      note tv = value_invD(2,3)[OF inv(4) V]
      have "t < L"
      proof (cases "stages r i")
        case (DeqEmpty u w)
        then show ?thesis
          using late(3)[of t] pop_sideD(2)[OF inv(3), of i t] V by auto
      qed (use c V act[of i t] in \<open>auto split: if_splits\<close>)
      then show ?thesis
        using tv by simp
    qed
    then show ?thesis
      using value_invD(1)[OF inv(4)] by (simp add: value_inv_def ring_cut_def min.commute)
  qed
  moreover have "cell_inv (ring_cut L r)"
  proof -
    have f: "filled (\<lambda>i. cut_stage L (stages r i)) t = filled (stages r) t" "emptied (\<lambda>i. cut_stage L (stages r i)) t = emptied (stages r) t" for t
    proof -
      have "cut_stage L c = EnqFull t v \<longleftrightarrow> c = EnqFull t v" "cut_stage L c = DeqEmpty t v \<longleftrightarrow> c = DeqEmpty t v" for c :: "'a stage" and v
        by (cases c; auto)+
      then show "filled (\<lambda>i. cut_stage L (stages r i)) t = filled (stages r) t" "emptied (\<lambda>i. cut_stage L (stages r i)) t = emptied (stages r) t"
        by (simp_all add: filled_def emptied_def)
    qed
    have "t < L" if "filled (stages r) t" for t
    proof -
      obtain i v where "stages r i = EnqFull t v"
        using \<open>filled (stages r) t\<close> by (auto simp: filled_def)
      then show ?thesis
        using act[of i t] by simp
    qed
    moreover have "t < L" if "turns r (rslot r t) = 2 * rround r t + 1" for t
      using late(3)[of t] that by simp
    ultimately show ?thesis
      using inv(5) f by (auto simp: cell_inv_def cell_ok_def ring_cut_def)
  qed
  moreover have "history_inv (ring_cut L r)"
  proof -
    have "t < L" if "(t, v) \<in> set (taken r)" for t v
    proof -
      have "t \<in> fst ` set (taken r)"
        using that by force
      then have "2 * rround r t + 1 < turns r (rslot r t)"
        using inv(6) by (simp add: history_inv_def)
      then show ?thesis
        using late(4)[of t] by simp
    qed
    then show ?thesis
      using inv(6) by (fastforce simp: history_inv_def ring_cut_def)
  qed
  ultimately show ?thesis
    using inv(1) by (simp add: ring_inv_def ring_ok_def ring_cut_def)
qed

text \<open>A ring whose cells have not been used yet, with owners of tickets waiting.\<close>

definition ring_waiting :: "nat \<Rightarrow> nat \<Rightarrow> nat \<Rightarrow> (nat \<Rightarrow> 'a stage) \<Rightarrow> 'a list \<Rightarrow> 'a ring" where
  "ring_waiting cap stride m st ws = (ring_init cap stride)\<lparr>pushes := length ws, pops := m, stages := st, written := ws\<rparr>"

fun only_waits :: "nat \<Rightarrow> 'a list \<Rightarrow> 'a stage \<Rightarrow> bool" where
  "only_waits m ws Free = True"
| "only_waits m ws (EnqWait t v) = (t < length ws \<and> v = ws ! t)"
| "only_waits m ws (DeqWait t) = (t < m)"
| "only_waits m ws _ = False"

lemma ring_inv_waiting:
  assumes "0 < cap" "coprime stride cap" "\<And>i. only_waits m ws (st i)"
    and "\<And>t. t < length ws \<Longrightarrow> \<exists>!i. enqT (st i) = Some t" "\<And>t. t < m \<Longrightarrow> \<exists>!i. deqT (st i) = Some t"
  shows "ring_inv (ring_waiting cap stride m st ws)"
proof -
  have e: "\<not> enqAct (st i)" "\<not> deqAct (st i)" "st i \<noteq> EnqFull t v" "st i \<noteq> DeqEmpty t v"
    "enqT (st i) = Some t \<Longrightarrow> t < length ws" "deqT (st i) = Some t \<Longrightarrow> t < m"
    "stageV (st i) = Some (t, v) \<Longrightarrow> t < length ws \<and> v = ws ! t" for i t v
    using assms(3)[of i] by (cases "st i"; auto)+
  have ex: "t < length ws \<Longrightarrow> \<exists>i. enqT (st i) = Some t" "t < m \<Longrightarrow> \<exists>i. deqT (st i) = Some t" for t
    using ex1_implies_ex[OF assms(4)] ex1_implies_ex[OF assms(5)] by simp_all
  have u: "i = k" if "enqT (st i) = Some t" "enqT (st k) = Some t" for i k t
    using assms(4)[OF e(5)[OF that(1)]] that by blast
  have u': "i = k" if "deqT (st i) = Some t" "deqT (st k) = Some t" for i k t
    using assms(5)[OF e(6)[OF that(1)]] that by blast
  have "side_inv cap stride 0 (enqT \<circ> st) (enqAct \<circ> st) (length ws) (\<lambda>_. 0)"
    using e u ex(1) unfolding side_inv_def comp_def by simp
  moreover have "side_inv cap stride 1 (deqT \<circ> st) (deqAct \<circ> st) m (\<lambda>_. 0)"
    using e u' ex(2) unfolding side_inv_def comp_def by simp
  ultimately show ?thesis
    using assms(1,2) e(3,4,7)
    by (simp add: ring_inv_def ring_ok_def push_side_def pop_side_def value_inv_def cell_inv_def cell_ok_def filled_def emptied_def
        history_inv_def ring_waiting_def ring_init_def)
qed

end
