(* ===== verification/DynamicRings.thy ===== *)
theory DynamicRings
  imports DynamicSeqlock MPMCConcurrent RingCut
begin

text \<open>
  Each array of the dynamic queue as a fixed queue of its own. Every ticket belongs to one array of the history
  (\<open>mine\<close>); \<open>proj\<close> is the state of the system as the fixed queue of one array sees it: its share of the two counters, of
  the history and of the threads, with tickets counted from the offset. A step of the dynamic queue is a step of
  the projection on the array it uses and does not change the others. The end of the theory says what is known of the
  tickets taken during an expansion and of the array it prepares.
\<close>

section \<open>The tickets of an array\<close>

abbreviation off :: "arrayRef list \<Rightarrow> nat \<Rightarrow> nat" where
  "off hist k \<equiv> unat (refOffset (hist ! k))"

definition mine :: "arrayRef list \<Rightarrow> nat \<Rightarrow> nat \<Rightarrow> bool" where
  "mine hist k t \<longleftrightarrow> off hist k \<le> t \<and> (Suc k < length hist \<longrightarrow> t < off hist (Suc k))"

text \<open>How many of the first \<open>x\<close> tickets are tickets of array \<open>k\<close>.\<close>

definition share :: "arrayRef list \<Rightarrow> nat \<Rightarrow> nat \<Rightarrow> nat" where
  "share hist k x = (if Suc k < length hist then min x (off hist (Suc k)) else x) - off hist k"

lemma rising_off:
  assumes "rising hist" "j < k" "k < length hist"
  shows "off hist j < off hist k"
  using assms sorted_wrt_nth_less[of "\<lambda>a b. refOffset a < refOffset b \<and> refCap a < refCap b" hist j k]
  by (simp add: rising_def word_less_nat_alt)

lemma mine_unique:
  assumes "rising hist" "mine hist j t" "mine hist k t" "j < length hist" "k < length hist"
  shows "j = k"
proof -
  have "\<not> a < b" if "mine hist a t" "mine hist b t" "b < length hist" for a b
  proof
    assume "a < b"
    then have "Suc a < length hist" "off hist (Suc a) \<le> off hist b"
      using that(3) rising_off[OF assms(1), of "Suc a" b] by (cases "Suc a = b", auto)+
    then show False
      using that(1,2) by (auto simp: mine_def)
  qed
  then show ?thesis
    using assms(2-5) by (metis linorder_neqE_nat)
qed

lemma mine_lookup_ex:
  assumes "hist \<noteq> []" "refOffset (hd hist) \<le> t"
  shows "\<exists>k < length hist. lookup hist t = hist ! k \<and> mine hist k (unat t)"
  using assms
proof (induction hist rule: rev_induct)
  case (snoc r hist)
  show ?case
  proof (cases "refOffset r \<le> t")
    case True
    then show ?thesis
      by (intro exI[of _ "length hist"]) (simp add: lookup_snoc mine_def word_le_nat_alt)
  next
    case False
    then have "hist \<noteq> []"
      using snoc.prems(2) by auto
    then obtain k where "k < length hist" "lookup hist t = hist ! k" "mine hist k (unat t)"
      using snoc.IH snoc.prems(2) by auto
    then show ?thesis
      using False by (intro exI[of _ k]) (auto simp: lookup_snoc mine_def word_le_nat_alt nth_append)
  qed
qed simp

lemma mine_lookup:
  assumes "rising hist" "k < length hist"
  shows "mine hist k (unat t) \<longleftrightarrow> lookup hist t = hist ! k"
proof -
  have "hist \<noteq> []" "refOffset (hd hist) \<le> t"
    using assms(1) by (auto simp: rising_def)
  then obtain j where j: "j < length hist" "lookup hist t = hist ! j" "mine hist j (unat t)"
    using mine_lookup_ex by blast
  have "j = k" if "hist ! j = hist ! k"
    using rising_off[OF assms(1), of j k] rising_off[OF assms(1), of k j] that j(1) assms(2)
    by (metis less_irrefl linorder_neqE_nat)
  then show ?thesis
    using j mine_unique[OF assms(1) j(3) _ j(1) assms(2)] by auto
qed

lemma mine_ex:
  assumes "rising hist"
  obtains k where "k < length hist" "mine hist k t"
proof (cases "\<exists>k < length hist. t < off hist k")
  case False
  have "hist \<noteq> []"
    using assms by (simp add: rising_def)
  then show thesis
    using that[of "length hist - 1"] False by (simp add: mine_def) (metis One_nat_def diff_less length_greater_0_conv lessI not_less)
next
  case True
  define k where "k = (LEAST k. k < length hist \<and> t < off hist k)"
  have k: "k < length hist" "t < off hist k"
    using LeastI_ex[OF True[unfolded Bex_def]] by (auto simp: k_def)
  have "off hist 0 = 0"
    using assms hd_conv_nth[of hist] by (simp add: rising_def)
  then have "k \<noteq> 0"
    using k(2) by (metis not_less0)
  then have "\<not> t < off hist (k - 1)"
    using not_less_Least[of "k - 1" "\<lambda>k. k < length hist \<and> t < off hist k"] k(1) by (simp add: k_def[symmetric])
  then show thesis
    using that[of "k - 1"] k \<open>k \<noteq> 0\<close> by (simp add: mine_def)
qed

lemma share_mine:
  assumes "mine hist k x"
  shows "share hist k x = x - off hist k" "share hist k (Suc x) = Suc (x - off hist k)"
  using assms by (auto simp: share_def mine_def)

lemma share_other:
  assumes "\<not> mine hist k x"
  shows "share hist k (Suc x) = share hist k x"
  using assms by (auto simp: share_def mine_def)

lemma share_le: "share hist k x \<le> x"
  by (auto simp: share_def)

section \<open>One array of the queue as a queue of its own\<close>

text \<open>The ticket a thread owns, with the point at which the fixed queue of the array would have the thread. A blocking
  operation owns its ticket from the start; all others from the successful compare and exchange on.\<close>

fun job_holds :: "'a job \<Rightarrow> (u64 \<times> (u64 \<Rightarrow> 'a pc)) option" where
  "job_holds (JWrite t v) = Some (t, \<lambda>u. Enqueueing u EnqWaitTurn v)"
| "job_holds (JRead t) = Some (t, \<lambda>u. Dequeueing u DeqWaitTurn)"
| "job_holds _ = None"

fun holds :: "'a dpc \<Rightarrow> (u64 \<times> (u64 \<Rightarrow> 'a pc)) option" where
  "holds (DSection job c) = job_holds job"
| "holds (DCheck job st r) = job_holds job"
| "holds (DLoad job st r) = job_holds job"
| "holds (DExpand job st r c) = job_holds job"
| "holds (DCas job r) = job_holds job"
| "holds (DEnqueue t r c v) = Some (t, \<lambda>u. Enqueueing u c v)"
| "holds (DDequeue b t r c) = Some (t, \<lambda>u. Dequeueing u c)"
| "holds _ = None"

definition proj_pc :: "arrayRef list \<Rightarrow> nat \<Rightarrow> 'a dpc \<Rightarrow> 'a pc" where
  "proj_pc hist k c = (case holds c of
       Some (t, f) \<Rightarrow> if mine hist k (unat t) then f (t - refOffset (hist ! k)) else Idle
     | None \<Rightarrow> Idle)"

definition proj_queue :: "arrayRef list \<Rightarrow> nat \<Rightarrow> ('ts, 'a) DynQueue \<Rightarrow> ('ts, 'a) MPMCQueue" where
  "proj_queue hist k q = (array_view q (hist ! k))
     \<lparr>pushTicket := of_nat (share hist k (unat (dpushTicket q))), popTicket := of_nat (share hist k (unat (dpopTicket q)))\<rparr>"

definition proj :: "arrayRef list \<Rightarrow> nat \<Rightarrow> ('ts, 'a) dsys \<Rightarrow> ('ts, 'a) sys" where
  "proj hist k s = \<lparr>queue = proj_queue hist k (dqueue s), pcs = (\<lambda>i. proj_pc hist k (dpcs s i)),
     pushed = take (share hist k (length (dpushed s))) (drop (off hist k) (dpushed s)),
     popsIssued = share hist k (unat (dpopTicket (dqueue s))),
     delivered = map (\<lambda>(t, v). (t - off hist k, v)) (filter (\<lambda>(t, v). mine hist k t) (ddelivered s))\<rparr>"

lemma proj_simps [simp]:
  "queue (proj hist k s) = proj_queue hist k (dqueue s)" "pcs (proj hist k s) i = proj_pc hist k (dpcs s i)"
  by (simp_all add: proj_def)

lemma proj_quiet:
  assumes "\<And>k. k < length hist \<Longrightarrow> array_view q (hist ! k) = array_view (dqueue s) (hist ! k)"
    "holds c = holds (dpcs s i)" "handing (dpcs s i) = []" "k < length hist"
  shows "proj hist k (after_dstep s i q c) = proj hist k s"
proof -
  have v: "array_view q (hist ! k) = array_view (dqueue s) (hist ! k)"
    by (rule assms(1)[OF assms(4)])
  then have "dpushTicket q = dpushTicket (dqueue s)" "dpopTicket q = dpopTicket (dqueue s)"
    by (simp_all add: array_view_def)
  moreover have "(\<lambda>j. proj_pc hist k (((dpcs s)(i := c)) j)) = (\<lambda>j. proj_pc hist k (dpcs s j))"
    using assms(2) by (auto simp: fun_eq_iff proj_pc_def)
  ultimately show ?thesis
    using v assms(3) by (simp add: proj_def after_dstep_def proj_queue_def)
qed

text \<open>Taking a push or a pop ticket: a step of the array that gets it, nothing for the others.\<close>

lemma share_pushed:
  assumes "length xs = n" "mine hist k n"
  shows "take (share hist k (Suc n)) (drop (off hist k) (xs @ [v])) = take (share hist k n) (drop (off hist k) xs) @ [v]"
  using assms by (auto simp: share_mine mine_def)

lemma share_pushed_other:
  assumes "length xs = n" "\<not> mine hist k n"
  shows "take (share hist k (Suc n)) (drop (off hist k) (xs @ [v])) = take (share hist k n) (drop (off hist k) xs)"
proof -
  have "share hist k n \<le> n - off hist k"
    by (auto simp: share_def)
  then show ?thesis
    using assms by (simp add: share_other)
qed

lemma pcs_upd: "(\<lambda>j. proj_pc hist k (((dpcs s)(i := c)) j)) = (\<lambda>j. proj_pc hist k (dpcs s j))(i := proj_pc hist k c)"
  by (auto simp: fun_eq_iff)

lemma ticket_split:
  assumes "mine hist k (unat t)"
  shows "of_nat (share hist k (unat t)) = t - refOffset (hist ! k)" "unat (t - refOffset (hist ! k)) = unat t - off hist k"
proof -
  have le: "refOffset (hist ! k) \<le> t"
    using assms by (simp add: mine_def word_le_nat_alt)
  show u: "unat (t - refOffset (hist ! k)) = unat t - off hist k"
    using le by (rule unat_sub_le)
  show "of_nat (share hist k (unat t)) = t - refOffset (hist ! k)"
    unfolding share_mine(1)[OF assms] u[symmetric] by simp
qed

lemma proj_take_push:
  fixes s :: "('ts, 'a) dsys" and hist k
  assumes c: "holds (dpcs s i) = None" "holds c = Some (dpushTicket (dqueue s), \<lambda>u. Enqueueing u EnqWaitTurn v)"
    "pushing (dpcs s i) = [v]" "handing (dpcs s i) = []"
    and l: "length (dpushed s) = unat (dpushTicket (dqueue s))" and R: "roomy (dqueue s)"
  defines "s' \<equiv> after_dstep s i ((dqueue s)\<lparr>dpushTicket := dpushTicket (dqueue s) + 1\<rparr>) c"
    and "Q \<equiv> proj_queue hist k (dqueue s)"
  shows "mine hist k (unat (dpushTicket (dqueue s))) \<Longrightarrow>
      proj hist k s' = after_step (proj hist k s) i (Q\<lparr>pushTicket := pushTicket Q + 1\<rparr>) (Enqueueing (pushTicket Q) EnqWaitTurn v)"
    and "\<not> mine hist k (unat (dpushTicket (dqueue s))) \<Longrightarrow> proj hist k s' = proj hist k s"
proof -
  let ?p = "dpushTicket (dqueue s)"
  have u: "unat (?p + 1) = Suc (unat ?p)" "?p + 1 \<noteq> ?p"
    using unat_add_one[of ?p] R by (simp_all add: roomy_def)
  have free: "proj_pc hist k (dpcs s i) = Idle"
    using c(1) by (simp add: proj_pc_def)
  show "proj hist k s' = after_step (proj hist k s) i (Q\<lparr>pushTicket := pushTicket Q + 1\<rparr>) (Enqueueing (pushTicket Q) EnqWaitTurn v)"
    if m: "mine hist k (unat ?p)"
  proof -
    have n: "of_nat (share hist k (unat (?p + 1))) = pushTicket Q + 1" "pushTicket Q = ?p - refOffset (hist ! k)"
      unfolding u share_mine(2)[OF m] by (simp_all add: Q_def proj_queue_def ticket_split[OF m] flip: share_mine(1)[OF m])
    have "proj_pc hist k c = Enqueueing (?p - refOffset (hist ! k)) EnqWaitTurn v"
      using c(2) m by (simp add: proj_pc_def)
    then show ?thesis
      using n c(3,4) free share_pushed[OF l m, of v]
      by (simp add: proj_def s'_def after_dstep_def after_step_def pcs_upd u l Q_def proj_queue_def array_view_def
          del: fun_upd_apply drop_append take_append)
  qed
  show "proj hist k s' = proj hist k s" if m: "\<not> mine hist k (unat ?p)"
  proof -
    have "(\<lambda>j. proj_pc hist k (dpcs s j))(i := Idle) = (\<lambda>j. proj_pc hist k (dpcs s j))"
      using free by (auto simp: fun_eq_iff)
    moreover have "proj_pc hist k c = Idle"
      using c(2) m by (simp add: proj_pc_def)
    ultimately show ?thesis
      using c(3,4) share_pushed_other[OF l m, of v] share_other[OF m]
      by (simp add: proj_def s'_def after_dstep_def pcs_upd u l proj_queue_def array_view_def
          del: fun_upd_apply drop_append take_append)
  qed
qed

lemma proj_take_pop:
  fixes s :: "('ts, 'a) dsys" and hist k
  assumes c: "holds (dpcs s i) = None" "holds c = Some (dpopTicket (dqueue s), \<lambda>u. Dequeueing u DeqWaitTurn)" "handing (dpcs s i) = []"
    and R: "roomy (dqueue s)"
  defines "s' \<equiv> after_dstep s i ((dqueue s)\<lparr>dpopTicket := dpopTicket (dqueue s) + 1\<rparr>) c"
    and "Q \<equiv> proj_queue hist k (dqueue s)"
  shows "mine hist k (unat (dpopTicket (dqueue s))) \<Longrightarrow>
      proj hist k s' = after_step (proj hist k s) i (Q\<lparr>popTicket := popTicket Q + 1\<rparr>) (Dequeueing (popTicket Q) DeqWaitTurn)"
    and "\<not> mine hist k (unat (dpopTicket (dqueue s))) \<Longrightarrow> proj hist k s' = proj hist k s"
proof -
  let ?p = "dpopTicket (dqueue s)"
  have u: "unat (?p + 1) = Suc (unat ?p)" "?p + 1 \<noteq> ?p"
    using unat_add_one[of ?p] R by (simp_all add: roomy_def)
  have free: "proj_pc hist k (dpcs s i) = Idle"
    using c(1) by (simp add: proj_pc_def)
  show "proj hist k s' = after_step (proj hist k s) i (Q\<lparr>popTicket := popTicket Q + 1\<rparr>) (Dequeueing (popTicket Q) DeqWaitTurn)"
    if m: "mine hist k (unat ?p)"
  proof -
    have n: "of_nat (share hist k (unat (?p + 1))) = popTicket Q + 1" "popTicket Q = ?p - refOffset (hist ! k)"
      unfolding u share_mine(2)[OF m] by (simp_all add: Q_def proj_queue_def ticket_split[OF m] flip: share_mine(1)[OF m])
    have "proj_pc hist k c = Dequeueing (?p - refOffset (hist ! k)) DeqWaitTurn"
      using c(2) m by (simp add: proj_pc_def)
    then show ?thesis
      using n c(3) free share_mine[OF m]
      by (simp add: proj_def s'_def after_dstep_def after_step_def pcs_upd u Q_def proj_queue_def array_view_def del: fun_upd_apply)
  qed
  show "proj hist k s' = proj hist k s" if m: "\<not> mine hist k (unat ?p)"
  proof -
    have "(\<lambda>j. proj_pc hist k (dpcs s j))(i := Idle) = (\<lambda>j. proj_pc hist k (dpcs s j))"
      using free by (auto simp: fun_eq_iff)
    moreover have "proj_pc hist k c = Idle"
      using c(2) m by (simp add: proj_pc_def)
    ultimately show ?thesis
      using c(3) share_other[OF m]
      by (simp add: proj_def s'_def after_dstep_def pcs_upd u proj_queue_def array_view_def del: fun_upd_apply)
  qed
qed

section \<open>Steps inside a cell\<close>

text \<open>Such a step is the step of the fixed queue on the array of the thread.\<close>

fun cell_pc :: "'a dpc \<Rightarrow> 'a pc" where
  "cell_pc (DEnqueue t r c v) = Enqueueing (t - refOffset r) c v"
| "cell_pc (DDequeue b t r c) = Dequeueing (t - refOffset r) c"
| "cell_pc (DWaitPush t r v) = WWaitTurn (t - refOffset r) v"
| "cell_pc (DWaitPop t r) = RWaitTurn (t - refOffset r)"
| "cell_pc _ = Idle"

fun cell_back :: "'a dpc \<Rightarrow> 'a pc \<Rightarrow> 'a dpc" where
  "cell_back (DEnqueue t r c v) p = (case p of Enqueueing u c' w \<Rightarrow> DEnqueue t r c' v | _ \<Rightarrow> DWReturn True)"
| "cell_back (DDequeue b t r c) p = (case p of
       Dequeueing u c' \<Rightarrow> DDequeue b t r c'
     | RReturn (Some (u, v)) \<Rightarrow> DRReturn (Some (if b then u else t, v))
     | _ \<Rightarrow> DRReturn None)"
| "cell_back (DWaitPush t r v) p = (case p of WPromised timed c w \<Rightarrow> DPromPushLoad True v | _ \<Rightarrow> DWReturn False)"
| "cell_back (DWaitPop t r) p = (case p of RPromised timed c \<Rightarrow> DPromPopLoad True | _ \<Rightarrow> DRReturn None)"
| "cell_back c p = c"

lemma dstep_cell:
  assumes "at_cell c" "located c = Some (b, t, r)" "refSlots r < length (arrays q)"
  shows "dstep E deadline alloc q c =
    bind_outcome (step (fixedEnv E) deadline (array_view q r) (cell_pc c)) (\<lambda>(a, p). Done (put_view q r a, cell_back c p))"
proof -
  have e: "after_denqueue t r v c' = cell_back (DEnqueue t r d v) (after_enqueue (t - refOffset r) v c')" for v c' d
    by (cases c') simp_all
  have d: "after_ddequeue adj t r c' = cell_back (DDequeue adj t r d) (after_dequeue (t - refOffset r) c')" for adj c' d
    by (cases c') simp_all
  show ?thesis
  proof (cases c)
    case (DEnqueue t' r' c' v)
    then show ?thesis
      using assms e[of v _ c'] by (cases "enqueueWithTicketBase (fixedEnv E) (array_view q r) (t - refOffset r) v c'")
        (auto simp: in_array_def)
  next
    case (DDequeue adj t' r' c')
    then show ?thesis
      using assms d[of adj _ c'] by (cases "dequeueWithTicketBase (fixedEnv E) (array_view q r) (t - refOffset r) c'")
        (auto simp: in_array_def)
  next
    case (DWaitPush t' r' v)
    then show ?thesis
      using assms by (cases "waitForPushTurnUntil (fixedEnv E) deadline (array_view q r) (t - refOffset r)") (auto simp: in_array_def)
  next
    case (DWaitPop t' r')
    then show ?thesis
      using assms by (cases "waitForPopTurnUntil (fixedEnv E) deadline (array_view q r) (t - refOffset r)") (auto simp: in_array_def)
  qed (use assms(1) in simp_all)
qed

lemma bind_outcome_assoc: "bind_outcome (bind_outcome m f) g = bind_outcome m (\<lambda>x. bind_outcome (f x) g)"
  by (cases m) simp_all

lemma bind_outcome_if: "bind_outcome (if b then m else m') f = (if b then bind_outcome m f else bind_outcome m' f)"
  by simp

lemma cell_step_counters:
  assumes "at_cell c"
  shows "step B d (a\<lparr>pushTicket := x, popTicket := y\<rparr>) (cell_pc c) =
    bind_outcome (step B d a (cell_pc c)) (\<lambda>(a', p). Done (a'\<lparr>pushTicket := x, popTicket := y\<rparr>, p))"
proof -
  note simps = with_slot_def slotIdx_def bind_outcome_assoc bind_outcome_if split_def
  show ?thesis
  proof (cases c)
    case (DEnqueue t r c' v)
    then show ?thesis
      by (cases a; cases c'; simp add: simps)
  next
    case (DDequeue b t r c')
    then show ?thesis
      by (cases a; cases c'; simp add: simps)
  next
    case (DWaitPush t r v)
    then show ?thesis
      by (cases a) (simp add: waitForPushTurnUntil_def simps)
  next
    case (DWaitPop t r)
    then show ?thesis
      by (cases a) (simp add: waitForPopTurnUntil_def simps)
  qed (use assms in simp_all)
qed

lemma cell_step_keeps:
  assumes "at_cell c" "step B d a (cell_pc c) = Done (a', p)"
  shows "capacity a' = capacity a" "stride a' = stride a" "pushTicket a' = pushTicket a" "popTicket a' = popTicket a"
    "length (slots a') = length (slots a)"
proof -
  have "capacity a' = capacity a \<and> stride a' = stride a \<and> pushTicket a' = pushTicket a \<and> popTicket a' = popTicket a \<and>
      length (slots a') = length (slots a)"
  proof (cases c)
    case (DEnqueue t r c' v)
    then show ?thesis
      using assms(2) by (cases c') (auto simp: with_slot_def bind_outcome_Done_iff split: if_splits)
  next
    case (DDequeue b t r c')
    then show ?thesis
      using assms(2) by (cases c') (auto simp: with_slot_def bind_outcome_Done_iff split: if_splits)
  qed (use assms in \<open>auto simp: waitForPushTurnUntil_def waitForPopTurnUntil_def with_slot_def bind_outcome_Done_iff split: if_splits\<close>)
  then show "capacity a' = capacity a" "stride a' = stride a" "pushTicket a' = pushTicket a" "popTicket a' = popTicket a"
    "length (slots a') = length (slots a)"
    by simp_all
qed

text \<open>What the array of the thread sees of the thread after the step.\<close>

definition settle :: "'a pc \<Rightarrow> 'a pc" where
  "settle p = (if stage_of p = Free then Idle else p)"

lemma cell_step_back:
  assumes "at_cell c" "located c = Some (b, t, hist ! k)" "mine hist k (unat t)" "step B d a (cell_pc c) = Done (a', p)"
  shows "proj_pc hist k (cell_back c p) = settle p" "new_push p = []" "new_pop p = 0"
proof -
  have e: "proj_pc hist k (cell_back c p) = settle p \<and> new_push p = [] \<and> new_pop p = 0"
  proof (cases c)
    case (DEnqueue t' r c' v)
    then show ?thesis
      using assms by (cases c') (auto simp: with_slot_def bind_outcome_Done_iff proj_pc_def settle_def split: if_splits)
  next
    case (DDequeue b' t' r c')
    then show ?thesis
      using assms by (cases c') (auto simp: with_slot_def bind_outcome_Done_iff proj_pc_def settle_def split: if_splits)
  qed (use assms in \<open>auto simp: bind_outcome_Done_iff proj_pc_def settle_def split: if_splits\<close>)
  then show "proj_pc hist k (cell_back c p) = settle p" "new_push p = []" "new_pop p = 0"
    by simp_all
qed

lemma cell_handing:
  assumes "at_cell c" "located c = Some (b, t, hist ! k)" "mine hist k (unat t)"
  shows "map (\<lambda>(t, v). (t - off hist k, v)) (filter (\<lambda>(t, v). mine hist k t) (handing c)) = new_delivery (cell_pc c)"
proof (cases c)
  case (DDequeue b' t' r c')
  then show ?thesis
    using assms ticket_split(2)[OF assms(3)] by (cases c') simp_all
qed (use assms in simp_all)

section \<open>Simulations that only touch what does not matter\<close>

lemma sim_cutoffs:
  assumes "sim tb cur E N s r" "queue s' = (queue s)\<lparr>pushSpinCutoff := x, popSpinCutoff := y\<rparr>" "pcs s' = pcs s" "pushed s' = pushed s"
    "popsIssued s' = popsIssued s" "delivered s' = delivered s"
  shows "sim tb cur E N s' r"
  using assms by (simp add: sim_def queue_match_def cells_match_def wf_queue_def cell_def)

lemma sim_pc:
  assumes "sim tb cur E N s r" "stage_of (pcs s i) = Free" "stage_of p = Free" "local_ok r p" "i < N"
  shows "sim tb cur E N (s\<lparr>pcs := (pcs s)(i := p)\<rparr>) r"
  using assms by (auto simp: sim_def)

lemma sim_settle:
  assumes "sim tb cur E N s r"
  shows "sim tb cur E N (s\<lparr>pcs := (pcs s)(i := settle (pcs s i))\<rparr>) r"
  using assms by (auto simp: sim_def settle_def)

section \<open>Cells\<close>

lemma view_put:
  assumes "refSlots r < length (arrays q)" "capacity a = refCap r" "stride a = refStride r"
    "pushTicket a = dpushTicket q" "popTicket a = dpopTicket q"
  shows "array_view (put_view q r a) r = a"
    and "refSlots r' \<noteq> refSlots r \<Longrightarrow> array_view (put_view q r a) r' =
      (array_view q r')\<lparr>pushSpinCutoff := pushSpinCutoff a, popSpinCutoff := popSpinCutoff a\<rparr>"
  using assms by (cases a; simp add: array_view_def put_view_def)+

lemma share_reaches:
  assumes "mine hist k t" "t \<le> x"
  shows "t - off hist k \<le> share hist k x"
  using assms by (auto simp: share_def mine_def)

lemma unat_share: "unat (of_nat (share hist k (unat (x :: u64))) :: u64) = share hist k (unat x)"
proof -
  have "unat x < 2 ^ 64"
    using unsigned_less[of x] by simp
  then have "share hist k (unat x) < 2 ^ 64"
    using share_le[of hist k "unat x"] by linarith
  then show ?thesis
    by (intro unat_of_nat_small) simp
qed

lemma cell_pc_sim:
  assumes S: "sim tb cur B N (proj hist k s) r0" and i: "i < N"
    and c: "at_cell (dpcs s i)" "located (dpcs s i) = Some (b, t, hist ! k)" "mine hist k (unat t)"
    and W: "ticket_le (dpushTicket (dqueue s)) (dpopTicket (dqueue s)) b t"
  shows "sim tb cur B N ((proj hist k s)\<lparr>pcs := (pcs (proj hist k s))(i := cell_pc (dpcs s i))\<rparr>) r0"
proof -
  have m: "pushes r0 = share hist k (unat (dpushTicket (dqueue s)))" "pops r0 = share hist k (unat (dpopTicket (dqueue s)))"
    using queue_matchD(4,5)[OF simD(2)[OF S]] by (simp_all add: proj_queue_def unat_share)
  have le: "unat (t - refOffset (hist ! k)) \<le> share hist k (unat x)" if "t \<le> x" for x
    using share_reaches[OF c(3)] that by (simp add: ticket_split(2)[OF c(3)] word_le_nat_alt)
  show ?thesis
  proof (cases "dpcs s i")
    case (DWaitPush t' r v)
    then show ?thesis
      using c W le m by (intro sim_pc[OF S _ _ _ i]) (auto simp: proj_pc_def ticket_le_def)
  next
    case (DWaitPop t' r)
    then show ?thesis
      using c W le m by (intro sim_pc[OF S _ _ _ i]) (auto simp: proj_pc_def ticket_le_def)
  next
    case (DEnqueue t' r c' v)
    then have "cell_pc (dpcs s i) = pcs (proj hist k s) i"
      using c by (simp add: proj_pc_def)
    then show ?thesis
      using S by (metis fun_upd_triv sys.surjective sys.update_convs(2))
  next
    case (DDequeue b' t' r c')
    then have "cell_pc (dpcs s i) = pcs (proj hist k s) i"
      using c by (simp add: proj_pc_def)
    then show ?thesis
      using S by (metis fun_upd_triv sys.surjective sys.update_convs(2))
  qed (use c(1) in simp_all)
qed

lemma cell_sim:
  fixes s :: "('ts, 'a) dsys"
  assumes S: "sim tb cur (fixedEnv E) N (proj hist k s) r0" and G: "good_env tb cur (fixedEnv E) N" and R: "has_room (proj hist k s)"
    and i: "i < N" and c: "at_cell (dpcs s i)" "located (dpcs s i) = Some (b, t, hist ! k)" "mine hist k (unat t)"
    and W: "ticket_le (dpushTicket (dqueue s)) (dpopTicket (dqueue s)) b t" and l: "refSlots (hist ! k) < length (arrays (dqueue s))"
  shows "dstep E d al (dqueue s) (dpcs s i) \<noteq> Undefined"
    and "dstep E d al (dqueue s) (dpcs s i) = Done (q', c') \<Longrightarrow> \<exists>r'. sim tb cur (fixedEnv E) N (proj hist k (after_dstep s i q' c')) r'"
proof -
  let ?V = "array_view (dqueue s) (hist ! k)" and ?Q = "proj_queue hist k (dqueue s)" and ?p = "cell_pc (dpcs s i)"
  let ?x = "of_nat (share hist k (unat (dpushTicket (dqueue s))))" and ?y = "of_nat (share hist k (unat (dpopTicket (dqueue s))))"
  let ?S = "(proj hist k s)\<lparr>pcs := (pcs (proj hist k s))(i := ?p)\<rparr>"
  have S1: "sim tb cur (fixedEnv E) N ?S r0"
    by (rule cell_pc_sim[OF S i c W])
  have R1: "has_room ?S"
    using R by (simp add: has_room_def)
  have "inside ?p"
    using c(1) by (cases "dpcs s i") simp_all
  then have "simulated tb cur (fixedEnv E) N r0 ?S i (step (fixedEnv E) d ?Q ?p)"
    using simulated_step[OF S1 G R1 i] by simp
  then have sm: "simulated tb cur (fixedEnv E) N r0 ?S i
      (bind_outcome (step (fixedEnv E) d ?V ?p) (\<lambda>(a', p). Done (a'\<lparr>pushTicket := ?x, popTicket := ?y\<rparr>, p)))"
    unfolding proj_queue_def cell_step_counters[OF c(1)] .
  have ds: "dstep E d al (dqueue s) (dpcs s i) =
      bind_outcome (step (fixedEnv E) d ?V ?p) (\<lambda>(a, p). Done (put_view (dqueue s) (hist ! k) a, cell_back (dpcs s i) p))"
    by (rule dstep_cell[OF c(1,2) l])
  show "dstep E d al (dqueue s) (dpcs s i) \<noteq> Undefined"
    unfolding ds using sm by (cases "step (fixedEnv E) d ?V ?p") auto
  assume "dstep E d al (dqueue s) (dpcs s i) = Done (q', c')"
  then obtain a p where a: "step (fixedEnv E) d ?V ?p = Done (a, p)" "q' = put_view (dqueue s) (hist ! k) a" "c' = cell_back (dpcs s i) p"
    unfolding ds by (auto simp: bind_outcome_Done_iff)
  let ?A = "a\<lparr>pushTicket := ?x, popTicket := ?y\<rparr>"
  obtain r' where r': "sim tb cur (fixedEnv E) N (after_step ?S i ?A p) r'"
    using sm a(1) by (auto simp: sim_to_def)
  note keep = cell_step_keeps[OF c(1) a(1)] and home = cell_step_back[OF c a(1)]
  have v: "array_view q' (hist ! k) = a"
    unfolding a(2) using l keep by (intro view_put(1)) (simp_all add: array_view_def)
  have t: "dpushTicket q' = dpushTicket (dqueue s)" "dpopTicket q' = dpopTicket (dqueue s)"
    by (simp_all add: a(2) put_view_def)
  have del: "map (\<lambda>(t, v). (t - off hist k, v)) (filter (\<lambda>(t, v). mine hist k t) (ddelivered s @ handing (dpcs s i))) =
      delivered (proj hist k s) @ new_delivery ?p"
    unfolding filter_append map_append cell_handing[OF c] by (simp add: proj_def)
  have "proj hist k (after_dstep s i q' c') = (after_step ?S i ?A p)\<lparr>pcs := (pcs (after_step ?S i ?A p))(i := settle (pcs (after_step ?S i ?A p) i))\<rparr>"
    using v t home del
    by (simp add: proj_def after_dstep_def after_step_def proj_queue_def pcs_upd a(3) del: fun_upd_apply filter_append map_append) auto
  then show "\<exists>r'. sim tb cur (fixedEnv E) N (proj hist k (after_dstep s i q' c')) r'"
    using sim_settle[OF r', of i] by metis
qed

lemma cell_sim_other:
  fixes s :: "('ts, 'a) dsys"
  assumes S: "sim tb cur B N (proj hist j s) r0" and j: "refSlots (hist ! j) \<noteq> refSlots (hist ! k)"
    and c: "at_cell (dpcs s i)" "located (dpcs s i) = Some (b, t, hist ! k)" "\<not> mine hist j (unat t)"
    and l: "refSlots (hist ! k) < length (arrays (dqueue s))" and d: "dstep E d al (dqueue s) (dpcs s i) = Done (q', c')"
  shows "sim tb cur B N (proj hist j (after_dstep s i q' c')) r0"
proof -
  let ?V = "array_view (dqueue s) (hist ! k)"
  obtain a p where a: "step (fixedEnv E) d ?V (cell_pc (dpcs s i)) = Done (a, p)" "q' = put_view (dqueue s) (hist ! k) a"
      "c' = cell_back (dpcs s i) p"
    using d unfolding dstep_cell[OF c(1,2) l] by (auto simp: bind_outcome_Done_iff)
  note keep = cell_step_keeps[OF c(1) a(1)]
  have v: "array_view q' (hist ! j) = (array_view (dqueue s) (hist ! j))\<lparr>pushSpinCutoff := pushSpinCutoff a, popSpinCutoff := popSpinCutoff a\<rparr>"
    unfolding a(2) using l keep j by (intro view_put(2)) (simp_all add: array_view_def)
  have t: "dpushTicket q' = dpushTicket (dqueue s)" "dpopTicket q' = dpopTicket (dqueue s)"
    by (simp_all add: a(2) put_view_def)
  have h: "proj_pc hist j c' = proj_pc hist j (dpcs s i)" "filter (\<lambda>(t, v). mine hist j t) (handing (dpcs s i)) = []"
  proof -
    have "holds (dpcs s i) = None \<or> (\<exists>f. holds (dpcs s i) = Some (t, f))" "holds c' = None \<or> (\<exists>f. holds c' = Some (t, f))"
      using c(1,2) by (cases "dpcs s i"; auto simp: a(3) split: pc.splits option.splits)+
    then show "proj_pc hist j c' = proj_pc hist j (dpcs s i)"
      using c(3) by (auto simp: proj_pc_def)
    show "filter (\<lambda>(t, v). mine hist j t) (handing (dpcs s i)) = []"
      using c by (cases "dpcs s i" rule: handing.cases) auto
  qed
  have "(\<lambda>j'. proj_pc hist j (dpcs s j'))(i := proj_pc hist j (dpcs s i)) = (\<lambda>j'. proj_pc hist j (dpcs s j'))"
    by (auto simp: fun_eq_iff)
  with v t h show ?thesis
    by (intro sim_cutoffs[OF S, where x = "pushSpinCutoff a" and y = "popSpinCutoff a"])
      (simp_all add: proj_def after_dstep_def proj_queue_def pcs_upd del: fun_upd_apply)
qed

section \<open>Kinds of steps\<close>

text \<open>Outside a cell and outside an expansion a step leaves the queue alone or takes a ticket.\<close>

fun in_section :: "bool \<Rightarrow> u64 \<Rightarrow> 'a dpc \<Rightarrow> bool" where
  "in_section b u (DSection (JWrite t v) c) = (b \<and> u = t)"
| "in_section b u (DSection (JRead t) c) = (\<not> b \<and> u = t)"
| "in_section b u _ = False"

definition takes_push :: "('ts, 'a) DynQueue \<Rightarrow> 'a dpc \<Rightarrow> ('ts, 'a) DynQueue \<Rightarrow> 'a dpc \<Rightarrow> bool" where
  "takes_push q c q' c' \<longleftrightarrow> q' = q\<lparr>dpushTicket := dpushTicket q + 1\<rparr> \<and> holds c = None \<and>
     (\<exists>v. holds c' = Some (dpushTicket q, \<lambda>u. Enqueueing u EnqWaitTurn v) \<and> pushing c = [v]) \<and>
     (in_section True (dpushTicket q) c' \<or> (\<exists>r. located c = Some (True, dpushTicket q, r)))"

definition takes_pop :: "('ts, 'a) DynQueue \<Rightarrow> 'a dpc \<Rightarrow> ('ts, 'a) DynQueue \<Rightarrow> 'a dpc \<Rightarrow> bool" where
  "takes_pop q c q' c' \<longleftrightarrow> q' = q\<lparr>dpopTicket := dpopTicket q + 1\<rparr> \<and> holds c = None \<and>
     holds c' = Some (dpopTicket q, \<lambda>u. Dequeueing u DeqWaitTurn) \<and>
     (in_section False (dpopTicket q) c' \<or> (\<exists>r. located c = Some (False, dpopTicket q, r)))"

lemma holds_after:
  "holds (restart job) = job_holds job"
  "is_push job \<or> job_holds job = None \<Longrightarrow> holds (give_up job r) = job_holds job"
  "holds (after_section job found st cap r) = job_holds job"
  "is_push job \<or> job_holds job = None \<Longrightarrow> holds (after_check job st r may) = job_holds job"
  "is_push job \<or> job_holds job = None \<Longrightarrow> holds (after_load q job st r) = job_holds job"
  "is_push job \<or> job_holds job = None \<Longrightarrow> holds (after_expand job st r e) = job_holds job"
  by (cases job; cases e; simp)+

lemma section_holds:
  assumes "section_step q job c = Done c'"
  shows "holds c' = job_holds job"
  using assms
  by (auto simp: section_step_def bind_outcome_Done_iff holds_after split: section_pc.splits)

lemma plain_kinds:
  assumes P: "point_ok p d hist w c" and c: "\<not> at_cell c" "dinside c" "\<And>job st r e. c \<noteq> DExpand job st r e"
    and out: "dstep E dl al q c = Done (q', c')"
  shows "q' = q \<and> holds c' = holds c \<or> takes_push q c q' c' \<or> takes_pop q c q' c'"
proof (cases c)
  case (DSection job sc)
  then show ?thesis
    using out section_holds by (auto simp: bind_outcome_Done_iff)
next
  case (DCheck job st r)
  then have "is_push job \<or> job_holds job = None"
    using P by (cases job) auto
  then show ?thesis
    using out DCheck by (auto simp: bind_outcome_Done_iff holds_after)
next
  case (DLoad job st r)
  then show ?thesis
    using out P by (auto simp: holds_after)
next
  case (DCas job r)
  then show ?thesis
    using out by (cases job) (auto simp: takes_push_def takes_pop_def split: if_splits)
next
  case (DExpand job st r e)
  then show ?thesis
    using c(3) by blast
next
  case (DWriteStart v)
  then show ?thesis
    using out by (auto simp: takes_push_def)
next
  case DReadStart
  then show ?thesis
    using out by (auto simp: takes_pop_def)
qed (use c(1,2) out in auto)

lemma expand_kind:
  assumes "dstep E dl al q (DExpand job st r e) = Done (q', c')" "is_push job"
  shows "holds c' = job_holds job" "dpushTicket q' = dpushTicket q" "dpopTicket q' = dpopTicket q"
    "dpushSpinCutoff q' = dpushSpinCutoff q" "dpopSpinCutoff q' = dpopSpinCutoff q" "\<exists>xs. arrays q' = arrays q @ xs"
proof -
  obtain e' where e: "tryExpand E al q st (refCap r) e = Done (q', e')" "c' = after_expand job st r e'"
    using assms(1) by (auto simp: bind_outcome_Done_iff)
  show "holds c' = job_holds job"
    using e(2) assms(2) by (simp add: holds_after)
  show "dpushTicket q' = dpushTicket q" "dpopTicket q' = dpopTicket q"
    "dpushSpinCutoff q' = dpushSpinCutoff q" "dpopSpinCutoff q' = dpopSpinCutoff q" "\<exists>xs. arrays q' = arrays q @ xs"
    using e(1) by (cases e; auto simp: Let_def split: if_splits)+
qed

lemma view_same:
  assumes "dpushTicket q' = dpushTicket q" "dpopTicket q' = dpopTicket q" "dpushSpinCutoff q' = dpushSpinCutoff q"
    "dpopSpinCutoff q' = dpopSpinCutoff q" "arrays q' = arrays q @ xs" "refSlots r < length (arrays q)"
  shows "array_view q' r = array_view q r"
  using assms by (simp add: array_view_def nth_append)

section \<open>Tickets taken during an expansion\<close>

abbreviation counter :: "('ts, 'a) DynQueue \<Rightarrow> bool \<Rightarrow> u64" where
  "counter q b \<equiv> if b then dpushTicket q else dpopTicket q"

text \<open>Tickets that the new array will serve are still with operations that have not been through their read section, and
  the new array has not been used.\<close>

definition late_inv :: "'ts dyn_env \<Rightarrow> ('ts, 'a) DynQueue \<Rightarrow> (nat \<Rightarrow> 'a dpc) \<Rightarrow> bool" where
  "late_inv E q P \<longleftrightarrow> (\<forall>k e b u. lock_pc (P k) = Some e \<longrightarrow> expand_floor E q e \<le> unat u \<longrightarrow> u < counter q b \<longrightarrow>
     (\<exists>i. in_section b u (P i)))"

fun fresh_array :: "expand_pc \<Rightarrow> (nat \<times> u64) option" where
  "fresh_array (ExpandSlots t sl n) = Some (sl, n)"
| "fresh_array (ExpandCapacity t sl n) = Some (sl, n)"
| "fresh_array (ExpandStride t sl n) = Some (sl, n)"
| "fresh_array (ExpandRelease t sl n) = Some (sl, n)"
| "fresh_array _ = None"

definition fresh_inv :: "'ts dyn_env \<Rightarrow> ('ts, 'a) DynQueue \<Rightarrow> (nat \<Rightarrow> 'a dpc) \<Rightarrow> bool" where
  "fresh_inv E q P \<longleftrightarrow> (\<forall>k e sl n. lock_pc (P k) = Some e \<longrightarrow> fresh_array e = Some (sl, n) \<longrightarrow> arrays q ! sl = newArray E n)"

lemma locked_now:
  assumes "dyn_inv E c0 q hist P" "lock_pc (P k) = Some e"
  shows "locked (dstate q)"
  using dyn_unlocked(1)[OF assms(1), of k] assms(2) by auto

lemma section_locked:
  assumes I: "dyn_inv E c0 q hist P" and k: "lock_pc (P k) = Some e" and i: "in_section b u (P i)"
    and out: "dstep E dl al q (P i) = Done (q', c')"
  shows "in_section b u c'"
proof -
  obtain job c where c: "P i = DSection job c" "job_holds job \<noteq> None"
    using i by (cases "(b, u, P i)" rule: in_section.cases) auto
  have "section_ok hist (storing P) c"
    using dyn_invD(5)[OF I, of i] c(1) by simp
  moreover have "\<not> locked st \<Longrightarrow> st \<noteq> dstate q" for st
    using locked_now[OF I k] by auto
  ultimately have "(\<exists>sc. section_step q job c = Done (DSection job sc)) \<or> section_step q job c = Done (restart job)"
    using locked_now[OF I k] by (cases c) (auto simp: section_step_def state_ok_def)
  then show ?thesis
    using i out c by (cases job) (auto simp: bind_outcome_Done_iff)
qed

lemma late_inv_others:
  assumes L: "late_inv E q P" and f: "\<And>e. expand_floor E q e \<le> expand_floor E q' e"
    and s: "\<And>k e b u. lock_pc (P k) = Some e \<Longrightarrow> in_section b u (P i) \<Longrightarrow> in_section b u c'"
    and k: "k \<noteq> i" "lock_pc (P k) = Some e" "expand_floor E q' e \<le> unat u" "u < counter q b"
  shows "\<exists>j. in_section b u ((P(i := c')) j)"
proof -
  have "expand_floor E q e \<le> unat u"
    using f[of e] k(3) by simp
  then obtain j where "in_section b u (P j)"
    using L k(2,4) unfolding late_inv_def by blast
  then show ?thesis
    using s[OF k(2)] by (cases "j = i") auto
qed

lemma lock_after:
  "lock_pc (restart job) = None" "lock_pc (give_up job r) = None" "lock_pc (after_section job found st cap r) = None"
  "lock_pc (after_check job st r may) = None" "lock_pc (after_load q job st r) = None"
  by (cases job; simp)+

lemma plain_lock:
  assumes "\<not> at_cell c" "\<And>job st r e. c \<noteq> DExpand job st r e" "dstep E dl al q c = Done (q', c')"
  shows "lock_pc c = None \<and> lock_pc c' = None"
proof (cases c)
  case (DSection job sc)
  then show ?thesis
    using assms(3) by (auto simp: bind_outcome_Done_iff section_step_def lock_after split: section_pc.splits)
next
  case (DCheck job st r)
  then show ?thesis
    using assms(3) by (auto simp: bind_outcome_Done_iff lock_after)
next
  case (DLoad job st r)
  then show ?thesis
    using assms(3) by (auto simp: lock_after)
next
  case (DCas job r)
  then show ?thesis
    using assms(3) by (cases job) (auto split: if_splits)
next
  case (DExpand job st r e)
  then show ?thesis
    using assms(2) by blast
qed (use assms(1,3) in auto)

lemma late_plain:
  assumes I: "dyn_inv E c0 q hist P" and L: "late_inv E q P" and R: "roomy q"
    and c: "\<not> at_cell (P i)" "dinside (P i)" "\<And>job st r e. P i \<noteq> DExpand job st r e"
    and out: "dstep E dl al q (P i) = Done (q', c')"
  shows "late_inv E q' (P(i := c'))"
  unfolding late_inv_def
proof (intro allI impI)
  fix k e b u
  assume a: "lock_pc ((P(i := c')) k) = Some e" "expand_floor E q' e \<le> unat u" "u < counter q' b"
  note pl = plain_lock[OF c(1,3) out]
  then have k: "k \<noteq> i" "lock_pc (P k) = Some e"
    using a(1) by (auto split: if_splits)
  have kinds: "q' = q \<and> holds c' = holds (P i) \<or> takes_push q (P i) q' c' \<or> takes_pop q (P i) q' c'"
    by (rule plain_kinds[OF dyn_invD(5)[OF I] c out])
  then have S: "same_arrays q q'"
    using same_push[OF R] same_pop[OF R] same_refl[of q] by (auto simp: takes_push_def takes_pop_def)
  show "\<exists>j. in_section b u ((P(i := c')) j)"
  proof (cases "u < counter q b")
    case True
    show ?thesis
      by (rule late_inv_others[OF L same_floor[OF S] _ k a(2) True]) (rule section_locked[OF I _ _ out])
  next
    case False
    obtain job' st' r' where h: "P k = DExpand job' st' r' e"
      using lock_pc_Expand[of "P k"] k(2) by auto
    have nl: "located (P i) \<noteq> Some (b', u, r)" for b' r
      using holder_facts(5)[OF I h k(2), of i b' u r] same_floor[OF S, of E e] a(2) by auto
    have u1: "unat (dpushTicket q + 1) = unat (dpushTicket q) + 1" "unat (dpopTicket q + 1) = unat (dpopTicket q) + 1"
      using R by (intro unat_add_one; simp add: roomy_def)+
    consider "takes_push q (P i) q' c'" "b" "u = dpushTicket q" | "takes_pop q (P i) q' c'" "\<not> b" "u = dpopTicket q"
      using kinds False a(3) u1
      by (auto simp: takes_push_def takes_pop_def word_less_nat_alt word_le_nat_alt not_less less_Suc_eq word_unat_eq_iff split: if_splits)
    then have "in_section b u c'"
      using nl by cases (auto simp: takes_push_def takes_pop_def)
    then show ?thesis
      by (intro exI[of _ i]) simp
  qed
qed

lemma after_expand_lock:
  assumes "lock_pc (after_expand job st r e) = Some d"
  shows "e = d" "after_expand job st r e = DExpand job st r d"
proof -
  have "e = d \<and> after_expand job st r e = DExpand job st r d"
    using assms by (cases e) (auto simp: lock_after split: if_splits)
  then show "e = d" "after_expand job st r e = DExpand job st r d"
    by blast+
qed

lemma offset_exact:
  assumes "phase_ok E q c0 hist (ExpandLoad2 x)" "roomy q"
  shows "unat (1 + max x (if pushFirst E then dpopTicket q else dpushTicket q)) = expand_floor E q (ExpandLoad2 x)"
proof -
  let ?y = "if pushFirst E then dpopTicket q else dpushTicket q"
  have x: "unat x < 2 ^ 58 - 1"
    using assms by (auto simp: roomy_def word_le_nat_alt split: if_splits)
  have m: "unat (max x ?y) = max (unat x) (unat ?y)"
    by (simp add: max_def word_le_nat_alt)
  have "unat ?y < 2 ^ 58 - 1"
    using assms(2) by (auto simp: roomy_def)
  with x m have "unat (max x ?y) < 2 ^ 58 - 1"
    by (simp only: max_less_iff_conj)
  then have "unat (max x ?y + 1) = unat (max x ?y) + 1"
    by (intro unat_add_one) simp
  then show ?thesis
    by (simp add: m add.commute)
qed

lemma late_expand:
  assumes I: "dyn_inv E c0 q hist P" and L: "late_inv E q P" and R: "roomy q" and i: "P i = DExpand job st r e" "is_push job"
    and out: "dstep E dl al q (P i) = Done (q', c')"
  shows "late_inv E q' (P(i := c'))"
  unfolding late_inv_def
proof (intro allI impI)
  fix k d b u
  assume a: "lock_pc ((P(i := c')) k) = Some d" "expand_floor E q' d \<le> unat u" "u < counter q' b"
  note same = expand_kind(2,3)[OF out[unfolded i(1)] i(2)]
  have f: "expand_floor E q' d = expand_floor E q d" for d
    using same by (cases d) auto
  have ns: "\<not> in_section b u (P i)"
    by (simp add: i(1))
  have old: "\<exists>j. in_section b u ((P(i := c')) j)" if o: "lock_pc (P k) = Some d'" "expand_floor E q d' \<le> unat u" for d'
  proof -
    have "u < counter q b"
      using a(3) same by (simp split: if_splits)
    then obtain j where "in_section b u (P j)"
      using L o unfolding late_inv_def by blast
    then show ?thesis
      using ns by (intro exI[of _ j]) (cases "j = i"; simp)
  qed
  show "\<exists>j. in_section b u ((P(i := c')) j)"
  proof (cases "k = i")
    case False
    then show ?thesis
      using a(1,2) f by (intro old[of d]) simp_all
  next
    case True
    obtain e' where e: "tryExpand E al q st (refCap r) e = Done (q', e')" "c' = after_expand job st r e'"
      using out by (auto simp: i(1) bind_outcome_Done_iff)
    have "lock_pc (after_expand job st r e') = Some d"
      using a(1) True e(2) by simp
    note d = after_expand_lock[OF this]
    have fl: "expand_floor E q d \<le> unat u"
      using a(2) f by simp
    have above: "\<not> 1 + max (unat (dpushTicket q)) (unat (dpopTicket q)) \<le> unat u"
      using a(3) same by (auto simp: word_less_nat_alt split: if_splits)
    show ?thesis
    proof (cases e)
      case ExpandCas
      then show ?thesis
        using e(1) d(1) fl above by (auto split: if_splits)
    next
      case ExpandLoad
      then show ?thesis
        using e(1) d(1) fl above by (cases "pushFirst E") auto
    next
      case (ExpandLoad2 x)
      have lk: "lock_pc (P i) = Some (ExpandLoad2 x)"
        by (simp add: i(1) ExpandLoad2)
      have "phase_ok E q c0 hist (ExpandLoad2 x)"
        using holder_facts(4)[OF I i(1)[unfolded ExpandLoad2] lk] .
      then have "expand_floor E q (ExpandLoad2 x) \<le> unat u"
        using offset_exact[OF _ R] e(1) d(1) fl ExpandLoad2 by fastforce
      then show ?thesis
        using lk True old[of "ExpandLoad2 x"] by auto
    next
      case (ExpandAlloc t)
      have "lock_pc (P k) = Some (ExpandAlloc t)"
        by (simp add: True i(1) ExpandAlloc)
      then show ?thesis
        using e(1) d(1) fl above old[of "ExpandAlloc t"] ExpandAlloc by (auto simp: Let_def split: if_splits)
    next
      case (ExpandSlots t sl n)
      then show ?thesis
        using e(1) d(1) fl True i(1) by (intro old[of e]) auto
    next
      case (ExpandCapacity t sl n)
      then show ?thesis
        using e(1) d(1) fl True i(1) by (intro old[of e]) auto
    next
      case (ExpandStride t sl n)
      then show ?thesis
        using e(1) d(1) fl True i(1) by (intro old[of e]) auto
    qed (use e d a(1) True in \<open>auto simp: lock_after\<close>)
  qed
qed

lemma cell_result:
  assumes "at_cell c" "dstep E dl al q c = Done (q', c')"
  obtains b t r a p where "located c = Some (b, t, r)" "refSlots r < length (arrays q)"
    "step (fixedEnv E) dl (array_view q r) (cell_pc c) = Done (a, p)" "q' = put_view q r a" "c' = cell_back c p"
proof -
  obtain b t r where l: "located c = Some (b, t, r)"
    using assms(1) by (cases c) auto
  have sl: "refSlots r < length (arrays q)"
    using assms l by (cases c) (auto simp: in_array_def split: if_splits)
  obtain a p where "step (fixedEnv E) dl (array_view q r) (cell_pc c) = Done (a, p)" "q' = put_view q r a" "c' = cell_back c p"
    using assms(2) unfolding dstep_cell[OF assms(1) l sl] by (auto simp: bind_outcome_Done_iff)
  then show thesis
    using that l sl by blast
qed

lemma cell_lock:
  assumes "at_cell c"
  shows "lock_pc c = None" "lock_pc (cell_back c p) = None" "\<not> in_section b u c"
proof -
  show "lock_pc c = None" "\<not> in_section b u c"
    using assms by (cases c; simp)+
  show "lock_pc (cell_back c p) = None"
    using assms by (cases c) (auto split: pc.splits option.splits)
qed

lemma late_cell:
  assumes L: "late_inv E q P" and c: "at_cell (P i)" and out: "dstep E dl al q (P i) = Done (q', c')"
  shows "late_inv E q' (P(i := c'))"
  unfolding late_inv_def
proof (intro allI impI)
  fix k e b u
  assume a: "lock_pc ((P(i := c')) k) = Some e" "expand_floor E q' e \<le> unat u" "u < counter q' b"
  obtain r x p where q': "q' = put_view q r x" "c' = cell_back (P i) p"
    using cell_result[OF c out] by metis
  have f: "expand_floor E q e \<le> expand_floor E q' e" for e
    by (cases e) (simp_all add: q'(1) put_view_def)
  have k: "k \<noteq> i" "lock_pc (P k) = Some e"
    using a(1) cell_lock(2)[OF c] by (auto simp: q'(2) split: if_splits)
  have lt: "u < counter q b"
    using a(3) by (simp add: q'(1) put_view_def split: if_splits)
  show "\<exists>j. in_section b u ((P(i := c')) j)"
    by (rule late_inv_others[OF L f _ k a(2) lt]) (use cell_lock(3)[OF c] in blast)
qed

text \<open>Fresh arrays.\<close>

lemma fresh_slot:
  assumes I: "dyn_inv E c0 q hist P" and k: "lock_pc (P k) = Some e" "fresh_array e = Some (sl, n)"
  shows "sl < length (arrays q)" "r \<in> set hist \<Longrightarrow> refSlots r \<noteq> sl"
proof -
  obtain job st r' where h: "P k = DExpand job st r' e"
    using lock_pc_Expand[of "P k"] k(1) by auto
  then have "phase_ok E q c0 hist e"
    by (rule holder_facts(4)[OF I _ k(1)])
  then obtain t where "hist_inv E q c0 (hist @ [newRef t sl n])"
    using k(2) by (cases e) (auto simp: new_ok_def)
  then show "sl < length (arrays q)" "r \<in> set hist \<Longrightarrow> refSlots r \<noteq> sl"
    by (auto simp: hist_inv_def ref_ok_def newRef_def)
qed

lemma fresh_keep:
  assumes F: "fresh_inv E q P" and c: "lock_pc c' = None"
    and a: "\<And>k e sl n. lock_pc (P k) = Some e \<Longrightarrow> fresh_array e = Some (sl, n) \<Longrightarrow> arrays q' ! sl = arrays q ! sl"
  shows "fresh_inv E q' (P(i := c'))"
  using F c a unfolding fresh_inv_def by (auto split: if_splits)

lemma fresh_plain:
  assumes F: "fresh_inv E q P" and c: "\<not> at_cell (P i)" "\<And>job st r e. P i \<noteq> DExpand job st r e"
    and out: "dstep E dl al q (P i) = Done (q', c')" and a: "arrays q' = arrays q"
  shows "fresh_inv E q' (P(i := c'))"
  by (rule fresh_keep[OF F]) (use plain_lock[OF c out] a in simp_all)

lemma fresh_cell:
  assumes I: "dyn_inv E c0 q hist P" and F: "fresh_inv E q P" and c: "at_cell (P i)" and out: "dstep E dl al q (P i) = Done (q', c')"
  shows "fresh_inv E q' (P(i := c'))"
proof -
  obtain b t r x p where x: "located (P i) = Some (b, t, r)" "q' = put_view q r x" "c' = cell_back (P i) p"
    using cell_result[OF c out] by metis
  have "rising hist"
    using dyn_invD(2)[OF I] by (simp add: hist_inv_def)
  then have r: "r \<in> set hist"
    using own_ticket(1)[OF I x(1)] lookup_mem(1) by metis
  show ?thesis
  proof (rule fresh_keep[OF F])
    show "lock_pc c' = None"
      using cell_lock(2)[OF c] by (simp add: x(3))
    show "arrays q' ! sl = arrays q ! sl" if "lock_pc (P k) = Some e" "fresh_array e = Some (sl, n)" for k e sl n
      using fresh_slot(2)[OF I that r] by (simp add: x(2) put_view_def)
  qed
qed

lemma fresh_expand:
  assumes I: "dyn_inv E c0 q hist P" and F: "fresh_inv E q P" and i: "P i = DExpand job st r e" "is_push job"
    and out: "dstep E dl al q (P i) = Done (q', c')"
  shows "fresh_inv E q' (P(i := c'))"
  unfolding fresh_inv_def
proof (intro allI impI)
  fix k d sl n
  assume a: "lock_pc ((P(i := c')) k) = Some d" "fresh_array d = Some (sl, n)"
  obtain xs where xs: "arrays q' = arrays q @ xs"
    using expand_kind(6)[OF out[unfolded i(1)] i(2)] by blast
  have old: "arrays q' ! sl = newArray E n" if "lock_pc (P k) = Some d'" "fresh_array d' = Some (sl, n)" for d'
    using F fresh_slot(1)[OF I that] that xs unfolding fresh_inv_def by (auto simp: nth_append)
  show "arrays q' ! sl = newArray E n"
  proof (cases "k = i")
    case False
    then show ?thesis
      using a by (intro old[of d]) simp_all
  next
    case True
    obtain e' where e: "tryExpand E al q st (refCap r) e = Done (q', e')" "c' = after_expand job st r e'"
      using out by (auto simp: i(1) bind_outcome_Done_iff)
    have "lock_pc (after_expand job st r e') = Some d"
      using a(1) True e(2) by simp
    note d = after_expand_lock[OF this]
    show ?thesis
    proof (cases e)
      case (ExpandAlloc t)
      then show ?thesis
        using e(1) d(1) a(2) by (auto simp: Let_def nth_append split: if_splits)
    next
      case (ExpandSlots t sl n)
      then show ?thesis
        using e(1) d(1) a(2) True i(1) by (intro old[of e]) auto
    next
      case (ExpandCapacity t sl n)
      then show ?thesis
        using e(1) d(1) a(2) True i(1) by (intro old[of e]) auto
    next
      case (ExpandStride t sl n)
      then show ?thesis
        using e(1) d(1) a(2) True i(1) by (intro old[of e]) auto
    qed (use e(1) d(1) a(2) in \<open>auto split: if_splits\<close>)
  qed
qed

end
