(* ===== verification/DynamicClosing.thy ===== *)
theory DynamicClosing
  imports DynamicRings
begin

text \<open>
  The step that publishes a new array. Tickets at or beyond the new offset are with operations that have not been through
  their read section; they leave the last array, whose ring is cut, and are the waiting operations of a new ring.
\<close>

section \<open>The whole queue\<close>

definition dyn_sim :: "nat \<Rightarrow> ('ts \<Rightarrow> u32) \<Rightarrow> 'ts dyn_env \<Rightarrow> nat \<Rightarrow> nat \<Rightarrow> arrayRef list \<Rightarrow> ('ts, 'a) dsys \<Rightarrow> bool" where
  "dyn_sim tb cur E N c0 hist s \<longleftrightarrow>
     dyn_inv E c0 (dqueue s) hist (dpcs s) \<and> late_inv E (dqueue s) (dpcs s) \<and> fresh_inv E (dqueue s) (dpcs s) \<and>
     length (dpushed s) = unat (dpushTicket (dqueue s)) \<and> (\<forall>i \<ge> N. dpcs s i = DIdle) \<and>
     (\<forall>k < length hist. \<exists>r. sim tb cur (fixedEnv E) N (proj hist k s) r)"

lemma dyn_simD:
  assumes "dyn_sim tb cur E N c0 hist s"
  shows "dyn_inv E c0 (dqueue s) hist (dpcs s)" "late_inv E (dqueue s) (dpcs s)" "fresh_inv E (dqueue s) (dpcs s)"
    "length (dpushed s) = unat (dpushTicket (dqueue s))" "N \<le> i \<Longrightarrow> dpcs s i = DIdle"
    "k < length hist \<Longrightarrow> \<exists>r. sim tb cur (fixedEnv E) N (proj hist k s) r"
  using assms by (simp_all add: dyn_sim_def)

lemma hist_facts:
  assumes "dyn_inv E c0 q hist P"
  shows "rising hist" "k < length hist \<Longrightarrow> ref_ok E q (hist ! k)" "k < length hist \<Longrightarrow> refSlots (hist ! k) < length (arrays q)"
    "j < length hist \<Longrightarrow> k < length hist \<Longrightarrow> j \<noteq> k \<Longrightarrow> refSlots (hist ! j) \<noteq> refSlots (hist ! k)"
proof -
  have h: "rising hist" "\<forall>r\<in>set hist. ref_ok E q r" "distinct (map refSlots hist)"
    using dyn_invD(2)[OF assms] by (simp_all add: hist_inv_def)
  then show "rising hist" "k < length hist \<Longrightarrow> ref_ok E q (hist ! k)" "k < length hist \<Longrightarrow> refSlots (hist ! k) < length (arrays q)"
    by (simp_all add: ref_ok_def)
  show "refSlots (hist ! j) \<noteq> refSlots (hist ! k)" if "j < length hist" "k < length hist" "j \<noteq> k"
    using h(3) that by (simp add: distinct_conv_nth)
qed

lemma proj_room:
  assumes "roomy (dqueue s)" "length (dpushed s) = unat (dpushTicket (dqueue s))"
  shows "has_room (proj hist k s)"
proof -
  have "length (pushed (proj hist k s)) \<le> unat (dpushTicket (dqueue s))"
    using assms(2) by (simp add: proj_def)
  moreover have "popsIssued (proj hist k s) \<le> unat (dpopTicket (dqueue s))"
    by (simp add: proj_def share_le)
  ultimately show ?thesis
    using assms(1) by (simp add: has_room_def ticketRoom_def roomy_def)
qed

section \<open>Closing an array\<close>

text \<open>What the expansion that thread \<open>i\<close> is about to publish means for the tickets.\<close>

lemma proj_cong:
  assumes "mine hist' k = mine hist k" "share hist' k = share hist k" "hist' ! k = hist ! k"
  shows "proj hist' k s = proj hist k s"
proof -
  have "proj_pc hist' k c = proj_pc hist k c" for c :: "'b dpc"
    using assms by (simp add: proj_pc_def split: option.split)
  then show ?thesis
    by (simp add: proj_def proj_queue_def assms)
qed

lemma mine_snoc:
  assumes "hist \<noteq> []" "off hist (length hist - 1) \<le> unat (refOffset r)"
  shows "Suc k < length hist \<Longrightarrow> mine (hist @ [r]) k = mine hist k" "Suc k < length hist \<Longrightarrow> share (hist @ [r]) k = share hist k"
    "mine (hist @ [r]) (length hist) t \<longleftrightarrow> unat (refOffset r) \<le> t" "share (hist @ [r]) (length hist) x = x - unat (refOffset r)"
    "mine (hist @ [r]) (length hist - 1) t \<longleftrightarrow> mine hist (length hist - 1) t \<and> t < unat (refOffset r)"
    "share (hist @ [r]) (length hist - 1) x = min x (unat (refOffset r)) - off hist (length hist - 1)"
    "share hist (length hist - 1) x = x - off hist (length hist - 1)" "mine hist (length hist - 1) t \<longleftrightarrow> off hist (length hist - 1) \<le> t"
  using assms by (auto simp: mine_def share_def nth_append fun_eq_iff)

lemma in_section_holds:
  "in_section True u c \<Longrightarrow> \<exists>v. holds c = Some (u, \<lambda>u. Enqueueing u EnqWaitTurn v)"
  "in_section False u c \<Longrightarrow> holds c = Some (u, \<lambda>u. Dequeueing u DeqWaitTurn)"
  "holds c = Some (t, f) \<Longrightarrow> located c = None \<Longrightarrow> \<exists>b. in_section b t c"
proof -
  show "\<exists>v. holds c = Some (u, \<lambda>u. Enqueueing u EnqWaitTurn v)" if "in_section True u c"
    using that by (cases "(True, u, c)" rule: in_section.cases) auto
  show "holds c = Some (u, \<lambda>u. Dequeueing u DeqWaitTurn)" if "in_section False u c"
    using that by (cases "(False, u, c)" rule: in_section.cases) auto
  show "\<exists>b. in_section b t c" if "holds c = Some (t, f)" "located c = None"
  proof (cases c)
    case (DSection job sc)
    then show ?thesis
      using that(1) by (cases job) (auto intro: exI[of _ True] exI[of _ False])
  qed (use that in auto)
qed

definition closing :: "'ts dyn_env \<Rightarrow> arrayRef list \<Rightarrow> ('ts, 'a) dsys \<Rightarrow> arrayRef \<Rightarrow> bool" where
  "closing E hist s r \<longleftrightarrow> off hist (length hist - 1) < unat (refOffset r) \<and>
     (\<forall>k b t r'. located (dpcs s k) = Some (b, t, r') \<longrightarrow> unat t < unat (refOffset r)) \<and>
     (\<forall>b u. unat (refOffset r) \<le> unat u \<longrightarrow> u < counter (dqueue s) b \<longrightarrow> (\<exists>i. in_section b u (dpcs s i))) \<and>
     ref_ok E (dqueue s) r \<and> arrays (dqueue s) ! refSlots r = newArray E (refCap r)"

lemma closingI:
  assumes D: "dyn_sim tb cur E N c0 hist s" and i: "dpcs s i = DExpand job st r (ExpandRelease t sl n)"
  shows "closing E hist s (newRef t sl n)"
proof -
  note I = dyn_simD(1)[OF D]
  have lk: "lock_pc (dpcs s i) = Some (ExpandRelease t sl n)"
    by (simp add: i)
  note h = holder_facts[OF I i lk]
  have n: "hist_inv E (dqueue s) c0 (hist @ [newRef t sl n])"
    using h(4) by (simp add: new_ok_def)
  then have "ref_ok E (dqueue s) (newRef t sl n)" "rising (hist @ [newRef t sl n])"
    by (simp_all add: hist_inv_def)
  moreover have "hist \<noteq> []"
    using hist_facts(1)[OF I] by (simp add: rising_def)
  then have "off hist (length hist - 1) < unat t"
    using rising_off[OF calculation(2), of "length hist - 1" "length hist"] by (simp add: nth_append newRef_def)
  moreover have "\<exists>j. in_section b u (dpcs s j)" if "unat t \<le> unat u" "u < counter (dqueue s) b" for b u
    using dyn_simD(2)[OF D] lk that unfolding late_inv_def by fastforce
  moreover have "unat u < unat t" if "located (dpcs s k) = Some (b, u, r')" for k b u r'
    using h(5)[OF that] by simp
  moreover have "arrays (dqueue s) ! sl = newArray E n"
    using dyn_simD(3)[OF D] lk unfolding fresh_inv_def by fastforce
  ultimately show ?thesis
    unfolding closing_def by (simp add: newRef_def)
qed

lemma closingD:
  assumes "closing E hist s r"
  shows "off hist (length hist - 1) < unat (refOffset r)" "located (dpcs s k) = Some (b, t, r') \<Longrightarrow> unat t < unat (refOffset r)"
    "unat (refOffset r) \<le> unat u \<Longrightarrow> u < counter (dqueue s) b \<Longrightarrow> \<exists>i. in_section b u (dpcs s i)"
    "ref_ok E (dqueue s) r" "arrays (dqueue s) ! refSlots r = newArray E (refCap r)"
  using assms unfolding closing_def by blast+

lemma proj_queue_match:
  "queue_match tb cur B (proj_queue hist k q) r \<longleftrightarrow> wf_queue B (array_view q (hist ! k)) \<and> rcap r = unat (refCap (hist ! k)) \<and>
     rstride r = nat (refStride (hist ! k)) \<and> pushes r = share hist k (unat (dpushTicket q)) \<and>
     pops r = share hist k (unat (dpopTicket q)) \<and> cells_match tb cur B (array_view q (hist ! k)) r"
proof -
  have "wf_queue B (proj_queue hist k q) = wf_queue B (array_view q (hist ! k))"
    "cells_match tb cur B (proj_queue hist k q) r = cells_match tb cur B (array_view q (hist ! k)) r"
    by (simp_all add: proj_queue_def wf_queue_def cells_match_def cell_def)
  moreover have "unat (pushTicket (proj_queue hist k q)) = share hist k (unat (dpushTicket q))"
    "unat (popTicket (proj_queue hist k q)) = share hist k (unat (dpopTicket q))"
    "capacity (proj_queue hist k q) = refCap (hist ! k)" "stride (proj_queue hist k q) = refStride (hist ! k)"
    by (simp_all add: proj_queue_def unat_share) (simp_all add: array_view_def)
  ultimately show ?thesis
    unfolding queue_match_def by simp
qed

lemma sim_shares:
  assumes "sim tb cur B N (proj hist k s) r0"
  shows "pushes r0 = share hist k (unat (dpushTicket (dqueue s)))" "pops r0 = share hist k (unat (dpopTicket (dqueue s)))"
  using simD(2)[OF assms] by (simp_all add: proj_queue_match)

text \<open>In the last array the tickets at or beyond the new offset are waiting.\<close>

lemma last_stage:
  assumes S: "sim tb cur B N (proj hist (length hist - 1) s) r0" and h: "hist \<noteq> []" "off hist (length hist - 1) \<le> unat u"
  shows "in_section True u (dpcs s j) \<Longrightarrow> \<exists>v. stages r0 j = EnqWait (unat u - off hist (length hist - 1)) v"
    "in_section False u (dpcs s j) \<Longrightarrow> stages r0 j = DeqWait (unat u - off hist (length hist - 1))"
proof -
  have m: "mine hist (length hist - 1) (unat u)"
    using h by (simp add: mine_def)
  note u = ticket_split(2)[OF m]
  show "\<exists>v. stages r0 j = EnqWait (unat u - off hist (length hist - 1)) v" if "in_section True u (dpcs s j)"
    using in_section_holds(1)[OF that] simD(3)[OF S, of j] m u by (auto simp: proj_pc_def)
  show "stages r0 j = DeqWait (unat u - off hist (length hist - 1))" if "in_section False u (dpcs s j)"
    using in_section_holds(2)[OF that] simD(3)[OF S, of j] m u by (auto simp: proj_pc_def)
qed

lemma closing_late:
  assumes C: "closing E hist s r" and S: "sim tb cur B N (proj hist (length hist - 1) s) r0" and h: "hist \<noteq> []"
  shows "late_waits (unat (refOffset r) - off hist (length hist - 1)) r0"
proof -
  let ?l = "length hist - 1"
  have m: "pushes r0 = unat (dpushTicket (dqueue s)) - off hist ?l" "pops r0 = unat (dpopTicket (dqueue s)) - off hist ?l"
    using sim_shares[OF S] h by (simp_all add: share_def)
  have T: "off hist ?l < unat (refOffset r)"
    by (rule closingD(1)[OF C])
  have u: "\<exists>u :: u64. unat u = t + off hist ?l \<and> unat (refOffset r) \<le> unat u \<and> u < x"
    if "unat (refOffset r) - off hist ?l \<le> t" "t < unat x - off hist ?l" for t and x :: u64
  proof -
    have "unat x < 2 ^ 64"
      using unsigned_less[of x] by simp
    then have "t + off hist ?l < 2 ^ 64"
      using that(2) by linarith
    then have e: "unat (of_nat (t + off hist ?l) :: u64) = t + off hist ?l"
      by (intro unat_of_nat_small) simp
    have "unat (refOffset r) \<le> t + off hist ?l" "t + off hist ?l < unat x"
      using that by linarith+
    then show ?thesis
      using e by (intro exI[of _ "of_nat (t + off hist ?l)"]) (simp add: word_less_nat_alt)
  qed
  show ?thesis
    unfolding late_waits_def m
  proof (intro conjI allI impI)
    fix t assume "unat (refOffset r) - off hist ?l \<le> t" "t < unat (dpushTicket (dqueue s)) - off hist ?l"
    then obtain w :: u64 where w: "unat w = t + off hist ?l" "unat (refOffset r) \<le> unat w" "w < dpushTicket (dqueue s)"
      using u by blast
    then obtain j where "in_section True w (dpcs s j)"
      using closingD(3)[OF C, of w True] by auto
    then show "\<exists>i v. stages r0 i = EnqWait t v"
      using last_stage(1)[OF S h, of w j] w(1) by auto
  next
    fix t assume "unat (refOffset r) - off hist ?l \<le> t" "t < unat (dpopTicket (dqueue s)) - off hist ?l"
    then obtain w :: u64 where w: "unat w = t + off hist ?l" "unat (refOffset r) \<le> unat w" "w < dpopTicket (dqueue s)"
      using u by blast
    then obtain j where "in_section False w (dpcs s j)"
      using closingD(3)[OF C, of w False] by auto
    then show "\<exists>i. stages r0 i = DeqWait t"
      using last_stage(2)[OF S h, of w j] w(1) by auto
  qed
qed

text \<open>Nothing beyond the new offset has been delivered.\<close>

lemma closing_delivered:
  assumes D: "dyn_sim tb cur E N c0 hist s" and C: "closing E hist s r" and d: "(t, v) \<in> set (ddelivered s)"
  shows "t < unat (refOffset r)"
proof -
  note I = dyn_simD(1)[OF D]
  note rise = hist_facts(1)[OF I]
  then have h: "hist \<noteq> []"
    by (simp add: rising_def)
  obtain k where k: "k < length hist" "mine hist k t"
    using mine_ex[OF rise] by blast
  show ?thesis
  proof (cases "Suc k < length hist")
    case True
    then have "Suc k < length hist - 1 \<or> Suc k = length hist - 1"
      by linarith
    then have "off hist (Suc k) \<le> off hist (length hist - 1)"
      using rising_off[OF rise, of "Suc k" "length hist - 1"] h by auto
    then show ?thesis
      using closingD(1)[OF C] k True by (simp add: mine_def)
  next
    case False
    then have l: "k = length hist - 1"
      using k(1) by simp
    obtain r0 where S: "sim tb cur (fixedEnv E) N (proj hist (length hist - 1) s) r0"
      using dyn_simD(6)[OF D] k(1) l by blast
    have inv: "ring_inv r0" "history_inv r0"
      using simD(1)[OF S] by (auto simp: ring_inv_def)
    have "(t - off hist k, v) \<in> set (taken r0)"
      using d k(2) unfolding simD(8)[OF S] by (force simp: proj_def l)
    then have "t - off hist k \<in> fst ` set (taken r0)"
      by force
    then have "2 * rround r0 (t - off hist k) + 1 < turns r0 (rslot r0 (t - off hist k))"
      using inv(2) by (simp add: history_inv_def)
    then have "t - off hist k < unat (refOffset r) - off hist k"
      using late_stage(4)[OF inv(1) closing_late[OF C S h]] l by simp
    then show ?thesis
      by simp
  qed
qed

lemma holds_shape:
  assumes "holds c = Some (t, f)"
  obtains (enq) e v where "f = (\<lambda>u. Enqueueing u e v)" | (deq) d where "f = (\<lambda>u. Dequeueing u d)"
proof -
  have j: "(\<exists>e v. f = (\<lambda>u. Enqueueing u e v)) \<or> (\<exists>d. f = (\<lambda>u. Dequeueing u d))" if "job_holds job = Some (t, f)" for job
    using that by (cases job) auto
  have "(\<exists>e v. f = (\<lambda>u. Enqueueing u e v)) \<or> (\<exists>d. f = (\<lambda>u. Dequeueing u d))"
    using assms j by (cases c) auto
  then show thesis
    using enq deq by blast
qed

lemma holds_located: "holds c = Some (t, f) \<Longrightarrow> located c = Some (b, t', r) \<Longrightarrow> t' = t"
proof -
  have j: "job_holds job = Some (t, f) \<Longrightarrow> job_ticket job = t" for job
    by (cases job) auto
  show "holds c = Some (t, f) \<Longrightarrow> located c = Some (b, t', r) \<Longrightarrow> t' = t"
    using j by (cases c) auto
qed

lemma cut_holds:
  assumes "holds c = Some (t, f)"
  shows "unat u < L \<Longrightarrow> cut_stage L (stage_of (f u)) = stage_of (f u)" "local_ok r' (f u) = local_ok r0 (f u)"
    "in_section b t c \<Longrightarrow> \<not> unat u < L \<Longrightarrow> cut_stage L (stage_of (f u)) = Free"
proof -
  show "cut_stage L (stage_of (f u)) = stage_of (f u)" if "unat u < L"
    using assms
  proof (cases rule: holds_shape)
    case (enq e v)
    then show ?thesis
      using that by (cases e) simp_all
  next
    case (deq d)
    then show ?thesis
      using that by (cases d) simp_all
  qed
  show "local_ok r' (f u) = local_ok r0 (f u)"
    using assms
  proof (cases rule: holds_shape)
    case (enq e v)
    then show ?thesis
      by (cases e) simp_all
  next
    case (deq d)
    then show ?thesis
      by (cases d) simp_all
  qed
  show "cut_stage L (stage_of (f u)) = Free" if "in_section b t c" "\<not> unat u < L"
    using that assms in_section_holds(1,2)[of t c] by (cases b) auto
qed

lemma ring_cut_simps:
  "stages (ring_cut L r) i = cut_stage L (stages r i)" "written (ring_cut L r) = take L (written r)" "pops (ring_cut L r) = min L (pops r)"
  "taken (ring_cut L r) = taken r"
  by (simp_all add: ring_cut_def)

lemma closing_stage:
  assumes D: "dyn_sim tb cur E N c0 hist s" and C: "closing E hist s r" and l: "l = length hist - 1"
    and S: "sim tb cur (fixedEnv E) N (proj hist l s) r0" and c: "c = dpcs s j"
  shows "cut_stage (unat (refOffset r) - off hist l) (stage_of (proj_pc hist l c)) = stage_of (proj_pc (hist @ [r]) l c) \<and>
    local_ok (ring_cut (unat (refOffset r) - off hist l) r0) (proj_pc (hist @ [r]) l c)"
proof -
  let ?T = "unat (refOffset r)" and ?hist = "hist @ [r]"
  let ?L = "?T - off hist l"
  have h: "hist \<noteq> []"
    using hist_facts(1)[OF dyn_simD(1)[OF D]] by (simp add: rising_def)
  have T: "off hist l < ?T"
    using closingD(1)[OF C] l by simp
  note sn = mine_snoc[OF h less_imp_le[OF T[unfolded l]], folded l]
  have hl: "?hist ! l = hist ! l"
    using h by (simp add: l nth_append)
  show ?thesis
  proof (cases "holds c")
    case None
    then show ?thesis
      by (simp add: proj_pc_def)
  next
    case (Some tf)
    then obtain t f where tf: "holds c = Some (t, f)"
      by (cases tf) auto
    show ?thesis
    proof (cases "mine hist l (unat t)")
      case False
      then show ?thesis
        using tf sn(5) by (simp add: proj_pc_def)
    next
      case m: True
      note u = ticket_split(2)[OF m]
      have ok: "local_ok r0 (f (t - refOffset (hist ! l)))"
        using simD(4)[OF S, of j] tf m by (simp add: c proj_pc_def)
      show ?thesis
      proof (cases "unat t < ?T")
        case True
        then have lt: "unat (t - refOffset (hist ! l)) < ?L"
          using u m by (simp add: mine_def) linarith
        have "proj_pc hist l c = f (t - refOffset (hist ! l))" "proj_pc ?hist l c = f (t - refOffset (hist ! l))"
          using tf m True sn(5) by (simp_all add: proj_pc_def hl)
        then show ?thesis
          using cut_holds(1)[OF tf lt] cut_holds(2)[OF tf, of "ring_cut ?L r0" _ r0] ok by simp
      next
        case False
        have "located c = None"
        proof (rule ccontr)
          assume "located c \<noteq> None"
          then obtain b t' r' where "located c = Some (b, t', r')"
            by auto
          then show False
            using closingD(2)[OF C, of j b t' r'] holds_located[OF tf] False c by blast
        qed
        then obtain b where "in_section b t c"
          using in_section_holds(3)[OF tf] by blast
        moreover have "\<not> unat (t - refOffset (hist ! l)) < ?L"
          using u False T by simp
        ultimately have "cut_stage ?L (stage_of (f (t - refOffset (hist ! l)))) = Free"
          by (rule cut_holds(3)[OF tf])
        then show ?thesis
          using tf m False sn(5) by (simp add: proj_pc_def)
      qed
    qed
  qed
qed

lemma closing_sim_last:
  assumes D: "dyn_sim tb cur E N c0 hist s" and C: "closing E hist s r" and l: "l = length hist - 1"
    and S: "sim tb cur (fixedEnv E) N (proj hist l s) r0"
  shows "sim tb cur (fixedEnv E) N (proj (hist @ [r]) l s) (ring_cut (unat (refOffset r) - off hist l) r0)"
proof -
  let ?T = "unat (refOffset r)" and ?hist = "hist @ [r]"
  let ?L = "?T - off hist l"
  note I = dyn_simD(1)[OF D]
  have h: "hist \<noteq> []"
    using hist_facts(1)[OF I] by (simp add: rising_def)
  have T: "off hist l < ?T"
    using closingD(1)[OF C] l by simp
  note sn = mine_snoc[OF h less_imp_le[OF T[unfolded l]], folded l]
  have late: "late_waits ?L r0"
    using closing_late[OF C _ h] S unfolding l by blast
  note M = simD(2)[OF S]
  have hl: "?hist ! l = hist ! l"
    using h by (simp add: l nth_append)
  have cutmin: "min x ?T - off hist l = min ?L (x - off hist l)" for x
    by (simp add: min_def) linarith
  have ring: "ring_inv (ring_cut ?L r0)"
    by (rule ring_inv_cut[OF simD(1)[OF S] late])
  have queue: "queue_match tb cur (fixedEnv E) (proj_queue ?hist l (dqueue s)) (ring_cut ?L r0)"
  proof -
    have "share ?hist l x = min ?L (share hist l x)" for x
      by (simp add: sn(6,7) cutmin)
    then show ?thesis
      using M by (simp add: proj_queue_match hl ring_cut_def cells_match_def)
  qed
  have del: "filter (\<lambda>(t, v). mine ?hist l t) (ddelivered s) = filter (\<lambda>(t, v). mine hist l t) (ddelivered s)"
    using closing_delivered[OF D C] sn(5) by (intro filter_cong) auto
  have "taken r0 = delivered (proj ?hist l s)"
    using simD(8)[OF S] del hl by (simp add: proj_def)
  moreover have "written r0 = take (length (dpushed s) - off hist l) (drop (off hist l) (dpushed s))"
    using simD(6)[OF S] by (simp add: proj_def sn(7))
  then have "take ?L (written r0) = pushed (proj ?hist l s)"
    by (simp add: proj_def sn(6) cutmin hl min_def)
  moreover have "min ?L (pops r0) = popsIssued (proj ?hist l s)"
    using simD(7)[OF S] by (simp add: proj_def sn(6,7) cutmin)
  moreover have "proj_pc ?hist l (dpcs s j) = Idle" if "N \<le> j" for j
    using dyn_simD(5)[OF D that] by (simp add: proj_pc_def)
  moreover have "cut_stage ?L (stages r0 j) = stage_of (proj_pc ?hist l (dpcs s j)) \<and> local_ok (ring_cut ?L r0) (proj_pc ?hist l (dpcs s j))" for j
    using closing_stage[OF D C l S refl, of j] simD(3)[OF S, of j] by simp
  ultimately show ?thesis
    using ring queue by (simp add: sim_def ring_cut_simps)
qed


lemma ticket_below:
  assumes "n < unat (x :: u64)"
  shows "\<exists>u :: u64. unat u = n \<and> u < x"
proof -
  have "unat x < 2 ^ 64"
    using unsigned_less[of x] by simp
  then have "unat (of_nat n :: u64) = n"
    using assms by (intro unat_of_nat_small) simp
  then show ?thesis
    using assms by (intro exI[of _ "of_nat n"]) (simp add: word_less_nat_alt)
qed

lemma fresh_cells_match:
  assumes wf: "wf_queue (fixedEnv E) V" and s: "slots V = newArray E (capacity V)" and T: "turn_contract tb (seqOps (fixedEnv E)) cur"
    and r: "turns r = (\<lambda>_. 0)" "cells r = (\<lambda>_. None)"
  shows "cells_match tb cur (fixedEnv E) V r"
  unfolding cells_match_def
proof (intro allI impI)
  fix c assume "c < qcap V"
  then have "c + unat (slotPadding (fixedEnv E)) < length (slots V)"
    using wf by (simp add: wf_queue_def)
  then have "cell (fixedEnv E) V c = newSlot (seqOps (fixedEnv E))"
    by (simp add: cell_def s newArray_def)
  then show "slot_turn tb cur (cell (fixedEnv E) V c) (turns r c) \<and> contents (cell (fixedEnv E) V c) = cells r c"
    by (simp add: r newSlot_turn[OF T])
qed

text \<open>The state in which array \<open>r\<close> is about to be published: \<open>l\<close> is the last array, matched by ring \<open>r0\<close>.\<close>

definition publishing ::
  "nat \<Rightarrow> ('ts \<Rightarrow> u32) \<Rightarrow> 'ts dyn_env \<Rightarrow> nat \<Rightarrow> nat \<Rightarrow> arrayRef list \<Rightarrow> ('ts, 'a) dsys \<Rightarrow> arrayRef \<Rightarrow> nat \<Rightarrow> 'a ring \<Rightarrow> bool" where
  "publishing tb cur E N c0 hist s r l r0 \<longleftrightarrow> dyn_sim tb cur E N c0 hist s \<and> closing E hist s r \<and> hist \<noteq> [] \<and>
     l = length hist - 1 \<and> sim tb cur (fixedEnv E) N (proj hist l s) r0"

lemma publishingD:
  assumes "publishing tb cur E N c0 hist s r l r0"
  shows "dyn_sim tb cur E N c0 hist s" "closing E hist s r" "hist \<noteq> []" "l = length hist - 1" "sim tb cur (fixedEnv E) N (proj hist l s) r0"
    "off hist l < unat (refOffset r)" "unat (refOffset r) \<le> n \<Longrightarrow> mine hist l n" "pushes r0 = unat (dpushTicket (dqueue s)) - off hist l"
    "pops r0 = unat (dpopTicket (dqueue s)) - off hist l" "written r0 = drop (off hist l) (dpushed s)"
    "push_side r0" "pop_side r0" "value_inv r0" "mine (hist @ [r]) (length hist) n \<longleftrightarrow> unat (refOffset r) \<le> n"
    "share (hist @ [r]) (length hist) n = n - unat (refOffset r)"
proof -
  show A: "dyn_sim tb cur E N c0 hist s" "closing E hist s r" "hist \<noteq> []" "l = length hist - 1" "sim tb cur (fixedEnv E) N (proj hist l s) r0"
    using assms unfolding publishing_def by blast+
  show T: "off hist l < unat (refOffset r)"
    using closingD(1)[OF A(2)] A(4) by simp
  note sn = mine_snoc[OF A(3) less_imp_le[OF T[unfolded A(4)]], folded A(4)]
  show "mine hist l n" if "unat (refOffset r) \<le> n"
    using sn(8) T that by simp
  show "pushes r0 = unat (dpushTicket (dqueue s)) - off hist l" "pops r0 = unat (dpopTicket (dqueue s)) - off hist l"
    by (simp_all only: sim_shares[OF A(5)] sn(7))
  have "written r0 = take (length (dpushed s) - off hist l) (drop (off hist l) (dpushed s))"
    unfolding simD(6)[OF A(5)] by (simp only: proj_def sn(7) sys.select_convs)
  then show "written r0 = drop (off hist l) (dpushed s)"
    by simp
  show "push_side r0" "pop_side r0" "value_inv r0"
    using simD(1)[OF A(5)] by (auto simp: ring_inv_def)
  show "mine (hist @ [r]) (length hist) n \<longleftrightarrow> unat (refOffset r) \<le> n" "share (hist @ [r]) (length hist) n = n - unat (refOffset r)"
    by (simp_all only: sn(3,4))
qed

text \<open>What the owners of tickets at or beyond the new offset are in the last array and will be in the new one.\<close>

lemma late_sub: "unat (refOffset r) \<le> unat t \<Longrightarrow> unat (t - refOffset r) = unat t - unat (refOffset r)"
  by (intro unat_sub_le) (simp add: word_le_nat_alt)

lemma late_push:
  assumes A: "publishing tb cur E N c0 hist s r l r0" and j: "in_section True t (dpcs s j)" "unat (refOffset r) \<le> unat t"
  shows "stages r0 j = EnqWait (unat t - off hist l) (dpushed s ! unat t)"
    "proj_pc (hist @ [r]) (length hist) (dpcs s j) = Enqueueing (t - refOffset r) EnqWaitTurn (dpushed s ! unat t)"
    "unat t < length (dpushed s)"
proof -
  obtain v where h: "holds (dpcs s j) = Some (t, \<lambda>u. Enqueueing u EnqWaitTurn v)"
    using in_section_holds(1)[OF j(1)] by blast
  note m = publishingD(7)[OF A j(2)]
  have p: "proj_pc hist l (dpcs s j) = Enqueueing (t - refOffset (hist ! l)) EnqWaitTurn v"
    using h m by (simp add: proj_pc_def)
  have st: "stages r0 j = EnqWait (unat t - off hist l) v"
    unfolding simD(3)[OF publishingD(5)[OF A]] proj_simps p by (simp add: ticket_split(2)[OF m])
  then have v: "unat t - off hist l < pushes r0" "v = written r0 ! (unat t - off hist l)"
    using value_invD(2,3)[OF publishingD(13)[OF A], of j] by auto
  have t: "off hist l \<le> unat t"
    using publishingD(6)[OF A] j(2) by linarith
  then show "unat t < length (dpushed s)"
    using v(1) publishingD(8)[OF A] dyn_simD(4)[OF publishingD(1)[OF A]] by simp
  have v: "v = dpushed s ! unat t"
    using v t publishingD(8)[OF A] dyn_simD(4)[OF publishingD(1)[OF A]] by (simp add: publishingD(10)[OF A])
  with st show "stages r0 j = EnqWait (unat t - off hist l) (dpushed s ! unat t)"
    by simp
  show "proj_pc (hist @ [r]) (length hist) (dpcs s j) = Enqueueing (t - refOffset r) EnqWaitTurn (dpushed s ! unat t)"
    using h publishingD(14)[OF A, of "unat t"] j(2) v by (simp add: proj_pc_def)
qed

lemma late_pop:
  assumes A: "publishing tb cur E N c0 hist s r l r0" and j: "in_section False t (dpcs s j)" "unat (refOffset r) \<le> unat t"
  shows "stages r0 j = DeqWait (unat t - off hist l)"
    "proj_pc (hist @ [r]) (length hist) (dpcs s j) = Dequeueing (t - refOffset r) DeqWaitTurn"
    "unat t < unat (dpopTicket (dqueue s))"
proof -
  note h = in_section_holds(2)[OF j(1)] and m = publishingD(7)[OF A j(2)]
  have p: "proj_pc hist l (dpcs s j) = Dequeueing (t - refOffset (hist ! l)) DeqWaitTurn"
    using h m by (simp add: proj_pc_def)
  show st: "stages r0 j = DeqWait (unat t - off hist l)"
    unfolding simD(3)[OF publishingD(5)[OF A]] proj_simps p by (simp add: ticket_split(2)[OF m])
  then have "unat t - off hist l < pops r0"
    using pop_sideD(1)[OF publishingD(12)[OF A], of j] by auto
  then show "unat t < unat (dpopTicket (dqueue s))"
    using publishingD(9)[OF A] by simp
  show "proj_pc (hist @ [r]) (length hist) (dpcs s j) = Dequeueing (t - refOffset r) DeqWaitTurn"
    using h publishingD(14)[OF A, of "unat t"] j(2) by (simp add: proj_pc_def)
qed

lemma late_cases:
  assumes A: "publishing tb cur E N c0 hist s r l r0"
  obtains "proj_pc (hist @ [r]) (length hist) (dpcs s j) = Idle"
    | (push) t where "in_section True t (dpcs s j)" "unat (refOffset r) \<le> unat t"
    | (pop) t where "in_section False t (dpcs s j)" "unat (refOffset r) \<le> unat t"
proof (cases "proj_pc (hist @ [r]) (length hist) (dpcs s j) = Idle")
  case False
  then obtain t f where tf: "holds (dpcs s j) = Some (t, f)" "unat (refOffset r) \<le> unat t"
    unfolding proj_pc_def publishingD(14)[OF A] by (auto split: option.splits if_splits)
  have "located (dpcs s j) = None"
  proof (rule ccontr)
    assume "located (dpcs s j) \<noteq> None"
    then obtain b t' r' where "located (dpcs s j) = Some (b, t', r')"
      by auto
    then show False
      using closingD(2)[OF publishingD(2)[OF A], of j b t' r'] holds_located[OF tf(1)] tf(2) by fastforce
  qed
  then obtain b where "in_section b t (dpcs s j)"
    using in_section_holds(3)[OF tf(1)] by blast
  then show thesis
    using push pop tf(2) by (cases b) simp_all
qed

lemma late_wait:
  assumes A: "publishing tb cur E N c0 hist s r l r0"
  shows "only_waits (unat (dpopTicket (dqueue s)) - unat (refOffset r)) (drop (unat (refOffset r)) (dpushed s))
      (stage_of (proj_pc (hist @ [r]) (length hist) (dpcs s j)))"
    "local_ok r' (proj_pc (hist @ [r]) (length hist) (dpcs s j))"
    "enqT (stage_of (proj_pc (hist @ [r]) (length hist) (dpcs s j))) = Some n \<Longrightarrow> enqT (stages r0 j) = Some (n + unat (refOffset r) - off hist l)"
    "deqT (stage_of (proj_pc (hist @ [r]) (length hist) (dpcs s j))) = Some n \<Longrightarrow> deqT (stages r0 j) = Some (n + unat (refOffset r) - off hist l)"
proof -
  have "only_waits (unat (dpopTicket (dqueue s)) - unat (refOffset r)) (drop (unat (refOffset r)) (dpushed s))
        (stage_of (proj_pc (hist @ [r]) (length hist) (dpcs s j))) \<and>
      local_ok r' (proj_pc (hist @ [r]) (length hist) (dpcs s j)) \<and>
      (enqT (stage_of (proj_pc (hist @ [r]) (length hist) (dpcs s j))) = Some n \<longrightarrow> enqT (stages r0 j) = Some (n + unat (refOffset r) - off hist l)) \<and>
      (deqT (stage_of (proj_pc (hist @ [r]) (length hist) (dpcs s j))) = Some n \<longrightarrow> deqT (stages r0 j) = Some (n + unat (refOffset r) - off hist l))"
  proof (rule late_cases[OF A, of j])
    fix t assume j: "in_section True t (dpcs s j)" "unat (refOffset r) \<le> unat t"
    show ?thesis
      unfolding late_push(1,2)[OF A j] using late_push(3)[OF A j] j(2) late_sub[OF j(2)] by (auto simp: less_diff_iff)
  next
    fix t assume j: "in_section False t (dpcs s j)" "unat (refOffset r) \<le> unat t"
    show ?thesis
      unfolding late_pop(1,2)[OF A j] using late_pop(3)[OF A j] j(2) late_sub[OF j(2)] by (auto simp: less_diff_iff)
  qed simp
  then show "only_waits (unat (dpopTicket (dqueue s)) - unat (refOffset r)) (drop (unat (refOffset r)) (dpushed s))
      (stage_of (proj_pc (hist @ [r]) (length hist) (dpcs s j)))"
    "local_ok r' (proj_pc (hist @ [r]) (length hist) (dpcs s j))"
    "enqT (stage_of (proj_pc (hist @ [r]) (length hist) (dpcs s j))) = Some n \<Longrightarrow> enqT (stages r0 j) = Some (n + unat (refOffset r) - off hist l)"
    "deqT (stage_of (proj_pc (hist @ [r]) (length hist) (dpcs s j))) = Some n \<Longrightarrow> deqT (stages r0 j) = Some (n + unat (refOffset r) - off hist l)"
    by blast+
qed

lemma late_unique:
  assumes A: "publishing tb cur E N c0 hist s r l r0"
  shows "n + unat (refOffset r) < unat (dpushTicket (dqueue s)) \<Longrightarrow>
      \<exists>!j. enqT (stage_of (proj_pc (hist @ [r]) (length hist) (dpcs s j))) = Some n"
    "n + unat (refOffset r) < unat (dpopTicket (dqueue s)) \<Longrightarrow>
      \<exists>!j. deqT (stage_of (proj_pc (hist @ [r]) (length hist) (dpcs s j))) = Some n"
proof -
  have owner: "\<exists>u j. in_section b u (dpcs s j) \<and> unat u = n + unat (refOffset r)"
    if less: "n + unat (refOffset r) < unat (counter (dqueue s) b)" for b
  proof -
    obtain u :: u64 where "unat u = n + unat (refOffset r)" "u < counter (dqueue s) b"
      using ticket_below[OF less] by blast
    then show ?thesis
      using closingD(3)[OF publishingD(2)[OF A], of u b] by auto
  qed
  show "\<exists>!j. enqT (stage_of (proj_pc (hist @ [r]) (length hist) (dpcs s j))) = Some n"
    if less: "n + unat (refOffset r) < unat (dpushTicket (dqueue s))"
  proof (rule ex_ex1I)
    obtain u j where j: "in_section True u (dpcs s j)" "unat u = n + unat (refOffset r)"
      using owner[of True] less by auto
    then show "\<exists>j. enqT (stage_of (proj_pc (hist @ [r]) (length hist) (dpcs s j))) = Some n"
      using late_push(2)[OF A j(1)] late_sub[of r u] by (intro exI[of _ j]) simp
  qed (use late_wait(3)[OF A] push_sideD(5)[OF publishingD(11)[OF A]] in blast)
  show "\<exists>!j. deqT (stage_of (proj_pc (hist @ [r]) (length hist) (dpcs s j))) = Some n"
    if less: "n + unat (refOffset r) < unat (dpopTicket (dqueue s))"
  proof (rule ex_ex1I)
    obtain u j where j: "in_section False u (dpcs s j)" "unat u = n + unat (refOffset r)"
      using owner[of False] less by auto
    then show "\<exists>j. deqT (stage_of (proj_pc (hist @ [r]) (length hist) (dpcs s j))) = Some n"
      using late_pop(2)[OF A j(1)] late_sub[of r u] by (intro exI[of _ j]) simp
  qed (use late_wait(4)[OF A] pop_sideD(5)[OF publishingD(12)[OF A]] in blast)
qed

lemma closing_sim_new:
  assumes A: "publishing tb cur E N c0 hist s r l r0" and G: "good_env tb cur (fixedEnv E) N"
  shows "\<exists>r'. sim tb cur (fixedEnv E) N (proj (hist @ [r]) (length hist) s) r'"
proof -
  let ?P = "proj (hist @ [r]) (length hist) s" and ?V = "array_view (dqueue s) r" and ?T = "unat (refOffset r)"
  let ?R = "ring_waiting (unat (refCap r)) (nat (refStride r)) (unat (dpopTicket (dqueue s)) - ?T)
    (\<lambda>j. stage_of (proj_pc (hist @ [r]) (length hist) (dpcs s j))) (drop ?T (dpushed s))"
  note D = publishingD(1)[OF A] and C = publishingD(2)[OF A]
  note wf = array_wf[OF dyn_invD(1)[OF dyn_simD(1)[OF D]] closingD(4)[OF C]] and len = dyn_simD(4)[OF D]
  have cap: "qcap ?V = unat (refCap r)" "qstride ?V = nat (refStride r)"
    by (simp_all add: array_view_def)
  have "0 < unat (refCap r)" "coprime (nat (refStride r)) (unat (refCap r))"
    using wf_queueD(1,5)[OF wf] unfolding cap .
  then have ring: "ring_inv ?R"
    by (rule ring_inv_waiting) (use late_wait(1)[OF A] late_unique[OF A] len in simp_all)
  have "turn_contract tb (seqOps (fixedEnv E)) cur"
    using G by (simp add: good_env_def)
  then have "cells_match tb cur (fixedEnv E) ?V ?R"
    by (intro fresh_cells_match[OF wf]) (simp_all add: array_view_def closingD(5)[OF C] ring_waiting_def ring_init_def)
  then have queue: "queue_match tb cur (fixedEnv E) (queue ?P) ?R"
    using wf len by (simp add: proj_queue_match publishingD(15)[OF A] ring_waiting_def ring_init_def)
  have stage: "stages ?R j = stage_of (pcs ?P j)" for j
    by (simp add: ring_waiting_def)
  have idle: "pcs ?P j = Idle" if "N \<le> j" for j
    using dyn_simD(5)[OF D that] by (simp add: proj_pc_def)
  have "filter (\<lambda>(t, v). mine (hist @ [r]) (length hist) t) (ddelivered s) = []"
    using closing_delivered[OF D C] publishingD(14)[OF A] by (force simp: filter_empty_conv)
  then have hist: "taken ?R = delivered ?P" "pops ?R = popsIssued ?P" "written ?R = pushed ?P"
    by (simp_all add: ring_waiting_def ring_init_def proj_def publishingD(15)[OF A])
  have "local_ok ?R (pcs ?P j)" for j
    unfolding proj_simps by (rule late_wait(2)[OF A])
  then have "sim tb cur (fixedEnv E) N ?P ?R"
    unfolding sim_def using ring queue stage idle hist by blast
  then show ?thesis
    by blast
qed

end
