(* ===== verification/DynamicFifo.thy ===== *)
theory DynamicFifo
  imports DynamicClosing
begin

text \<open>
  The simulation of the dynamic queue by the rings of its arrays, for every kind of step and every run, and what the rings
  say about deliveries and progress.
\<close>

section \<open>Steps\<close>

definition all_sim :: "nat \<Rightarrow> ('ts \<Rightarrow> u32) \<Rightarrow> 'ts dyn_env \<Rightarrow> nat \<Rightarrow> arrayRef list \<Rightarrow> ('ts, 'a) dsys \<Rightarrow> bool" where
  "all_sim tb cur E N hist s \<longleftrightarrow> (\<forall>k < length hist. \<exists>r. sim tb cur (fixedEnv E) N (proj hist k s) r)"

lemma dyn_sim_next:
  assumes D: "dyn_sim tb cur E N c0 hist s" and R: "roomy (dqueue s)" and i: "i < N"
    and out: "dstep E dl al (dqueue s) (dpcs s i) = Done (q', c')"
    and late: "late_inv E q' ((dpcs s)(i := c'))" and fresh: "fresh_inv E q' ((dpcs s)(i := c'))"
    and len: "length (dpushed (after_dstep s i q' c')) = unat (dpushTicket q')"
    and sims: "all_sim tb cur E N (grown hist (dpcs s i)) (after_dstep s i q' c')"
  shows "dyn_sim tb cur E N c0 (grown hist (dpcs s i)) (after_dstep s i q' c')"
  using dyn_step[OF dyn_simD(1)[OF D] R out] late fresh len sims dyn_simD(5)[OF D] i
  by (simp add: dyn_sim_def all_sim_def after_dstep_def)

lemma quiet_length:
  assumes "dyn_sim tb cur E N c0 hist s" "dpushTicket q' = dpushTicket (dqueue s)"
  shows "length (dpushed (after_dstep s i q' c')) = unat (dpushTicket q')"
  using dyn_simD(4)[OF assms(1)] assms(2) by (simp add: after_dstep_def)

lemma own_array:
  assumes I: "dyn_inv E c0 q hist P" and l: "located (P i) = Some (b, t, r)"
  obtains k where "k < length hist" "r = hist ! k" "mine hist k (unat t)"
    "ticket_le (dpushTicket q) (dpopTicket q) b t" "\<And>j. j < length hist \<Longrightarrow> j \<noteq> k \<Longrightarrow> \<not> mine hist j (unat t)"
proof -
  note o = own_ticket[OF I l]
  note rise = hist_facts(1)[OF I]
  have "hist \<noteq> []" "refOffset (hd hist) \<le> t"
    using rise by (auto simp: rising_def)
  then obtain k where k: "k < length hist" "lookup hist t = hist ! k" "mine hist k (unat t)"
    using mine_lookup_ex by blast
  moreover have "\<not> mine hist j (unat t)" if "j < length hist" "j \<noteq> k" for j
    using mine_unique[OF rise _ k(3) that(1) k(1)] that(2) by blast
  ultimately show thesis
    using that o by (metis (no_types))
qed

lemma cell_step_sim:
  assumes D: "dyn_sim tb cur E N c0 hist s" and G: "good_env tb cur (fixedEnv E) N" and R: "roomy (dqueue s)"
    and i: "i < N" "at_cell (dpcs s i)"
  shows "dstep E dl al (dqueue s) (dpcs s i) \<noteq> Undefined"
    and "dstep E dl al (dqueue s) (dpcs s i) = Done (q', c') \<Longrightarrow>
      dyn_sim tb cur E N c0 (grown hist (dpcs s i)) (after_dstep s i q' c')"
proof -
  note I = dyn_simD(1)[OF D]
  obtain b t r where l: "located (dpcs s i) = Some (b, t, r)"
    using i(2) by (cases "dpcs s i") auto
  obtain k where k: "k < length hist" "r = hist ! k" "mine hist k (unat t)"
    "ticket_le (dpushTicket (dqueue s)) (dpopTicket (dqueue s)) b t" "\<And>j. j < length hist \<Longrightarrow> j \<noteq> k \<Longrightarrow> \<not> mine hist j (unat t)"
    using own_array[OF I l] by blast
  note l = l[unfolded k(2)]
  obtain r0 where S: "sim tb cur (fixedEnv E) N (proj hist k s) r0"
    using dyn_simD(6)[OF D k(1)] by blast
  have room: "has_room (proj hist k s)"
    by (rule proj_room[OF R dyn_simD(4)[OF D]])
  note cs = cell_sim[OF S G room i l k(3,4) hist_facts(3)[OF I k(1)]]
  show "dstep E dl al (dqueue s) (dpcs s i) \<noteq> Undefined"
    by (rule cs(1))
  assume out: "dstep E dl al (dqueue s) (dpcs s i) = Done (q', c')"
  have g: "grown hist (dpcs s i) = hist"
    by (rule grown_unlocked[OF cell_lock(1)[OF i(2)]])
  obtain r' a where "q' = put_view (dqueue s) r' a"
    using cell_result[OF i(2) out] by metis
  then have "dpushTicket q' = dpushTicket (dqueue s)"
    by (simp add: put_view_def)
  then have len: "length (dpushed (after_dstep s i q' c')) = unat (dpushTicket q')"
    by (rule quiet_length[OF D])
  have "\<exists>r'. sim tb cur (fixedEnv E) N (proj hist j (after_dstep s i q' c')) r'" if j: "j < length hist" for j
  proof (cases "j = k")
    case True
    then show ?thesis
      using cs(2)[OF out] by simp
  next
    case False
    obtain r1 where S1: "sim tb cur (fixedEnv E) N (proj hist j s) r1"
      using dyn_simD(6)[OF D j] by blast
    show ?thesis
      using cell_sim_other[OF S1 hist_facts(4)[OF I j k(1) False] i(2) l k(5)[OF j False] hist_facts(3)[OF I k(1)] out] by blast
  qed
  then show "dyn_sim tb cur E N c0 (grown hist (dpcs s i)) (after_dstep s i q' c')"
    using late_cell[OF dyn_simD(2)[OF D] i(2) out] fresh_cell[OF I dyn_simD(3)[OF D] i(2) out] len
    by (intro dyn_sim_next[OF D R i(1) out]) (simp_all add: g all_sim_def)
qed

lemma not_handing: "\<not> at_cell c \<Longrightarrow> handing c = []"
  by (cases c rule: handing.cases) auto

lemma plain_step_sim:
  assumes D: "dyn_sim tb cur E N c0 hist s" and R: "roomy (dqueue s)" and i: "i < N"
    and c: "\<not> at_cell (dpcs s i)" "dinside (dpcs s i)" "\<And>job st r e. dpcs s i \<noteq> DExpand job st r e"
    and out: "dstep E dl al (dqueue s) (dpcs s i) = Done (q', c')"
  shows "dyn_sim tb cur E N c0 (grown hist (dpcs s i)) (after_dstep s i q' c')"
proof -
  note I = dyn_simD(1)[OF D]
  have g: "grown hist (dpcs s i) = hist"
    using c(3) by (cases "dpcs s i") auto
  note nh = not_handing[OF c(1)]
  have u: "dpushTicket (dqueue s) + 1 \<noteq> dpushTicket (dqueue s)" "unat (dpushTicket (dqueue s) + 1) = Suc (unat (dpushTicket (dqueue s)))"
    using unat_add_one[of "dpushTicket (dqueue s)"] R by (simp_all add: roomy_def)
  have room: "has_room (proj hist k s)" for k
    by (rule proj_room[OF R dyn_simD(4)[OF D]])
  consider (same) "q' = dqueue s" "holds c' = holds (dpcs s i)" | (push) "takes_push (dqueue s) (dpcs s i) q' c'"
    | (pop) "takes_pop (dqueue s) (dpcs s i) q' c'"
    using plain_kinds[OF dyn_invD(5)[OF I] c out] by blast
  then have "all_sim tb cur E N hist (after_dstep s i q' c') \<and>
      length (dpushed (after_dstep s i q' c')) = unat (dpushTicket q') \<and> arrays q' = arrays (dqueue s)"
  proof cases
    case same
    then have "all_sim tb cur E N hist (after_dstep s i q' c')"
      using dyn_simD(6)[OF D] proj_quiet[of hist q' s c' i, OF _ same(2) nh] by (simp add: all_sim_def)
    then show ?thesis
      using quiet_length[OF D] same(1) by simp
  next
    case push
    then obtain v where p: "q' = (dqueue s)\<lparr>dpushTicket := dpushTicket (dqueue s) + 1\<rparr>" "holds (dpcs s i) = None"
      "holds c' = Some (dpushTicket (dqueue s), \<lambda>u. Enqueueing u EnqWaitTurn v)" "pushing (dpcs s i) = [v]"
      by (auto simp: takes_push_def)
    have free: "stage_of (pcs (proj hist k s) i) = Free" for k
      using p(2) by (simp add: proj_pc_def)
    have "\<exists>r. sim tb cur (fixedEnv E) N (proj hist k (after_dstep s i q' c')) r" if k: "k < length hist" for k
    proof -
      obtain r0 where S: "sim tb cur (fixedEnv E) N (proj hist k s) r0"
        using dyn_simD(6)[OF D k] by blast
      note pt = proj_take_push[OF p(2-4) nh dyn_simD(4)[OF D] R, of hist k, folded p(1)]
      show ?thesis
        using sim_take_push[OF S room i free] pt S
        by (cases "mine hist k (unat (dpushTicket (dqueue s)))") (auto simp: sim_to_def)
    qed
    then show ?thesis
      using p(1,4) u dyn_simD(4)[OF D] by (simp add: all_sim_def after_dstep_def)
  next
    case pop
    then have p: "q' = (dqueue s)\<lparr>dpopTicket := dpopTicket (dqueue s) + 1\<rparr>" "holds (dpcs s i) = None"
      "holds c' = Some (dpopTicket (dqueue s), \<lambda>u. Dequeueing u DeqWaitTurn)"
      by (auto simp: takes_pop_def)
    have free: "stage_of (pcs (proj hist k s) i) = Free" for k
      using p(2) by (simp add: proj_pc_def)
    have "\<exists>r. sim tb cur (fixedEnv E) N (proj hist k (after_dstep s i q' c')) r" if k: "k < length hist" for k
    proof -
      obtain r0 where S: "sim tb cur (fixedEnv E) N (proj hist k s) r0"
        using dyn_simD(6)[OF D k] by blast
      note pt = proj_take_pop[OF p(2,3) nh R, of hist k, folded p(1)]
      show ?thesis
        using sim_take_pop[OF S room i free] pt S
        by (cases "mine hist k (unat (dpopTicket (dqueue s)))") (auto simp: sim_to_def)
    qed
    then show ?thesis
      using p(1) quiet_length[OF D, of q' i c'] by (simp add: all_sim_def)
  qed
  then show ?thesis
    using late_plain[OF I dyn_simD(2)[OF D] R c out] fresh_plain[OF dyn_simD(3)[OF D] c(1,3) out]
    by (intro dyn_sim_next[OF D R i out]) (simp_all add: g)
qed

lemma grown_sim:
  assumes D: "dyn_sim tb cur E N c0 hist s" and G: "good_env tb cur (fixedEnv E) N" and i: "dpcs s i = DExpand job st r e"
  shows "all_sim tb cur E N (grown hist (dpcs s i)) s" "k < length (grown hist (dpcs s i)) \<Longrightarrow>
    refSlots (grown hist (dpcs s i) ! k) < length (arrays (dqueue s))"
proof -
  note I = dyn_simD(1)[OF D]
  have "all_sim tb cur E N (grown hist (dpcs s i)) s \<and>
    (\<forall>k < length (grown hist (dpcs s i)). refSlots (grown hist (dpcs s i) ! k) < length (arrays (dqueue s)))"
  proof (cases "\<exists>t sl n. e = ExpandRelease t sl n")
    case False
    then have "grown hist (dpcs s i) = hist"
      unfolding i by (cases e) auto
    then show ?thesis
      using dyn_simD(6)[OF D] hist_facts(3)[OF I] by (simp add: all_sim_def)
  next
    case True
    then obtain t sl n where e: "e = ExpandRelease t sl n"
      by blast
    define x where "x = newRef t sl n"
    have C: "closing E hist s x"
      unfolding x_def by (rule closingI[OF D i[unfolded e]])
    have h: "hist \<noteq> []"
      using hist_facts(1)[OF I] by (simp add: rising_def)
    obtain l where l: "l = length hist - 1" "l < length hist"
      using h by simp
    have "off hist l \<le> unat (refOffset x)"
      using closingD(1)[OF C] l(1) by simp
    note sn = mine_snoc[OF h this[unfolded l(1)]]
    have "\<exists>r. sim tb cur (fixedEnv E) N (proj (hist @ [x]) k s) r" if k: "k < Suc (length hist)" for k
    proof -
      consider "Suc k < length hist" | "k = l" | "k = length hist"
        using k l by linarith
      then show ?thesis
      proof cases
        case 1
        then have "proj (hist @ [x]) k s = proj hist k s"
          using sn(1,2) by (intro proj_cong) (simp_all add: nth_append)
        then show ?thesis
          using dyn_simD(6)[OF D, of k] 1 by simp
      next
        case 2
        then show ?thesis
          using dyn_simD(6)[OF D l(2)] closing_sim_last[OF D C l(1)] by blast
      next
        case 3
        obtain r0 where "sim tb cur (fixedEnv E) N (proj hist l s) r0"
          using dyn_simD(6)[OF D l(2)] by blast
        then have "publishing tb cur E N c0 hist s x l r0"
          using D C h l(1) by (simp add: publishing_def)
        then show ?thesis
          using closing_sim_new[OF _ G] 3 by blast
      qed
    qed
    moreover have "grown hist (dpcs s i) = hist @ [x]"
      by (simp add: i e x_def)
    moreover have "refSlots x < length (arrays (dqueue s))"
      using closingD(4)[OF C] by (simp add: ref_ok_def)
    ultimately show ?thesis
      using hist_facts(3)[OF I] by (auto simp: all_sim_def nth_append less_Suc_eq)
  qed
  then show "all_sim tb cur E N (grown hist (dpcs s i)) s" "k < length (grown hist (dpcs s i)) \<Longrightarrow>
      refSlots (grown hist (dpcs s i) ! k) < length (arrays (dqueue s))"
    by simp_all
qed

lemma expand_step_sim:
  assumes D: "dyn_sim tb cur E N c0 hist s" and G: "good_env tb cur (fixedEnv E) N" and R: "roomy (dqueue s)"
    and i: "i < N" "dpcs s i = DExpand job st r e" and out: "dstep E dl al (dqueue s) (dpcs s i) = Done (q', c')"
  shows "dyn_sim tb cur E N c0 (grown hist (dpcs s i)) (after_dstep s i q' c')"
proof -
  note I = dyn_simD(1)[OF D]
  have p: "is_push job"
    using dyn_invD(5)[OF I, of i] i(2) by simp
  note ek = expand_kind[OF out[unfolded i(2)] p]
  obtain xs where xs: "arrays q' = arrays (dqueue s) @ xs"
    using ek(6) by blast
  have q: "proj (grown hist (dpcs s i)) k (after_dstep s i q' c') = proj (grown hist (dpcs s i)) k s"
    if k: "k < length (grown hist (dpcs s i))" for k
    using view_same[OF ek(2-5) xs grown_sim(2)[OF D G i(2)]] ek(1) k by (intro proj_quiet) (simp_all add: i(2))
  have "all_sim tb cur E N (grown hist (dpcs s i)) (after_dstep s i q' c')"
    using grown_sim(1)[OF D G i(2)] q by (simp add: all_sim_def)
  then show ?thesis
    using late_expand[OF I dyn_simD(2)[OF D] R i(2) p out] fresh_expand[OF I dyn_simD(3)[OF D] i(2) p out] quiet_length[OF D ek(2)]
    by (intro dyn_sim_next[OF D R i(1) out])
qed

lemma dyn_sim_step:
  assumes D: "dyn_sim tb cur E N c0 hist s" and G: "good_env tb cur (fixedEnv E) N" and R: "roomy (dqueue s)"
    and i: "i < N" "dinside (dpcs s i)"
  shows "dstep E dl al (dqueue s) (dpcs s i) \<noteq> Undefined"
    and "dstep E dl al (dqueue s) (dpcs s i) = Done (q', c') \<Longrightarrow>
      dyn_sim tb cur E N c0 (grown hist (dpcs s i)) (after_dstep s i q' c')"
proof -
  show "dstep E dl al (dqueue s) (dpcs s i) \<noteq> Undefined"
    using cell_step_sim(1)[OF D G R i(1)] dyn_defined[OF dyn_simD(1)[OF D] R, of i dl al] by (cases "at_cell (dpcs s i)") auto
  assume out: "dstep E dl al (dqueue s) (dpcs s i) = Done (q', c')"
  consider "at_cell (dpcs s i)" | job st r e where "dpcs s i = DExpand job st r e"
    | "\<not> at_cell (dpcs s i)" "\<And>job st r e. dpcs s i \<noteq> DExpand job st r e"
    by blast
  then show "dyn_sim tb cur E N c0 (grown hist (dpcs s i)) (after_dstep s i q' c')"
  proof cases
    case 1
    then show ?thesis
      by (rule cell_step_sim(2)[OF D G R i(1) _ out])
  next
    case 2
    then show ?thesis
      by (rule expand_step_sim[OF D G R i(1) _ out])
  next
    case 3
    then show ?thesis
      by (intro plain_step_sim[OF D R i(1) _ i(2) _ out])
  qed
qed

section \<open>Runs\<close>

lemma invoke_sim:
  assumes D: "dyn_sim tb cur E N c0 hist s" and i: "i < N" "\<not> dinside (dpcs s i)"
  shows "dyn_sim tb cur E N c0 hist (s\<lparr>dpcs := (dpcs s)(i := denter c)\<rparr>)"
proof -
  note I = dyn_simD(1)[OF D]
  have o: "holds (dpcs s i) = None" "\<not> in_section b u (dpcs s i)" for b u
    using i(2) by (cases "dpcs s i"; simp)+
  have n: "holds (denter c) = None" "lock_pc (denter c) = None"
    by (cases c; simp)+
  have "late_inv E (dqueue s) ((dpcs s)(i := denter c))"
    unfolding late_inv_def
  proof (intro allI impI)
    fix k e b u
    assume k: "lock_pc (((dpcs s)(i := denter c)) k) = Some e" "expand_floor E (dqueue s) e \<le> unat u" "u < counter (dqueue s) b"
    then have "lock_pc (dpcs s k) = Some e"
      using n(2) by (cases "k = i") simp_all
    then obtain j where "in_section b u (dpcs s j)"
      using dyn_simD(2)[OF D] k(2,3) unfolding late_inv_def by blast
    then show "\<exists>j. in_section b u (((dpcs s)(i := denter c)) j)"
      using o(2) by (intro exI[of _ j]) auto
  qed
  moreover have "fresh_inv E (dqueue s) ((dpcs s)(i := denter c))"
    by (rule fresh_keep[OF dyn_simD(3)[OF D] n(2)]) simp
  moreover have "proj hist k (s\<lparr>dpcs := (dpcs s)(i := denter c)\<rparr>) = proj hist k s" for k
  proof -
    have "proj_pc hist k (denter c) = proj_pc hist k (dpcs s i)"
      using o(1) n(1) by (simp add: proj_pc_def)
    then have "(\<lambda>j. proj_pc hist k (((dpcs s)(i := denter c)) j)) = (\<lambda>j. proj_pc hist k (dpcs s j))"
      by (auto simp: fun_eq_iff)
    then show ?thesis
      by (simp add: proj_def)
  qed
  ultimately show ?thesis
    using invoke_inv[OF I i(2)] dyn_simD(4-6)[OF D] i(1) by (simp add: dyn_sim_def)
qed

lemma init_sim:
  assumes new: "newDynQueue E queueCapacity minCapacity mult = Some (Inr q)"
    and b: "unat (max 2 mult) * unat queueCapacity < 2 ^ 64"
      "unat queueCapacity + 2 * unat (slotPadding (fixedEnv E)) < 2 ^ 63" "length (closed q) < 32"
    and G: "good_env tb cur (fixedEnv E) N"
  shows "\<exists>c0 hist. dyn_sim tb cur E N c0 hist (dsys_init q)"
proof -
  obtain c0 r where i: "dyn_inv E c0 q [r] (\<lambda>i. DIdle)" "dpushTicket q = 0" "dpopTicket q = 0" "arrays q ! refSlots r = newArray E (refCap r)"
    using init_dyn_inv[OF new b] by blast
  let ?V = "array_view q r"
  let ?R = "ring_init (unat (refCap r)) (nat (refStride r))"
  have T: "turn_contract tb (seqOps (fixedEnv E)) cur"
    using G by (simp add: good_env_def)
  have "ref_ok E q r"
    using hist_facts(2)[OF i(1), of 0] by simp
  note wf = array_wf[OF dyn_invD(1)[OF i(1)] this]
  have "ring_inv ?R"
    using wf_queueD(1,5)[OF wf] by (intro ring_inv_init) (simp_all add: array_view_def)
  moreover have "cells_match tb cur (fixedEnv E) ?V ?R"
    by (rule fresh_cells_match[OF wf _ T]) (simp_all add: array_view_def i(4) ring_init_def)
  then have "queue_match tb cur (fixedEnv E) (proj_queue [r] 0 q) ?R"
    using wf i(2,3) by (simp add: proj_queue_match ring_init_def share_def)
  ultimately have "sim tb cur (fixedEnv E) N (proj [r] 0 (dsys_init q)) ?R"
    using i(3) by (simp add: sim_def proj_def dsys_init_def ring_init_def proj_pc_def share_def)
  then have "dyn_sim tb cur E N c0 [r] (dsys_init q)"
    using i(1,2) by (auto simp: dyn_sim_def dsys_init_def late_inv_def fresh_inv_def)
  then show ?thesis
    by blast
qed

lemma run_sim_from:
  assumes "dsys_run E N s es = Some s'" "dyn_sim tb cur E N c0 hist s" "good_env tb cur (fixedEnv E) N"
    "unat (dpushTicket (dqueue s)) \<le> n" "unat (dpopTicket (dqueue s)) \<le> n" "n + length es + 1 < 2 ^ 58"
  shows "\<exists>hist'. dyn_sim tb cur E N c0 hist' s' \<and> roomy (dqueue s')"
  using assms
proof (induction es arbitrary: s n hist)
  case Nil
  then show ?case
    by (auto simp: roomy_def)
next
  case (Cons e es)
  have R: "roomy (dqueue s)"
    using Cons.prems(4-6) by (simp add: roomy_def)
  obtain s1 where s1: "dsys_step E N s e = Some s1" "dsys_run E N s1 es = Some s'"
    using Cons.prems(1) by (auto split: option.splits)
  have "\<exists>hist1. dyn_sim tb cur E N c0 hist1 s1 \<and>
      unat (dpushTicket (dqueue s1)) \<le> n + 1 \<and> unat (dpopTicket (dqueue s1)) \<le> n + 1"
  proof (cases e)
    case (DInvoke i c)
    then have i: "i < N" "\<not> dinside (dpcs s i)" "s1 = s\<lparr>dpcs := (dpcs s)(i := denter c)\<rparr>"
      using s1(1) by (simp_all split: if_splits)
    then show ?thesis
      using invoke_sim[OF Cons.prems(2) i(1,2), of c] Cons.prems(4,5) by auto
  next
    case (DAdvance i dl al)
    then obtain q c where d: "i < N" "dinside (dpcs s i)" "dstep E dl al (dqueue s) (dpcs s i) = Done (q, c)" "s1 = after_dstep s i q c"
      using s1(1) by (auto split: if_splits outcome.splits)
    then have "dyn_sim tb cur E N c0 (grown hist (dpcs s i)) s1" "dqueue s1 = q"
      using dyn_sim_step(2)[OF Cons.prems(2,3) R d(1-3)] by (simp_all add: after_dstep_def)
    then show ?thesis
      using step_counters[OF d(3) R] Cons.prems(4,5) by auto
  qed
  then obtain hist1 where h: "dyn_sim tb cur E N c0 hist1 s1"
    "unat (dpushTicket (dqueue s1)) \<le> n + 1" "unat (dpopTicket (dqueue s1)) \<le> n + 1"
    by blast
  show ?case
    using Cons.IH[OF s1(2) h(1) Cons.prems(3) h(2,3)] Cons.prems(6) by auto
qed

lemma dyn_run_sim:
  assumes "newDynQueue E queueCapacity minCapacity mult = Some (Inr q)" "unat (max 2 mult) * unat queueCapacity < 2 ^ 64"
    "unat queueCapacity + 2 * unat (slotPadding (fixedEnv E)) < 2 ^ 63" "length (closed q) < 32"
    "dsys_run E N (dsys_init q) es = Some s" "length es + 1 < 2 ^ 58" "good_env tb cur (fixedEnv E) N"
  obtains c0 hist where "dyn_sim tb cur E N c0 hist s" "roomy (dqueue s)"
proof -
  obtain c0 hist where i: "dyn_sim tb cur E N c0 hist (dsys_init q)"
    using init_sim[OF assms(1-4,7)] by blast
  have "dpushTicket q = 0" "dpopTicket q = 0"
    using init_dyn_inv[OF assms(1-4)] by auto
  then show thesis
    using run_sim_from[OF assms(5) i assms(7), of 0] assms(6) that by (auto simp: dsys_init_def)
qed

section \<open>Deliveries\<close>

lemma distinct_by_parts:
  assumes "\<forall>x \<in> set xs. \<exists>P. P x \<and> distinct (filter P xs)"
  shows "distinct xs"
  using assms
proof (induction xs)
  case (Cons x xs)
  from Cons.prems obtain P where P: "P x" "distinct (filter P (x # xs))"
    unfolding list.set ball_simps by (elim conjE exE)
  have "\<forall>y \<in> set xs. \<exists>Q. Q y \<and> distinct (filter Q xs)"
  proof
    fix y assume "y \<in> set xs"
    with Cons.prems obtain Q where Q: "Q y" "distinct (filter Q (x # xs))"
      by (metis (no_types) list.set_intros(2))
    from Q(2) have "distinct (filter Q xs)"
      by (cases "Q x") simp_all
    with Q(1) show "\<exists>Q. Q y \<and> distinct (filter Q xs)"
      by (intro exI conjI)
  qed
  then have "distinct xs"
    by (rule Cons.IH)
  with P show ?case
    by simp
qed simp

lemma share_less:
  assumes "mine hist k t"
  shows "t - off hist k < share hist k x \<longleftrightarrow> t < x"
proof -
  have "t - a < min x b - a \<longleftrightarrow> t < x" "t - a < x - a \<longleftrightarrow> t < x" if "a \<le> t" "t < b" for a b :: nat
    using that by arith+
  moreover have "off hist k \<le> t" "Suc k < length hist \<Longrightarrow> t < off hist (Suc k)"
    using assms by (simp_all add: mine_def)
  ultimately show ?thesis
    unfolding share_def by (cases "Suc k < length hist") (simp_all only: if_True if_False, blast+)
qed

lemma delivered_sim:
  assumes D: "dyn_sim tb cur E N c0 hist s" and k: "k < length hist" and m: "mine hist k t"
  obtains r where "sim tb cur (fixedEnv E) N (proj hist k s) r"
    "\<And>v. (t - off hist k, v) \<in> set (taken r) \<longleftrightarrow> (t, v) \<in> set (ddelivered s)"
proof -
  obtain r where S: "sim tb cur (fixedEnv E) N (proj hist k s) r"
    using dyn_simD(6)[OF D k] by blast
  have "(t - off hist k, v) \<in> set (taken r) \<longleftrightarrow> (t, v) \<in> set (ddelivered s)" for v
  proof -
    have "t' = t" if "mine hist k t'" "t - off hist k = t' - off hist k" for t'
      using that m unfolding mine_def by linarith
    moreover have "(t - off hist k, v) \<in> set (taken r) \<longleftrightarrow>
        (\<exists>t'. (t', v) \<in> set (ddelivered s) \<and> mine hist k t' \<and> t - off hist k = t' - off hist k)"
      unfolding simD(8)[OF S] by (auto simp: proj_def)
    ultimately show ?thesis
      using m by metis
  qed
  with S show thesis
    by (rule that)
qed

lemma delivered_value:
  assumes D: "dyn_sim tb cur E N c0 hist s" and d: "(t, v) \<in> set (ddelivered s)"
  shows "t < length (dpushed s) \<and> v = dpushed s ! t \<and> t < unat (dpopTicket (dqueue s))"
proof -
  obtain k where k: "k < length hist" "mine hist k t"
    using mine_ex[OF hist_facts(1)[OF dyn_simD(1)[OF D]]] by blast
  obtain r where S: "sim tb cur (fixedEnv E) N (proj hist k s) r" and t: "(t - off hist k, v) \<in> set (taken r)"
    using delivered_sim[OF D k] d by blast
  note f = ring_inv_fifo(2,3)[OF simD(1)[OF S] t]
  have w: "written r = take (share hist k (length (dpushed s))) (drop (off hist k) (dpushed s))"
    unfolding simD(6)[OF S] by (simp add: proj_def)
  then have "t - off hist k < share hist k (length (dpushed s))"
    using f(1) by simp
  then have l: "t < length (dpushed s)"
    using share_less[OF k(2)] by blast
  have "v = dpushed s ! t"
  proof -
    have "off hist k + (t - off hist k) = t"
      using k(2) by (simp add: mine_def)
    then show ?thesis
      using f(1) l by (simp add: w)
  qed
  moreover have "t < unat (dpopTicket (dqueue s))"
    using f(2) sim_shares(2)[OF S] share_less[OF k(2)] by simp
  ultimately show ?thesis
    using l by blast
qed

lemma delivered_once:
  assumes D: "dyn_sim tb cur E N c0 hist s"
  shows "distinct (map fst (ddelivered s))"
proof (intro distinct_by_parts ballI)
  fix t
  obtain k where k: "k < length hist" "mine hist k t"
    using mine_ex[OF hist_facts(1)[OF dyn_simD(1)[OF D]]] by blast
  obtain r where S: "sim tb cur (fixedEnv E) N (proj hist k s) r"
    using dyn_simD(6)[OF D k(1)] by blast
  have "map fst (taken r) = map (\<lambda>t. t - off hist k) (filter (mine hist k) (map fst (ddelivered s)))"
    unfolding simD(8)[OF S] by (simp add: proj_def filter_map comp_def split_def)
  then have "distinct (filter (mine hist k) (map fst (ddelivered s)))"
    using ring_inv_fifo(1)[OF simD(1)[OF S]] by (simp add: distinct_map)
  with k(2) show "\<exists>P. P t \<and> distinct (filter P (map fst (ddelivered s)))"
    by blast
qed

lemma quiet_delivered:
  assumes D: "dyn_sim tb cur E N c0 hist s" and q: "\<And>i. \<not> dinside (dpcs s i)" and t: "t < unat (dpopTicket (dqueue s))"
  shows "\<exists>v. (t, v) \<in> set (ddelivered s)"
proof -
  obtain k where k: "k < length hist" "mine hist k t"
    using mine_ex[OF hist_facts(1)[OF dyn_simD(1)[OF D]]] by blast
  obtain r where S: "sim tb cur (fixedEnv E) N (proj hist k s) r" and d: "\<And>v. (t - off hist k, v) \<in> set (taken r) \<longleftrightarrow> (t, v) \<in> set (ddelivered s)"
    using delivered_sim[OF D k] by blast
  have "holds (dpcs s i) = None" for i
    using q[of i] by (cases "dpcs s i") simp_all
  then have "stages r i = Free" for i
    unfolding simD(3)[OF S] by (simp add: proj_pc_def)
  moreover have "t - off hist k < pops r"
    using t sim_shares(2)[OF S] share_less[OF k(2)] by simp
  ultimately show ?thesis
    using ring_inv_served[OF simD(1)[OF S], of "t - off hist k"] d by auto
qed

section \<open>Progress\<close>

lemma ticket_owner_moves:
  assumes D: "dyn_sim tb cur E N c0 hist s" and G: "good_env tb cur (fixedEnv E) N" and R: "roomy (dqueue s)"
    and S: "sim tb cur (fixedEnv E) N (proj hist k s) r" and k: "k < length hist" and a: "advances r j"
  shows "j < N \<and> holds (dpcs s j) \<noteq> None \<and> (\<exists>q' c'. dstep E dl al (dqueue s) (dpcs s j) = Done (q', c'))"
proof -
  note I = dyn_simD(1)[OF D]
  have busy: "stages r j \<noteq> Free"
    using a by auto
  then have p: "stage_of (proj_pc hist k (dpcs s j)) \<noteq> Free"
    using simD(3)[OF S, of j] by simp
  then obtain u f where h: "holds (dpcs s j) = Some (u, f)" "mine hist k (unat u)"
    by (auto simp: proj_pc_def split: option.splits if_splits)
  have "\<exists>q' c'. dstep E dl al (dqueue s) (dpcs s j) = Done (q', c')"
  proof (cases "at_cell (dpcs s j)")
    case False
    then show ?thesis
      by (rule dyn_defined[OF I R])
  next
    case True
    obtain b t x where l: "located (dpcs s j) = Some (b, t, x)"
      using True by (cases "dpcs s j") auto
    have tu: "t = u"
      by (rule holds_located[OF h(1) l])
    obtain k' where k': "k' < length hist" "x = hist ! k'" "mine hist k' (unat t)"
      using own_array[OF I l] by blast
    have "k' = k"
      using mine_unique[OF hist_facts(1)[OF I] k'(3) _ k'(1) k] h(2) tu by simp
    then have x: "located (dpcs s j) = Some (b, t, hist ! k)"
      using l k'(2) by simp
    have pc: "pcs (proj hist k s) j = cell_pc (dpcs s j)"
      using True x h tu by (cases "dpcs s j") (auto simp: proj_pc_def)
    have "\<exists>q' c'. step (fixedEnv E) dl (proj_queue hist k (dqueue s)) (cell_pc (dpcs s j)) = Done (q', c')"
      using advances_moves[OF S G proj_room[OF R dyn_simD(4)[OF D]] a, of dl] unfolding pc proj_simps(1) by blast
    then obtain a' p' where "step (fixedEnv E) dl (array_view (dqueue s) (hist ! k)) (cell_pc (dpcs s j)) = Done (a', p')"
      unfolding proj_queue_def cell_step_counters[OF True] by (auto simp: bind_outcome_Done_iff)
    then show ?thesis
      unfolding dstep_cell[OF True x hist_facts(3)[OF I k]] by simp
  qed
  with h(1) sim_active[OF S busy] show ?thesis
    by simp
qed

lemma waiter_stage:
  assumes D: "dyn_sim tb cur E N c0 hist s" and l: "located (dpcs s i) = Some (b, t, r)" and h: "holds (dpcs s i) \<noteq> None"
  obtains k r0 where "k < length hist" "r = hist ! k" "mine hist k (unat t)" "sim tb cur (fixedEnv E) N (proj hist k s) r0"
    "(if b then enqT else deqT) (stages r0 i) = Some (unat t - off hist k) \<or> \<not> at_cell (dpcs s i)"
proof -
  obtain k where k: "k < length hist" "r = hist ! k" "mine hist k (unat t)"
    using own_array[OF dyn_simD(1)[OF D] l] by blast
  obtain r0 where S: "sim tb cur (fixedEnv E) N (proj hist k s) r0"
    using dyn_simD(6)[OF D k(1)] by blast
  note st = simD(3,4)[OF S, of i] and u = ticket_split(2)[OF k(3)]
  have "(if b then enqT else deqT) (stages r0 i) = Some (unat t - off hist k)" if "at_cell (dpcs s i)"
  proof (cases "dpcs s i")
    case (DEnqueue t' r' c v)
    then show ?thesis
      using st l k(2,3) u by (cases c) (auto simp: proj_pc_def)
  next
    case (DDequeue b' t' r' c)
    then show ?thesis
      using st l k(2,3) u by (cases c) (auto simp: proj_pc_def)
  qed (use that h in simp_all)
  then show thesis
    using that[OF k S] by blast
qed

end
