(* ===== verification/DynamicProperties.thy ===== *)
theory DynamicProperties
  imports DynamicFifo
begin

text \<open>
  The properties of the dynamic queue, over the runs of \<open>DynamicMPMC\<close>: operations agree on the array of a ticket
  (\<open>DynamicSeqlock\<close>), every value is delivered once and under the ticket it was pushed with, no step is undefined, and no
  thread waits in vain (\<open>DynamicFifo\<close>). The bounds are those of the code: the multiplier times the capacity does not wrap, at
  most 31 arrays are ever closed, fewer than \<open>2 ^ 58\<close> events, and fewer threads than a quarter of the turn numbers.
\<close>

section \<open>A small queue\<close>

text \<open>A queue of capacity four that starts with one cell; the first thread takes its ticket before, the third one after the
  expansion that the second makes.\<close>

definition dynEnv :: "u32 dyn_env" where
  "dynEnv = \<lparr>fixedEnv = counting_env, pushFirst = True\<rparr>"

definition smallDyn :: "(u32, int) DynQueue" where
  "smallDyn = \<lparr>maxCapacity = 4, dslots = 1, dstride = 1, dstate = 0, dcapacity = 1, dmult = 2,
     closed = [newClosedArray, newClosedArray], dpushTicket = 0, dpopTicket = 0, dpushSpinCutoff = 0, dpopSpinCutoff = 0,
     arrays = [[], replicate 5 (newSlot counting_ops)]\<rparr>"

abbreviation dyn_advances :: "nat \<Rightarrow> nat \<Rightarrow> 'a devent list" where
  "dyn_advances n i \<equiv> replicate n (DAdvance i False True)"

definition expandingRun :: "int devent list" where
  "expandingRun = [DInvoke 0 (BlockingWrite 7)] @ dyn_advances 7 0 @ [DInvoke 1 (BlockingWrite 8)] @ dyn_advances 16 1 @
     [DInvoke 2 BlockingRead] @ dyn_advances 6 2"

definition oldArray :: arrayRef where
  "oldArray = \<lparr>refOffset = 0, refSlots = 1, refCap = 1, refStride = 1\<rparr>"

lemma small_loop: "maxClosed_loop 4 2 1 0 = Some 2"
  by (subst maxClosed_loop.simps, simp, subst maxClosed_loop.simps, simp, subst maxClosed_loop.simps, simp)

lemma small_new: "newDynQueue dynEnv 4 1 2 = Some (Inr smallDyn)"
  by (simp add: newDynQueue_def initQueue_def small_loop) code_simp

lemma small_bounds:
  "unat (max 2 2 :: u64) * unat (4 :: u64) < 2 ^ 64" "unat (4 :: u64) + 2 * unat (slotPadding (fixedEnv dynEnv)) < 2 ^ 63"
  "length (closed smallDyn) < 32" "length expandingRun + 1 < 2 ^ 58"
  by (simp_all add: dynEnv_def counting_env_def smallDyn_def expandingRun_def)

lemma expanding_result:
  "map_option (\<lambda>s. (dstate (dqueue s), located (dpcs s 0), dpcs s 1, located (dpcs s 2)))
     (dsys_run dynEnv 3 (dsys_init smallDyn) expandingRun) =
   Some (194, Some (True, 0, oldArray), DSection (JWrite 1 8) SecState, Some (False, 0, oldArray))"
  by code_simp

text \<open>The three operations complete; three more pushes and pops follow, the last ones in the second array.\<close>

definition deliveringRun :: "int devent list" where
  "deliveringRun = expandingRun @ dyn_advances 3 0 @ dyn_advances 3 2 @ dyn_advances 8 1 @
     [DInvoke 2 BlockingRead] @ dyn_advances 9 2 @ [DInvoke 0 (BlockingWrite 9)] @ dyn_advances 9 0 @
     [DInvoke 2 BlockingRead] @ dyn_advances 9 2 @ [DInvoke 0 (BlockingWrite 10)] @ dyn_advances 10 0 @
     [DInvoke 2 BlockingRead] @ dyn_advances 9 2"

lemma delivering_result:
  "map_option (\<lambda>s. (dpcs s 0, dpcs s 1, dpcs s 2, dpushed s, ddelivered s, dpopTicket (dqueue s)))
     (dsys_run dynEnv 3 (dsys_init smallDyn) deliveringRun) =
   Some (DWReturn True, DWReturn True, DRReturn (Some (3, 10)), [7, 8, 9, 10], [(0, 7), (1, 8), (2, 9), (3, 10)], 4)"
  by code_simp

lemma delivering_bound: "length deliveringRun + 1 < 2 ^ 58"
  by (simp add: deliveringRun_def expandingRun_def)

lemma dyn_good: "good_env 32 id (fixedEnv dynEnv) 3"
  using counting_contract by (simp add: good_env_def dynEnv_def counting_env_def)

lemma run_idle: "dsys_run E N s es = Some s' \<Longrightarrow> N \<le> i \<Longrightarrow> dpcs s' i = dpcs s i"
proof (induction es arbitrary: s)
  case (Cons e es)
  then obtain s1 where s1: "dsys_step E N s e = Some s1" "dsys_run E N s1 es = Some s'"
    by (auto split: option.splits)
  have "dpcs s1 i = dpcs s i"
    using s1(1) Cons.prems(2) by (cases e) (auto simp: after_dstep_def split: if_splits outcome.splits)
  then show ?case
    using Cons.IH[OF s1(2) Cons.prems(2)] by simp
qed simp

section \<open>Properties\<close>

text \<open>C3. Cn. Any number of threads use a dynamic queue at the same time, in any interleaving of the atomic steps of its public
  operations, of the expansions they make and of failed allocations. No pop ticket delivers twice, every delivered value is
  the one pushed under the same ticket number, whichever array it went through, and when no call is in progress exactly the
  issued pop tickets have delivered: reads return the values in the order in which their writes drew tickets, none lost
  and none duplicated by the replacement of arrays.\<close>

theorem dynamic_fifo:
  assumes "newDynQueue E queueCapacity minCapacity mult = Some (Inr q)" "unat (max 2 mult) * unat queueCapacity < 2 ^ 64"
    "unat queueCapacity + 2 * unat (slotPadding (fixedEnv E)) < 2 ^ 63" "length (closed q) < 32"
    "dsys_run E N (dsys_init q) es = Some s" "length es + 1 < 2 ^ 58" "good_env tb cur (fixedEnv E) N"
  shows "distinct (map fst (ddelivered s)) \<and>
    (\<forall>t v. (t, v) \<in> set (ddelivered s) \<longrightarrow> t < length (dpushed s) \<and> v = dpushed s ! t) \<and>
    ((\<forall>i. \<not> dinside (dpcs s i)) \<longrightarrow>
       set (ddelivered s) = (\<lambda>t. (t, dpushed s ! t)) ` {..<unat (dpopTicket (dqueue s))} \<and>
       unat (dpopTicket (dqueue s)) \<le> length (dpushed s))"
proof -
  obtain c0 hist where D: "dyn_sim tb cur E N c0 hist s"
    using dyn_run_sim[OF assms] by blast
  note val = delivered_value[OF D]
  have "set (ddelivered s) = (\<lambda>t. (t, dpushed s ! t)) ` {..<unat (dpopTicket (dqueue s))} \<and>
      unat (dpopTicket (dqueue s)) \<le> length (dpushed s)" if "\<forall>i. \<not> dinside (dpcs s i)"
  proof -
    have all: "t < length (dpushed s) \<and> (t, dpushed s ! t) \<in> set (ddelivered s)" if t: "t < unat (dpopTicket (dqueue s))" for t
      using quiet_delivered[OF D _ t] val \<open>\<forall>i. \<not> dinside (dpcs s i)\<close> by blast
    have "unat (dpopTicket (dqueue s)) \<le> length (dpushed s)"
      using all[of "length (dpushed s)"] by (meson less_irrefl not_le)
    moreover have "set (ddelivered s) = (\<lambda>t. (t, dpushed s ! t)) ` {..<unat (dpopTicket (dqueue s))}"
      using all val by auto
    ultimately show ?thesis
      by blast
  qed
  then show ?thesis
    using delivered_once[OF D] val by blast
qed

text \<open>Its witness: four values through two arrays.\<close>

theorem dynamic_fifo_witness:
  "\<exists>s. newDynQueue dynEnv 4 1 2 = Some (Inr smallDyn) \<and> dsys_run dynEnv 3 (dsys_init smallDyn) deliveringRun = Some s \<and>
     dpushed s = [7, 8, 9, 10] \<and> set (ddelivered s) = (\<lambda>t. (t, [7, 8, 9, 10] ! t)) ` {..<4}"
proof -
  obtain s where s: "dsys_run dynEnv 3 (dsys_init smallDyn) deliveringRun = Some s" "dpcs s 0 = DWReturn True" "dpcs s 1 = DWReturn True"
      "dpcs s 2 = DRReturn (Some (3, 10))" "dpushed s = [7, 8, 9, 10]" "dpopTicket (dqueue s) = 4"
    using delivering_result by (auto simp: map_option_case split: option.splits)
  have "\<not> dinside (dpcs s i)" for i
  proof -
    consider "i = 0" | "i = 1" | "i = 2" | "3 \<le> i"
      by linarith
    then show ?thesis
      using s(2-4) run_idle[OF s(1), of i] by cases (simp_all add: dsys_init_def)
  qed
  then have "set (ddelivered s) = (\<lambda>t. (t, dpushed s ! t)) ` {..<unat (dpopTicket (dqueue s))}"
    using dynamic_fifo[OF small_new small_bounds(1-3) s(1) delivering_bound dyn_good] by blast
  moreover have "unat (4 :: u64) = 4"
    by simp
  ultimately have "set (ddelivered s) = (\<lambda>t. (t, [7, 8, 9, 10] ! t)) ` {..<4}"
    by (simp only: s(5,6))
  then show ?thesis
    using small_new s(1,5) by blast
qed

text \<open>C5. Cn. Operations agree on the array of a ticket. In every interleaving of the operations of a dynamic queue, expansions
  and failed allocations included, two threads that have found the array of the same ticket have the same array,
  offset, capacity and stride, whether they push or pop and whether they looked before, during or after an
  expansion; the cell of a ticket is inside its array, and different tickets of one array differ in the
  cell or in the turn.\<close>

theorem dynamic_tickets_agree:
  assumes "newDynQueue E queueCapacity minCapacity mult = Some (Inr q)" "unat (max 2 mult) * unat queueCapacity < 2 ^ 64"
    "unat queueCapacity + 2 * unat (slotPadding (fixedEnv E)) < 2 ^ 63" "length (closed q) < 32"
    "dsys_run E N (dsys_init q) es = Some s" "length es + 1 < 2 ^ 58"
    and l: "located (dpcs s i) = Some (b, t, r)" "located (dpcs s k) = Some (b', t', r')"
  shows "(t = t' \<longrightarrow> r = r') \<and> (refSlots r = refSlots r' \<longrightarrow> r = r') \<and> refOffset r \<le> t \<and>
    slotIdx (fixedEnv E) (array_view (dqueue s) r) (t - refOffset r) < length (arrays (dqueue s) ! refSlots r) \<and>
    (r = r' \<and> t \<noteq> t' \<longrightarrow>
      slotIdx (fixedEnv E) (array_view (dqueue s) r) (t - refOffset r) \<noteq> slotIdx (fixedEnv E) (array_view (dqueue s) r) (t' - refOffset r) \<or>
      (t - refOffset r) div refCap r \<noteq> (t' - refOffset r) div refCap r)"
proof -
  obtain c0 hist where I: "dyn_inv E c0 (dqueue s) hist (dpcs s)" and R: "roomy (dqueue s)"
    using dyn_run_inv[OF assms(1-6)] by blast
  note o = own_ticket(1)[OF I l(1)] own_ticket(1)[OF I l(2)]
  note c = located_cell[OF I R l(1)] and c' = located_cell[OF I R l(2)]
  have "distinct (map refSlots hist)"
    using dyn_invD(2)[OF I] by (simp add: hist_inv_def)
  then have same: "refSlots r = refSlots r' \<Longrightarrow> r = r'"
    using c(1) c'(1) by (auto simp: distinct_map inj_on_def)
  note s = slotIdx_room[OF c(6,5)]
  have "t = t'" if "r = r'" "slotIdx (fixedEnv E) (array_view (dqueue s) r) (t - refOffset r) =
      slotIdx (fixedEnv E) (array_view (dqueue s) r) (t' - refOffset r)" "(t - refOffset r) div refCap r = (t' - refOffset r) div refCap r"
  proof -
    have cap: "capacity (array_view (dqueue s) r) = refCap r"
      by (simp add: array_view_def)
    have "unat (t - refOffset r) = unat (t' - refOffset r)"
    proof (rule slot_round_inj[OF wf_queueD(5)[OF c(6)]])
      show "slot_of (qcap (array_view (dqueue s) r)) (qstride (array_view (dqueue s) r)) (unat (t - refOffset r)) =
          slot_of (qcap (array_view (dqueue s) r)) (qstride (array_view (dqueue s) r)) (unat (t' - refOffset r))"
        using that(1,2) s(1) slotIdx_room(1)[OF c'(6,5)] by simp
      show "round_of (qcap (array_view (dqueue s) r)) (unat (t - refOffset r)) =
          round_of (qcap (array_view (dqueue s) r)) (unat (t' - refOffset r))"
        using that(3) by (simp add: round_of_def cap flip: unat_div)
    qed
    then show ?thesis
      by (simp add: word_unat_eq_iff[symmetric])
  qed
  then show ?thesis
    using o same c(3) s(2) by (auto simp: array_view_def)
qed

theorem dynamic_tickets_agree_witness:
  "\<exists>s. newDynQueue dynEnv 4 1 2 = Some (Inr smallDyn) \<and> dsys_run dynEnv 3 (dsys_init smallDyn) expandingRun = Some s \<and>
     getOffset (dstate (dqueue s)) = 3 \<and>
     located (dpcs s 0) = Some (True, 0, oldArray) \<and> located (dpcs s 2) = Some (False, 0, oldArray) \<and>
     slotIdx (fixedEnv dynEnv) (array_view (dqueue s) oldArray) 0 < length (arrays (dqueue s) ! 1)"
proof -
  obtain s where s: "dsys_run dynEnv 3 (dsys_init smallDyn) expandingRun = Some s" "dstate (dqueue s) = 194"
      "located (dpcs s 0) = Some (True, 0, oldArray)" "located (dpcs s 2) = Some (False, 0, oldArray)"
    using expanding_result by (auto simp: map_option_case split: option.splits)
  have "slotIdx (fixedEnv dynEnv) (array_view (dqueue s) oldArray) 0 < length (arrays (dqueue s) ! 1)"
    using dynamic_tickets_agree[OF small_new small_bounds(1-3) s(1) small_bounds(4) s(3,4)] by (simp add: oldArray_def)
  moreover have "getOffset 194 = 3"
    by code_simp
  ultimately show ?thesis
    using small_new s by simp
qed

text \<open>C4. Cn. No step of a dynamic queue is undefined, in any interleaving: no assertion fails, no access to an array of slots or to the
  array of closed arrays is out of bounds, no value is constructed over a live one and none is moved out of an empty slot; and
  outside the cells every step returns at once. In particular the search for a closed array always finds one, an
  expansion always finds the capacity it was asked to replace and a free entry for the array it closes, and the
  entry number fits its bits of the state.\<close>

theorem dynamic_steps_defined:
  assumes "newDynQueue E queueCapacity minCapacity mult = Some (Inr q)" "unat (max 2 mult) * unat queueCapacity < 2 ^ 64"
    "unat queueCapacity + 2 * unat (slotPadding (fixedEnv E)) < 2 ^ 63" "length (closed q) < 32"
    "dsys_run E N (dsys_init q) es = Some s" "length es + 1 < 2 ^ 58" "good_env tb cur (fixedEnv E) N" "i < N"
  shows "dstep E deadline alloc (dqueue s) (dpcs s i) \<noteq> Undefined \<and>
    (\<not> at_cell (dpcs s i) \<longrightarrow> (\<exists>q' c'. dstep E deadline alloc (dqueue s) (dpcs s i) = Done (q', c')))"
proof -
  obtain c0 hist where D: "dyn_sim tb cur E N c0 hist s" "roomy (dqueue s)"
    using dyn_run_sim[OF assms(1-7)] by blast
  show ?thesis
    using dyn_defined[OF dyn_simD(1)[OF D(1)] D(2)] dyn_sim_step(1)[OF D(1) assms(7) D(2) assms(8)]
    by (cases "dinside (dpcs s i)") (auto simp: idle_step)
qed

theorem dynamic_steps_defined_witness:
  "\<exists>s q' c'. dsys_run dynEnv 3 (dsys_init smallDyn) expandingRun = Some s \<and> dpcs s 1 = DSection (JWrite 1 8) SecState \<and>
     dstep dynEnv False True (dqueue s) (dpcs s 1) = Done (q', c')"
proof -
  obtain s where s: "dsys_run dynEnv 3 (dsys_init smallDyn) expandingRun = Some s" "dpcs s 1 = DSection (JWrite 1 8) SecState"
    using expanding_result by (auto simp: map_option_case split: option.splits)
  have "\<not> at_cell (dpcs s 1)"
    unfolding s(2) by simp
  then show ?thesis
    using dynamic_steps_defined[OF small_new small_bounds(1-3) s(1) small_bounds(4) dyn_good, of 1 False True] s by fastforce
qed

text \<open>C9. Cn. A thread of a dynamic queue that waits in an enqueue whose ticket is less than the capacity of its array ahead of
  the pop tickets issued, or in a dequeue whose push ticket has been issued, never waits in vain, even if its array has been
  replaced since: some thread that owns a ticket can take its next step.\<close>

theorem dynamic_no_deadlock:
  assumes "newDynQueue E queueCapacity minCapacity mult = Some (Inr q)" "unat (max 2 mult) * unat queueCapacity < 2 ^ 64"
    "unat queueCapacity + 2 * unat (slotPadding (fixedEnv E)) < 2 ^ 63" "length (closed q) < 32"
    "dsys_run E N (dsys_init q) es = Some s" "length es + 1 < 2 ^ 58" "good_env tb cur (fixedEnv E) N"
    and "(\<exists>c v. dpcs s i = DEnqueue t r c v \<and> unat t < unat (dpopTicket (dqueue s)) + unat (refCap r)) \<or>
      (\<exists>b c. dpcs s i = DDequeue b t r c \<and> unat t < length (dpushed s))"
  shows "\<exists>k q' c'. k < N \<and> holds (dpcs s k) \<noteq> None \<and> dstep E deadline alloc (dqueue s) (dpcs s k) = Done (q', c')"
proof -
  obtain c0 hist where D: "dyn_sim tb cur E N c0 hist s" "roomy (dqueue s)"
    using dyn_run_sim[OF assms(1-7)] by blast
  obtain b where l: "located (dpcs s i) = Some (b, t, r)" "holds (dpcs s i) \<noteq> None" "at_cell (dpcs s i)"
    "if b then unat t < unat (dpopTicket (dqueue s)) + unat (refCap r) else unat t < length (dpushed s)"
    using assms(8) by fastforce
  obtain k r0 where k: "k < length hist" "r = hist ! k" "mine hist k (unat t)" and S: "sim tb cur (fixedEnv E) N (proj hist k s) r0"
    and w: "(if b then enqT else deqT) (stages r0 i) = Some (unat t - off hist k)"
    using waiter_stage[OF D(1) l(1,2)] l(3) by blast
  note inv = simD(1)[OF S] and n = sim_shares[OF S]
  have "\<exists>j. advances r0 j"
  proof (cases b)
    case True
    have "rcap r0 = unat (refCap r)"
      using simD(2)[OF S] k(2) by (simp add: proj_queue_match)
    moreover have "unat t - off hist k < share hist k (unat (dpopTicket (dqueue s))) + unat (refCap r)"
      using l(4) True k(3) by (auto simp: share_def mine_def)
    ultimately show ?thesis
      using enq_progress[OF inv, of i] w True n by simp
  next
    case False
    then have "unat t - off hist k < share hist k (unat (dpushTicket (dqueue s)))"
      using l(4) share_less[OF k(3)] dyn_simD(4)[OF D(1)] by simp
    then show ?thesis
      using deq_progress[OF inv, of i] w False n by simp
  qed
  then show ?thesis
    using ticket_owner_moves[OF D(1) assms(7) D(2) S k(1)] by blast
qed

theorem dynamic_no_deadlock_witness:
  "\<exists>s k q' c'. dsys_run dynEnv 3 (dsys_init smallDyn) expandingRun = Some s \<and> dpcs s 2 = DDequeue False 0 oldArray DeqWaitTurn \<and>
     k < 3 \<and> holds (dpcs s k) \<noteq> None \<and> dstep dynEnv False True (dqueue s) (dpcs s k) = Done (q', c')"
proof -
  have "map_option (\<lambda>s. (dpcs s 2, dpushed s)) (dsys_run dynEnv 3 (dsys_init smallDyn) expandingRun) =
      Some (DDequeue False 0 oldArray DeqWaitTurn, [7, 8])"
    by code_simp
  then obtain s where s: "dsys_run dynEnv 3 (dsys_init smallDyn) expandingRun = Some s" "dpcs s 2 = DDequeue False 0 oldArray DeqWaitTurn"
      "dpushed s = [7, 8]"
    by (auto simp: map_option_case split: option.splits)
  have "\<exists>b c. dpcs s 2 = DDequeue b 0 oldArray c \<and> unat (0 :: u64) < length (dpushed s)"
    using s(2,3) by auto
  then show ?thesis
    using dynamic_no_deadlock[OF small_new small_bounds(1-3) s(1) small_bounds(4) dyn_good disjI2] s(1,2) by blast
qed

text \<open>C15. Cn. The constructor of a dynamic queue returns when the multiplier times the capacity does not wrap, and the array of
  closed arrays it allocates has exactly as many entries as there are expansions below the capacity.\<close>

theorem dynamic_queue_init:
  assumes "0 < queueCapacity" "unat (max 2 mult) * unat queueCapacity < 2 ^ 64"
  shows "\<exists>q. newDynQueue E queueCapacity minCapacity mult = Some (Inr q) \<and>
    (\<forall>k. unat (dcapacity q) * unat (max 2 mult) ^ k < unat queueCapacity \<longleftrightarrow> k < length (closed q)) \<and>
    0 < dcapacity q \<and> dcapacity q \<le> queueCapacity"
proof -
  let ?cap = "min (max 1 minCapacity) queueCapacity" and ?m = "max 2 mult"
  have "queueCapacity \<noteq> 0"
    using assms(1) by auto
  note c = initial_capacity[OF this, of minCapacity]
  have "2 \<le> unat ?m"
    by (simp add: max_def word_le_nat_alt)
  then obtain n where "maxClosed_loop queueCapacity ?m ?cap 0 = Some (0 + n)" "\<forall>j. unat ?cap * unat ?m ^ j < unat queueCapacity \<longleftrightarrow> j < n"
    using maxClosed_loop_counts[OF _ assms(2) c(1), of 0] by blast
  then show ?thesis
    using assms(1) c by (auto simp: newDynQueue_def Let_def initQueue_def)
qed

theorem dynamic_queue_init_witness:
  "\<exists>q. newDynQueue dynEnv 1000 0 0 = Some (Inr (q :: (u32, int) DynQueue)) \<and> dcapacity q = 1 \<and> length (closed q) = 10"
proof -
  obtain q :: "(u32, int) DynQueue" where q: "newDynQueue dynEnv 1000 0 0 = Some (Inr q)"
    "\<forall>k. unat (dcapacity q) * unat (max 2 0 :: u64) ^ k < unat (1000 :: u64) \<longleftrightarrow> k < length (closed q)"
    using dynamic_queue_init[of 1000 0 dynEnv 0] by (auto simp: max_def)
  have "dcapacity q = 1"
    using q(1) by (auto simp: newDynQueue_def initQueue_def)
  moreover have "length (closed q) = 10"
    using q(2)[rule_format, of 9] q(2)[rule_format, of 10] calculation by (simp add: max_def)
  ultimately show ?thesis
    using q by blast
qed

end
