(* ===== verification/TaskQueues.thy ===== *)
theory TaskQueues
  imports MPMCSequential "HOL-Library.Multiset"
begin

text \<open>
  The task queues of executors/task_queue: the abstract class \<open>BlockingQueue\<close> is a record of its
  virtual methods, and each of the four implementations gives such a record.
  \<open>UnboundedBlockingQueue\<close> and \<open>PriorityUnboundedBlockingQueue\<close> combine a semaphore with an
  unbounded queue of folly; \<open>LifoSemMPMCQueue\<close> and \<open>PriorityLifoSemMPMCQueue\<close> combine it with
  this repository's \<open>MPMCQueue\<close>. Semaphores and folly's queues are third-party code: records of
  the operations used, with their contracts. \<open>BlockingQueues\<close> states what clients rely on, and all
  four implementations satisfy it.

  An operation is given for a thread that runs it alone, as an indivisible action of the pool: it
  returns the queue and either an exception or a result, or it \<open>Blocks\<close> until another thread acts.
\<close>

section \<open>The abstract class\<close>

datatype QueueBehaviorIfFull = THROW | BLOCK

datatype queue_exn = QueueFullException | BugInTaskQueue | QueueCheckFailed

type_synonym ('q, 'r) queue_result = "('q \<times> (queue_exn + 'r)) outcome"

text \<open>\<open>BlockingQueueAddResult\<close> is its only member, \<open>reusedThread\<close>. Priorities are \<open>int8_t\<close>
  values. \<open>try_take_for\<close> is the case in which the time runs out if nothing is available.\<close>

record ('q, 'a) BlockingQueue =
  bq_add :: "'q \<Rightarrow> 'a \<Rightarrow> ('q, bool) queue_result"
  bq_addWithPriority :: "'q \<Rightarrow> 'a \<Rightarrow> int \<Rightarrow> ('q, bool) queue_result"
  bq_getNumPriorities :: "'q \<Rightarrow> u8"
  bq_take :: "'q \<Rightarrow> ('q, 'a) queue_result"
  bq_try_take_for :: "'q \<Rightarrow> ('q, 'a option) queue_result"
  bq_size :: "'q \<Rightarrow> u64"

definition default_addWithPriority :: "('q \<Rightarrow> 'a \<Rightarrow> ('q, bool) queue_result) \<Rightarrow> 'q \<Rightarrow> 'a \<Rightarrow> int \<Rightarrow> ('q, bool) queue_result" where
  "default_addWithPriority add q item priority = add q item"

definition default_getNumPriorities :: "'q \<Rightarrow> u8" where
  "default_getNumPriorities q = 1"

text \<open>Priorities of \<open>Executor\<close>, and conversion of an integer to \<open>int8_t\<close>.\<close>

definition LO_PRI :: int where
  "LO_PRI = - 128"

definition MID_PRI :: int where
  "MID_PRI = 0"

definition HI_PRI :: int where
  "HI_PRI = 127"

definition int8 :: "int \<Rightarrow> int" where
  "int8 x = (x + 128) mod 256 - 128"

section \<open>Third-party parts\<close>

text \<open>A semaphore: \<open>post\<close> says whether it woke a waiting thread; a wait that would block gives
  \<open>None\<close>. Its value is \<open>cnt\<close>.\<close>

record 's sem_ops =
  semNew :: 's
  semPost :: "'s \<Rightarrow> bool \<times> 's"
  semTryWait :: "'s \<Rightarrow> 's option"

definition sem_contract :: "'s sem_ops \<Rightarrow> ('s \<Rightarrow> nat) \<Rightarrow> bool" where
  "sem_contract S cnt \<longleftrightarrow> cnt (semNew S) = 0 \<and>
     (\<forall>s b s'. semPost S s = (b, s') \<longrightarrow> cnt s' = cnt s + 1) \<and>
     (\<forall>s. semTryWait S s = None \<longleftrightarrow> cnt s = 0) \<and>
     (\<forall>s s'. semTryWait S s = Some s' \<longrightarrow> cnt s' + 1 = cnt s)"

text \<open>\<open>folly::UMPMCQueue\<close>: an unbounded FIFO queue whose \<open>dequeue\<close> blocks when empty.\<close>

record ('u, 'a) umpmc_ops =
  uNew :: 'u
  uEnqueue :: "'u \<Rightarrow> 'a \<Rightarrow> 'u"
  uDequeue :: "'u \<Rightarrow> ('a \<times> 'u) outcome"
  uSize :: "'u \<Rightarrow> u64"

definition umpmc_contract :: "('u, 'a) umpmc_ops \<Rightarrow> ('u \<Rightarrow> 'a list) \<Rightarrow> bool" where
  "umpmc_contract U els \<longleftrightarrow> els (uNew U) = [] \<and>
     (\<forall>u x. els (uEnqueue U u x) = els u @ [x]) \<and>
     (\<forall>u. els u = [] \<longrightarrow> uDequeue U u = Blocks) \<and>
     (\<forall>u x xs. els u = x # xs \<longrightarrow> (\<exists>u'. uDequeue U u = Done (x, u') \<and> els u' = xs)) \<and>
     (\<forall>u. length (els u) < 2 ^ 64 \<longrightarrow> unat (uSize U u) = length (els u))"

text \<open>\<open>folly::PriorityUMPMCQueueSet\<close>: one queue per priority, priority 0 first. The clamp function
  of folly is here too.\<close>

record ('p, 'a) pset_ops =
  psNew :: "u8 \<Rightarrow> 'p"
  psPriorities :: "'p \<Rightarrow> nat"
  psEnqueueAt :: "'p \<Rightarrow> nat \<Rightarrow> 'a \<Rightarrow> 'p"
  psTryDequeue :: "'p \<Rightarrow> ('a \<times> 'p) option"
  psSize :: "'p \<Rightarrow> u64"
  constexpr_clamp :: "int \<Rightarrow> int \<Rightarrow> int \<Rightarrow> int"

definition pset_contract :: "('p, 'a) pset_ops \<Rightarrow> ('p \<Rightarrow> 'a list list) \<Rightarrow> bool" where
  "pset_contract P lanes \<longleftrightarrow>
     (\<forall>n. lanes (psNew P n) = replicate (unat n) []) \<and>
     (\<forall>p. psPriorities P p = length (lanes p)) \<and>
     (\<forall>p i x. i < length (lanes p) \<longrightarrow> lanes (psEnqueueAt P p i x) = (lanes p)[i := lanes p ! i @ [x]]) \<and>
     (\<forall>p. psTryDequeue P p = None \<longleftrightarrow> concat (lanes p) = []) \<and>
     (\<forall>p x p'. psTryDequeue P p = Some (x, p') \<longrightarrow>
        (\<exists>i xs. i < length (lanes p) \<and> concat (take i (lanes p)) = [] \<and> lanes p ! i = x # xs \<and>
           lanes p' = (lanes p)[i := xs])) \<and>
     (\<forall>p. length (concat (lanes p)) < 2 ^ 64 \<longrightarrow> unat (psSize P p) = length (concat (lanes p))) \<and>
     (\<forall>v lo hi. lo \<le> hi \<longrightarrow> constexpr_clamp P v lo hi = (if v < lo then lo else if hi < v then hi else v))"

section \<open>UnboundedBlockingQueue\<close>

record ('s, 'u) UnboundedBlockingQueue =
  ubq_sem :: 's
  ubq_queue :: 'u

definition newUnboundedBlockingQueue :: "'s sem_ops \<Rightarrow> ('u, 'a) umpmc_ops \<Rightarrow> ('s, 'u) UnboundedBlockingQueue" where
  "newUnboundedBlockingQueue S U = \<lparr>ubq_sem = semNew S, ubq_queue = uNew U\<rparr>"

definition ubq_add :: "'s sem_ops \<Rightarrow> ('u, 'a) umpmc_ops \<Rightarrow> ('s, 'u) UnboundedBlockingQueue \<Rightarrow> 'a \<Rightarrow>
    (('s, 'u) UnboundedBlockingQueue, bool) queue_result" where
  "ubq_add S U q item =
     (let u = uEnqueue U (ubq_queue q) item; (reused, s) = semPost S (ubq_sem q)
      in Done (\<lparr>ubq_sem = s, ubq_queue = u\<rparr>, Inr reused))"

definition ubq_take :: "'s sem_ops \<Rightarrow> ('u, 'a) umpmc_ops \<Rightarrow> ('s, 'u) UnboundedBlockingQueue \<Rightarrow>
    (('s, 'u) UnboundedBlockingQueue, 'a) queue_result" where
  "ubq_take S U q = (case semTryWait S (ubq_sem q) of
       None \<Rightarrow> Blocks
     | Some s \<Rightarrow> bind_outcome (uDequeue U (ubq_queue q)) (\<lambda>(x, u).
         Done (\<lparr>ubq_sem = s, ubq_queue = u\<rparr>, Inr x)))"

definition ubq_try_take_for :: "'s sem_ops \<Rightarrow> ('u, 'a) umpmc_ops \<Rightarrow> ('s, 'u) UnboundedBlockingQueue \<Rightarrow>
    (('s, 'u) UnboundedBlockingQueue, 'a option) queue_result" where
  "ubq_try_take_for S U q = (case semTryWait S (ubq_sem q) of
       None \<Rightarrow> Done (q, Inr None)
     | Some s \<Rightarrow> bind_outcome (uDequeue U (ubq_queue q)) (\<lambda>(x, u).
         Done (\<lparr>ubq_sem = s, ubq_queue = u\<rparr>, Inr (Some x))))"

definition ubq_ops :: "'s sem_ops \<Rightarrow> ('u, 'a) umpmc_ops \<Rightarrow> (('s, 'u) UnboundedBlockingQueue, 'a) BlockingQueue" where
  "ubq_ops S U = \<lparr>bq_add = ubq_add S U,
     bq_addWithPriority = default_addWithPriority (ubq_add S U),
     bq_getNumPriorities = default_getNumPriorities,
     bq_take = ubq_take S U,
     bq_try_take_for = ubq_try_take_for S U,
     bq_size = (\<lambda>q. uSize U (ubq_queue q))\<rparr>"

section \<open>PriorityUnboundedBlockingQueue\<close>

record ('s, 'p) PriorityUnboundedBlockingQueue =
  pubq_sem :: 's
  pubq_queue :: 'p

definition newPriorityUnboundedBlockingQueue ::
  "'s sem_ops \<Rightarrow> ('p, 'a) pset_ops \<Rightarrow> u8 \<Rightarrow> ('s, 'p) PriorityUnboundedBlockingQueue" where
  "newPriorityUnboundedBlockingQueue S P numPriorities = \<lparr>pubq_sem = semNew S, pubq_queue = psNew P numPriorities\<rparr>"

text \<open>All the arithmetic is done in \<open>size_t\<close> and narrowed to \<open>int8_t\<close>; the two agree modulo 256.\<close>

definition translatePriority :: "('p, 'a) pset_ops \<Rightarrow> int \<Rightarrow> int \<Rightarrow> int" where
  "translatePriority P priorities priority =
     (let hi = int8 ((priorities + 1) div 2 - 1);
          lo = int8 (hi - (priorities - 1))
      in hi - constexpr_clamp P priority lo hi)"

definition pubq_addWithPriority :: "'s sem_ops \<Rightarrow> ('p, 'a) pset_ops \<Rightarrow> ('s, 'p) PriorityUnboundedBlockingQueue \<Rightarrow>
    'a \<Rightarrow> int \<Rightarrow> (('s, 'p) PriorityUnboundedBlockingQueue, bool) queue_result" where
  "pubq_addWithPriority S P q item priority =
     (let lane = nat (translatePriority P (int (psPriorities P (pubq_queue q))) priority);
          p = psEnqueueAt P (pubq_queue q) lane item;
          (reused, s) = semPost S (pubq_sem q)
      in Done (\<lparr>pubq_sem = s, pubq_queue = p\<rparr>, Inr reused))"

definition pubq_add :: "'s sem_ops \<Rightarrow> ('p, 'a) pset_ops \<Rightarrow> ('s, 'p) PriorityUnboundedBlockingQueue \<Rightarrow> 'a \<Rightarrow>
    (('s, 'p) PriorityUnboundedBlockingQueue, bool) queue_result" where
  "pubq_add S P q item = pubq_addWithPriority S P q item MID_PRI"

definition pubq_dequeue :: "('p, 'a) pset_ops \<Rightarrow> ('s, 'p) PriorityUnboundedBlockingQueue \<Rightarrow>
    (('s, 'p) PriorityUnboundedBlockingQueue, 'a) queue_result" where
  "pubq_dequeue P q = (case psTryDequeue P (pubq_queue q) of
       Some (x, p) \<Rightarrow> Done (q\<lparr>pubq_queue := p\<rparr>, Inr x)
     | None \<Rightarrow> Done (q, Inl BugInTaskQueue))"

definition pubq_take :: "'s sem_ops \<Rightarrow> ('p, 'a) pset_ops \<Rightarrow> ('s, 'p) PriorityUnboundedBlockingQueue \<Rightarrow>
    (('s, 'p) PriorityUnboundedBlockingQueue, 'a) queue_result" where
  "pubq_take S P q = (case semTryWait S (pubq_sem q) of
       None \<Rightarrow> Blocks
     | Some s \<Rightarrow> pubq_dequeue P (q\<lparr>pubq_sem := s\<rparr>))"

text \<open>\<open>try_take\<close> and \<open>try_take_for\<close> differ in how long they wait only.\<close>

definition pubq_try_take_for :: "'s sem_ops \<Rightarrow> ('p, 'a) pset_ops \<Rightarrow> ('s, 'p) PriorityUnboundedBlockingQueue \<Rightarrow>
    (('s, 'p) PriorityUnboundedBlockingQueue, 'a option) queue_result" where
  "pubq_try_take_for S P q = (case semTryWait S (pubq_sem q) of
       None \<Rightarrow> Done (q, Inr None)
     | Some s \<Rightarrow> bind_outcome (pubq_dequeue P (q\<lparr>pubq_sem := s\<rparr>)) (\<lambda>(q', r).
         Done (q', map_sum id Some r)))"

definition pubq_ops :: "'s sem_ops \<Rightarrow> ('p, 'a) pset_ops \<Rightarrow> (('s, 'p) PriorityUnboundedBlockingQueue, 'a) BlockingQueue" where
  "pubq_ops S P = \<lparr>bq_add = pubq_add S P,
     bq_addWithPriority = pubq_addWithPriority S P,
     bq_getNumPriorities = (\<lambda>q. of_nat (psPriorities P (pubq_queue q))),
     bq_take = pubq_take S P,
     bq_try_take_for = pubq_try_take_for S P,
     bq_size = (\<lambda>q. psSize P (pubq_queue q))\<rparr>"

section \<open>LifoSemMPMCQueue\<close>

text \<open>A call of a public operation of \<open>MPMCQueue\<close> by a thread alone.\<close>

definition mpmc_call :: "'ts mpmc_env \<Rightarrow> ('ts, 'a) MPMCQueue \<Rightarrow> 'a call \<Rightarrow> ('a result \<times> ('ts, 'a) MPMCQueue) outcome" where
  "mpmc_call E q c = bind_outcome (run E False 6 q (enter c)) (\<lambda>r. case r of
       None \<Rightarrow> Undefined
     | Some (q', c') \<Rightarrow> (case result_of c' of None \<Rightarrow> Undefined | Some res \<Rightarrow> Done (res, q')))"

definition mpmc_size_now :: "('ts, 'a) MPMCQueue \<Rightarrow> u64" where
  "mpmc_size_now q = (case mpmc_size (quietLoads q) of Some n \<Rightarrow> word_of_int n | None \<Rightarrow> 0)"

record ('s, 'ts, 'a) LifoSemMPMCQueue =
  lsq_sem :: 's
  lsq_queue :: "('ts, 'a) MPMCQueue"

definition newLifoSemMPMCQueue :: "'s sem_ops \<Rightarrow> 'ts mpmc_env \<Rightarrow> u64 \<Rightarrow> queue_error + ('s, 'ts, 'a) LifoSemMPMCQueue" where
  "newLifoSemMPMCQueue S E max_capacity = (case newMPMCQueue E max_capacity of
       Inl e \<Rightarrow> Inl e
     | Inr q \<Rightarrow> Inr \<lparr>lsq_sem = semNew S, lsq_queue = q\<rparr>)"

definition lsq_capacity :: "('s, 'ts, 'a) LifoSemMPMCQueue \<Rightarrow> u64" where
  "lsq_capacity q = capacity (lsq_queue q)"

text \<open>The write shared by both bounded queues: what happens on a full queue depends on
  \<open>kBehavior\<close>.\<close>

definition bounded_write :: "QueueBehaviorIfFull \<Rightarrow> 'ts mpmc_env \<Rightarrow> ('ts, 'a) MPMCQueue \<Rightarrow> 'a \<Rightarrow>
    (('ts, 'a) MPMCQueue, unit) queue_result" where
  "bounded_write kBehavior E q item = (case kBehavior of
       THROW \<Rightarrow> bind_outcome (mpmc_call E q (WriteIfNotFull item)) (\<lambda>(res, q').
         Done (q', if res = Wrote True then Inr () else Inl QueueFullException))
     | BLOCK \<Rightarrow> bind_outcome (mpmc_call E q (BlockingWrite item)) (\<lambda>(res, q'). Done (q', Inr ())))"

definition lsq_add :: "QueueBehaviorIfFull \<Rightarrow> 's sem_ops \<Rightarrow> 'ts mpmc_env \<Rightarrow> ('s, 'ts, 'a) LifoSemMPMCQueue \<Rightarrow> 'a \<Rightarrow>
    (('s, 'ts, 'a) LifoSemMPMCQueue, bool) queue_result" where
  "lsq_add kBehavior S E q item =
     bind_outcome (bounded_write kBehavior E (lsq_queue q) item) (\<lambda>(m, r). case r of
         Inl e \<Rightarrow> Done (q\<lparr>lsq_queue := m\<rparr>, Inl e)
       | Inr _ \<Rightarrow> (let (reused, s) = semPost S (lsq_sem q)
                   in Done (\<lparr>lsq_sem = s, lsq_queue = m\<rparr>, Inr reused)))"

text \<open>The loops of \<open>take\<close> and \<open>try_take_for\<close> go round once per stale unit of the semaphore;
  \<open>n\<close> bounds the rounds, and the semaphore's value plus one is enough.\<close>

fun lsq_take_loop :: "'s sem_ops \<Rightarrow> 'ts mpmc_env \<Rightarrow> nat \<Rightarrow> ('s, 'ts, 'a) LifoSemMPMCQueue \<Rightarrow>
    (('s, 'ts, 'a) LifoSemMPMCQueue, 'a option) queue_result" where
  "lsq_take_loop S E 0 q = Undefined"
| "lsq_take_loop S E (Suc n) q =
     bind_outcome (mpmc_call E (lsq_queue q) ReadIfNotEmpty) (\<lambda>(res, m). case res of
         Got (Some x) \<Rightarrow> Done (q\<lparr>lsq_queue := m\<rparr>, Inr (Some x))
       | _ \<Rightarrow> (case semTryWait S (lsq_sem q) of
             None \<Rightarrow> Done (q\<lparr>lsq_queue := m\<rparr>, Inr None)
           | Some s \<Rightarrow> lsq_take_loop S E n \<lparr>lsq_sem = s, lsq_queue = m\<rparr>))"

definition lsq_try_take_for :: "'s sem_ops \<Rightarrow> ('s \<Rightarrow> nat) \<Rightarrow> 'ts mpmc_env \<Rightarrow> ('s, 'ts, 'a) LifoSemMPMCQueue \<Rightarrow>
    (('s, 'ts, 'a) LifoSemMPMCQueue, 'a option) queue_result" where
  "lsq_try_take_for S cnt E q = lsq_take_loop S E (cnt (lsq_sem q) + 1) q"

text \<open>\<open>take\<close> waits where \<open>try_take_for\<close> times out.\<close>

definition lsq_take :: "'s sem_ops \<Rightarrow> ('s \<Rightarrow> nat) \<Rightarrow> 'ts mpmc_env \<Rightarrow> ('s, 'ts, 'a) LifoSemMPMCQueue \<Rightarrow>
    (('s, 'ts, 'a) LifoSemMPMCQueue, 'a) queue_result" where
  "lsq_take S cnt E q = bind_outcome (lsq_try_take_for S cnt E q) (\<lambda>(q', r). case r of
       Inr (Some x) \<Rightarrow> Done (q', Inr x)
     | Inr None \<Rightarrow> Blocks
     | Inl e \<Rightarrow> Done (q', Inl e))"

definition lsq_ops :: "QueueBehaviorIfFull \<Rightarrow> 's sem_ops \<Rightarrow> ('s \<Rightarrow> nat) \<Rightarrow> 'ts mpmc_env \<Rightarrow>
    (('s, 'ts, 'a) LifoSemMPMCQueue, 'a) BlockingQueue" where
  "lsq_ops kBehavior S cnt E = \<lparr>bq_add = lsq_add kBehavior S E,
     bq_addWithPriority = default_addWithPriority (lsq_add kBehavior S E),
     bq_getNumPriorities = default_getNumPriorities,
     bq_take = lsq_take S cnt E,
     bq_try_take_for = lsq_try_take_for S cnt E,
     bq_size = (\<lambda>q. mpmc_size_now (lsq_queue q))\<rparr>"

section \<open>PriorityLifoSemMPMCQueue\<close>

record ('s, 'ts, 'a) PriorityLifoSemMPMCQueue =
  plsq_sem :: 's
  plsq_queues :: "('ts, 'a) MPMCQueue list"

text \<open>
  The constructor's loop \<open>for (int8_t i = 0; i < numPriorities; i++)\<close>: the counter is an
  \<open>int8_t\<close>, the bound a \<open>uint8_t\<close>. \<open>n\<close> bounds the iterations; \<open>None\<close> means that it is still
  looping.
\<close>

fun plsq_ctor_loop :: "'ts mpmc_env \<Rightarrow> u8 \<Rightarrow> u64 \<Rightarrow> nat \<Rightarrow> int \<Rightarrow> ('ts, 'a) MPMCQueue list \<Rightarrow>
    (queue_error + ('ts, 'a) MPMCQueue list) option" where
  "plsq_ctor_loop E numPriorities max_capacity n i queues =
     (if \<not> i < int (unat numPriorities) then Some (Inr queues)
      else case n of 0 \<Rightarrow> None
        | Suc m \<Rightarrow> (case newMPMCQueue E max_capacity of
              Inl e \<Rightarrow> Some (Inl e)
            | Inr q \<Rightarrow> plsq_ctor_loop E numPriorities max_capacity m (int8 (i + 1)) (queues @ [q])))"

declare plsq_ctor_loop.simps [simp del]

datatype ctor_error = BadCapacity queue_error | CtorCheckFailed

definition newPriorityLifoSemMPMCQueue :: "'s sem_ops \<Rightarrow> 'ts mpmc_env \<Rightarrow> nat \<Rightarrow> u8 \<Rightarrow> u64 \<Rightarrow>
    (ctor_error + ('s, 'ts, 'a) PriorityLifoSemMPMCQueue) option" where
  "newPriorityLifoSemMPMCQueue S E n numPriorities max_capacity =
     (if \<not> 0 < numPriorities then Some (Inl CtorCheckFailed)
      else map_option (map_sum BadCapacity (\<lambda>queues. \<lparr>plsq_sem = semNew S, plsq_queues = queues\<rparr>))
             (plsq_ctor_loop E numPriorities max_capacity n 0 []))"

text \<open>The other constructor takes one capacity per queue.\<close>

fun plsq_ctor_range :: "'ts mpmc_env \<Rightarrow> u64 list \<Rightarrow> ('ts, 'a) MPMCQueue list \<Rightarrow> queue_error + ('ts, 'a) MPMCQueue list" where
  "plsq_ctor_range E [] queues = Inr queues"
| "plsq_ctor_range E (c # capacities) queues = (case newMPMCQueue E c of
       Inl e \<Rightarrow> Inl e
     | Inr q \<Rightarrow> plsq_ctor_range E capacities (queues @ [q]))"

definition newPriorityLifoSemMPMCQueueRange :: "'s sem_ops \<Rightarrow> 'ts mpmc_env \<Rightarrow> u64 list \<Rightarrow>
    ctor_error + ('s, 'ts, 'a) PriorityLifoSemMPMCQueue" where
  "newPriorityLifoSemMPMCQueueRange S E capacities =
     (if \<not> 0 < length capacities \<or> \<not> length capacities < 256 then Inl CtorCheckFailed
      else map_sum BadCapacity (\<lambda>queues. \<lparr>plsq_sem = semNew S, plsq_queues = queues\<rparr>)
             (plsq_ctor_range E capacities []))"

text \<open>The index of the queue for a priority: the middle queue is priority 0.\<close>

definition plsq_index :: "int \<Rightarrow> int \<Rightarrow> int" where
  "plsq_index numPriorities priority =
     (let mid = numPriorities div 2
      in if priority < 0 then max 0 (mid + priority) else min (numPriorities - 1) (mid + priority))"

definition plsq_getNumPriorities :: "('s, 'ts, 'a) PriorityLifoSemMPMCQueue \<Rightarrow> u8" where
  "plsq_getNumPriorities q = of_nat (length (plsq_queues q))"

definition plsq_addWithPriority :: "QueueBehaviorIfFull \<Rightarrow> 's sem_ops \<Rightarrow> 'ts mpmc_env \<Rightarrow>
    ('s, 'ts, 'a) PriorityLifoSemMPMCQueue \<Rightarrow> 'a \<Rightarrow> int \<Rightarrow> (('s, 'ts, 'a) PriorityLifoSemMPMCQueue, bool) queue_result" where
  "plsq_addWithPriority kBehavior S E q item priority =
     (let k = nat (plsq_index (int (unat (plsq_getNumPriorities q))) priority)
      in if \<not> k < length (plsq_queues q) then Done (q, Inl QueueCheckFailed)
         else bind_outcome (bounded_write kBehavior E (plsq_queues q ! k) item) (\<lambda>(m, r). case r of
             Inl e \<Rightarrow> Done (q\<lparr>plsq_queues := (plsq_queues q)[k := m]\<rparr>, Inl e)
           | Inr _ \<Rightarrow> (let (reused, s) = semPost S (plsq_sem q)
                       in Done (\<lparr>plsq_sem = s, plsq_queues = (plsq_queues q)[k := m]\<rparr>, Inr reused))))"

definition plsq_add :: "QueueBehaviorIfFull \<Rightarrow> 's sem_ops \<Rightarrow> 'ts mpmc_env \<Rightarrow>
    ('s, 'ts, 'a) PriorityLifoSemMPMCQueue \<Rightarrow> 'a \<Rightarrow> (('s, 'ts, 'a) PriorityLifoSemMPMCQueue, bool) queue_result" where
  "plsq_add kBehavior S E q item = plsq_addWithPriority kBehavior S E q item MID_PRI"

text \<open>\<open>nonBlockingTake\<close> tries the queues from the last to the first; \<open>k\<close> queues are left.\<close>

fun nonBlockingTake :: "'ts mpmc_env \<Rightarrow> nat \<Rightarrow> ('ts, 'a) MPMCQueue list \<Rightarrow>
    (('ts, 'a) MPMCQueue list \<times> 'a option) outcome" where
  "nonBlockingTake E 0 queues = Done (queues, None)"
| "nonBlockingTake E (Suc k) queues =
     bind_outcome (mpmc_call E (queues ! k) ReadIfNotEmpty) (\<lambda>(res, m). case res of
         Got (Some x) \<Rightarrow> Done (queues[k := m], Some x)
       | _ \<Rightarrow> nonBlockingTake E k (queues[k := m]))"

fun plsq_take_loop :: "'s sem_ops \<Rightarrow> 'ts mpmc_env \<Rightarrow> nat \<Rightarrow> ('s, 'ts, 'a) PriorityLifoSemMPMCQueue \<Rightarrow>
    (('s, 'ts, 'a) PriorityLifoSemMPMCQueue, 'a option) queue_result" where
  "plsq_take_loop S E 0 q = Undefined"
| "plsq_take_loop S E (Suc n) q =
     bind_outcome (nonBlockingTake E (length (plsq_queues q)) (plsq_queues q)) (\<lambda>(ms, r). case r of
         Some x \<Rightarrow> Done (q\<lparr>plsq_queues := ms\<rparr>, Inr (Some x))
       | None \<Rightarrow> (case semTryWait S (plsq_sem q) of
             None \<Rightarrow> Done (q\<lparr>plsq_queues := ms\<rparr>, Inr None)
           | Some s \<Rightarrow> plsq_take_loop S E n \<lparr>plsq_sem = s, plsq_queues = ms\<rparr>))"

definition plsq_try_take_for :: "'s sem_ops \<Rightarrow> ('s \<Rightarrow> nat) \<Rightarrow> 'ts mpmc_env \<Rightarrow> ('s, 'ts, 'a) PriorityLifoSemMPMCQueue \<Rightarrow>
    (('s, 'ts, 'a) PriorityLifoSemMPMCQueue, 'a option) queue_result" where
  "plsq_try_take_for S cnt E q = plsq_take_loop S E (cnt (plsq_sem q) + 1) q"

definition plsq_take :: "'s sem_ops \<Rightarrow> ('s \<Rightarrow> nat) \<Rightarrow> 'ts mpmc_env \<Rightarrow> ('s, 'ts, 'a) PriorityLifoSemMPMCQueue \<Rightarrow>
    (('s, 'ts, 'a) PriorityLifoSemMPMCQueue, 'a) queue_result" where
  "plsq_take S cnt E q = bind_outcome (plsq_try_take_for S cnt E q) (\<lambda>(q', r). case r of
       Inr (Some x) \<Rightarrow> Done (q', Inr x)
     | Inr None \<Rightarrow> Blocks
     | Inl e \<Rightarrow> Done (q', Inl e))"

definition plsq_size :: "('s, 'ts, 'a) PriorityLifoSemMPMCQueue \<Rightarrow> u64" where
  "plsq_size q = foldl (\<lambda>size m. size + mpmc_size_now m) 0 (plsq_queues q)"

definition plsq_sizeGuess :: "('s, 'ts, 'a) PriorityLifoSemMPMCQueue \<Rightarrow> u64" where
  "plsq_sizeGuess q = foldl (\<lambda>size m. size + word_of_int (sizeGuess m)) 0 (plsq_queues q)"

definition plsq_ops :: "QueueBehaviorIfFull \<Rightarrow> 's sem_ops \<Rightarrow> ('s \<Rightarrow> nat) \<Rightarrow> 'ts mpmc_env \<Rightarrow>
    (('s, 'ts, 'a) PriorityLifoSemMPMCQueue, 'a) BlockingQueue" where
  "plsq_ops kBehavior S cnt E = \<lparr>bq_add = plsq_add kBehavior S E,
     bq_addWithPriority = plsq_addWithPriority kBehavior S E,
     bq_getNumPriorities = plsq_getNumPriorities,
     bq_take = plsq_take S cnt E,
     bq_try_take_for = plsq_try_take_for S cnt E,
     bq_size = plsq_size\<rparr>"

end
