(* ===== verification/BlockingQueues.thy ===== *)
theory BlockingQueues
  imports TaskQueues
begin

text \<open>
  What clients of a task queue rely on. The locale \<open>blocking_queue\<close> is the contract the thread pool
  needs: \<open>items\<close> lists the elements in the order in which they will be taken if nothing more is
  added, and \<open>inv n\<close> says that the queue is well formed, that its third-party parts keep their
  contracts and that at least \<open>n\<close> more elements can be added before counters leave their range.
  The locale \<open>lane_queue\<close> is the precise contract, a list of lanes served in order, each a FIFO
  queue with an optional capacity; it gives \<open>blocking_queue\<close>, and every sequence of calls on a queue
  that satisfies it behaves as the lanes do. It is interpreted here on the two unbounded queues and
  in \<open>BoundedTaskQueues\<close> on the two bounded ones.
\<close>

section \<open>The contract of a task queue\<close>

locale blocking_queue =
  fixes ops :: "('q, 'a) BlockingQueue"
    and inv :: "nat \<Rightarrow> 'q \<Rightarrow> bool"
    and items :: "'q \<Rightarrow> 'a list"
  assumes add_is: "inv n q \<Longrightarrow> bq_add ops q x = bq_addWithPriority ops q x MID_PRI"
    and addWithPriority_law: "inv (Suc n) q \<Longrightarrow>
      (\<exists>q' b. bq_addWithPriority ops q x p = Done (q', Inr b) \<and> inv n q' \<and> mset (items q') = add_mset x (mset (items q))) \<or>
      (\<exists>q'. bq_addWithPriority ops q x p = Done (q', Inl QueueFullException) \<and> inv n q' \<and> items q' = items q) \<or>
      bq_addWithPriority ops q x p = Blocks"
    and take_item: "inv n q \<Longrightarrow> items q = x # xs \<Longrightarrow>
      \<exists>q'. bq_try_take_for ops q = Done (q', Inr (Some x)) \<and> inv n q' \<and> items q' = xs"
    and take_empty: "inv n q \<Longrightarrow> items q = [] \<Longrightarrow>
      \<exists>q'. bq_try_take_for ops q = Done (q', Inr None) \<and> inv n q' \<and> items q' = []"
    and take_waits: "inv n q \<Longrightarrow> bq_take ops q =
      (case bq_try_take_for ops q of Done (q', Inr (Some x)) \<Rightarrow> Done (q', Inr x) | _ \<Rightarrow> Blocks)"
    and size_law: "inv n q \<Longrightarrow> unat (bq_size ops q) = length (items q)"
    and inv_weaken: "inv (Suc n) q \<Longrightarrow> inv n q"
begin

lemma size_zero: "inv n q \<Longrightarrow> bq_size ops q = 0 \<longleftrightarrow> items q = []"
  using size_law[of n q] by (metis length_0_conv unat_0 unat_eq_zero)

lemma take_cases:
  assumes "inv n q"
  obtains (empty) "items q = []" "bq_take ops q = Blocks"
  | (item) x xs q' where "items q = x # xs" "bq_take ops q = Done (q', Inr x)" "inv n q'" "items q' = xs"
proof (cases "items q")
  case Nil
  then show thesis
    using take_empty[OF assms Nil] take_waits[OF assms] empty by auto
next
  case (Cons x xs)
  then show thesis
    using take_item[OF assms Cons] take_waits[OF assms] item by auto
qed

end

section \<open>Lanes\<close>

text \<open>The specification: lanes in the order they are served, lane \<open>i\<close> with capacity \<open>caps ! i\<close>.\<close>

fun lane_take :: "'a list list \<Rightarrow> 'a option \<times> 'a list list" where
  "lane_take [] = (None, [])"
| "lane_take ((x # xs) # L) = (Some x, xs # L)"
| "lane_take ([] # L) = (case lane_take L of (r, L') \<Rightarrow> (r, [] # L'))"

definition lane_fits :: "nat option list \<Rightarrow> 'a list list \<Rightarrow> nat \<Rightarrow> bool" where
  "lane_fits caps L i = (case caps ! i of None \<Rightarrow> True | Some c \<Rightarrow> length (L ! i) < c)"

datatype 'a queue_cmd = AddP 'a int | TryTake | Take | Size

datatype 'a queue_reply = Added | Full | Took "'a option" | SizeIs nat

fun lane_cmd :: "QueueBehaviorIfFull \<Rightarrow> (nat \<Rightarrow> int \<Rightarrow> nat) \<Rightarrow> nat option list \<Rightarrow> 'a list list \<Rightarrow> 'a queue_cmd \<Rightarrow>
    ('a list list \<times> 'a queue_reply) outcome" where
  "lane_cmd k laneOf caps L (AddP x p) = (let i = laneOf (length L) p in
     if lane_fits caps L i then Done (L[i := L ! i @ [x]], Added)
     else case k of THROW \<Rightarrow> Done (L, Full) | BLOCK \<Rightarrow> Blocks)"
| "lane_cmd k laneOf caps L TryTake = (case lane_take L of (r, L') \<Rightarrow> Done (L', Took r))"
| "lane_cmd k laneOf caps L Take = (case lane_take L of (r, L') \<Rightarrow> if r = None then Blocks else Done (L', Took r))"
| "lane_cmd k laneOf caps L Size = Done (L, SizeIs (length (concat L)))"

fun lane_run :: "QueueBehaviorIfFull \<Rightarrow> (nat \<Rightarrow> int \<Rightarrow> nat) \<Rightarrow> nat option list \<Rightarrow> 'a list list \<Rightarrow> 'a queue_cmd list \<Rightarrow>
    'a queue_reply list outcome" where
  "lane_run k laneOf caps L [] = Done []"
| "lane_run k laneOf caps L (c # cs) = bind_outcome (lane_cmd k laneOf caps L c) (\<lambda>(L', r).
     bind_outcome (lane_run k laneOf caps L' cs) (\<lambda>rs. Done (r # rs)))"

text \<open>The same calls on an implementation; an exception other than the full queue ends the run.\<close>

fun bq_cmd :: "('q, 'a) BlockingQueue \<Rightarrow> 'q \<Rightarrow> 'a queue_cmd \<Rightarrow> ('q \<times> 'a queue_reply) outcome" where
  "bq_cmd ops q (AddP x p) = bind_outcome (bq_addWithPriority ops q x p) (\<lambda>(q', r). case r of
       Inr b \<Rightarrow> Done (q', Added) | Inl QueueFullException \<Rightarrow> Done (q', Full) | Inl _ \<Rightarrow> Undefined)"
| "bq_cmd ops q TryTake = bind_outcome (bq_try_take_for ops q) (\<lambda>(q', r). case r of
       Inr x \<Rightarrow> Done (q', Took x) | Inl _ \<Rightarrow> Undefined)"
| "bq_cmd ops q Take = bind_outcome (bq_take ops q) (\<lambda>(q', r). case r of
       Inr x \<Rightarrow> Done (q', Took (Some x)) | Inl _ \<Rightarrow> Undefined)"
| "bq_cmd ops q Size = Done (q, SizeIs (unat (bq_size ops q)))"

fun bq_run :: "('q, 'a) BlockingQueue \<Rightarrow> 'q \<Rightarrow> 'a queue_cmd list \<Rightarrow> 'a queue_reply list outcome" where
  "bq_run ops q [] = Done []"
| "bq_run ops q (c # cs) = bind_outcome (bq_cmd ops q c) (\<lambda>(q', r).
     bind_outcome (bq_run ops q' cs) (\<lambda>rs. Done (r # rs)))"

text \<open>Priority 0 belongs to the middle lane, higher priorities to the lanes served before it.\<close>

definition priority_lane :: "nat \<Rightarrow> int \<Rightarrow> nat" where
  "priority_lane n p = nat (max 0 (min (int n - 1) ((int n + 1) div 2 - 1 - p)))"

lemma priority_lane_less: "1 \<le> n \<Longrightarrow> priority_lane n p < n"
  by (auto simp: priority_lane_def)

lemma lane_take_concat:
  "fst (lane_take L) = (case concat L of [] \<Rightarrow> None | x # xs \<Rightarrow> Some x)"
  "concat (snd (lane_take L)) = tl (concat L)" "length (snd (lane_take L)) = length L"
  by (induction L rule: lane_take.induct) (auto split: prod.split)

lemma lane_take_first:
  assumes "i < length L" "concat (take i L) = []" "L ! i = x # xs"
  shows "lane_take L = (Some x, L[i := xs])"
  using assms
proof (induction L arbitrary: i)
  case (Cons l L)
  then show ?case
    by (cases i) (auto simp: neq_Nil_conv)
qed simp

lemma lane_take_empty: "concat L = [] \<Longrightarrow> lane_take L = (None, L)"
  by (induction L rule: lane_take.induct) auto

lemma lane_take_append:
  "lane_take (L @ [ys]) = (case lane_take L of (None, _) \<Rightarrow> (case ys of [] \<Rightarrow> (None, L @ [[]]) | y # ys' \<Rightarrow> (Some y, L @ [ys']))
     | (Some x, L') \<Rightarrow> (Some x, L' @ [ys]))"
proof (induction L rule: lane_take.induct)
  case 1
  then show ?case
    by (cases ys) auto
next
  case (3 L)
  then show ?case
    using lane_take_empty[of L] lane_take_concat(1)[of L]
    by (cases "lane_take L"; cases ys) (auto split: option.splits list.splits)
qed auto

lemma mset_concat_lane:
  "i < length ls \<Longrightarrow> mset (concat (ls[i := ls ! i @ [x]])) = add_mset x (mset (concat ls))"
proof (induction ls arbitrary: i)
  case (Cons l ls)
  then show ?case
    by (cases i) auto
qed simp

locale lane_queue =
  fixes ops :: "('q, 'a) BlockingQueue"
    and inv :: "nat \<Rightarrow> 'q \<Rightarrow> bool"
    and lanes :: "'q \<Rightarrow> 'a list list"
    and caps :: "'q \<Rightarrow> nat option list"
    and k :: QueueBehaviorIfFull
    and laneOf :: "nat \<Rightarrow> int \<Rightarrow> nat"
  assumes lane_add_is: "inv n q \<Longrightarrow> bq_add ops q x = bq_addWithPriority ops q x MID_PRI"
    and lane_lt: "inv n q \<Longrightarrow> laneOf (length (lanes q)) p < length (lanes q)"
    and lane_add_room: "inv (Suc n) q \<Longrightarrow> i = laneOf (length (lanes q)) p \<Longrightarrow> lane_fits (caps q) (lanes q) i \<Longrightarrow>
      \<exists>q' b. bq_addWithPriority ops q x p = Done (q', Inr b) \<and> inv n q' \<and> caps q' = caps q \<and>
        lanes q' = (lanes q)[i := lanes q ! i @ [x]]"
    and lane_add_full: "inv (Suc n) q \<Longrightarrow> \<not> lane_fits (caps q) (lanes q) (laneOf (length (lanes q)) p) \<Longrightarrow>
      (case k of
        THROW \<Rightarrow> \<exists>q'. bq_addWithPriority ops q x p = Done (q', Inl QueueFullException) \<and> inv n q' \<and>
          caps q' = caps q \<and> lanes q' = lanes q
      | BLOCK \<Rightarrow> bq_addWithPriority ops q x p = Blocks)"
    and lane_try_take: "inv n q \<Longrightarrow>
      \<exists>q'. bq_try_take_for ops q = Done (q', Inr (fst (lane_take (lanes q)))) \<and> inv n q' \<and>
        caps q' = caps q \<and> lanes q' = snd (lane_take (lanes q))"
    and lane_take_waits: "inv n q \<Longrightarrow> bq_take ops q =
      (case bq_try_take_for ops q of Done (q', Inr (Some x)) \<Rightarrow> Done (q', Inr x) | _ \<Rightarrow> Blocks)"
    and lane_size: "inv n q \<Longrightarrow> unat (bq_size ops q) = length (concat (lanes q))"
    and lane_inv_weaken: "inv (Suc n) q \<Longrightarrow> inv n q"
begin

lemma cmd_refines:
  assumes "inv (Suc n) q"
  shows "case lane_cmd k laneOf (caps q) (lanes q) c of
      Done (L, r) \<Rightarrow> \<exists>q'. bq_cmd ops q c = Done (q', r) \<and> inv n q' \<and> lanes q' = L \<and> caps q' = caps q
    | Blocks \<Rightarrow> bq_cmd ops q c = Blocks
    | Undefined \<Rightarrow> False"
proof (cases c)
  case (AddP x p)
  show ?thesis
  proof (cases "lane_fits (caps q) (lanes q) (laneOf (length (lanes q)) p)")
    case True
    then show ?thesis
      using lane_add_room[OF assms refl True, of x] AddP by (auto simp: Let_def)
  next
    case False
    then show ?thesis
      using lane_add_full[OF assms False, of x] AddP by (cases k) (auto simp: Let_def)
  qed
next
  case TryTake
  then show ?thesis
    using lane_try_take[OF lane_inv_weaken[OF assms]] by (auto split: prod.splits)
next
  case Take
  then show ?thesis
    using lane_try_take[OF lane_inv_weaken[OF assms]] lane_take_waits[OF assms]
    by (cases "fst (lane_take (lanes q))") (auto split: prod.splits)
next
  case Size
  then show ?thesis
    using lane_size[OF assms] lane_inv_weaken[OF assms] by simp
qed

lemma run_refines:
  assumes "inv (length cs) q"
  shows "bq_run ops q cs = lane_run k laneOf (caps q) (lanes q) cs"
  using assms
proof (induction cs arbitrary: q)
  case (Cons c cs)
  then have "inv (Suc (length cs)) q"
    by simp
  from cmd_refines[OF this, of c] Cons.IH show ?case
    by (cases "lane_cmd k laneOf (caps q) (lanes q) c") (fastforce split: prod.splits)+
qed simp

end

sublocale lane_queue \<subseteq> blocking_queue ops inv "\<lambda>q. concat (lanes q)"
proof unfold_locales
  fix n q x p xs
  show "bq_add ops q x = bq_addWithPriority ops q x MID_PRI" if "inv n q"
    by (rule lane_add_is[OF that])
  show "bq_take ops q = (case bq_try_take_for ops q of Done (q', Inr (Some x)) \<Rightarrow> Done (q', Inr x) | _ \<Rightarrow> Blocks)" if "inv n q"
    by (rule lane_take_waits[OF that])
  show "unat (bq_size ops q) = length (concat (lanes q))" if "inv n q"
    by (rule lane_size[OF that])
  show "inv n q" if "inv (Suc n) q"
    by (rule lane_inv_weaken[OF that])
  show "\<exists>q'. bq_try_take_for ops q = Done (q', Inr (Some x)) \<and> inv n q' \<and> concat (lanes q') = xs"
    if "inv n q" "concat (lanes q) = x # xs"
    using lane_try_take[OF that(1)] that(2) lane_take_concat[of "lanes q"] by auto
  show "\<exists>q'. bq_try_take_for ops q = Done (q', Inr None) \<and> inv n q' \<and> concat (lanes q') = []"
    if "inv n q" "concat (lanes q) = []"
    using lane_try_take[OF that(1)] lane_take_empty[OF that(2)] that(2) by (metis fst_conv snd_conv)
  show "(\<exists>q' b. bq_addWithPriority ops q x p = Done (q', Inr b) \<and> inv n q' \<and>
            mset (concat (lanes q')) = add_mset x (mset (concat (lanes q)))) \<or>
        (\<exists>q'. bq_addWithPriority ops q x p = Done (q', Inl QueueFullException) \<and> inv n q' \<and>
            concat (lanes q') = concat (lanes q)) \<or>
        bq_addWithPriority ops q x p = Blocks" if I: "inv (Suc n) q"
  proof (cases "lane_fits (caps q) (lanes q) (laneOf (length (lanes q)) p)")
    case True
    from lane_add_room[OF I refl True, of x] mset_concat_lane[OF lane_lt[OF I, of p], of x] show ?thesis
      by (metis (no_types))
  next
    case False
    from lane_add_full[OF I False, of x] show ?thesis
      by (cases k) auto
  qed
qed


section \<open>UnboundedBlockingQueue\<close>

definition ubq_lanes :: "('u \<Rightarrow> 'a list) \<Rightarrow> ('s, 'u) UnboundedBlockingQueue \<Rightarrow> 'a list list" where
  "ubq_lanes els q = [els (ubq_queue q)]"

definition ubq_inv :: "'s sem_ops \<Rightarrow> ('s \<Rightarrow> nat) \<Rightarrow> ('u, 'a) umpmc_ops \<Rightarrow> ('u \<Rightarrow> 'a list) \<Rightarrow> nat \<Rightarrow>
    ('s, 'u) UnboundedBlockingQueue \<Rightarrow> bool" where
  "ubq_inv S cnt U els n q \<longleftrightarrow> sem_contract S cnt \<and> umpmc_contract U els \<and>
     cnt (ubq_sem q) = length (els (ubq_queue q)) \<and> length (els (ubq_queue q)) + n < 2 ^ 64"

lemma sem_contractD:
  assumes "sem_contract S cnt"
  shows "cnt (semNew S) = 0" "semPost S s = (b, s') \<Longrightarrow> cnt s' = cnt s + 1"
    "semTryWait S s = None \<longleftrightarrow> cnt s = 0" "semTryWait S s = Some s' \<Longrightarrow> cnt s' + 1 = cnt s"
  using assms unfolding sem_contract_def by (elim conjE; metis)+

lemma umpmc_contractD:
  assumes "umpmc_contract U els"
  shows "els (uNew U) = []" "els (uEnqueue U u x) = els u @ [x]" "els u = [] \<Longrightarrow> uDequeue U u = Blocks"
    "els u = x # xs \<Longrightarrow> \<exists>u'. uDequeue U u = Done (x, u') \<and> els u' = xs"
    "length (els u) < 2 ^ 64 \<Longrightarrow> unat (uSize U u) = length (els u)"
  using assms unfolding umpmc_contract_def by (elim conjE; metis)+

lemma ubq_add_ok:
  assumes "ubq_inv S cnt U els (Suc n) q"
  shows "\<exists>q' b. ubq_add S U q x = Done (q', Inr b) \<and> ubq_inv S cnt U els n q' \<and>
           els (ubq_queue q') = els (ubq_queue q) @ [x]"
proof -
  have C: "sem_contract S cnt" "umpmc_contract U els"
    using assms by (auto simp: ubq_inv_def)
  obtain b s where p: "semPost S (ubq_sem q) = (b, s)"
    by fastforce
  then show ?thesis
    using assms sem_contractD(2)[OF C(1) p] umpmc_contractD(2)[OF C(2)]
    by (auto simp: ubq_add_def ubq_inv_def)
qed

lemma ubq_try_take_ok:
  assumes "ubq_inv S cnt U els n q"
  shows "\<exists>q'. ubq_try_take_for S U q = Done (q', Inr (fst (lane_take (ubq_lanes els q)))) \<and>
           ubq_inv S cnt U els n q' \<and> ubq_lanes els q' = snd (lane_take (ubq_lanes els q))"
proof (cases "els (ubq_queue q)")
  case Nil
  then show ?thesis
    using assms sem_contractD(3)[of S cnt "ubq_sem q"] by (simp add: ubq_try_take_for_def ubq_inv_def ubq_lanes_def)
next
  case (Cons x xs)
  have C: "sem_contract S cnt" "umpmc_contract U els"
    using assms by (auto simp: ubq_inv_def)
  obtain s where s: "semTryWait S (ubq_sem q) = Some s"
    using sem_contractD(3)[OF C(1), of "ubq_sem q"] assms Cons
    by (cases "semTryWait S (ubq_sem q)") (auto simp: ubq_inv_def)
  obtain u where u: "uDequeue U (ubq_queue q) = Done (x, u)" "els u = xs"
    using umpmc_contractD(4)[OF C(2) Cons] by blast
  show ?thesis
    using assms Cons s u sem_contractD(4)[OF C(1) s]
    by (simp add: ubq_try_take_for_def ubq_inv_def ubq_lanes_def)
qed

lemma ubq_take_waits:
  assumes "ubq_inv S cnt U els n q"
  shows "ubq_take S U q = (case ubq_try_take_for S U q of Done (q', Inr (Some x)) \<Rightarrow> Done (q', Inr x) | _ \<Rightarrow> Blocks)"
proof -
  obtain q' r where "ubq_try_take_for S U q = Done (q', Inr r)"
    using ubq_try_take_ok[OF assms] by blast
  then show ?thesis
    by (cases "semTryWait S (ubq_sem q)"; cases "uDequeue U (ubq_queue q)")
      (auto simp: ubq_take_def ubq_try_take_for_def)
qed

lemma ubq_ops_simps:
  "bq_add (ubq_ops S U) = ubq_add S U" "bq_addWithPriority (ubq_ops S U) q x p = ubq_add S U q x"
  "bq_take (ubq_ops S U) = ubq_take S U"
  "bq_try_take_for (ubq_ops S U) = ubq_try_take_for S U" "bq_size (ubq_ops S U) q = uSize U (ubq_queue q)"
  by (simp_all add: ubq_ops_def default_addWithPriority_def)

interpretation ubq: lane_queue "ubq_ops S U" "ubq_inv S cnt U els" "ubq_lanes els" "\<lambda>q. [None]" THROW "\<lambda>n p. 0"
  for S U cnt els
proof (unfold_locales, unfold ubq_ops_simps)
  fix n q
  assume I: "ubq_inv S cnt U els n q"
  show "\<exists>q'. ubq_try_take_for S U q = Done (q', Inr (fst (lane_take (ubq_lanes els q)))) \<and>
           ubq_inv S cnt U els n q' \<and> [None] = [None] \<and> ubq_lanes els q' = snd (lane_take (ubq_lanes els q))"
    using ubq_try_take_ok[OF I] by simp
  show "unat (uSize U (ubq_queue q)) = length (concat (ubq_lanes els q))"
    using I umpmc_contractD(5)[of U els "ubq_queue q"] by (simp add: ubq_inv_def ubq_lanes_def)
  show "ubq_take S U q = (case ubq_try_take_for S U q of Done (q', Inr (Some x)) \<Rightarrow> Done (q', Inr x) | _ \<Rightarrow> Blocks)"
    by (rule ubq_take_waits[OF I])
next
  fix n i q x p
  assume "ubq_inv S cnt U els (Suc n) q" "i = (0::nat)"
  then show "\<exists>q' b. ubq_add S U q x = Done (q', Inr b) \<and> ubq_inv S cnt U els n q' \<and> [None] = [None] \<and>
        ubq_lanes els q' = (ubq_lanes els q)[i := ubq_lanes els q ! i @ [x]]"
    using ubq_add_ok[of S cnt U els n q x] by (auto simp: ubq_lanes_def)
qed (simp_all add: ubq_inv_def ubq_lanes_def lane_fits_def)

section \<open>PriorityUnboundedBlockingQueue\<close>

definition pubq_inv :: "'s sem_ops \<Rightarrow> ('s \<Rightarrow> nat) \<Rightarrow> ('p, 'a) pset_ops \<Rightarrow> ('p \<Rightarrow> 'a list list) \<Rightarrow> nat \<Rightarrow>
    ('s, 'p) PriorityUnboundedBlockingQueue \<Rightarrow> bool" where
  "pubq_inv S cnt P lanes n q \<longleftrightarrow> sem_contract S cnt \<and> pset_contract P lanes \<and>
     lanes (pubq_queue q) \<noteq> [] \<and> length (lanes (pubq_queue q)) \<le> 255 \<and>
     cnt (pubq_sem q) = length (concat (lanes (pubq_queue q))) \<and> length (concat (lanes (pubq_queue q))) + n < 2 ^ 64"

lemma pset_contractD:
  assumes "pset_contract P lanes"
  shows "lanes (psNew P n) = replicate (unat n) []" "psPriorities P p = length (lanes p)"
    "i < length (lanes p) \<Longrightarrow> lanes (psEnqueueAt P p i x) = (lanes p)[i := lanes p ! i @ [x]]"
    "psTryDequeue P p = None \<longleftrightarrow> concat (lanes p) = []"
    "psTryDequeue P p = Some (x, p') \<Longrightarrow>
        \<exists>i xs. i < length (lanes p) \<and> concat (take i (lanes p)) = [] \<and> lanes p ! i = x # xs \<and>
           lanes p' = (lanes p)[i := xs]"
    "length (concat (lanes p)) < 2 ^ 64 \<Longrightarrow> unat (psSize P p) = length (concat (lanes p))"
    "lo \<le> hi \<Longrightarrow> constexpr_clamp P v lo hi = (if v < lo then lo else if hi < v then hi else v)"
  using assms unfolding pset_contract_def by (elim conjE; metis)+

lemma int8_id: "- 128 \<le> x \<Longrightarrow> x \<le> 127 \<Longrightarrow> int8 x = x"
  by (simp add: int8_def)

lemma translatePriority_eq:
  assumes "pset_contract P lanes" "1 \<le> n" "n \<le> 255"
  shows "translatePriority P n p = (let hi = (n + 1) div 2 - 1; lo = hi - (n - 1)
           in if p < lo then n - 1 else if hi < p then 0 else hi - p)"
proof -
  have b: "- 128 \<le> (n + 1) div 2 - 1" "(n + 1) div 2 - 1 \<le> 127"
    "- 128 \<le> (n + 1) div 2 - 1 - (n - 1)" "(n + 1) div 2 - 1 - (n - 1) \<le> 127"
    using assms(2,3) by presburger+
  have le: "(n + 1) div 2 - 1 - (n - 1) \<le> (n + 1) div 2 - 1"
    using assms(2) by simp
  show ?thesis
    using int8_id[OF b(1,2)] int8_id[OF b(3,4)] pset_contractD(7)[OF assms(1) le]
    by (simp add: translatePriority_def Let_def)
qed

lemma translatePriority_lane:
  assumes "pset_contract P lanes" "1 \<le> n" "n \<le> 255"
  shows "nat (translatePriority P (int n) p) = priority_lane n p"
  using assms(2,3) by (auto simp: translatePriority_eq[OF assms(1)] priority_lane_def Let_def)

lemma pubq_lane_eq:
  assumes "pubq_inv S cnt P lanes n q"
  shows "nat (translatePriority P (int (length (lanes (pubq_queue q)))) p) = priority_lane (length (lanes (pubq_queue q))) p"
    and "priority_lane (length (lanes (pubq_queue q))) p < length (lanes (pubq_queue q))"
proof -
  have "1 \<le> length (lanes (pubq_queue q))" "length (lanes (pubq_queue q)) \<le> 255" "pset_contract P lanes"
    using assms by (auto simp: pubq_inv_def Suc_le_eq)
  then show "nat (translatePriority P (int (length (lanes (pubq_queue q)))) p) = priority_lane (length (lanes (pubq_queue q))) p"
    "priority_lane (length (lanes (pubq_queue q))) p < length (lanes (pubq_queue q))"
    by (simp_all add: translatePriority_lane priority_lane_less)
qed

lemma pubq_add_ok:
  fixes q :: "('s, 'p) PriorityUnboundedBlockingQueue" and p :: int
  assumes "pubq_inv S cnt P lanes (Suc n) q"
  defines "i \<equiv> priority_lane (length (lanes (pubq_queue q))) p"
  shows "\<exists>q' b. pubq_addWithPriority S P q x p = Done (q', Inr b) \<and> pubq_inv S cnt P lanes n q' \<and>
           lanes (pubq_queue q') = (lanes (pubq_queue q))[i := lanes (pubq_queue q) ! i @ [x]]"
proof -
  let ?l = "lanes (pubq_queue q)"
  have C: "sem_contract S cnt" "pset_contract P lanes"
    using assms(1) by (auto simp: pubq_inv_def)
  have lt: "i < length ?l"
    unfolding i_def by (rule pubq_lane_eq(2)[OF assms(1)])
  obtain b s where post: "semPost S (pubq_sem q) = (b, s)"
    by fastforce
  have len: "length (concat (?l[i := ?l ! i @ [x]])) = Suc (length (concat ?l))"
    using arg_cong[OF mset_concat_lane[OF lt, of x], of size] by simp
  show ?thesis
    using assms(1) len pset_contractD(2)[OF C(2)] pset_contractD(3)[OF C(2) lt] sem_contractD(2)[OF C(1) post] post
    unfolding pubq_addWithPriority_def pset_contractD(2)[OF C(2)] pubq_lane_eq(1)[OF assms(1)] i_def[symmetric]
    by (simp add: pubq_inv_def Let_def del: length_concat)
qed

lemma pubq_try_take_ok:
  assumes "pubq_inv S cnt P lanes n q"
  shows "\<exists>q'. pubq_try_take_for S P q = Done (q', Inr (fst (lane_take (lanes (pubq_queue q))))) \<and>
           pubq_inv S cnt P lanes n q' \<and> lanes (pubq_queue q') = snd (lane_take (lanes (pubq_queue q)))"
proof (cases "psTryDequeue P (pubq_queue q)")
  have C: "sem_contract S cnt" "pset_contract P lanes" "cnt (pubq_sem q) = length (concat (lanes (pubq_queue q)))"
    using assms by (auto simp: pubq_inv_def simp del: length_concat)
  {
    case None
    then have e: "concat (lanes (pubq_queue q)) = []"
      using pset_contractD(4)[OF C(2)] by simp
    then show ?thesis
      using assms C(3) sem_contractD(3)[OF C(1), of "pubq_sem q"] lane_take_empty[OF e]
      by (simp add: pubq_try_take_for_def del: concat_eq_Nil_conv length_concat)
  next
    case (Some yp)
    then obtain y p where y: "psTryDequeue P (pubq_queue q) = Some (y, p)"
      by (cases yp) auto
    obtain i ys where i: "i < length (lanes (pubq_queue q))" "concat (take i (lanes (pubq_queue q))) = []"
        "lanes (pubq_queue q) ! i = y # ys" "lanes p = (lanes (pubq_queue q))[i := ys]"
      using pset_contractD(5)[OF C(2) y] by blast
    note f = lane_take_first[OF i(1-3)]
    have len: "Suc (length (concat (lanes p))) = length (concat (lanes (pubq_queue q)))"
      using lane_take_concat(1,2)[of "lanes (pubq_queue q)"] f i(4)
      by (cases "concat (lanes (pubq_queue q))") (simp_all del: length_concat concat_eq_Nil_conv)
    have "cnt (pubq_sem q) \<noteq> 0"
      using C(3) len by linarith
    then obtain s where s: "semTryWait S (pubq_sem q) = Some s"
      using sem_contractD(3)[OF C(1), of "pubq_sem q"] by (cases "semTryWait S (pubq_sem q)") auto
    show ?thesis
      using assms s y f len i(1,4) sem_contractD(4)[OF C(1) s]
      by (auto simp: pubq_try_take_for_def pubq_dequeue_def pubq_inv_def simp del: length_concat)
  }
qed

lemma pubq_take_waits:
  assumes "pubq_inv S cnt P lanes n q"
  shows "pubq_take S P q = (case pubq_try_take_for S P q of Done (q', Inr (Some x)) \<Rightarrow> Done (q', Inr x) | _ \<Rightarrow> Blocks)"
  using pubq_try_take_ok[OF assms]
  by (auto simp: pubq_take_def pubq_try_take_for_def pubq_dequeue_def split: option.splits prod.splits)

lemma pubq_ops_simps:
  "bq_add (pubq_ops S P) q x = pubq_addWithPriority S P q x MID_PRI"
  "bq_addWithPriority (pubq_ops S P) = pubq_addWithPriority S P" "bq_take (pubq_ops S P) = pubq_take S P"
  "bq_try_take_for (pubq_ops S P) = pubq_try_take_for S P" "bq_size (pubq_ops S P) q = psSize P (pubq_queue q)"
  by (simp_all add: pubq_ops_def pubq_add_def)

interpretation pubq: lane_queue "pubq_ops S P" "pubq_inv S cnt P lanes" "\<lambda>q. lanes (pubq_queue q)"
    "\<lambda>q. replicate (length (lanes (pubq_queue q))) None" THROW priority_lane
  for S P cnt lanes
proof (unfold_locales, unfold pubq_ops_simps)
  fix n q p
  assume I: "pubq_inv S cnt P lanes n q"
  show "\<exists>q'. pubq_try_take_for S P q = Done (q', Inr (fst (lane_take (lanes (pubq_queue q))))) \<and>
      pubq_inv S cnt P lanes n q' \<and>
      replicate (length (lanes (pubq_queue q'))) None = replicate (length (lanes (pubq_queue q))) None \<and>
      lanes (pubq_queue q') = snd (lane_take (lanes (pubq_queue q)))"
    using pubq_try_take_ok[OF I] lane_take_concat(3)[of "lanes (pubq_queue q)"] by auto
  show "unat (psSize P (pubq_queue q)) = length (concat (lanes (pubq_queue q)))"
    using I pset_contractD(6)[of P lanes "pubq_queue q"] by (simp add: pubq_inv_def del: length_concat)
  show "pubq_take S P q = (case pubq_try_take_for S P q of Done (q', Inr (Some x)) \<Rightarrow> Done (q', Inr x) | _ \<Rightarrow> Blocks)"
    by (rule pubq_take_waits[OF I])
  show "priority_lane (length (lanes (pubq_queue q))) p < length (lanes (pubq_queue q))"
    by (rule pubq_lane_eq(2)[OF I])
next
  fix n q p x
  assume I: "pubq_inv S cnt P lanes (Suc n) q"
  show "pubq_inv S cnt P lanes n q"
    using I by (simp add: pubq_inv_def)
  assume "\<not> lane_fits (replicate (length (lanes (pubq_queue q))) None) (lanes (pubq_queue q))
      (priority_lane (length (lanes (pubq_queue q))) p)"
  then have False
    using pubq_lane_eq(2)[OF I, of p] by (simp add: lane_fits_def)
  then show "case THROW of
        THROW \<Rightarrow> \<exists>q'. pubq_addWithPriority S P q x p = Done (q', Inl QueueFullException) \<and> pubq_inv S cnt P lanes n q' \<and>
          replicate (length (lanes (pubq_queue q'))) None = replicate (length (lanes (pubq_queue q))) None \<and>
          lanes (pubq_queue q') = lanes (pubq_queue q)
      | BLOCK \<Rightarrow> pubq_addWithPriority S P q x p = Blocks" ..
next
  fix n q i p x
  assume I: "pubq_inv S cnt P lanes (Suc n) q" and i: "i = priority_lane (length (lanes (pubq_queue q))) p"
  show "\<exists>q' b. pubq_addWithPriority S P q x p = Done (q', Inr b) \<and> pubq_inv S cnt P lanes n q' \<and>
      replicate (length (lanes (pubq_queue q'))) None = replicate (length (lanes (pubq_queue q))) None \<and>
      lanes (pubq_queue q') = (lanes (pubq_queue q))[i := lanes (pubq_queue q) ! i @ [x]]"
    using pubq_add_ok[OF I, of x p] unfolding i by auto
qed (rule refl)

section \<open>Properties\<close>

lemma unboundedBlockingQueue_lane:
  assumes "sem_contract S cnt" "umpmc_contract U els" "length cs < 2 ^ 64"
  shows "bq_run (ubq_ops S U) (newUnboundedBlockingQueue S U) cs = lane_run THROW (\<lambda>n p. 0) [None] [[]] cs"
proof -
  have "ubq_inv S cnt U els (length cs) (newUnboundedBlockingQueue S U)"
    and "ubq_lanes els (newUnboundedBlockingQueue S U) = [[]]"
    using assms sem_contractD(1)[OF assms(1)] umpmc_contractD(1)[OF assms(2)]
    by (simp_all add: ubq_inv_def ubq_lanes_def newUnboundedBlockingQueue_def)
  then show ?thesis
    using ubq.run_refines[of S cnt U els cs "newUnboundedBlockingQueue S U"] by simp
qed

lemma priorityUnboundedBlockingQueue_lanes:
  assumes "sem_contract S cnt" "pset_contract P lanes" "0 < numPriorities" "length cs < 2 ^ 64"
  shows "bq_run (pubq_ops S P) (newPriorityUnboundedBlockingQueue S P numPriorities) cs =
    lane_run THROW priority_lane (replicate (unat numPriorities) None) (replicate (unat numPriorities) []) cs"
proof -
  let ?q = "newPriorityUnboundedBlockingQueue S P numPriorities"
  have "0 < unat numPriorities" "unat numPriorities \<le> 255"
    using assms(3) unsigned_less[of numPriorities, where 'a = nat] by (simp_all add: word_less_nat_alt)
  then have "pubq_inv S cnt P lanes (length cs) ?q" and l: "lanes (pubq_queue ?q) = replicate (unat numPriorities) []"
    using assms sem_contractD(1)[OF assms(1)] pset_contractD(1)[OF assms(2)]
    by (simp_all add: pubq_inv_def newPriorityUnboundedBlockingQueue_def)
  from pubq.run_refines[OF this(1)] show ?thesis
    unfolding l by simp
qed

text \<open>C16. Cn. The two unbounded task queues, used by one thread at a time. \<open>UnboundedBlockingQueue\<close> is an unbounded FIFO queue:
  every sequence of calls gets the replies of a single lane without a capacity. \<open>PriorityUnboundedBlockingQueue\<close> with any
  positive number of priorities is a list of such lanes served in order, an element of priority \<open>p\<close> going to lane
  \<open>priority_lane numPriorities p\<close>. So nothing is lost, adding never fails and never blocks, \<open>take\<close> blocks and
  \<open>try_take_for\<close> gives up exactly when all is empty, \<open>size\<close> is exact, the \<open>dequeue\<close> that follows a successful wait always
  finds an element (the process is never terminated for a bug in the queue) and \<open>translatePriority\<close> stays in range for
  every \<open>int8_t\<close> value. The semaphore and folly's queues keep their contracts.\<close>

theorem unbounded_queues_refine_lanes:
  assumes "sem_contract S cnt" "umpmc_contract U els" "pset_contract P lanes" "0 < numPriorities" "length cs < 2 ^ 64"
  shows "bq_run (ubq_ops S U) (newUnboundedBlockingQueue S U) cs = lane_run THROW (\<lambda>n p. 0) [None] [[]] cs \<and>
    bq_run (pubq_ops S P) (newPriorityUnboundedBlockingQueue S P numPriorities) cs =
    lane_run THROW priority_lane (replicate (unat numPriorities) None) (replicate (unat numPriorities) []) cs"
  using unboundedBlockingQueue_lane[OF assms(1,2,5)] priorityUnboundedBlockingQueue_lanes[OF assms(1,3-5)] by (rule conjI)

text \<open>Concrete third-party parts: a counter as the semaphore, lists as the queues of folly.\<close>

definition list_umpmc :: "('a list, 'a) umpmc_ops" where
  "list_umpmc = \<lparr>uNew = [], uEnqueue = (\<lambda>u x. u @ [x]),
     uDequeue = (\<lambda>u. case u of [] \<Rightarrow> Blocks | x # xs \<Rightarrow> Done (x, xs)), uSize = (\<lambda>u. of_nat (length u))\<rparr>"

definition counter_sem :: "nat sem_ops" where
  "counter_sem = \<lparr>semNew = 0, semPost = (\<lambda>n. (False, n + 1)), semTryWait = (\<lambda>n. if n = 0 then None else Some (n - 1))\<rparr>"

definition list_pset :: "('a list list, 'a) pset_ops" where
  "list_pset = \<lparr>psNew = (\<lambda>n. replicate (unat n) []), psPriorities = length,
     psEnqueueAt = (\<lambda>L i x. L[i := L ! i @ [x]]),
     psTryDequeue = (\<lambda>L. case lane_take L of (None, _) \<Rightarrow> None | (Some x, L') \<Rightarrow> Some (x, L')),
     psSize = (\<lambda>L. of_nat (length (concat L))),
     constexpr_clamp = (\<lambda>v lo hi. if v < lo then lo else if hi < v then hi else v)\<rparr>"

lemma counter_sem_contract: "sem_contract counter_sem id"
  by (auto simp: sem_contract_def counter_sem_def)

lemma list_umpmc_contract: "umpmc_contract list_umpmc id"
  by (auto simp: umpmc_contract_def list_umpmc_def unat_of_nat)

lemma lane_take_Some:
  "lane_take L = (Some x, L') \<Longrightarrow>
    \<exists>i xs. i < length L \<and> concat (take i L) = [] \<and> L ! i = x # xs \<and> L' = L[i := xs]"
proof (induction L arbitrary: L' rule: lane_take.induct)
  case (2 y ys L)
  then show ?case
    by (intro exI[of _ 0]) auto
next
  case (3 L)
  then obtain L'' where L: "lane_take L = (Some x, L'')" "L' = [] # L''"
    by (auto split: prod.splits)
  from 3(1)[OF L(1)] obtain i xs where "i < length L" "concat (take i L) = []" "L ! i = x # xs" "L'' = L[i := xs]"
    by blast
  with L(2) show ?case
    by (intro exI[of _ "Suc i"] exI[of _ xs]) auto
qed simp

lemma list_pset_contract: "pset_contract list_pset id"
proof -
  have "psTryDequeue list_pset p = None \<longleftrightarrow> concat p = []" for p :: "'a list list"
    using lane_take_concat(1)[of p] lane_take_empty[of p]
    by (auto simp: list_pset_def simp del: concat_eq_Nil_conv split: prod.splits option.splits list.splits)
  moreover have "\<exists>i xs. i < length p \<and> concat (take i p) = [] \<and> p ! i = x # xs \<and> p' = p[i := xs]"
    if "psTryDequeue list_pset p = Some (x, p')" for p :: "'a list list" and x p'
    using that lane_take_Some[of p x p'] by (auto simp: list_pset_def split: prod.splits option.splits)
  ultimately show ?thesis
    by (simp add: pset_contract_def del: concat_eq_Nil_conv length_concat)
      (simp add: list_pset_def unat_of_nat del: length_concat)
qed

text \<open>Witness of Cn.\<close>

theorem unbounded_queues_refine_lanes_witness:
  "bq_run (ubq_ops counter_sem list_umpmc) (newUnboundedBlockingQueue counter_sem list_umpmc)
     [AddP (1::int) (-128), AddP 2 0, AddP 3 127, AddP 4 0, TryTake, Take, TryTake, Take, TryTake] =
     Done [Added, Added, Added, Added, Took (Some 1), Took (Some 2), Took (Some 3), Took (Some 4), Took None] \<and>
   bq_run (pubq_ops counter_sem list_pset) (newPriorityUnboundedBlockingQueue counter_sem list_pset 3)
     [AddP (1::int) (-128), AddP 2 0, AddP 3 127, AddP 4 0, TryTake, Take, TryTake, Take, TryTake] =
     Done [Added, Added, Added, Added, Took (Some 3), Took (Some 2), Took (Some 4), Took (Some 1), Took None]"
proof -
  have r: "replicate (unat (3::u8)) y = [y, y, y]" for y :: 'b
  proof -
    have "unat (3::u8) = 3"
      by simp
    then show ?thesis
      by (simp only: numeral_3_eq_3 replicate.simps)
  qed
  show ?thesis
    using unbounded_queues_refine_lanes[OF counter_sem_contract list_umpmc_contract list_pset_contract, of 3
        "[AddP (1::int) (-128), AddP 2 0, AddP 3 127, AddP 4 0, TryTake, Take, TryTake, Take, TryTake]"]
    unfolding r by (simp add: lane_fits_def priority_lane_def del: bq_run.simps)
qed

end
