(* ===== verification/BoundedTaskQueues.thy ===== *)
theory BoundedTaskQueues
  imports BlockingQueues
begin

text \<open>
  The two bounded task queues, \<open>LifoSemMPMCQueue\<close> and \<open>PriorityLifoSemMPMCQueue\<close>, satisfy the
  contract \<open>lane_queue\<close>: they combine a semaphore with the ring buffer of \<open>MPMCQueue\<close>, whose
  behaviour for a thread alone is the refinement of \<open>MPMCSequential\<close>. The semaphore never has fewer
  units than the queue has elements; surplus units, left by elements that were taken without
  waiting, are used up by the loops of \<open>take\<close> and \<open>try_take_for\<close>, which end.
\<close>

section \<open>Calls of MPMCQueue by the bounded queues\<close>

text \<open>Reading never moves the push counter.\<close>

fun reading :: "'a pc \<Rightarrow> bool" where
  "reading RBlocking = True"
| "reading (RReady c) = True"
| "reading (RPromised timed c) = True"
| "reading (RWaitTurn t) = True"
| "reading (Dequeueing t c) = True"
| "reading (RReturn r) = True"
| "reading _ = False"

lemma reading_after [simp]:
  "reading (after_ready_pop c)" "reading (after_promised_pop timed c')" "reading (after_dequeue t d)"
proof -
  show "reading (after_ready_pop c)"
    by (cases c) simp_all
  show "reading (after_promised_pop timed c')"
    by (cases c') simp_all
  show "reading (after_dequeue t d)"
    by (cases d) simp_all
qed

lemma reading_step:
  assumes "step E d q c = Done (q', c')" "reading c"
  shows "pushTicket q' = pushTicket q \<and> reading c'"
proof -
  have ready: "tryObtainReadyPopTicket E q c = Done (q', c') \<Longrightarrow> pushTicket q' = pushTicket q" for c c'
    by (cases c; auto simp: with_slot_def Let_def split: if_splits)
  have prom: "tryObtainPromisedPopTicket q c = (q', c') \<Longrightarrow> pushTicket q' = pushTicket q" for c c'
    by (cases c; auto simp: Let_def split: if_splits)
  have deq: "dequeueWithTicketBase E q t c = Done (q', c') \<Longrightarrow> pushTicket q' = pushTicket q" for t c c'
    by (cases c) (auto simp: with_slot_def bind_outcome_Done_iff split: if_splits)
  show ?thesis
    using assms
    by (cases c) (auto simp: bind_outcome_Done_iff waitForPopTurnUntil_def with_slot_def
        split: prod.splits if_splits dest: ready prom deq)
qed

lemma reading_run:
  assumes "run E d n q c = Done (Some (q', c'))" "reading c"
  shows "pushTicket q' = pushTicket q"
  using assms
proof (induction n arbitrary: q c)
  case 0
  then show ?case
    by (auto simp: run.simps split: if_splits)
next
  case (Suc n)
  show ?case
  proof (cases "returned c")
    case False
    with Suc.prems(1) obtain q1 c1 where "step E d q c = Done (q1, c1)" "run E d n q1 c1 = Done (Some (q', c'))"
      by (auto simp: run.simps[of E d "Suc n"] bind_outcome_Done_iff)
    with Suc.IH[of q1 c1] reading_step[of E d q c q1 c1] Suc.prems(2) show ?thesis
      by simp
  qed (use Suc.prems in \<open>simp add: run.simps\<close>)
qed

text \<open>A settled queue with room for \<open>n\<close> more calls, and the elements it holds.\<close>

definition mpmc_items :: "'ts mpmc_env \<Rightarrow> ('ts, 'a) MPMCQueue \<Rightarrow> 'a list" where
  "mpmc_items E q = map (\<lambda>t. the (contents (cell E q (slot_of (qcap q) (qstride q) t))))
     [unat (popTicket q)..<unat (pushTicket q)]"

lemma mpmc_items_settled:
  assumes "settled tb cur E q xs"
  shows "mpmc_items E q = xs"
proof (rule nth_equalityI)
  show "length (mpmc_items E q) = length xs"
    using settledD(3)[OF assms] by (simp add: mpmc_items_def)
  fix i
  assume "i < length (mpmc_items E q)"
  then show "mpmc_items E q ! i = xs ! i"
    using settledD(6)[OF assms, of "unat (popTicket q) + i"] by (simp add: mpmc_items_def)
qed

definition mpmc_ok :: "nat \<Rightarrow> ('ts \<Rightarrow> u32) \<Rightarrow> 'ts mpmc_env \<Rightarrow> nat \<Rightarrow> ('ts, 'a) MPMCQueue \<Rightarrow> bool" where
  "mpmc_ok tb cur E n q \<longleftrightarrow> settled tb cur E q (mpmc_items E q) \<and> unat (pushTicket q) + 6 * n < ticketRoom"

lemma mpmc_ok_weaken: "mpmc_ok tb cur E (Suc n) q \<Longrightarrow> mpmc_ok tb cur E n q"
  by (simp add: mpmc_ok_def)

lemma mpmc_call_done:
  assumes "settled tb cur E q xs" "unat (pushTicket q) < ticketRoom"
    and "list_call (qcap q) False xs c = Done (xs', res)"
  shows "\<exists>q'. mpmc_call E q c = Done (res, q') \<and> settled tb cur E q' xs' \<and> capacity q' = capacity q \<and>
           unat (pushTicket q') \<le> unat (pushTicket q) + 6 \<and> (reading (enter c) \<longrightarrow> pushTicket q' = pushTicket q)"
proof -
  obtain q' c' where r: "run E False 6 q (enter c) = Done (Some (q', c'))" "result_of c' = Some res"
      "settled tb cur E q' xs'"
    using call_refines[OF assms(1,2), of False c] assms(3) by (auto simp: run_to_def)
  then show ?thesis
    using run_bounds[OF r(1)] reading_run[OF r(1)] by (simp add: mpmc_call_def)
qed

lemma mpmc_call_blocks:
  assumes "settled tb cur E q xs" "unat (pushTicket q) < ticketRoom" "list_call (qcap q) False xs c = Blocks"
  shows "mpmc_call E q c = Blocks"
  using call_refines[OF assms(1,2), of False c] assms(3) by (simp add: mpmc_call_def)

lemma mpmc_size_settled:
  assumes "settled tb cur E q xs"
  shows "unat (mpmc_size_now q) = length xs"
proof -
  have le: "unat (popTicket q) \<le> unat (pushTicket q)" and len: "unat (pushTicket q) - unat (popTicket q) = length xs"
    using settledD(3)[OF assms] by simp_all
  have "unat (pushTicket q - popTicket q) = length xs"
    using le len by (simp add: unat_sub word_le_nat_alt)
  moreover have "mpmc_size_now q = pushTicket q - popTicket q"
    by (simp add: mpmc_size_now_def quietLoads_def)
  ultimately show ?thesis
    by simp
qed

lemma mpmc_okD:
  assumes "mpmc_ok tb cur E n q"
  shows "settled tb cur E q (mpmc_items E q)" "unat (pushTicket q) < ticketRoom"
    "length (mpmc_items E q) \<le> qcap q"
  using assms settledD(4)[of tb cur E q "mpmc_items E q"] by (auto simp: mpmc_ok_def)

lemma mpmc_okI:
  assumes "settled tb cur E q xs" "unat (pushTicket q) + 6 * n < ticketRoom"
  shows "mpmc_ok tb cur E n q" "mpmc_items E q = xs"
  using mpmc_items_settled[OF assms(1)] assms by (simp_all add: mpmc_ok_def)

lemma bounded_write_room:
  assumes I: "mpmc_ok tb cur E (Suc n) q" and lt: "length (mpmc_items E q) < qcap q"
  shows "\<exists>m. bounded_write k E q x = Done (m, Inr ()) \<and> mpmc_ok tb cur E n m \<and>
           mpmc_items E m = mpmc_items E q @ [x] \<and> capacity m = capacity q"
proof -
  note S = mpmc_okD(1,2)[OF I]
  define c where "c = (case k of THROW \<Rightarrow> WriteIfNotFull x | BLOCK \<Rightarrow> BlockingWrite x)"
  have "list_call (qcap q) False (mpmc_items E q) c = Done (mpmc_items E q @ [x], Wrote True)"
    using lt by (simp add: c_def split: QueueBehaviorIfFull.split)
  from mpmc_call_done[OF S this] obtain m where m: "mpmc_call E q c = Done (Wrote True, m)"
      "settled tb cur E m (mpmc_items E q @ [x])" "capacity m = capacity q"
      "unat (pushTicket m) \<le> unat (pushTicket q) + 6"
    by blast
  have "unat (pushTicket m) + 6 * n < ticketRoom"
    using m(4) I by (simp add: mpmc_ok_def)
  then show ?thesis
    using mpmc_okI[OF m(2)] m(1,3) by (cases k) (auto simp: bounded_write_def c_def)
qed

lemma bounded_write_full:
  assumes I: "mpmc_ok tb cur E (Suc n) q" and full: "length (mpmc_items E q) = qcap q"
  shows "bounded_write BLOCK E q x = Blocks"
    and "\<exists>m. bounded_write THROW E q x = Done (m, Inl QueueFullException) \<and> mpmc_ok tb cur E n m \<and>
           mpmc_items E m = mpmc_items E q \<and> capacity m = capacity q"
proof -
  note S = mpmc_okD(1,2)[OF I]
  show "bounded_write BLOCK E q x = Blocks"
    using mpmc_call_blocks[OF S, of "BlockingWrite x"] full by (simp add: bounded_write_def)
  have "list_call (qcap q) False (mpmc_items E q) (WriteIfNotFull x) = Done (mpmc_items E q, Wrote False)"
    using full by simp
  from mpmc_call_done[OF S this] obtain m where m: "mpmc_call E q (WriteIfNotFull x) = Done (Wrote False, m)"
      "settled tb cur E m (mpmc_items E q)" "capacity m = capacity q"
      "unat (pushTicket m) \<le> unat (pushTicket q) + 6"
    by blast
  have "unat (pushTicket m) + 6 * n < ticketRoom"
    using m(4) I by (simp add: mpmc_ok_def)
  then show "\<exists>m. bounded_write THROW E q x = Done (m, Inl QueueFullException) \<and> mpmc_ok tb cur E n m \<and>
           mpmc_items E m = mpmc_items E q \<and> capacity m = capacity q"
    using mpmc_okI[OF m(2)] m(1,3) by (auto simp: bounded_write_def)
qed

lemma mpmc_read:
  assumes I: "mpmc_ok tb cur E n q"
  shows "\<exists>m. mpmc_call E q ReadIfNotEmpty = Done (Got (case mpmc_items E q of [] \<Rightarrow> None | x # xs \<Rightarrow> Some x), m) \<and>
           mpmc_ok tb cur E n m \<and> mpmc_items E m = tl (mpmc_items E q) \<and> capacity m = capacity q"
proof -
  note S = mpmc_okD(1,2)[OF I]
  have "list_call (qcap q) False (mpmc_items E q) ReadIfNotEmpty =
      Done (tl (mpmc_items E q), Got (case mpmc_items E q of [] \<Rightarrow> None | x # xs \<Rightarrow> Some x))"
    by (cases "mpmc_items E q") simp_all
  from mpmc_call_done[OF S this] obtain m where m:
      "mpmc_call E q ReadIfNotEmpty = Done (Got (case mpmc_items E q of [] \<Rightarrow> None | x # xs \<Rightarrow> Some x), m)"
      "settled tb cur E m (tl (mpmc_items E q))" "capacity m = capacity q" "pushTicket m = pushTicket q"
    by auto
  have "unat (pushTicket m) + 6 * n < ticketRoom"
    using m(4) I by (simp add: mpmc_ok_def)
  then show ?thesis
    using mpmc_okI[OF m(2)] m(1,3) by auto
qed

section \<open>LifoSemMPMCQueue\<close>

definition lsq_lanes :: "'ts mpmc_env \<Rightarrow> ('s, 'ts, 'a) LifoSemMPMCQueue \<Rightarrow> 'a list list" where
  "lsq_lanes E q = [mpmc_items E (lsq_queue q)]"

definition lsq_caps :: "('s, 'ts, 'a) LifoSemMPMCQueue \<Rightarrow> nat option list" where
  "lsq_caps q = [Some (qcap (lsq_queue q))]"

definition lsq_inv :: "nat \<Rightarrow> ('ts \<Rightarrow> u32) \<Rightarrow> 's sem_ops \<Rightarrow> ('s \<Rightarrow> nat) \<Rightarrow> 'ts mpmc_env \<Rightarrow> nat \<Rightarrow>
    ('s, 'ts, 'a) LifoSemMPMCQueue \<Rightarrow> bool" where
  "lsq_inv tb cur S cnt E n q \<longleftrightarrow> sem_contract S cnt \<and> mpmc_ok tb cur E n (lsq_queue q) \<and>
     length (mpmc_items E (lsq_queue q)) \<le> cnt (lsq_sem q)"

lemmas lsq_defs = lsq_inv_def lsq_lanes_def lsq_caps_def

lemma lsq_invD:
  assumes "lsq_inv tb cur S cnt E n q"
  shows "sem_contract S cnt" "mpmc_ok tb cur E n (lsq_queue q)"
    "length (mpmc_items E (lsq_queue q)) \<le> cnt (lsq_sem q)"
  using assms by (auto simp: lsq_inv_def)

lemma lsq_add_room:
  assumes "lsq_inv tb cur S cnt E (Suc n) q" "lane_fits (lsq_caps q) (lsq_lanes E q) 0"
  shows "\<exists>q' b. lsq_add k S E q x = Done (q', Inr b) \<and> lsq_inv tb cur S cnt E n q' \<and> lsq_caps q' = lsq_caps q \<and>
           lsq_lanes E q' = [mpmc_items E (lsq_queue q) @ [x]]"
proof -
  note I = lsq_invD[OF assms(1)]
  obtain m where m: "bounded_write k E (lsq_queue q) x = Done (m, Inr ())" "mpmc_ok tb cur E n m"
      "mpmc_items E m = mpmc_items E (lsq_queue q) @ [x]" "capacity m = capacity (lsq_queue q)"
    using bounded_write_room[OF I(2), of k x] assms(2) by (auto simp: lsq_defs lane_fits_def)
  obtain b s where p: "semPost S (lsq_sem q) = (b, s)"
    by fastforce
  from m p sem_contractD(2)[OF I(1) p] I(1,3) show ?thesis
    by (simp add: lsq_add_def lsq_defs)
qed

lemma lsq_add_full:
  assumes "lsq_inv tb cur S cnt E (Suc n) q" "\<not> lane_fits (lsq_caps q) (lsq_lanes E q) 0"
  shows "case k of
      THROW \<Rightarrow> \<exists>q'. lsq_add k S E q x = Done (q', Inl QueueFullException) \<and> lsq_inv tb cur S cnt E n q' \<and>
        lsq_caps q' = lsq_caps q \<and> lsq_lanes E q' = lsq_lanes E q
    | BLOCK \<Rightarrow> lsq_add k S E q x = Blocks"
proof -
  note I = lsq_invD[OF assms(1)]
  have full: "length (mpmc_items E (lsq_queue q)) = qcap (lsq_queue q)"
    using assms(2) mpmc_okD(3)[OF I(2)] by (simp add: lane_fits_def lsq_defs)
  show ?thesis
    using bounded_write_full[OF I(2) full, of x] I(1,3)
    by (cases k) (auto simp: lsq_add_def lsq_defs)
qed

text \<open>The loop returns the first element, or runs the semaphore down when there is none.\<close>

lemma lsq_take_loop_ok:
  assumes "lsq_inv tb cur S cnt E n q" "cnt (lsq_sem q) < k"
  shows "\<exists>q'. lsq_take_loop S E k q = Done (q', Inr (fst (lane_take (lsq_lanes E q)))) \<and> lsq_inv tb cur S cnt E n q' \<and>
           lsq_caps q' = lsq_caps q \<and> lsq_lanes E q' = snd (lane_take (lsq_lanes E q))"
  using assms
proof (induction k arbitrary: q)
  case (Suc k)
  note I = lsq_invD[OF Suc.prems(1)]
  obtain m where m: "mpmc_call E (lsq_queue q) ReadIfNotEmpty =
        Done (Got (case mpmc_items E (lsq_queue q) of [] \<Rightarrow> None | x # xs \<Rightarrow> Some x), m)" "mpmc_ok tb cur E n m"
      "mpmc_items E m = tl (mpmc_items E (lsq_queue q))" "capacity m = capacity (lsq_queue q)"
    using mpmc_read[OF I(2)] by blast
  show ?case
  proof (cases "mpmc_items E (lsq_queue q)")
    case Nil
    show ?thesis
    proof (cases "semTryWait S (lsq_sem q)")
      case None
      with Nil m I(1) show ?thesis
        by (simp add: lsq_defs)
    next
      case (Some s)
      have "lsq_inv tb cur S cnt E n \<lparr>lsq_sem = s, lsq_queue = m\<rparr>"
        using Nil m I(1) by (simp add: lsq_defs)
      from Suc.IH[OF this] Suc.prems(2) sem_contractD(4)[OF I(1) Some] m Nil Some show ?thesis
        by (simp add: lsq_lanes_def lsq_caps_def)
    qed
  next
    case (Cons x xs)
    with m I show ?thesis
      by (simp add: lsq_defs)
  qed
qed simp

lemma lsq_ops_simps:
  "bq_add (lsq_ops k S cnt E) = lsq_add k S E" "bq_addWithPriority (lsq_ops k S cnt E) q x p = lsq_add k S E q x"
  "bq_take (lsq_ops k S cnt E) = lsq_take S cnt E"
  "bq_try_take_for (lsq_ops k S cnt E) q = lsq_take_loop S E (cnt (lsq_sem q) + 1) q"
  "bq_size (lsq_ops k S cnt E) q = mpmc_size_now (lsq_queue q)"
  by (simp_all add: lsq_ops_def default_addWithPriority_def lsq_try_take_for_def)

interpretation lsq: lane_queue "lsq_ops k S cnt E" "lsq_inv tb cur S cnt E" "lsq_lanes E" lsq_caps k "\<lambda>n p. 0"
  for k S cnt E tb cur
proof (unfold_locales, unfold lsq_ops_simps)
  fix n q
  assume I: "lsq_inv tb cur S cnt E n q"
  show take: "\<exists>q'. lsq_take_loop S E (cnt (lsq_sem q) + 1) q = Done (q', Inr (fst (lane_take (lsq_lanes E q)))) \<and>
      lsq_inv tb cur S cnt E n q' \<and> lsq_caps q' = lsq_caps q \<and> lsq_lanes E q' = snd (lane_take (lsq_lanes E q))"
    by (rule lsq_take_loop_ok[OF I]) simp
  show "lsq_take S cnt E q = (case lsq_take_loop S E (cnt (lsq_sem q) + 1) q of
      Done (q', Inr (Some x)) \<Rightarrow> Done (q', Inr x) | _ \<Rightarrow> Blocks)"
    using take by (auto simp: lsq_take_def lsq_try_take_for_def split: option.splits)
  show "unat (mpmc_size_now (lsq_queue q)) = length (concat (lsq_lanes E q))"
    using mpmc_size_settled[OF mpmc_okD(1)[OF lsq_invD(2)[OF I]]] by (simp add: lsq_lanes_def)
next
  fix n q p x i
  assume I: "lsq_inv tb cur S cnt E (Suc n) q"
  show "lsq_inv tb cur S cnt E n q"
    using I mpmc_ok_weaken[of tb cur E n "lsq_queue q"] by (simp add: lsq_inv_def)
  show "\<exists>q' b. lsq_add k S E q x = Done (q', Inr b) \<and> lsq_inv tb cur S cnt E n q' \<and> lsq_caps q' = lsq_caps q \<and>
      lsq_lanes E q' = (lsq_lanes E q)[i := lsq_lanes E q ! i @ [x]]"
    if "i = 0" "lane_fits (lsq_caps q) (lsq_lanes E q) i"
    using lsq_add_room[OF I, of k x] that by (simp add: lsq_lanes_def)
qed (rule refl, simp add: lsq_lanes_def, rule lsq_add_full)

section \<open>PriorityLifoSemMPMCQueue\<close>

text \<open>The queues are served from the last to the first.\<close>

definition plsq_lanes :: "'ts mpmc_env \<Rightarrow> ('s, 'ts, 'a) PriorityLifoSemMPMCQueue \<Rightarrow> 'a list list" where
  "plsq_lanes E q = rev (map (mpmc_items E) (plsq_queues q))"

definition plsq_caps :: "('s, 'ts, 'a) PriorityLifoSemMPMCQueue \<Rightarrow> nat option list" where
  "plsq_caps q = rev (map (\<lambda>m. Some (qcap m)) (plsq_queues q))"

definition plsq_inv :: "nat \<Rightarrow> ('ts \<Rightarrow> u32) \<Rightarrow> 's sem_ops \<Rightarrow> ('s \<Rightarrow> nat) \<Rightarrow> 'ts mpmc_env \<Rightarrow> nat \<Rightarrow>
    ('s, 'ts, 'a) PriorityLifoSemMPMCQueue \<Rightarrow> bool" where
  "plsq_inv tb cur S cnt E n q \<longleftrightarrow> sem_contract S cnt \<and> plsq_queues q \<noteq> [] \<and> length (plsq_queues q) \<le> 255 \<and>
     list_all (mpmc_ok tb cur E n) (plsq_queues q) \<and>
     length (concat (plsq_lanes E q)) \<le> cnt (plsq_sem q) \<and> length (concat (plsq_lanes E q)) + n < 2 ^ 64"

lemma plsq_invD:
  assumes "plsq_inv tb cur S cnt E n q"
  shows "sem_contract S cnt" "plsq_queues q \<noteq> []" "length (plsq_queues q) \<le> 255"
    "list_all (mpmc_ok tb cur E n) (plsq_queues q)" "length (concat (plsq_lanes E q)) \<le> cnt (plsq_sem q)"
    "length (concat (plsq_lanes E q)) + n < 2 ^ 64"
  using assms by (auto simp: plsq_inv_def)

lemma plsq_index_range:
  assumes "1 \<le> n"
  shows "0 \<le> plsq_index n p" "plsq_index n p < n"
  using assms by (auto simp: plsq_index_def Let_def)

lemma plsq_index_lane: "1 \<le> n \<Longrightarrow> priority_lane n p = n - nat (plsq_index (int n) p) - 1"
  by (auto simp: plsq_index_def priority_lane_def Let_def)

lemma list_all_update:
  "list_all P xs \<Longrightarrow> P x \<Longrightarrow> list_all P (xs[i := x])"
  by (induction xs arbitrary: i) (auto split: nat.split)

text \<open>The queue an element goes to, as an index into the queues and into the lanes.\<close>

lemma plsq_lane:
  fixes q :: "('s, 'ts, 'a) PriorityLifoSemMPMCQueue" and p :: int
  assumes "plsq_inv tb cur S cnt E n q"
  defines "j \<equiv> nat (plsq_index (int (length (plsq_queues q))) p)"
  shows "j < length (plsq_queues q)" "priority_lane (length (plsq_lanes E q)) p < length (plsq_lanes E q)"
    and "mpmc_ok tb cur E n (plsq_queues q ! j)"
    and "plsq_lanes E q ! priority_lane (length (plsq_lanes E q)) p = mpmc_items E (plsq_queues q ! j)"
    and "plsq_caps q ! priority_lane (length (plsq_lanes E q)) p = Some (qcap (plsq_queues q ! j))"
    and "rev (map (mpmc_items E) ((plsq_queues q)[j := m])) =
           (plsq_lanes E q)[priority_lane (length (plsq_lanes E q)) p := mpmc_items E m]"
proof -
  have one: "1 \<le> int (length (plsq_queues q))"
    using plsq_invD(2)[OF assms(1)] by (cases "plsq_queues q") auto
  show lt: "j < length (plsq_queues q)"
    using plsq_index_range[OF one, of p] by (simp add: j_def nat_less_iff)
  have l: "priority_lane (length (plsq_lanes E q)) p = length (plsq_queues q) - j - 1"
    using one plsq_index_lane[of "length (plsq_queues q)" p] by (simp add: plsq_lanes_def j_def)
  show "mpmc_ok tb cur E n (plsq_queues q ! j)"
    using plsq_invD(4)[OF assms(1)] lt by (simp add: list_all_length)
  show "priority_lane (length (plsq_lanes E q)) p < length (plsq_lanes E q)"
    "plsq_lanes E q ! priority_lane (length (plsq_lanes E q)) p = mpmc_items E (plsq_queues q ! j)"
    "plsq_caps q ! priority_lane (length (plsq_lanes E q)) p = Some (qcap (plsq_queues q ! j))"
    "rev (map (mpmc_items E) ((plsq_queues q)[j := m])) =
           (plsq_lanes E q)[priority_lane (length (plsq_lanes E q)) p := mpmc_items E m]"
    unfolding l using lt by (simp_all add: plsq_lanes_def plsq_caps_def rev_nth rev_update map_update)
qed

lemma plsq_addWithPriority_eq:
  fixes q :: "('s, 'ts, 'a) PriorityLifoSemMPMCQueue" and p :: int
  assumes "plsq_inv tb cur S cnt E n q"
  defines "j \<equiv> nat (plsq_index (int (length (plsq_queues q))) p)"
  shows "plsq_addWithPriority k S E q x p =
       bind_outcome (bounded_write k E (plsq_queues q ! j) x) (\<lambda>(m, r). case r of
             Inl e \<Rightarrow> Done (q\<lparr>plsq_queues := (plsq_queues q)[j := m]\<rparr>, Inl e)
           | Inr _ \<Rightarrow> (let (reused, s) = semPost S (plsq_sem q)
                       in Done (\<lparr>plsq_sem = s, plsq_queues = (plsq_queues q)[j := m]\<rparr>, Inr reused)))"
proof -
  have num: "int (unat (plsq_getNumPriorities q)) = int (length (plsq_queues q))"
    using plsq_invD(3)[OF assms(1)] by (simp add: plsq_getNumPriorities_def unat_of_nat)
  show ?thesis
    unfolding plsq_addWithPriority_def num j_def Let_def using plsq_lane(1)[OF assms(1), of p] by simp
qed

text \<open>Replacing the written queue by one of the same capacity.\<close>

lemma plsq_inv_write:
  fixes q :: "('s, 'ts, 'a) PriorityLifoSemMPMCQueue" and p :: int
  assumes "plsq_inv tb cur S cnt E (Suc n) q"
  defines "j \<equiv> nat (plsq_index (int (length (plsq_queues q))) p)"
  assumes m: "mpmc_ok tb cur E n m" "capacity m = capacity (plsq_queues q ! j)"
    and len: "length (concat (rev (map (mpmc_items E) ((plsq_queues q)[j := m])))) \<le> length (concat (plsq_lanes E q)) + d"
    and d: "d \<le> 1" "cnt s = cnt (plsq_sem q) + d"
  shows "plsq_inv tb cur S cnt E n \<lparr>plsq_sem = s, plsq_queues = (plsq_queues q)[j := m]\<rparr>"
    and "plsq_caps \<lparr>plsq_sem = s, plsq_queues = (plsq_queues q)[j := m]\<rparr> = plsq_caps q"
proof -
  note I = plsq_invD[OF assms(1)]
  have "list_all (mpmc_ok tb cur E n) ((plsq_queues q)[j := m])"
    by (rule list_all_update) (rule list.pred_mono_strong[OF I(4)], erule mpmc_ok_weaken, rule m(1))
  then show "plsq_inv tb cur S cnt E n \<lparr>plsq_sem = s, plsq_queues = (plsq_queues q)[j := m]\<rparr>"
    using I len d unfolding plsq_inv_def plsq_lanes_def by (simp del: length_concat length_concat_rev)
  show "plsq_caps \<lparr>plsq_sem = s, plsq_queues = (plsq_queues q)[j := m]\<rparr> = plsq_caps q"
    using m(2) plsq_lane(1)[OF assms(1), of p] by (simp add: plsq_caps_def map_update j_def list_update_same_conv)
qed

lemma plsq_add_room:
  assumes I: "plsq_inv tb cur S cnt E (Suc n) q" and i: "i = priority_lane (length (plsq_lanes E q)) p"
    and room: "lane_fits (plsq_caps q) (plsq_lanes E q) i"
  shows "\<exists>q' b. plsq_addWithPriority k S E q x p = Done (q', Inr b) \<and> plsq_inv tb cur S cnt E n q' \<and>
           plsq_caps q' = plsq_caps q \<and> plsq_lanes E q' = (plsq_lanes E q)[i := plsq_lanes E q ! i @ [x]]"
proof -
  let ?j = "nat (plsq_index (int (length (plsq_queues q))) p)"
  note L = plsq_lane[OF I, of p, folded i]
  have "length (mpmc_items E (plsq_queues q ! ?j)) < qcap (plsq_queues q ! ?j)"
    using room L(4,5) by (simp add: lane_fits_def)
  then obtain m where m: "bounded_write k E (plsq_queues q ! ?j) x = Done (m, Inr ())" "mpmc_ok tb cur E n m"
      "mpmc_items E m = mpmc_items E (plsq_queues q ! ?j) @ [x]" "capacity m = capacity (plsq_queues q ! ?j)"
    using bounded_write_room[OF L(3), of k x] by blast
  obtain b s where post: "semPost S (plsq_sem q) = (b, s)"
    by fastforce
  have lanes: "rev (map (mpmc_items E) ((plsq_queues q)[?j := m])) = (plsq_lanes E q)[i := plsq_lanes E q ! i @ [x]]"
    using L(4,6) m(3) by simp
  have len: "length (concat (rev (map (mpmc_items E) ((plsq_queues q)[?j := m])))) \<le> length (concat (plsq_lanes E q)) + 1"
    using arg_cong[OF mset_concat_lane[OF L(2), of x], of size] unfolding lanes by (simp del: length_concat)
  from plsq_inv_write[OF I m(2,4) len _ sem_contractD(2)[OF plsq_invD(1)[OF I] post]] m(1) post lanes show ?thesis
    by (simp add: plsq_addWithPriority_eq[OF I] plsq_lanes_def)
qed

lemma plsq_add_full:
  assumes I: "plsq_inv tb cur S cnt E (Suc n) q"
    and full: "\<not> lane_fits (plsq_caps q) (plsq_lanes E q) (priority_lane (length (plsq_lanes E q)) p)"
  shows "case k of
      THROW \<Rightarrow> \<exists>q'. plsq_addWithPriority k S E q x p = Done (q', Inl QueueFullException) \<and> plsq_inv tb cur S cnt E n q' \<and>
        plsq_caps q' = plsq_caps q \<and> plsq_lanes E q' = plsq_lanes E q
    | BLOCK \<Rightarrow> plsq_addWithPriority k S E q x p = Blocks"
proof -
  let ?j = "nat (plsq_index (int (length (plsq_queues q))) p)"
  note L = plsq_lane[OF I, of p]
  have full': "length (mpmc_items E (plsq_queues q ! ?j)) = qcap (plsq_queues q ! ?j)"
    using full L(4,5) mpmc_okD(3)[OF L(3)] by (simp add: lane_fits_def)
  note w = bounded_write_full[OF L(3) full', of x]
  obtain m where m: "bounded_write THROW E (plsq_queues q ! ?j) x = Done (m, Inl QueueFullException)"
      "mpmc_ok tb cur E n m" "mpmc_items E m = mpmc_items E (plsq_queues q ! ?j)" "capacity m = capacity (plsq_queues q ! ?j)"
    using w(2) by blast
  have lanes: "rev (map (mpmc_items E) ((plsq_queues q)[?j := m])) = plsq_lanes E q"
    using L(2,4,6) m(3) by (metis list_update_id)
  have q: "q\<lparr>plsq_queues := (plsq_queues q)[?j := m]\<rparr> = \<lparr>plsq_sem = plsq_sem q, plsq_queues = (plsq_queues q)[?j := m]\<rparr>"
    by simp
  from plsq_inv_write[OF I m(2,4), of 0 "plsq_sem q"] lanes w(1) m(1) show ?thesis
    by (cases k) (simp_all add: plsq_addWithPriority_eq[OF I] q plsq_lanes_def del: length_concat length_concat_rev)
qed

text \<open>\<open>nonBlockingTake\<close> from the queues below \<open>k\<close>.\<close>

lemma nonBlockingTake_spec:
  assumes "list_all (mpmc_ok tb cur E n) qs" "k \<le> length qs"
  shows "\<exists>qs'. nonBlockingTake E k qs = Done (qs', fst (lane_take (rev (map (mpmc_items E) (take k qs))))) \<and>
           list_all (mpmc_ok tb cur E n) qs' \<and> map capacity qs' = map capacity qs \<and> drop k qs' = drop k qs \<and>
           rev (map (mpmc_items E) (take k qs')) = snd (lane_take (rev (map (mpmc_items E) (take k qs))))"
  using assms
proof (induction k arbitrary: qs)
  case (Suc k)
  have lt: "k < length qs"
    using Suc.prems(2) by simp
  let ?its = "\<lambda>qs. rev (map (mpmc_items E) (take k qs))"
  have "mpmc_ok tb cur E n (qs ! k)"
    using Suc.prems(1) lt by (simp add: list_all_length)
  from mpmc_read[OF this] obtain m where m:
      "mpmc_call E (qs ! k) ReadIfNotEmpty = Done (Got (case mpmc_items E (qs ! k) of [] \<Rightarrow> None | x # xs \<Rightarrow> Some x), m)"
      "mpmc_ok tb cur E n m" "mpmc_items E m = tl (mpmc_items E (qs ! k))" "capacity m = capacity (qs ! k)"
    by blast
  have split: "rev (map (mpmc_items E) (take (Suc k) qs')) = mpmc_items E (qs' ! k) # ?its qs'"
    if "length qs' = length qs" for qs'
    using that lt by (simp add: take_Suc_conv_app_nth)
  have all: "list_all (mpmc_ok tb cur E n) (qs[k := m])"
    by (rule list_all_update[OF Suc.prems(1) m(2)])
  have caps: "map capacity (qs[k := m]) = map capacity qs"
    using m(4) lt by (simp add: map_update list_update_same_conv)
  show ?case
  proof (cases "mpmc_items E (qs ! k)")
    case Nil
    obtain qs' where r: "nonBlockingTake E k (qs[k := m]) = Done (qs', fst (lane_take (?its qs)))"
        "list_all (mpmc_ok tb cur E n) qs'" "map capacity qs' = map capacity qs" "drop k qs' = drop k (qs[k := m])"
        "?its qs' = snd (lane_take (?its qs))"
      using Suc.IH[OF all] lt caps by auto
    have len: "length qs' = length qs"
      using arg_cong[OF r(3), of length] by simp
    have "qs' ! k = m" "drop (Suc k) qs' = drop (Suc k) qs"
      using len lt arg_cong[OF r(4), of hd] arg_cong[OF r(4), of tl]
      by (simp_all add: hd_drop_conv_nth tl_drop flip: drop_Suc)
    with r Nil m split[OF len] split[of qs] show ?thesis
      by (intro exI[of _ qs']) (simp add: case_prod_beta)
  next
    case (Cons x xs)
    then show ?thesis
      using m all caps split[of qs] split[of "qs[k := m]"] lt by (intro exI[of _ "qs[k := m]"]) simp
  qed
qed simp

lemma plsq_nonBlockingTake:
  assumes "plsq_inv tb cur S cnt E n q"
  shows "\<exists>qs'. nonBlockingTake E (length (plsq_queues q)) (plsq_queues q) = Done (qs', fst (lane_take (plsq_lanes E q))) \<and>
           list_all (mpmc_ok tb cur E n) qs' \<and> map capacity qs' = map capacity (plsq_queues q) \<and>
           rev (map (mpmc_items E) qs') = snd (lane_take (plsq_lanes E q))"
proof -
  obtain qs' where r: "nonBlockingTake E (length (plsq_queues q)) (plsq_queues q) = Done (qs', fst (lane_take (plsq_lanes E q)))"
      "list_all (mpmc_ok tb cur E n) qs'" "map capacity qs' = map capacity (plsq_queues q)"
      "rev (map (mpmc_items E) (take (length (plsq_queues q)) qs')) = snd (lane_take (plsq_lanes E q))"
    using nonBlockingTake_spec[OF plsq_invD(4)[OF assms], of "length (plsq_queues q)"] by (auto simp: plsq_lanes_def)
  moreover have "length qs' = length (plsq_queues q)"
    using arg_cong[OF r(3), of length] by simp
  ultimately show ?thesis
    by (intro exI[of _ qs']) simp
qed

text \<open>The state after the queues have been scanned.\<close>

lemma plsq_inv_scan:
  assumes I: "plsq_inv tb cur S cnt E n q" and qs: "list_all (mpmc_ok tb cur E n) qs'"
      "map capacity qs' = map capacity (plsq_queues q)" "rev (map (mpmc_items E) qs') = snd (lane_take (plsq_lanes E q))"
    and s: "cnt s \<ge> length (concat (snd (lane_take (plsq_lanes E q))))"
  shows "plsq_inv tb cur S cnt E n \<lparr>plsq_sem = s, plsq_queues = qs'\<rparr>"
    and "plsq_caps \<lparr>plsq_sem = s, plsq_queues = qs'\<rparr> = plsq_caps q"
    and "plsq_lanes E \<lparr>plsq_sem = s, plsq_queues = qs'\<rparr> = snd (lane_take (plsq_lanes E q))"
proof -
  note I' = plsq_invD[OF I]
  have len: "length qs' = length (plsq_queues q)"
    using arg_cong[OF qs(2), of length] by simp
  have le: "length (concat (snd (lane_take (plsq_lanes E q)))) \<le> length (concat (plsq_lanes E q))"
    by (simp add: lane_take_concat(2) del: length_concat)
  show lanes: "plsq_lanes E \<lparr>plsq_sem = s, plsq_queues = qs'\<rparr> = snd (lane_take (plsq_lanes E q))"
    using qs(3) by (simp add: plsq_lanes_def)
  show "plsq_caps \<lparr>plsq_sem = s, plsq_queues = qs'\<rparr> = plsq_caps q"
    using arg_cong[OF qs(2), of "map (Some o unat)"] by (simp add: plsq_caps_def comp_def)
  have "qs' \<noteq> []"
    using len I'(2) by auto
  with len le s qs(1) I' show "plsq_inv tb cur S cnt E n \<lparr>plsq_sem = s, plsq_queues = qs'\<rparr>"
    unfolding plsq_inv_def lanes by (simp del: length_concat)
qed

lemma plsq_take_loop_ok:
  assumes "plsq_inv tb cur S cnt E n q" "cnt (plsq_sem q) < k"
  shows "\<exists>q'. plsq_take_loop S E k q = Done (q', Inr (fst (lane_take (plsq_lanes E q)))) \<and> plsq_inv tb cur S cnt E n q' \<and>
           plsq_caps q' = plsq_caps q \<and> plsq_lanes E q' = snd (lane_take (plsq_lanes E q))"
  using assms
proof (induction k arbitrary: q)
  case (Suc k)
  note I = plsq_invD[OF Suc.prems(1)]
  obtain qs' where r: "nonBlockingTake E (length (plsq_queues q)) (plsq_queues q) = Done (qs', fst (lane_take (plsq_lanes E q)))"
      "list_all (mpmc_ok tb cur E n) qs'" "map capacity qs' = map capacity (plsq_queues q)"
      "rev (map (mpmc_items E) qs') = snd (lane_take (plsq_lanes E q))"
    using plsq_nonBlockingTake[OF Suc.prems(1)] by blast
  note scan = plsq_inv_scan[OF Suc.prems(1) r(2-4)]
  have le: "length (concat (snd (lane_take (plsq_lanes E q)))) \<le> cnt (plsq_sem q)"
    using I(5) by (simp add: lane_take_concat(2) del: length_concat)
  have q: "q\<lparr>plsq_queues := qs'\<rparr> = \<lparr>plsq_sem = plsq_sem q, plsq_queues = qs'\<rparr>"
    by simp
  show ?case
  proof (cases "fst (lane_take (plsq_lanes E q))")
    case (Some x)
    then show ?thesis
      using r(1) scan[OF le] by (simp add: q)
  next
    case None
    then have e: "concat (plsq_lanes E q) = []"
      using lane_take_concat(1)[of "plsq_lanes E q"] by (cases "concat (plsq_lanes E q)") (auto simp del: concat_eq_Nil_conv)
    show ?thesis
    proof (cases "semTryWait S (plsq_sem q)")
      case None
      then show ?thesis
        using r(1) scan[OF le] lane_take_empty[OF e] by (simp add: q)
    next
      case (Some s)
      have "length (concat (snd (lane_take (plsq_lanes E q)))) \<le> cnt s"
        using lane_take_empty[OF e] e by (simp del: concat_eq_Nil_conv length_concat)
      note scan = scan[OF this]
      show ?thesis
        using Suc.IH[OF scan(1)] Suc.prems(2) sem_contractD(4)[OF I(1) Some] r(1) Some scan(2,3) lane_take_empty[OF e]
        by simp
    qed
  qed
qed simp

lemma plsq_size_items:
  assumes "list_all (mpmc_ok tb cur E n) qs" "unat a + length (concat (map (mpmc_items E) qs)) < 2 ^ 64"
  shows "unat (foldl (\<lambda>size m. size + mpmc_size_now m) a qs) = unat a + length (concat (map (mpmc_items E) qs))"
  using assms
proof (induction qs arbitrary: a)
  case (Cons q qs)
  have "unat (mpmc_size_now q) = length (mpmc_items E q)"
    using mpmc_size_settled[OF mpmc_okD(1)[of tb cur E n q]] Cons.prems(1) by simp
  then have "unat (a + mpmc_size_now q) = unat a + length (mpmc_items E q)"
    using Cons.prems(2) by (subst unat_add_lem[THEN iffD1]) (simp_all del: length_concat length_concat_rev)
  with Cons show ?case
    by (simp del: length_concat length_concat_rev)
qed simp

lemma plsq_size_law:
  assumes I: "plsq_inv tb cur S cnt E n q"
  shows "unat (plsq_size q) = length (concat (plsq_lanes E q))"
proof -
  have len: "length (concat (plsq_lanes E q)) = length (concat (map (mpmc_items E) (plsq_queues q)))"
    by (simp add: plsq_lanes_def length_concat_rev)
  show ?thesis
    using plsq_size_items[OF plsq_invD(4)[OF I], of 0] plsq_invD(6)[OF I] unfolding len plsq_size_def
    by (simp del: length_concat)
qed

lemma plsq_ops_simps:
  "bq_add (plsq_ops k S cnt E) q x = plsq_addWithPriority k S E q x MID_PRI"
  "bq_addWithPriority (plsq_ops k S cnt E) = plsq_addWithPriority k S E" "bq_take (plsq_ops k S cnt E) = plsq_take S cnt E"
  "bq_try_take_for (plsq_ops k S cnt E) q = plsq_take_loop S E (cnt (plsq_sem q) + 1) q" "bq_size (plsq_ops k S cnt E) = plsq_size"
  by (simp_all add: plsq_ops_def plsq_add_def plsq_try_take_for_def)

interpretation plsq: lane_queue "plsq_ops k S cnt E" "plsq_inv tb cur S cnt E" "plsq_lanes E" plsq_caps k priority_lane
  for k S cnt E tb cur
proof (unfold_locales, unfold plsq_ops_simps)
  fix n q p
  assume I: "plsq_inv tb cur S cnt E n q"
  show "priority_lane (length (plsq_lanes E q)) p < length (plsq_lanes E q)"
    by (rule plsq_lane(2)[OF I])
  show take: "\<exists>q'. plsq_take_loop S E (cnt (plsq_sem q) + 1) q = Done (q', Inr (fst (lane_take (plsq_lanes E q)))) \<and>
      plsq_inv tb cur S cnt E n q' \<and> plsq_caps q' = plsq_caps q \<and> plsq_lanes E q' = snd (lane_take (plsq_lanes E q))"
    by (rule plsq_take_loop_ok[OF I]) simp
  show "plsq_take S cnt E q = (case plsq_take_loop S E (cnt (plsq_sem q) + 1) q of
      Done (q', Inr (Some x)) \<Rightarrow> Done (q', Inr x) | _ \<Rightarrow> Blocks)"
    using take by (auto simp: plsq_take_def plsq_try_take_for_def split: option.splits)
  show "unat (plsq_size q) = length (concat (plsq_lanes E q))"
    by (rule plsq_size_law[OF I])
next
  fix n q p x
  assume I: "plsq_inv tb cur S cnt E (Suc n) q"
  have "list_all (mpmc_ok tb cur E n) (plsq_queues q)"
    using plsq_invD(4)[OF I] mpmc_ok_weaken by (rule list.pred_mono_strong)
  with I show "plsq_inv tb cur S cnt E n q"
    by (simp add: plsq_inv_def)
qed (erule plsq_add_room plsq_add_full, assumption+ | rule refl)+

section \<open>Construction\<close>

lemma mpmc_ok_new:
  assumes "newMPMCQueue E cap = Inr q" "unat cap + 2 * unat (slotPadding E) < 2 ^ 63"
    and "turn_contract tb (seqOps E) cur" "6 * n < ticketRoom"
  shows "mpmc_ok tb cur E n q" "mpmc_items E q = []" "qcap q = unat cap"
  using mpmc_okI[OF settled_new[OF assms(1-3)], of n] newMPMCQueue_wf(2,3)[OF assms(1,2)] assms(4) by auto

lemma map_sum_eq_Inr: "map_sum f g z = Inr y \<longleftrightarrow> (\<exists>x. z = Inr x \<and> g x = y)"
  by (cases z) auto

text \<open>The loop of the constructor ends with one queue per priority when the counter can reach the
  bound, and otherwise never ends.\<close>

lemma plsq_ctor_loop_ends:
  assumes "newMPMCQueue E cap = Inr q" "unat np < 128" "i \<le> unat np"
    and "plsq_ctor_loop E np cap n (int i) (replicate i q) = r"
  shows "r = (if unat np \<le> i + n then Some (Inr (replicate (unat np) q)) else None)"
  using assms(3,4)
proof (induction n arbitrary: i)
  case 0
  then show ?case
    by (auto simp: plsq_ctor_loop.simps simp del: of_nat_unat)
next
  case (Suc n)
  show ?case
  proof (cases "i = unat np")
    case True
    with Suc.prems show ?thesis
      by (auto simp: plsq_ctor_loop.simps simp del: of_nat_unat)
  next
    case False
    have i: "int8 (int i + 1) = int (Suc i)" "replicate i q @ [q] = replicate (Suc i) q"
      using Suc.prems(1) assms(2) False by (simp_all add: int8_id replicate_append_same)
    have "plsq_ctor_loop E np cap (Suc n) (int i) (replicate i q) =
        plsq_ctor_loop E np cap n (int (Suc i)) (replicate (Suc i) q)"
      using Suc.prems(1) False assms(1) unfolding i(1)[symmetric] i(2)[symmetric]
      by (subst plsq_ctor_loop.simps) (simp del: of_nat_unat)
    with Suc.IH[of "Suc i"] Suc.prems False show ?thesis
      by simp
  qed
qed

lemma plsq_ctor_loop_forever:
  fixes q :: "('ts, 'a) MPMCQueue" and queues :: "('ts, 'a) MPMCQueue list"
  assumes "newMPMCQueue E cap = Inr q" "128 \<le> unat np" "- 128 \<le> i" "i \<le> 127"
  shows "plsq_ctor_loop E np cap n i queues = None"
  using assms(3,4)
proof (induction n arbitrary: i queues)
  case 0
  then show ?case
    using assms(2) by (simp add: plsq_ctor_loop.simps del: of_nat_unat)
next
  case (Suc n)
  have "- 128 \<le> int8 (i + 1)" "int8 (i + 1) \<le> 127"
    using pos_mod_bound[of 256 "i + 1 + 128"] by (simp_all add: int8_def)
  with Suc assms(1,2) show ?case
    by (subst plsq_ctor_loop.simps) (simp del: of_nat_unat)
qed

lemma plsq_new:
  fixes q :: "('s, 'ts, 'a) PriorityLifoSemMPMCQueue"
  assumes "newPriorityLifoSemMPMCQueue S E n numPriorities cap = Some (Inr q)"
    and "unat cap + 2 * unat (slotPadding E) < 2 ^ 63"
    and "turn_contract tb (seqOps E) cur" "sem_contract S cnt" "6 * N < (2::nat) ^ 58"
  shows "plsq_inv tb cur S cnt E N q" "plsq_lanes E q = replicate (unat numPriorities) []"
    "plsq_caps q = replicate (unat numPriorities) (Some (unat cap))"
proof -
  have np: "0 < numPriorities" and loop: "plsq_ctor_loop E numPriorities cap n 0 [] = Some (Inr (plsq_queues q))"
    and sem: "plsq_sem q = semNew S"
    using assms(1) by (auto simp: newPriorityLifoSemMPMCQueue_def map_sum_eq_Inr split: if_splits)
  have pos: "0 < int (unat numPriorities)"
    using np by (simp add: word_less_nat_alt del: of_nat_unat)
  obtain m :: "('ts, 'a) MPMCQueue" where m: "newMPMCQueue E cap = Inr m"
    using loop pos
    by (cases "newMPMCQueue E cap :: queue_error + ('ts, 'a) MPMCQueue"; cases n)
      (simp_all add: plsq_ctor_loop.simps del: of_nat_unat)
  have lt: "unat numPriorities < 128"
    using plsq_ctor_loop_forever[OF m, of numPriorities 0 n "[]"] loop by (cases "unat numPriorities < 128") auto
  have qs: "plsq_queues q = replicate (unat numPriorities) m"
    using plsq_ctor_loop_ends[OF m lt, of 0 n] loop by (auto split: if_splits)
  note ok = mpmc_ok_new[OF m assms(2,3), of N]
  show lanes: "plsq_lanes E q = replicate (unat numPriorities) []"
    "plsq_caps q = replicate (unat numPriorities) (Some (unat cap))"
    using ok(2,3) assms(5) by (simp_all add: qs plsq_lanes_def plsq_caps_def ticketRoom_def)
  show "plsq_inv tb cur S cnt E N q"
    using ok(1) assms(4,5) lt np qs sem sem_contractD(1)[OF assms(4)] lanes(1)
    by (simp add: plsq_inv_def list_all_length ticketRoom_def word_less_nat_alt)
qed

lemma plsq_ctor_returns:
  fixes S :: "'s sem_ops" and E :: "'ts mpmc_env"
  assumes "0 < numPriorities" "max_capacity \<noteq> 0"
  shows "(\<exists>n. newPriorityLifoSemMPMCQueue S E n numPriorities max_capacity \<noteq>
            (None :: (ctor_error + ('s, 'ts, 'a) PriorityLifoSemMPMCQueue) option)) \<longleftrightarrow> unat numPriorities < 128"
proof -
  obtain q :: "('ts, 'a) MPMCQueue" where q: "newMPMCQueue E max_capacity = Inr q"
    using assms(2) by (simp add: newMPMCQueue_def)
  show ?thesis
  proof (cases "unat numPriorities < 128")
    case True
    from plsq_ctor_loop_ends[OF q True, of 0 "unat numPriorities"]
    have "newPriorityLifoSemMPMCQueue S E (unat numPriorities) numPriorities max_capacity \<noteq>
        (None :: (ctor_error + ('s, 'ts, 'a) PriorityLifoSemMPMCQueue) option)"
      using assms(1) by (simp add: newPriorityLifoSemMPMCQueue_def)
    with True show ?thesis
      by blast
  next
    case False
    then show ?thesis
      using plsq_ctor_loop_forever[OF q, of numPriorities 0] assms(1) by (simp add: newPriorityLifoSemMPMCQueue_def)
  qed
qed

section \<open>Properties\<close>

text \<open>C17. \<open>LifoSemMPMCQueue\<close> of any capacity is a bounded FIFO queue: every sequence of calls of its
  operations by one thread at a time gets the replies of one lane with that capacity. On a full queue
  \<open>add\<close> throws \<open>QueueFullException\<close> or blocks, as \<open>kBehavior\<close> says, and leaves the queue as it was;
  \<open>take\<close> blocks and \<open>try_take_for\<close> gives up exactly on an empty queue. The number of calls stays far
  below the point where tickets times the stride wrap.\<close>

theorem lifoSemMPMCQueue_refines_bounded_fifo:
  assumes "newLifoSemMPMCQueue S E cap = Inr q" "unat cap + 2 * unat (slotPadding E) < 2 ^ 63"
    and "turn_contract tb (seqOps E) cur" "sem_contract S cnt" "6 * length cs < 2 ^ 58"
  shows "bq_run (lsq_ops k S cnt E) q cs = lane_run k (\<lambda>n p. 0) [Some (unat cap)] [[]] cs"
proof -
  obtain m where m: "newMPMCQueue E cap = Inr m" "q = \<lparr>lsq_sem = semNew S, lsq_queue = m\<rparr>"
    using assms(1) by (auto simp: newLifoSemMPMCQueue_def split: sum.splits)
  note ok = mpmc_ok_new[OF m(1) assms(2,3), of "length cs"]
  have "lsq_inv tb cur S cnt E (length cs) q" "lsq_lanes E q = [[]]" "lsq_caps q = [Some (unat cap)]"
    using ok m(2) assms(4,5) by (simp_all add: lsq_defs ticketRoom_def)
  then show ?thesis
    using lsq.run_refines[of tb cur S cnt E cs q k] by simp
qed

text \<open>Witness of C17.\<close>

theorem lifoSemMPMCQueue_refines_bounded_fifo_witness:
  "case newLifoSemMPMCQueue counter_sem counting_env 2 of
     Inl e \<Rightarrow> False
   | Inr q \<Rightarrow> bq_run (lsq_ops THROW counter_sem id counting_env) q
       [AddP (1::int) 0, AddP 2 0, AddP 3 0, Size, Take, TryTake, TryTake, AddP 4 0, Take] =
     Done [Added, Added, Full, SizeIs 2, Took (Some 1), Took (Some 2), Took None, Added, Took (Some 4)]"
proof -
  obtain q :: "(nat, u32, int) LifoSemMPMCQueue" where q: "newLifoSemMPMCQueue counter_sem counting_env 2 = Inr q"
    by (simp add: newLifoSemMPMCQueue_def newMPMCQueue_def)
  have "bq_run (lsq_ops THROW counter_sem id counting_env) q
       [AddP (1::int) 0, AddP 2 0, AddP 3 0, Size, Take, TryTake, TryTake, AddP 4 0, Take] =
     lane_run THROW (\<lambda>n p. 0) [Some (unat (2::u64))] [[]]
       [AddP (1::int) 0, AddP 2 0, AddP 3 0, Size, Take, TryTake, TryTake, AddP 4 0, Take]"
    using counting_contract
    by (intro lifoSemMPMCQueue_refines_bounded_fifo[OF q, where tb = 32 and cur = id])
      (simp_all add: counting_env_def counter_sem_contract)
  with q show ?thesis
    by (simp add: lane_fits_def del: bq_run.simps)
qed

text \<open>C20. The constructor of \<open>PriorityLifoSemMPMCQueue\<close> returns exactly for fewer than 128
  priorities: its counter is an \<open>int8_t\<close>, which never reaches a bound of 128 or more, so that the
  loop goes on allocating queues forever. Below 128, as many iterations as there are priorities are
  enough.\<close>

theorem priorityLifoSem_ctor_returns_iff:
  fixes S :: "'s sem_ops" and E :: "'ts mpmc_env"
  assumes "0 < numPriorities" "max_capacity \<noteq> 0"
  shows "(\<exists>n. newPriorityLifoSemMPMCQueue S E n numPriorities max_capacity \<noteq>
            (None :: (ctor_error + ('s, 'ts, 'a) PriorityLifoSemMPMCQueue) option)) \<longleftrightarrow> unat numPriorities < 128"
  using plsq_ctor_returns[OF assms] .

text \<open>Witness of C20.\<close>

theorem priorityLifoSem_ctor_returns_iff_witness:
  "\<forall>n. newPriorityLifoSemMPMCQueue counter_sem counting_env n 200 16 = (None :: (ctor_error + (nat, u32, int) PriorityLifoSemMPMCQueue) option)"
  using priorityLifoSem_ctor_returns_iff[of 200 16 counter_sem counting_env] by auto

text \<open>C18. \<open>PriorityLifoSemMPMCQueue\<close> is a list of bounded FIFO lanes served from the highest priority
  to the lowest: every sequence of calls gets the replies of the lanes, an element of priority \<open>p\<close>
  going to lane \<open>priority_lane numPriorities p\<close>, the same lane as in \<open>PriorityUnboundedBlockingQueue\<close>.
  The check on the queue index never fails.\<close>

theorem priorityLifoSem_refines_bounded_lanes:
  fixes q :: "('s, 'ts, 'a) PriorityLifoSemMPMCQueue"
  assumes "newPriorityLifoSemMPMCQueue S E n numPriorities cap = Some (Inr q)"
    and "unat cap + 2 * unat (slotPadding E) < 2 ^ 63"
    and "turn_contract tb (seqOps E) cur" "sem_contract S cnt" "6 * length cs < 2 ^ 58"
  shows "bq_run (plsq_ops k S cnt E) q cs =
    lane_run k priority_lane (replicate (unat numPriorities) (Some (unat cap))) (replicate (unat numPriorities) []) cs"
proof -
  note q = plsq_new[OF assms]
  from plsq.run_refines[OF q(1), of k] show ?thesis
    unfolding q(2,3) .
qed

text \<open>Witness of C18.\<close>

theorem priorityLifoSem_refines_bounded_lanes_witness:
  "\<exists>q. newPriorityLifoSemMPMCQueue counter_sem counting_env 3 3 1 = Some (Inr q) \<and>
     bq_run (plsq_ops THROW counter_sem id counting_env) q
       [AddP (1::int) (-128), AddP 2 0, AddP 3 127, AddP 4 0, Size, TryTake, Take, TryTake, TryTake] =
     Done [Added, Added, Added, Full, SizeIs 3, Took (Some 3), Took (Some 2), Took (Some 1), Took None]"
proof -
  have u: "unat (3::u8) = 3"
    by simp
  have r: "replicate (unat (3::u8)) y = [y, y, y]" for y :: 'b
    unfolding u by (simp only: numeral_3_eq_3 replicate.simps)
  obtain m :: "(u32, int) MPMCQueue" where m: "newMPMCQueue counting_env 1 = Inr m"
    by (simp add: newMPMCQueue_def)
  obtain q where q: "newPriorityLifoSemMPMCQueue counter_sem counting_env 3 3 1 =
      (Some (Inr q) :: (ctor_error + (nat, u32, int) PriorityLifoSemMPMCQueue) option)"
    using plsq_ctor_loop_ends[OF m, of 3 0 3] by (simp add: newPriorityLifoSemMPMCQueue_def)
  have "bq_run (plsq_ops THROW counter_sem id counting_env) q
       [AddP (1::int) (-128), AddP 2 0, AddP 3 127, AddP 4 0, Size, TryTake, Take, TryTake, TryTake] =
     lane_run THROW priority_lane (replicate (unat (3::u8)) (Some (unat (1::u64)))) (replicate (unat (3::u8)) [])
       [AddP (1::int) (-128), AddP 2 0, AddP 3 127, AddP 4 0, Size, TryTake, Take, TryTake, TryTake]"
    using counting_contract
    by (intro priorityLifoSem_refines_bounded_lanes[OF q, where tb = 32 and cur = id])
      (simp_all add: counting_env_def counter_sem_contract)
  with q show ?thesis
    unfolding r by (intro exI[of _ q]) (simp add: lane_fits_def priority_lane_def del: bq_run.simps)
qed

end
