(* ===== verification/ConcurrentTaskQueues.thy ===== *)
theory ConcurrentTaskQueues
  imports TaskQueues MPMCConcurrent
begin

text \<open>
  The two task queues on \<open>MPMCQueue\<close>, \<open>LifoSemMPMCQueue\<close> and \<open>PriorityLifoSemMPMCQueue\<close>, used by any number of threads
  at the same time. A step is a step of a thread inside one of the queues (\<open>MPMCConcurrent\<close>), a post, a successful wait, a
  timeout, or the code between them, which touches nothing shared. \<open>LifoSemMPMCQueue\<close> is the case of a single queue.

  The invariant \<open>wake_inv\<close> is why no wake-up is lost: for every \<open>j\<close>, the values of the queues from \<open>j\<close> up that no
  reader has claimed are at most as many as the writers that have yet to post, the value of the semaphore and the takers that
  still have to look at one of these queues. \<open>TaskQueueWakeups\<close> draws the conclusion.
\<close>

section \<open>The system\<close>

text \<open>Where a thread is: \<open>TWrite\<close> writing to lane \<open>k\<close>, \<open>TPost\<close> about to post, \<open>TRead\<close> reading from lane \<open>k\<close>, \<open>TWait\<close> at
  the semaphore (the flag says whether the call is \<open>try_take_for\<close>), the others outside a call.\<close>

datatype 'a tq_pc =
    TIdle
  | TWrite nat
  | TPost
  | TRead bool nat
  | TWait bool
  | TAdded bool
  | TThrew queue_exn
  | TTook "'a option"

datatype 'a tq_call = TqAdd 'a int | TqTake | TqTryTakeFor

record ('s, 'ts, 'a) tqsys =
  tsem :: 's
  tlanes :: "('ts, 'a) sys list"
  tpcs :: "nat \<Rightarrow> 'a tq_pc"

definition tq_init :: "'s sem_ops \<Rightarrow> ('ts, 'a) MPMCQueue list \<Rightarrow> ('s, 'ts, 'a) tqsys" where
  "tq_init S qs = \<lparr>tsem = semNew S, tlanes = map sys_init qs, tpcs = (\<lambda>_. TIdle)\<rparr>"

definition to_pc :: "nat \<Rightarrow> 'a tq_pc \<Rightarrow> ('s, 'ts, 'a) tqsys \<Rightarrow> ('s, 'ts, 'a) tqsys" where
  "to_pc i c s = s\<lparr>tpcs := (tpcs s)(i := c)\<rparr>"

text \<open>Thread \<open>i\<close> calls an operation of the queue of lane \<open>k\<close>.\<close>

definition lane_call :: "nat \<Rightarrow> nat \<Rightarrow> 'a call \<Rightarrow> ('s, 'ts, 'a) tqsys \<Rightarrow> ('s, 'ts, 'a) tqsys" where
  "lane_call i k c s = s\<lparr>tlanes := (tlanes s)[k := (tlanes s ! k)\<lparr>pcs := (pcs (tlanes s ! k))(i := enter c)\<rparr>]\<rparr>"

text \<open>A step inside it.\<close>

definition lane_move :: "'ts mpmc_env \<Rightarrow> bool \<Rightarrow> nat \<Rightarrow> nat \<Rightarrow> ('s, 'ts, 'a) tqsys \<Rightarrow> ('s, 'ts, 'a) tqsys option" where
  "lane_move E d i k s = (case step E d (queue (tlanes s ! k)) (pcs (tlanes s ! k) i) of
       Done (q, c) \<Rightarrow> Some (s\<lparr>tlanes := (tlanes s)[k := after_step (tlanes s ! k) i q c]\<rparr>)
     | _ \<Rightarrow> None)"

text \<open>\<open>k\<close> queues are left to try, those below \<open>k\<close>.\<close>

fun read_next :: "bool \<Rightarrow> nat \<Rightarrow> nat \<Rightarrow> ('s, 'ts, 'a) tqsys \<Rightarrow> ('s, 'ts, 'a) tqsys" where
  "read_next timed i 0 s = to_pc i (TWait timed) s"
| "read_next timed i (Suc k) s = to_pc i (TRead timed k) (lane_call i k ReadIfNotEmpty s)"

text \<open>The lane of a priority.\<close>

definition lsq_lane :: "nat \<Rightarrow> int \<Rightarrow> nat" where
  "lsq_lane n priority = 0"

definition plsq_lane :: "nat \<Rightarrow> int \<Rightarrow> nat" where
  "plsq_lane n priority = nat (plsq_index (int (unat (of_nat n :: u8))) priority)"

fun tq_begin :: "QueueBehaviorIfFull \<Rightarrow> (nat \<Rightarrow> int \<Rightarrow> nat) \<Rightarrow> nat \<Rightarrow> 'a tq_call \<Rightarrow> ('s, 'ts, 'a) tqsys \<Rightarrow> ('s, 'ts, 'a) tqsys" where
  "tq_begin kBehavior lane i (TqAdd v priority) s =
     (let k = lane (length (tlanes s)) priority
      in if \<not> k < length (tlanes s) then to_pc i (TThrew QueueCheckFailed) s
         else to_pc i (TWrite k) (lane_call i k (case kBehavior of THROW \<Rightarrow> WriteIfNotFull v | BLOCK \<Rightarrow> BlockingWrite v) s))"
| "tq_begin kBehavior lane i TqTake s = read_next False i (length (tlanes s)) s"
| "tq_begin kBehavior lane i TqTryTakeFor s = read_next True i (length (tlanes s)) s"

definition tq_move :: "'ts mpmc_env \<Rightarrow> 's sem_ops \<Rightarrow> bool \<Rightarrow> nat \<Rightarrow> ('s, 'ts, 'a) tqsys \<Rightarrow> ('s, 'ts, 'a) tqsys option" where
  "tq_move E S d i s = (case tpcs s i of
       TWrite k \<Rightarrow> (case pcs (tlanes s ! k) i of
           WReturn ok \<Rightarrow> Some (to_pc i (if ok then TPost else TThrew QueueFullException) s)
         | _ \<Rightarrow> lane_move E d i k s)
     | TPost \<Rightarrow> (let (reused, m) = semPost S (tsem s) in Some (to_pc i (TAdded reused) (s\<lparr>tsem := m\<rparr>)))
     | TRead timed k \<Rightarrow> (case pcs (tlanes s ! k) i of
           RReturn (Some (t, v)) \<Rightarrow> Some (to_pc i (TTook (Some v)) s)
         | RReturn None \<Rightarrow> Some (read_next timed i k s)
         | _ \<Rightarrow> lane_move E d i k s)
     | TWait timed \<Rightarrow> (case semTryWait S (tsem s) of
           Some m \<Rightarrow> Some (read_next timed i (length (tlanes s)) (s\<lparr>tsem := m\<rparr>))
         | None \<Rightarrow> if timed \<and> d then Some (to_pc i (TTook None) s) else None)
     | _ \<Rightarrow> None)"

fun tq_inside :: "'a tq_pc \<Rightarrow> bool" where
  "tq_inside (TWrite k) = True"
| "tq_inside TPost = True"
| "tq_inside (TRead timed k) = True"
| "tq_inside (TWait timed) = True"
| "tq_inside _ = False"

inductive tq_step :: "'ts mpmc_env \<Rightarrow> 's sem_ops \<Rightarrow> QueueBehaviorIfFull \<Rightarrow> (nat \<Rightarrow> int \<Rightarrow> nat) \<Rightarrow> nat \<Rightarrow>
    ('s, 'ts, 'a) tqsys \<Rightarrow> ('s, 'ts, 'a) tqsys \<Rightarrow> bool" for E S kBehavior lane N where
  begin_call: "i < N \<Longrightarrow> \<not> tq_inside (tpcs s i) \<Longrightarrow> tq_step E S kBehavior lane N s (tq_begin kBehavior lane i c s)"
| move: "i < N \<Longrightarrow> tq_move E S d i s = Some s' \<Longrightarrow> tq_step E S kBehavior lane N s s'"

inductive tq_reach :: "'ts mpmc_env \<Rightarrow> 's sem_ops \<Rightarrow> QueueBehaviorIfFull \<Rightarrow> (nat \<Rightarrow> int \<Rightarrow> nat) \<Rightarrow> nat \<Rightarrow>
    ('ts, 'a) MPMCQueue list \<Rightarrow> ('s, 'ts, 'a) tqsys \<Rightarrow> bool" for E S kBehavior lane N qs where
  init: "tq_reach E S kBehavior lane N qs (tq_init S qs)"
| step: "tq_reach E S kBehavior lane N qs s \<Longrightarrow> tq_step E S kBehavior lane N s s' \<Longrightarrow> tq_reach E S kBehavior lane N qs s'"

definition tq_room :: "('s, 'ts, 'a) tqsys \<Rightarrow> bool" where
  "tq_room s \<longleftrightarrow> (\<forall>L \<in> set (tlanes s). has_room L)"

section \<open>Steps of a lane\<close>

fun writing :: "'a pc \<Rightarrow> bool" where
  "writing (WBlocking v) = True"
| "writing (WPromised timed c v) = (\<not> timed)"
| "writing (Enqueueing t c v) = True"
| "writing (WReturn b) = True"
| "writing _ = False"

fun reading :: "'a pc \<Rightarrow> bool" where
  "reading (RPromised timed c) = (\<not> timed)"
| "reading (Dequeueing t c) = True"
| "reading (RReturn r) = True"
| "reading _ = False"

fun ticketed :: "'a pc \<Rightarrow> bool" where
  "ticketed (Enqueueing t c v) = True"
| "ticketed (WReturn b) = b"
| "ticketed _ = False"

fun undecided :: "'a pc \<Rightarrow> bool" where
  "undecided (RPromised timed c) = True"
| "undecided _ = False"

lemma write_moves:
  assumes "writing (pcs L i)" "inside (pcs L i)" "step E d (queue L) (pcs L i) = Done (q, c)"
  shows "writing c" "popsIssued (after_step L i q c) = popsIssued L" "ticketed (pcs L i) \<Longrightarrow> ticketed c"
    "length (pushed (after_step L i q c)) = length (pushed L) + (if ticketed c \<and> \<not> ticketed (pcs L i) then 1 else 0)"
proof -
  have "writing c \<and> popsIssued (after_step L i q c) = popsIssued L \<and> (ticketed (pcs L i) \<longrightarrow> ticketed c) \<and>
    length (pushed (after_step L i q c)) = length (pushed L) + (if ticketed c \<and> \<not> ticketed (pcs L i) then 1 else 0)"
  proof (cases "pcs L i")
    case (WPromised timed x v)
    then show ?thesis
      using assms by (cases x) (auto simp: after_step_def Let_def split: if_splits)
  next
    case (Enqueueing t x v)
    then show ?thesis
      using assms by (cases x) (auto simp: after_step_def with_slot_def bind_outcome_Done_iff split: if_splits)
  qed (use assms in \<open>auto simp: after_step_def\<close>)
  then show "writing c" "popsIssued (after_step L i q c) = popsIssued L" "ticketed (pcs L i) \<Longrightarrow> ticketed c"
    "length (pushed (after_step L i q c)) = length (pushed L) + (if ticketed c \<and> \<not> ticketed (pcs L i) then 1 else 0)"
    by simp_all
qed

text \<open>What a step of a read does: it is still looking, it has found the queue empty, it has got the next ticket, or it is
  on its way with the ticket it has.\<close>

definition read_result :: "('ts, 'a) sys \<Rightarrow> 'a pc \<Rightarrow> 'a pc \<Rightarrow> ('ts, 'a) sys \<Rightarrow> bool" where
  "read_result L c c' L' \<longleftrightarrow>
     undecided c \<and> undecided c' \<and> popsIssued L' = popsIssued L \<or>
     undecided c \<and> c' = RReturn None \<and> popsIssued L' = popsIssued L \<and> length (pushed L) \<le> popsIssued L \<or>
     undecided c \<and> \<not> undecided c' \<and> c' \<noteq> RReturn None \<and> popsIssued L' = popsIssued L + 1 \<and> popsIssued L < length (pushed L) \<or>
     \<not> undecided c \<and> \<not> undecided c' \<and> c' \<noteq> RReturn None \<and> popsIssued L' = popsIssued L"

lemma read_moves:
  assumes S: "sim tb cur E N L r" and i: "reading (pcs L i)" "inside (pcs L i)" "step E d (queue L) (pcs L i) = Done (q, c)"
  shows "reading c" "pushed (after_step L i q c) = pushed L" "read_result L (pcs L i) c (after_step L i q c)"
proof -
  note m = queue_matchD(4,5)[OF simD(2)[OF S]] and ok = simD(4)[OF S, of i] and n = simD(7,9)[OF S]
  have e: "length (pushed L) \<le> popsIssued L" if "unat t \<le> pops r" "pushTicket (queue L) \<le> t" for t
    using that m(1) n by (simp add: word_le_nat_alt)
  have f: "popsIssued L < length (pushed L)" if "unat (popTicket (queue L)) < pushes r"
    using that m(2) n by simp
  have "reading c \<and> pushed (after_step L i q c) = pushed L \<and> read_result L (pcs L i) c (after_step L i q c)"
  proof (cases "pcs L i")
    case (RPromised timed x)
    then show ?thesis
      using i ok e f by (cases x) (auto simp: read_result_def after_step_def Let_def split: if_splits)
  next
    case (Dequeueing t x)
    then show ?thesis
      using i ok by (cases x) (auto simp: read_result_def after_step_def with_slot_def bind_outcome_Done_iff split: if_splits)
  qed (use i in \<open>auto simp: read_result_def after_step_def\<close>)
  then show "reading c" "pushed (after_step L i q c) = pushed L" "read_result L (pcs L i) c (after_step L i q c)"
    by blast+
qed

section \<open>Where the threads are\<close>

fun at_lane :: "'a tq_pc \<Rightarrow> nat option" where
  "at_lane (TWrite k) = Some k"
| "at_lane (TRead timed k) = Some k"
| "at_lane _ = None"

definition place_inv :: "('s, 'ts, 'a) tqsys \<Rightarrow> bool" where
  "place_inv s \<longleftrightarrow> (\<forall>i k. k < length (tlanes s) \<longrightarrow> at_lane (tpcs s i) \<noteq> Some k \<longrightarrow> \<not> inside (pcs (tlanes s ! k) i)) \<and>
     (\<forall>i k. tpcs s i = TWrite k \<longrightarrow> k < length (tlanes s) \<and> writing (pcs (tlanes s ! k) i)) \<and>
     (\<forall>i timed k. tpcs s i = TRead timed k \<longrightarrow> k < length (tlanes s) \<and> reading (pcs (tlanes s ! k) i))"

lemma place_invD:
  assumes "place_inv s"
  shows "k < length (tlanes s) \<Longrightarrow> at_lane (tpcs s i) \<noteq> Some k \<Longrightarrow> \<not> inside (pcs (tlanes s ! k) i)"
    "tpcs s i = TWrite k \<Longrightarrow> k < length (tlanes s)" "tpcs s i = TWrite k \<Longrightarrow> writing (pcs (tlanes s ! k) i)"
    "tpcs s i = TRead timed k \<Longrightarrow> k < length (tlanes s)" "tpcs s i = TRead timed k \<Longrightarrow> reading (pcs (tlanes s ! k) i)"
  using assms by (auto simp: place_inv_def)

text \<open>A thread moves on: its point changes, and in the lane it was or will be its program counter.\<close>

definition only_thread :: "nat \<Rightarrow> ('s, 'ts, 'a) tqsys \<Rightarrow> ('s, 'ts, 'a) tqsys \<Rightarrow> bool" where
  "only_thread i s s' \<longleftrightarrow> length (tlanes s') = length (tlanes s) \<and> (\<forall>j. j \<noteq> i \<longrightarrow> tpcs s' j = tpcs s j) \<and>
     (\<forall>j k. j \<noteq> i \<longrightarrow> k < length (tlanes s) \<longrightarrow> pcs (tlanes s' ! k) j = pcs (tlanes s ! k) j)"

lemma place_inv_step:
  assumes I: "place_inv s" and o: "only_thread i s s'"
    and i: "\<And>k. k < length (tlanes s) \<Longrightarrow> at_lane (tpcs s' i) \<noteq> Some k \<Longrightarrow> \<not> inside (pcs (tlanes s' ! k) i)"
      "\<And>k. tpcs s' i = TWrite k \<Longrightarrow> k < length (tlanes s) \<and> writing (pcs (tlanes s' ! k) i)"
      "\<And>timed k. tpcs s' i = TRead timed k \<Longrightarrow> k < length (tlanes s) \<and> reading (pcs (tlanes s' ! k) i)"
  shows "place_inv s'"
proof -
  have l: "length (tlanes s') = length (tlanes s)" and c: "j \<noteq> i \<Longrightarrow> tpcs s' j = tpcs s j"
    and p: "j \<noteq> i \<Longrightarrow> k < length (tlanes s) \<Longrightarrow> pcs (tlanes s' ! k) j = pcs (tlanes s ! k) j" for j k
    using o by (simp_all add: only_thread_def)
  show ?thesis
    unfolding place_inv_def l
  proof (intro conjI allI impI)
    fix j k assume a: "k < length (tlanes s)" "at_lane (tpcs s' j) \<noteq> Some k"
    then show "\<not> inside (pcs (tlanes s' ! k) j)"
      using i(1)[of k] c[of j] p[of j k] place_invD(1)[OF I, of k j] by (cases "j = i") simp_all
  next
    fix j k assume "tpcs s' j = TWrite k"
    then show "k < length (tlanes s)" "writing (pcs (tlanes s' ! k) j)"
      using i(2)[of k] c[of j] p[of j k] place_invD(2,3)[OF I, of j k] by (cases "j = i"; simp)+
  next
    fix j timed k assume "tpcs s' j = TRead timed k"
    then show "k < length (tlanes s)" "reading (pcs (tlanes s' ! k) j)"
      using i(3)[of timed k] c[of j] p[of j k] place_invD(4,5)[OF I, of j timed k] by (cases "j = i"; simp)+
  qed
qed

section \<open>Wake-ups\<close>

text \<open>Values whose push ticket has been drawn and whose pop ticket has not; threads that have drawn a push ticket and not yet
  posted; threads that still have a queue at or above \<open>j\<close> to look at.\<close>

definition unclaimed :: "('ts, 'a) sys \<Rightarrow> int" where
  "unclaimed L = int (length (pushed L)) - int (popsIssued L)"

definition above :: "('s, 'ts, 'a) tqsys \<Rightarrow> nat \<Rightarrow> int" where
  "above s j = (\<Sum>k = j..<length (tlanes s). unclaimed (tlanes s ! k))"

definition adding :: "('s, 'ts, 'a) tqsys \<Rightarrow> nat \<Rightarrow> bool" where
  "adding s i \<longleftrightarrow> tpcs s i = TPost \<or> (\<exists>k. tpcs s i = TWrite k \<and> ticketed (pcs (tlanes s ! k) i))"

definition looking :: "('s, 'ts, 'a) tqsys \<Rightarrow> nat \<Rightarrow> nat \<Rightarrow> bool" where
  "looking s j i \<longleftrightarrow> (\<exists>timed k. tpcs s i = TRead timed k \<and>
     (undecided (pcs (tlanes s ! k) i) \<and> j \<le> k \<or> pcs (tlanes s ! k) i = RReturn None \<and> j < k))"

definition threads :: "nat \<Rightarrow> (nat \<Rightarrow> bool) \<Rightarrow> int" where
  "threads N P = int (card {i. i < N \<and> P i})"

definition wake_inv :: "nat \<Rightarrow> ('s \<Rightarrow> nat) \<Rightarrow> ('s, 'ts, 'a) tqsys \<Rightarrow> bool" where
  "wake_inv N cnt s \<longleftrightarrow> (\<forall>j < length (tlanes s). above s j \<le> threads N (adding s) + int (cnt (tsem s)) + threads N (looking s j))"

lemma threads_change:
  assumes "i < N" "\<And>k. k \<noteq> i \<Longrightarrow> Q k = P k"
  shows "threads N Q = threads N P + of_bool (Q i) - of_bool (P i)"
proof -
  let ?A = "{k. k < N \<and> k \<noteq> i \<and> P k}"
  have s: "{k. k < N \<and> R k} = (if R i then insert i {k. k < N \<and> k \<noteq> i \<and> R k} else {k. k < N \<and> k \<noteq> i \<and> R k})" for R
    using assms(1) by auto
  have "{k. k < N \<and> k \<noteq> i \<and> Q k} = ?A"
    using assms(2) by auto
  then have "{k. k < N \<and> P k} = (if P i then insert i ?A else ?A)" "{k. k < N \<and> Q k} = (if Q i then insert i ?A else ?A)"
    using s[of P] s[of Q] by simp_all
  moreover have "finite ?A" "i \<notin> ?A"
    by simp_all
  ultimately show ?thesis
    by (simp add: threads_def)
qed

lemma threads_mono: "(\<And>i. P i \<Longrightarrow> Q i) \<Longrightarrow> threads N P \<le> threads N Q"
  by (auto simp: threads_def intro!: card_mono)

lemma threads_pos: "0 < threads N P \<longleftrightarrow> (\<exists>i < N. P i)"
  by (auto simp: threads_def card_gt_0_iff)

lemma above_split: "j < length (tlanes s) \<Longrightarrow> above s j = unclaimed (tlanes s ! j) + above s (Suc j)"
  by (simp add: above_def sum.atLeast_Suc_lessThan)

lemma above_change:
  assumes "length (tlanes s') = length (tlanes s)" "k < length (tlanes s)" "\<And>l. l < length (tlanes s) \<Longrightarrow> l \<noteq> k \<Longrightarrow>
    unclaimed (tlanes s' ! l) = unclaimed (tlanes s ! l)"
  shows "above s' j = above s j + (if j \<le> k then unclaimed (tlanes s' ! k) - unclaimed (tlanes s ! k) else 0)"
proof (cases "j \<le> k")
  case False
  then show ?thesis
    using assms(1,3) by (simp add: above_def)
next
  case True
  then have k: "k \<in> {j..<length (tlanes s)}"
    using assms(2) by simp
  have "(\<Sum>l \<in> {j..<length (tlanes s)} - {k}. unclaimed (tlanes s' ! l)) = (\<Sum>l \<in> {j..<length (tlanes s)} - {k}. unclaimed (tlanes s ! l))"
    using assms(3) by (intro sum.cong) auto
  then show ?thesis
    unfolding above_def assms(1) using sum.remove[OF _ k, of "\<lambda>l. unclaimed (tlanes s' ! l)"] sum.remove[OF _ k, of "\<lambda>l. unclaimed (tlanes s ! l)"] True
    by simp
qed

lemma only_thread_counts:
  assumes "only_thread i s s'" "place_inv s" "j \<noteq> i"
  shows "adding s' j = adding s j" "looking s' k j = looking s k j"
  using assms place_invD(2,4)[OF assms(2), of j] by (auto simp: only_thread_def adding_def looking_def)

lemma wake_inv_step:
  assumes W: "wake_inv N cnt s" and P: "place_inv s" and o: "only_thread i s s'" and i: "i < N"
    and d: "\<And>j. j < length (tlanes s) \<Longrightarrow> above s' j + of_bool (adding s i) + int (cnt (tsem s)) + of_bool (looking s j i) \<le>
      above s j + of_bool (adding s' i) + int (cnt (tsem s')) + of_bool (looking s' j i)"
  shows "wake_inv N cnt s'"
  unfolding wake_inv_def
proof (intro allI impI)
  fix j assume "j < length (tlanes s')"
  then have j: "j < length (tlanes s)"
    using o by (simp add: only_thread_def)
  have "threads N (adding s') = threads N (adding s) + of_bool (adding s' i) - of_bool (adding s i)"
    "threads N (looking s' j) = threads N (looking s j) + of_bool (looking s' j i) - of_bool (looking s j i)"
    using only_thread_counts[OF o P] by (intro threads_change[OF i]; simp)+
  moreover have "above s j \<le> threads N (adding s) + int (cnt (tsem s)) + threads N (looking s j)"
    using W j by (simp add: wake_inv_def)
  ultimately show "above s' j \<le> threads N (adding s') + int (cnt (tsem s')) + threads N (looking s' j)"
    using d[OF j] by linarith
qed

text \<open>A reader that gives up on the queue \<open>k\<close> finds nothing unclaimed there; for what is above it had given up before.\<close>

lemma wake_inv_fail:
  assumes W: "wake_inv N cnt s" and P: "place_inv s" and o: "only_thread i s s'" and i: "i < N" and k: "k < length (tlanes s)"
    and a: "adding s' i = adding s i" "tsem s' = tsem s" "\<And>j. above s' j = above s j" "unclaimed (tlanes s ! k) \<le> 0"
      "\<And>j. looking s j i \<longleftrightarrow> j \<le> k" "\<And>j. looking s' j i \<longleftrightarrow> j < k"
  shows "wake_inv N cnt s'"
  unfolding wake_inv_def
proof (intro allI impI)
  fix j assume "j < length (tlanes s')"
  then have j: "j < length (tlanes s)"
    using o by (simp add: only_thread_def)
  have ad: "threads N (adding s') = threads N (adding s)"
    using threads_change[OF i, of "adding s'" "adding s"] only_thread_counts(1)[OF o P] a(1) by simp
  have W: "above s j \<le> threads N (adding s) + int (cnt (tsem s)) + threads N (looking s j)" if "j < length (tlanes s)" for j
    using W that by (simp add: wake_inv_def)
  show "above s' j \<le> threads N (adding s') + int (cnt (tsem s')) + threads N (looking s' j)"
  proof (cases "j = k")
    case False
    then have "threads N (looking s' j) = threads N (looking s j)"
      using threads_change[OF i, of "looking s' j" "looking s j"] only_thread_counts(2)[OF o P] a(5,6) by simp
    then show ?thesis
      using W[OF j] ad a(2,3) by simp
  next
    case True
    have le: "threads N (looking s (Suc k)) \<le> threads N (looking s' k)"
    proof (rule threads_mono)
      fix l assume l: "looking s (Suc k) l"
      then have "l \<noteq> i"
        using a(5)[of "Suc k"] by auto
      moreover have "looking s k l"
        using l by (auto simp: looking_def)
      ultimately show "looking s' k l"
        using only_thread_counts(2)[OF o P] by simp
    qed
    have "above s (Suc k) \<le> threads N (adding s) + int (cnt (tsem s)) + threads N (looking s (Suc k))"
    proof (cases "Suc k < length (tlanes s)")
      case False
      then show ?thesis
        by (simp add: above_def threads_def)
    qed (rule W)
    then show ?thesis
      using above_split[OF k] a(2-4) ad le True by simp
  qed
qed

section \<open>The invariant\<close>

definition tq_inv :: "'ts mpmc_env \<Rightarrow> nat \<Rightarrow> ('s \<Rightarrow> nat) \<Rightarrow> ('ts, 'a) MPMCQueue list \<Rightarrow> ('s, 'ts, 'a) tqsys \<Rightarrow> bool" where
  "tq_inv E N cnt qs s \<longleftrightarrow> place_inv s \<and> wake_inv N cnt s \<and> length (tlanes s) = length qs \<and>
     (\<forall>k < length qs. sys_reach E N (qs ! k) (tlanes s ! k) \<and> popsIssued (tlanes s ! k) \<le> length (pushed (tlanes s ! k))) \<and>
     (\<forall>i \<ge> N. tpcs s i = TIdle)"

lemma tq_invD:
  assumes "tq_inv E N cnt qs s"
  shows "place_inv s" "wake_inv N cnt s" "length (tlanes s) = length qs"
    "k < length qs \<Longrightarrow> sys_reach E N (qs ! k) (tlanes s ! k)" "k < length qs \<Longrightarrow> popsIssued (tlanes s ! k) \<le> length (pushed (tlanes s ! k))"
    "N \<le> i \<Longrightarrow> tpcs s i = TIdle"
  using assms by (simp_all add: tq_inv_def)

lemma tq_inv_next:
  assumes I: "tq_inv E N cnt qs s" and i: "i < N" and o: "only_thread i s s'" and n: "place_inv s'" "wake_inv N cnt s'"
    and l: "\<And>k. k < length qs \<Longrightarrow> tlanes s' ! k = tlanes s ! k \<or>
      sys_step E N (tlanes s ! k) (tlanes s' ! k) \<and> popsIssued (tlanes s' ! k) \<le> length (pushed (tlanes s' ! k))"
  shows "tq_inv E N cnt qs s'"
proof -
  have len: "length (tlanes s') = length qs"
    using o tq_invD(3)[OF I] by (simp add: only_thread_def)
  have "sys_reach E N (qs ! k) (tlanes s' ! k) \<and> popsIssued (tlanes s' ! k) \<le> length (pushed (tlanes s' ! k))" if "k < length qs" for k
    using l[OF that] tq_invD(4,5)[OF I that] by (auto intro: sys_reach.step)
  moreover have "tpcs s' j = TIdle" if "N \<le> j" for j
    using o i that tq_invD(6)[OF I that] by (auto simp: only_thread_def)
  ultimately show ?thesis
    using n len by (simp add: tq_inv_def)
qed

text \<open>The thread leaves its queue, or had left it: the lanes stay as they are.\<close>

lemma rest_inv:
  assumes I: "tq_inv E N cnt qs s" and i: "i < N" and c: "at_lane c = None" "\<And>k. k < length (tlanes s) \<Longrightarrow> \<not> inside (pcs (tlanes s ! k) i)"
    and d: "\<And>j. j < length (tlanes s) \<Longrightarrow> of_bool (adding s i) + int (cnt (tsem s)) + of_bool (looking s j i) \<le> of_bool (c = TPost) + int (cnt m)"
  shows "tq_inv E N cnt qs (to_pc i c (s\<lparr>tsem := m\<rparr>))"
proof -
  let ?s = "to_pc i c (s\<lparr>tsem := m\<rparr>)"
  have o: "only_thread i s ?s"
    by (simp add: only_thread_def to_pc_def)
  have "c \<noteq> TWrite k" "c \<noteq> TRead timed k" for timed k
    using c(1) by auto
  then have a: "adding ?s i \<longleftrightarrow> c = TPost" "\<not> looking ?s j i" "above ?s j = above s j" for j
    by (auto simp: adding_def looking_def to_pc_def above_def)
  have "place_inv ?s"
    using c by (intro place_inv_step[OF tq_invD(1)[OF I] o]) (auto simp: to_pc_def)
  moreover have "wake_inv N cnt ?s"
  proof (rule wake_inv_step[OF tq_invD(2,1)[OF I] o i])
    fix j assume j: "j < length (tlanes s)"
    have m: "tsem ?s = m" "of_bool (looking ?s j i) = (0 :: int)"
      using a(2) by (simp_all add: to_pc_def)
    show "above ?s j + of_bool (adding s i) + int (cnt (tsem s)) + of_bool (looking s j i) \<le>
        above s j + of_bool (adding ?s i) + int (cnt (tsem ?s)) + of_bool (looking ?s j i)"
      unfolding a(1,3) m using d[OF j] by linarith
  qed
  ultimately show ?thesis
    by (intro tq_inv_next[OF I i o]) (simp_all add: to_pc_def)
qed

lemma lane_call_nth:
  assumes "k < length (tlanes s)"
  shows "tlanes (lane_call i k x s) ! l = (if l = k then (tlanes s ! k)\<lparr>pcs := (pcs (tlanes s ! k))(i := enter x)\<rparr> else tlanes s ! l)"
    "length (tlanes (lane_call i k x s)) = length (tlanes s)" "tpcs (lane_call i k x s) = tpcs s" "tsem (lane_call i k x s) = tsem s"
  using assms by (simp_all add: lane_call_def)

text \<open>The thread calls an operation of the queue \<open>k\<close>.\<close>

lemma lane_call_inv:
  assumes I: "tq_inv E N cnt qs s" and i: "i < N" and k: "k < length (tlanes s)"
    and c: "c = TWrite k \<and> writing (enter x) \<or> c = TRead timed k \<and> reading (enter x)" "\<not> ticketed (enter x)"
      "\<And>k. k < length (tlanes s) \<Longrightarrow> \<not> inside (pcs (tlanes s ! k) i)"
    and d: "\<And>j. j < length (tlanes s) \<Longrightarrow> of_bool (adding s i) + int (cnt (tsem s)) + of_bool (looking s j i) \<le>
      int (cnt m) + of_bool (undecided (enter x) \<and> c = TRead timed k \<and> j \<le> k)"
  shows "tq_inv E N cnt qs (to_pc i c (lane_call i k x (s\<lparr>tsem := m\<rparr>)))"
proof -
  let ?s = "to_pc i c (lane_call i k x (s\<lparr>tsem := m\<rparr>))"
  have n: "tlanes ?s ! l = (if l = k then (tlanes s ! k)\<lparr>pcs := (pcs (tlanes s ! k))(i := enter x)\<rparr> else tlanes s ! l)"
    "length (tlanes ?s) = length (tlanes s)" "tpcs ?s = (tpcs s)(i := c)" "tsem ?s = m" for l
    using k by (simp_all add: to_pc_def lane_call_def)
  have o: "only_thread i s ?s"
    by (simp add: only_thread_def n)
  have "enter x \<noteq> RReturn None"
    by (cases x) simp_all
  then have a: "\<not> adding ?s i" "looking ?s j i \<longleftrightarrow> undecided (enter x) \<and> c = TRead timed k \<and> j \<le> k" for j
    using c(1,2) by (auto simp: adding_def looking_def n)
  have "unclaimed (tlanes ?s ! l) = unclaimed (tlanes s ! l)" for l
    by (simp add: unclaimed_def n)
  then have u: "above ?s j = above s j" for j
    by (simp only: above_def n)
  have n': "tpcs ?s i = c" "pcs (tlanes ?s ! k) i = enter x"
    by (simp_all add: n)
  have "place_inv ?s"
  proof (rule place_inv_step[OF tq_invD(1)[OF I] o])
    show "\<not> inside (pcs (tlanes ?s ! l) i)" if "l < length (tlanes s)" "at_lane (tpcs ?s i) \<noteq> Some l" for l
      using that c(1,3) n'(1) n(1)[of l] by auto
    show "l < length (tlanes s) \<and> writing (pcs (tlanes ?s ! l) i)" if "tpcs ?s i = TWrite l" for l
      using that c(1) k n' by (cases "l = k") auto
    show "l < length (tlanes s) \<and> reading (pcs (tlanes ?s ! l) i)" if "tpcs ?s i = TRead t l" for t l
      using that c(1) k n' by (cases "l = k") auto
  qed
  moreover have "wake_inv N cnt ?s"
  proof (rule wake_inv_step[OF tq_invD(2,1)[OF I] o i])
    fix j assume j: "j < length (tlanes s)"
    have b: "of_bool (adding ?s i) = (0 :: int)"
      using a(1) by simp
    show "above ?s j + of_bool (adding s i) + int (cnt (tsem s)) + of_bool (looking s j i) \<le>
        above s j + of_bool (adding ?s i) + int (cnt (tsem ?s)) + of_bool (looking ?s j i)"
      unfolding b a(2) u n(4) using d[OF j] by linarith
  qed
  moreover have "sys_step E N (tlanes s ! k) (tlanes ?s ! k)"
    using sys_step.invoke[OF i, of "tlanes s ! k" E x] c(3)[OF k] by (simp add: n)
  ultimately show ?thesis
    using tq_invD(3,5)[OF I] by (intro tq_inv_next[OF I i o]) (simp_all add: n)
qed

text \<open>A step inside the queue \<open>k\<close>.\<close>

definition lane_moved :: "nat \<Rightarrow> nat \<Rightarrow> ('ts, 'a) MPMCQueue \<Rightarrow> 'a pc \<Rightarrow> ('s, 'ts, 'a) tqsys \<Rightarrow> ('s, 'ts, 'a) tqsys" where
  "lane_moved i k q c s = s\<lparr>tlanes := (tlanes s)[k := after_step (tlanes s ! k) i q c]\<rparr>"

lemma lane_move_split:
  assumes "lane_move E d i k s = Some s'"
  obtains q c where "step E d (queue (tlanes s ! k)) (pcs (tlanes s ! k) i) = Done (q, c)"
    "s' = lane_moved i k q c s"
  using assms by (auto simp: lane_move_def lane_moved_def simp del: step.simps split: outcome.splits)

lemma lane_moved_simps:
  assumes "k < length (tlanes s)"
  shows "tlanes (lane_moved i k q c s) ! l = (if l = k then after_step (tlanes s ! k) i q c else tlanes s ! l)"
    "length (tlanes (lane_moved i k q c s)) = length (tlanes s)" "tpcs (lane_moved i k q c s) = tpcs s"
    "tsem (lane_moved i k q c s) = tsem s" "pcs (after_step L i q c) j = (if j = i then c else pcs L j)"
    "only_thread i s (lane_moved i k q c s)"
  using assms by (simp_all add: lane_moved_def only_thread_def nth_list_update after_step_def)

lemma lane_moved_above:
  assumes "k < length (tlanes s)"
  shows "above (lane_moved i k q c s) j = above s j + (if j \<le> k then unclaimed (after_step (tlanes s ! k) i q c) - unclaimed (tlanes s ! k) else 0)"
  using above_change[of "lane_moved i k q c s" s k j] assms by (simp add: lane_moved_simps)

lemma lane_moved_inv:
  assumes I: "tq_inv E N cnt qs s" and i: "i < N" and k: "at_lane (tpcs s i) = Some k"
    and st: "inside (pcs (tlanes s ! k) i)" "step E d (queue (tlanes s ! k)) (pcs (tlanes s ! k) i) = Done (q, c)"
    and S: "sim tb cur E N (tlanes s ! k) r"
  shows "tq_inv E N cnt qs (lane_moved i k q c s)"
proof -
  let ?L = "tlanes s ! k" and ?L' = "after_step (tlanes s ! k) i q c" and ?s = "lane_moved i k q c s"
  note P = tq_invD(1)[OF I] and W = tq_invD(2)[OF I]
  have kl: "k < length (tlanes s)" and kq: "k < length qs"
    using k place_invD(2,4)[OF P, of i] tq_invD(3)[OF I] by (cases "tpcs s i"; simp)+
  note n = lane_moved_simps[OF kl] and a = lane_moved_above[OF kl] and le = tq_invD(5)[OF I kq]
  have step: "sys_step E N ?L ?L'"
    using i st by (rule sys_step.advance)
  have next_inv: "tq_inv E N cnt qs ?s" if "popsIssued ?L' \<le> length (pushed ?L')" "place_inv ?s" "wake_inv N cnt ?s"
    using tq_inv_next[OF I i n(6) that(2,3)] step that(1) by (simp add: n)
  have place: "place_inv ?s" if "\<And>l. tpcs s i = TWrite l \<Longrightarrow> writing c" "\<And>t l. tpcs s i = TRead t l \<Longrightarrow> reading c"
  proof (rule place_inv_step[OF P n(6)])
    show "\<not> inside (pcs (tlanes ?s ! l) i)" if "l < length (tlanes s)" "at_lane (tpcs ?s i) \<noteq> Some l" for l
      using that k place_invD(1)[OF P that(1), of i] by (auto simp: n)
    show "l < length (tlanes s) \<and> writing (pcs (tlanes ?s ! l) i)" if "tpcs ?s i = TWrite l" for l
      using that k kl \<open>\<And>l. tpcs s i = TWrite l \<Longrightarrow> writing c\<close> by (auto simp: n)
    show "l < length (tlanes s) \<and> reading (pcs (tlanes ?s ! l) i)" if "tpcs ?s i = TRead t l" for t l
      using that k kl \<open>\<And>t l. tpcs s i = TRead t l \<Longrightarrow> reading c\<close> by (auto simp: n)
  qed
  show ?thesis
  proof (cases "tpcs s i")
    case (TWrite l)
    then have l: "l = k" and wr: "writing (pcs ?L i)"
      using k place_invD(3)[OF P] by auto
    note m = write_moves[OF wr st]
    have look: "\<not> looking s j i" "\<not> looking ?s j i" for j
      using TWrite by (simp_all add: looking_def n)
    have add: "adding s i \<longleftrightarrow> ticketed (pcs ?L i)" "adding ?s i \<longleftrightarrow> ticketed c"
      using TWrite l by (auto simp: adding_def n)
    show ?thesis
    proof (rule next_inv)
      show "popsIssued ?L' \<le> length (pushed ?L')"
        using m(2,4) le by simp
      show "place_inv ?s"
        by (rule place) (use TWrite m(1) in simp_all)
      have u: "unclaimed ?L' = unclaimed ?L + of_bool (ticketed c) - of_bool (ticketed (pcs ?L i))"
        using m(2-4) by (auto simp: unclaimed_def)
      show "wake_inv N cnt ?s"
        by (rule wake_inv_step[OF W P n(6) i]) (use u look add m(3) in \<open>auto simp: a n(4)\<close>)
    qed
  next
    case (TRead t l)
    then have l: "l = k" and rd: "reading (pcs ?L i)"
      using k place_invD(5)[OF P] by auto
    note m = read_moves[OF S rd st]
    have add: "\<not> adding s i" "\<not> adding ?s i"
      using TRead by (simp_all add: adding_def n)
    have notNone: "pcs ?L i \<noteq> RReturn None"
      using st(1) by auto
    have look: "looking s j i \<longleftrightarrow> undecided (pcs ?L i) \<and> j \<le> k"
      "looking ?s j i \<longleftrightarrow> undecided c \<and> j \<le> k \<or> c = RReturn None \<and> j < k" for j
      using TRead l notNone by (auto simp: looking_def n)
    have pl: "place_inv ?s"
      by (rule place) (use TRead m(1) in simp_all)
    have u: "unclaimed ?L' = unclaimed ?L - (int (popsIssued ?L') - int (popsIssued ?L))"
      using m(2) by (simp add: unclaimed_def)
    have rr: "popsIssued ?L' \<le> length (pushed ?L') \<and> wake_inv N cnt ?s"
      using m(3) unfolding read_result_def
    proof (elim disjE conjE)
      assume c: "undecided (pcs ?L i)" "c = RReturn None" "popsIssued ?L' = popsIssued ?L" "length (pushed ?L) \<le> popsIssued ?L"
      have "wake_inv N cnt ?s"
        by (rule wake_inv_fail[OF W P n(6) i kl]) (use c add look u in \<open>auto simp: a n(4) unclaimed_def\<close>)
      with le m(2) c(3) show ?thesis
        by simp
    next
      assume c: "undecided (pcs ?L i)" "undecided c" "popsIssued ?L' = popsIssued ?L"
      have "wake_inv N cnt ?s"
        by (rule wake_inv_step[OF W P n(6) i]) (use c add look u in \<open>auto simp: a n(4)\<close>)
      with le m(2) c(3) show ?thesis
        by simp
    next
      assume c: "undecided (pcs ?L i)" "\<not> undecided c" "c \<noteq> RReturn None" "popsIssued ?L' = popsIssued ?L + 1" "popsIssued ?L < length (pushed ?L)"
      have "wake_inv N cnt ?s"
        by (rule wake_inv_step[OF W P n(6) i]) (use c add look u in \<open>auto simp: a n(4)\<close>)
      with m(2) c(4,5) show ?thesis
        by simp
    next
      assume c: "\<not> undecided (pcs ?L i)" "\<not> undecided c" "c \<noteq> RReturn None" "popsIssued ?L' = popsIssued ?L"
      have "wake_inv N cnt ?s"
        by (rule wake_inv_step[OF W P n(6) i]) (use c add look u in \<open>auto simp: a n(4)\<close>)
      with le m(2) c(4) show ?thesis
        by simp
    qed
    then show ?thesis
      using pl by (intro next_inv) simp_all
  qed (use k in auto)
qed

text \<open>The capacities of the queues, the environment and the semaphore.\<close>

definition tq_good :: "nat \<Rightarrow> ('ts \<Rightarrow> u32) \<Rightarrow> 'ts mpmc_env \<Rightarrow> 's sem_ops \<Rightarrow> ('s \<Rightarrow> nat) \<Rightarrow> nat \<Rightarrow> ('ts, 'a) MPMCQueue list \<Rightarrow> bool" where
  "tq_good tb cur E S cnt N qs \<longleftrightarrow> good_env tb cur E N \<and> sem_contract S cnt \<and>
     (\<forall>q \<in> set qs. \<exists>cap. newMPMCQueue E cap = Inr q \<and> unat cap + 2 * unat (slotPadding E) < 2 ^ 63)"

lemma tq_lane_sim:
  assumes "tq_good tb cur E S cnt N qs" "tq_inv E N cnt qs s" "tq_room s" "k < length (tlanes s)"
  obtains r where "sim tb cur E N (tlanes s ! k) r"
proof -
  have k: "k < length qs"
    using assms(4) tq_invD(3)[OF assms(2)] by simp
  then have "qs ! k \<in> set qs"
    by simp
  then obtain cap where cap: "newMPMCQueue E cap = Inr (qs ! k)" "unat cap + 2 * unat (slotPadding E) < 2 ^ 63"
    using assms(1) by (auto simp: tq_good_def)
  have "has_room (tlanes s ! k)"
    using assms(3,4) by (simp add: tq_room_def)
  then show thesis
    using reach_sim[OF tq_invD(4)[OF assms(2) k] cap] assms(1) that by (auto simp: tq_good_def)
qed

lemma outside_lanes:
  assumes "place_inv s" "k < length (tlanes s)"
    and "at_lane (tpcs s i) = None \<or> (\<exists>l. at_lane (tpcs s i) = Some l \<and> \<not> inside (pcs (tlanes s ! l) i))"
  shows "\<not> inside (pcs (tlanes s ! k) i)"
  using assms(3) place_invD(1)[OF assms(1,2), of i] by (cases "at_lane (tpcs s i) = Some k") auto

lemma read_next_inv:
  assumes I: "tq_inv E N cnt qs s" and i: "i < N" and k: "k \<le> length (tlanes s)"
    and out: "\<And>k. k < length (tlanes s) \<Longrightarrow> \<not> inside (pcs (tlanes s ! k) i)"
    and d: "\<not> adding s i" "\<And>j. j < length (tlanes s) \<Longrightarrow> int (cnt (tsem s)) + of_bool (looking s j i) \<le> int (cnt m) + of_bool (j < k)"
  shows "tq_inv E N cnt qs (read_next timed i k (s\<lparr>tsem := m\<rparr>))"
proof (cases k)
  case 0
  show ?thesis
    unfolding 0 read_next.simps by (rule rest_inv[OF I i]) (use out d 0 in auto)
next
  case (Suc l)
  show ?thesis
    unfolding Suc read_next.simps
    by (rule lane_call_inv[OF I i, where timed = timed]) (use k out d Suc in \<open>auto simp: less_Suc_eq_le\<close>)
qed

lemma same_sem: "s\<lparr>tsem := tsem s\<rparr> = (s :: ('s, 'ts, 'a) tqsys)"
  by simp

lemma tq_begin_inv:
  assumes I: "tq_inv E N cnt qs s" and i: "i < N" and out: "\<not> tq_inside (tpcs s i)"
  shows "tq_inv E N cnt qs (tq_begin kBehavior lane i c s)"
proof -
  note P = tq_invD(1)[OF I]
  have lane: "at_lane (tpcs s i) = None" "tpcs s i \<noteq> TPost"
    using out by (cases "tpcs s i"; simp)+
  then have free: "\<not> inside (pcs (tlanes s ! k) i)" if "k < length (tlanes s)" for k
    using outside_lanes[OF P that, of i] by simp
  have no: "\<not> adding s i" "\<not> looking s j i" for j
    using lane by (auto simp: adding_def looking_def)
  have rd: "tq_inv E N cnt qs (read_next timed i (length (tlanes s)) s)" for timed
    using read_next_inv[OF I i order_refl free no(1), of "tsem s" timed] no(2) by (simp add: same_sem)
  show ?thesis
  proof (cases c)
    case (TqAdd v priority)
    let ?k = "lane (length (tlanes s)) priority"
    have bad: "tq_inv E N cnt qs (to_pc i (TThrew QueueCheckFailed) s)"
      using rest_inv[OF I i _ free, of "TThrew QueueCheckFailed" "tsem s"] no by (simp add: same_sem)
    have ok: "tq_inv E N cnt qs (to_pc i (TWrite ?k) (lane_call i ?k x s))" if "?k < length (tlanes s)" "writing (enter x)" "\<not> ticketed (enter x)" for x
      using lane_call_inv[OF I i that(1), of "TWrite ?k" x _ "tsem s"] that(2,3) no free by (simp add: same_sem)
    show ?thesis
      using bad ok[of "WriteIfNotFull v"] ok[of "BlockingWrite v"] TqAdd by (cases kBehavior) (auto simp: Let_def)
  qed (use rd in simp_all)
qed

lemma tq_move_inv:
  assumes G: "tq_good tb cur E S cnt N qs" and I: "tq_inv E N cnt qs s" and R: "tq_room s" and i: "i < N"
    and mv: "tq_move E S d i s = Some s'"
  shows "tq_inv E N cnt qs s'"
proof -
  note P = tq_invD(1)[OF I]
  have sem: "semPost S x = (b, y) \<Longrightarrow> cnt y = cnt x + 1" "semTryWait S x = Some y \<Longrightarrow> cnt y + 1 = cnt x" for x b y
    using G by (auto simp: tq_good_def sem_contract_def)
  have inner: "tq_inv E N cnt qs s'" if k: "at_lane (tpcs s i) = Some k" "inside (pcs (tlanes s ! k) i)" "lane_move E d i k s = Some s'" for k
  proof -
    have "k < length (tlanes s)"
      using k(1) place_invD(2,4)[OF P, of i] by (cases "tpcs s i"; simp)
    then obtain r where "sim tb cur E N (tlanes s ! k) r"
      using tq_lane_sim[OF G I R] by blast
    then show ?thesis
      using lane_moved_inv[OF I i k(1,2)] lane_move_split[OF k(3)] by metis
  qed
  have rest: "tq_inv E N cnt qs (to_pc i c s)" if "at_lane c = None" "at_lane (tpcs s i) = None \<or> (\<exists>l. at_lane (tpcs s i) = Some l \<and> \<not> inside (pcs (tlanes s ! l) i))"
    "adding s i \<Longrightarrow> c = TPost" "\<And>j. \<not> looking s j i" for c
    using rest_inv[OF I i that(1), of "tsem s"] outside_lanes[OF P _ that(2)] that(3,4) by (simp add: same_sem)
  show ?thesis
  proof (cases "tpcs s i")
    case (TWrite k)
    show ?thesis
    proof (cases "pcs (tlanes s ! k) i")
      case (WReturn ok)
      have "tq_inv E N cnt qs (to_pc i (if ok then TPost else TThrew QueueFullException) s)"
        by (rule rest) (use TWrite WReturn in \<open>auto simp: adding_def looking_def\<close>)
      then show ?thesis
        using mv TWrite WReturn by (simp add: tq_move_def)
    qed (use mv TWrite inner[of k] place_invD(3)[OF P TWrite] in \<open>auto simp: tq_move_def\<close>)
  next
    case TPost
    obtain b m where p: "semPost S (tsem s) = (b, m)"
      by fastforce
    have "tq_inv E N cnt qs (to_pc i (TAdded b) (s\<lparr>tsem := m\<rparr>))"
      by (rule rest_inv[OF I i]) (use TPost outside_lanes[OF P, of _ i] sem(1)[OF p] in \<open>auto simp: adding_def looking_def\<close>)
    then show ?thesis
      using mv TPost p by (simp add: tq_move_def)
  next
    case (TRead timed k)
    show ?thesis
    proof (cases "pcs (tlanes s ! k) i")
      case (RReturn r)
      note k = place_invD(4)[OF P TRead]
      have free: "\<not> inside (pcs (tlanes s ! l) i)" if "l < length (tlanes s)" for l
        using outside_lanes[OF P that, of i] TRead RReturn by simp
      have look: "looking s j i \<longleftrightarrow> r = None \<and> j < k" "\<not> adding s i" for j
        using TRead RReturn by (auto simp: looking_def adding_def)
      show ?thesis
      proof (cases r)
        case None
        have "tq_inv E N cnt qs (read_next timed i k (s\<lparr>tsem := tsem s\<rparr>))"
          by (rule read_next_inv[OF I i]) (use k free look in auto)
        then show ?thesis
          using mv TRead RReturn None by (simp add: tq_move_def same_sem)
      next
        case (Some p)
        then have "tq_inv E N cnt qs (to_pc i (TTook (Some (snd p))) s)"
          by (intro rest) (use TRead RReturn look in auto)
        then show ?thesis
          using mv TRead RReturn Some by (cases p) (simp add: tq_move_def)
      qed
    qed (use mv TRead inner[of k] place_invD(5)[OF P TRead] in \<open>auto simp: tq_move_def\<close>)
  next
    case (TWait timed)
    have no: "\<not> adding s i" "\<not> looking s j i" for j
      using TWait by (simp_all add: adding_def looking_def)
    have free: "\<not> inside (pcs (tlanes s ! l) i)" if "l < length (tlanes s)" for l
      using outside_lanes[OF P that, of i] TWait by simp
    show ?thesis
    proof (cases "semTryWait S (tsem s)")
      case None
      then show ?thesis
        using mv TWait rest[of "TTook None"] no by (simp add: tq_move_def split: if_splits)
    next
      case (Some m)
      have "tq_inv E N cnt qs (read_next timed i (length (tlanes s)) (s\<lparr>tsem := m\<rparr>))"
        by (rule read_next_inv[OF I i]) (use free no sem(2)[OF Some] in auto)
      then show ?thesis
        using mv TWait Some by (simp add: tq_move_def)
    qed
  qed (use mv in \<open>simp_all add: tq_move_def\<close>)
qed

section \<open>Reachable states\<close>

text \<open>What a step of the system does to one queue.\<close>

definition lane_change :: "'ts mpmc_env \<Rightarrow> QueueBehaviorIfFull \<Rightarrow> ('ts, 'a) sys \<Rightarrow> ('ts, 'a) sys \<Rightarrow> bool" where
  "lane_change E kBehavior L L' \<longleftrightarrow> L' = L \<or>
     (\<exists>i x. L' = L\<lparr>pcs := (pcs L)(i := enter x)\<rparr> \<and>
        (x = ReadIfNotEmpty \<or> (\<exists>v. x = (case kBehavior of THROW \<Rightarrow> WriteIfNotFull v | BLOCK \<Rightarrow> BlockingWrite v)))) \<or>
     (\<exists>i d q c. step E d (queue L) (pcs L i) = Done (q, c) \<and> L' = after_step L i q c)"

lemma lane_change_refl [simp]: "lane_change E kBehavior L L"
  by (simp add: lane_change_def)

lemma lane_change_step: "step E d (queue L) (pcs L i) = Done (q, c) \<Longrightarrow> lane_change E kBehavior L (after_step L i q c)"
  unfolding lane_change_def by blast

definition lanes_change :: "'ts mpmc_env \<Rightarrow> QueueBehaviorIfFull \<Rightarrow> ('s, 'ts, 'a) tqsys \<Rightarrow> ('s, 'ts, 'a) tqsys \<Rightarrow> bool" where
  "lanes_change E kBehavior s s' \<longleftrightarrow> list_all2 (lane_change E kBehavior) (tlanes s) (tlanes s')"

lemma lanes_change_same: "tlanes s' = tlanes s \<Longrightarrow> lanes_change E kBehavior s s'"
  by (simp add: lanes_change_def list_all2_refl)

lemma lanes_change_one:
  assumes "tlanes s' = (tlanes s)[k := L]" "k < length (tlanes s) \<Longrightarrow> lane_change E kBehavior (tlanes s ! k) L"
  shows "lanes_change E kBehavior s s'"
proof -
  have "lane_change E kBehavior (tlanes s ! l) ((tlanes s)[k := L] ! l)" if "l < length (tlanes s)" for l
    using assms(2) that by (cases "l = k") simp_all
  then show ?thesis
    using assms(1) by (simp add: lanes_change_def list_all2_conv_all_nth)
qed

lemma lanes_change_read_next:
  assumes "tlanes s' = tlanes s"
  shows "lanes_change E kBehavior s (read_next timed i k s')"
proof (cases k)
  case (Suc l)
  then show ?thesis
    using assms by (intro lanes_change_one[of _ _ l])
      (auto simp: to_pc_def lane_call_def lane_change_def simp del: enter.simps intro!: exI[of _ i] exI[of _ ReadIfNotEmpty])
qed (use assms in \<open>simp add: lanes_change_same to_pc_def\<close>)

lemma lanes_change_write:
  "lanes_change E kBehavior s (to_pc i c (lane_call i k (case kBehavior of THROW \<Rightarrow> WriteIfNotFull v | BLOCK \<Rightarrow> BlockingWrite v) s))"
  by (rule lanes_change_one[of _ _ k])
    (auto simp: to_pc_def lane_call_def lane_change_def simp del: enter.simps)

lemma lanes_change_move: "lane_move E d i k s = Some s' \<Longrightarrow> lanes_change E kBehavior s s'"
  by (erule lane_move_split, rule lanes_change_one[of _ _ k]) (auto simp: lane_moved_def intro: lane_change_step)

lemma tq_step_lanes:
  assumes "tq_step E S kBehavior lane N s s'"
  shows "lanes_change E kBehavior s s'"
  using assms
proof cases
  case (begin_call i c)
  then show ?thesis
    by (cases c) (auto simp: Let_def lanes_change_read_next lanes_change_write lanes_change_same to_pc_def[of _ "TThrew QueueCheckFailed"])
next
  case (move i d)
  then show ?thesis
    by (auto simp: tq_move_def lanes_change_read_next to_pc_def[of _ "TTook _"] to_pc_def[of _ TPost] to_pc_def[of _ "TThrew _"]
        to_pc_def[of _ "TAdded _"] Let_def intro: lanes_change_move lanes_change_same
        split: tq_pc.splits pc.splits option.splits prod.splits if_splits)
qed

lemma lane_change_room: "lane_change E kBehavior L L' \<Longrightarrow> has_room L' \<Longrightarrow> has_room L"
  by (auto simp: lane_change_def has_room_def after_step_def)

lemma tq_room_back:
  assumes "tq_step E S kBehavior lane N s s'" "tq_room s'"
  shows "tq_room s"
proof -
  note c = tq_step_lanes[OF assms(1), unfolded lanes_change_def]
  have "has_room (tlanes s ! k)" if "k < length (tlanes s)" for k
    using lane_change_room[OF list_all2_nthD[OF c that]] list_all2_lengthD[OF c] that assms(2) by (simp add: tq_room_def)
  then show ?thesis
    by (auto simp: tq_room_def in_set_conv_nth)
qed

lemma tq_inv_init:
  assumes "sem_contract S cnt"
  shows "tq_inv E N cnt qs (tq_init S qs)"
proof -
  have "above (tq_init S qs) j = 0" for j
    by (simp add: above_def tq_init_def unclaimed_def sys_init_def)
  then show ?thesis
    by (auto simp: tq_inv_def place_inv_def wake_inv_def threads_def tq_init_def sys_init_def intro: sys_reach.init[unfolded sys_init_def])
qed

lemma tq_reach_inv:
  assumes "tq_reach E S kBehavior lane N qs s" "tq_good tb cur E S cnt N qs" "tq_room s"
  shows "tq_inv E N cnt qs s"
  using assms(1,3)
proof (induction rule: tq_reach.induct)
  case init
  then show ?case
    using assms(2) by (intro tq_inv_init) (simp add: tq_good_def)
next
  case (step s s')
  note R = tq_room_back[OF step.hyps(2) step.prems]
  note I = step.IH[OF R]
  from step.hyps(2) show ?case
    by cases (use tq_begin_inv[OF I] tq_move_inv[OF assms(2) I R] in blast)+
qed

end
