(* ===== verification/TaskQueueWakeups.thy ===== *)
theory TaskQueueWakeups
  imports ConcurrentTaskQueues BlockingQueues MPMCProperties
begin

text \<open>
  States of \<open>ConcurrentTaskQueues\<close> in which no thread can go on: the waiting writers are counted against the capacities and
  the invariant of the wake-ups, which leaves only takers of empty queues, or writers to full ones.
\<close>

section \<open>With \<open>THROW\<close>, tickets are promised\<close>

text \<open>With \<open>THROW\<close> a writer only has a ticket that the readers have promised to make room for: \<open>n\<close> is the number of pop
  tickets plus the capacity.\<close>

fun promised :: "nat \<Rightarrow> 'a pc \<Rightarrow> bool" where
  "promised n (Enqueueing t c v) = (unat t < n)"
| "promised n (WBlocking v) = False"
| "promised n c = (writing c \<or> reading c \<or> \<not> inside c)"

definition promising :: "('ts, 'a) sys \<Rightarrow> bool" where
  "promising L \<longleftrightarrow> (\<forall>i. promised (popsIssued L + qcap (queue L)) (pcs L i))"

lemma promised_mono: "promised n c \<Longrightarrow> n \<le> m \<Longrightarrow> promised m c"
  by (cases "(n, c)" rule: promised.cases) auto

lemma promised_move:
  assumes S: "sim tb cur E N L r" and st: "step E d (queue L) (pcs L i) = Done (q, c)"
    and p: "promised (popsIssued L + qcap (queue L)) (pcs L i)"
  shows "promised (popsIssued L + qcap (queue L)) c"
proof -
  note m = queue_matchD(2)[OF simD(2)[OF S]] and ok = simD(4)[OF S, of i] and n = simD(7)[OF S]
  show ?thesis
  proof (cases "pcs L i")
    case (WPromised timed x v)
    then show ?thesis
      using st p ok m n by (cases x) (auto simp: Let_def split: if_splits)
  next
    case (RPromised timed x)
    then show ?thesis
      using st p by (cases x) (auto simp: Let_def split: if_splits)
  next
    case (Enqueueing t x v)
    then show ?thesis
      using st p by (cases x) (auto simp: with_slot_def bind_outcome_Done_iff split: if_splits)
  next
    case (Dequeueing t x)
    then show ?thesis
      using st p by (cases x) (auto simp: with_slot_def bind_outcome_Done_iff split: if_splits)
  qed (use st p in auto)
qed

lemma promising_change:
  assumes c: "lane_change E THROW L L'" and S: "sim tb cur E N L r" and p: "promising L"
  shows "promising L'"
  using c unfolding lane_change_def
proof (elim disjE exE conjE)
  fix i d q c assume st: "step E d (queue L) (pcs L i) = Done (q, c)" "L' = after_step L i q c"
  then have "qcap (queue L') = qcap (queue L)"
    using step_capacity[OF st(1)] by (simp add: after_step_def)
  then show ?thesis
    using promised_move[OF S st(1)] p st(2)
    by (auto simp: promising_def after_step_def intro: promised_mono)
qed (use p in \<open>auto simp: promising_def\<close>)

lemma tq_reach_promising:
  assumes "tq_reach E S THROW lane N qs s" "tq_good tb cur E S cnt N qs" "tq_room s" "k < length (tlanes s)"
  shows "promising (tlanes s ! k)"
  using assms(1,3,4)
proof (induction rule: tq_reach.induct)
  case init
  then show ?case
    by (simp add: tq_init_def promising_def sys_init_def)
next
  case (step s s')
  note R = tq_room_back[OF step.hyps(2) step.prems(1)]
  note c = tq_step_lanes[OF step.hyps(2), unfolded lanes_change_def]
  have k: "k < length (tlanes s)"
    using list_all2_lengthD[OF c] step.prems(2) by simp
  obtain r where "sim tb cur E N (tlanes s ! k) r"
    using tq_lane_sim[OF assms(2) tq_reach_inv[OF step.hyps(1) assms(2) R] R k] .
  then show ?case
    using promising_change[OF list_all2_nthD[OF c k]] step.IH[OF R k] by blast
qed

section \<open>States in which nobody can move\<close>

definition tq_stuck :: "'ts mpmc_env \<Rightarrow> 's sem_ops \<Rightarrow> nat \<Rightarrow> ('s, 'ts, 'a) tqsys \<Rightarrow> bool" where
  "tq_stuck E S N s \<longleftrightarrow> (\<forall>i < N. tq_move E S False i s = None)"

lemma stuck_lane:
  assumes "tq_stuck E S N s" "i < N" "at_lane (tpcs s i) = Some k" "inside (pcs (tlanes s ! k) i)"
  shows "step E False (queue (tlanes s ! k)) (pcs (tlanes s ! k) i) \<noteq> Done (q, c)"
proof
  assume st: "step E False (queue (tlanes s ! k)) (pcs (tlanes s ! k) i) = Done (q, c)"
  have "tq_move E S False i s = lane_move E False i k s"
    using assms(3,4) by (cases "tpcs s i"; cases "pcs (tlanes s ! k) i") (simp_all add: tq_move_def)
  moreover have "lane_move E False i k s \<noteq> None"
    using st by (simp add: lane_move_def)
  ultimately show False
    using assms(1,2) by (simp add: tq_stuck_def)
qed

lemma blocking_writer:
  assumes "writing c" "inside c" "step E d q c = Blocks"
  shows "\<exists>t v. c = Enqueueing t EnqWaitTurn v"
proof (cases c)
  case (WPromised timed x v)
  then show ?thesis
    using assms by (cases x) (auto simp: Let_def split: if_splits)
next
  case (Enqueueing t x v)
  then show ?thesis
    using assms by (cases x) (auto simp: with_slot_def enqueue_construct_def split: if_splits option.splits)
qed (use assms in auto)

lemma blocking_reader:
  assumes "reading c" "inside c" "step E d q c = Blocks"
  shows "\<exists>t. c = Dequeueing t DeqWaitTurn"
proof (cases c)
  case (RPromised timed x)
  then show ?thesis
    using assms by (cases x) (auto simp: Let_def split: if_splits)
next
  case (Dequeueing t x)
  then show ?thesis
    using assms by (cases x) (auto simp: with_slot_def dequeue_move_def split: if_splits option.splits)
qed (use assms in auto)

text \<open>A system at rest, as seen from the queue \<open>k\<close>.\<close>

lemma stuck_sim:
  assumes G: "tq_good tb cur E S cnt N qs" and I: "tq_inv E N cnt qs s" and R: "tq_room s" and T: "tq_stuck E S N s"
    and k: "k < length (tlanes s)" and S: "sim tb cur E N (tlanes s ! k) r"
  shows "\<not> advances r j"
    "deqT (stages r j) = None" "enqT (stages r j) = Some t \<Longrightarrow> pops r + rcap r \<le> t"
    "inside (pcs (tlanes s ! k) j) \<Longrightarrow> \<exists>t v. tpcs s j = TWrite k \<and> pcs (tlanes s ! k) j = Enqueueing t EnqWaitTurn v"
proof -
  let ?L = "tlanes s ! k"
  note P = tq_invD(1)[OF I] and kq = k[unfolded tq_invD(3)[OF I]]
  have E: "good_env tb cur E N" and room: "has_room ?L"
    using G R k by (simp_all add: tq_good_def tq_room_def)
  have lane: "at_lane (tpcs s j) = Some k" "j < N" if "inside (pcs ?L j)" for j
  proof -
    show l: "at_lane (tpcs s j) = Some k"
      using place_invD(1)[OF P k, of j] that by blast
    then show "j < N"
      using tq_invD(6)[OF I, of j] by (cases "j < N") simp_all
  qed
  show no: "\<not> advances r j" for j
  proof
    assume "advances r j"
    from advances_moves[OF S E room this, of False] show False
      using stuck_lane[OF T] lane[of j] by blast
  qed
  show nd: "deqT (stages r j) = None" for j
  proof (cases "deqT (stages r j)")
    case (Some t)
    then have "t < pops r"
      using pop_sideD(1) simD(1)[OF S] by (auto simp: ring_inv_def)
    then have "t < pushes r"
      using simD(7,9)[OF S] tq_invD(5)[OF I kq] by simp
    then show ?thesis
      using deq_progress[OF simD(1)[OF S] Some] no by blast
  qed
  show "pops r + rcap r \<le> t" if "enqT (stages r j) = Some t"
    using enq_progress[OF simD(1)[OF S] that] no by (meson not_le)
  show "\<exists>t v. tpcs s j = TWrite k \<and> pcs ?L j = Enqueueing t EnqWaitTurn v" if j: "inside (pcs ?L j)"
  proof -
    note l = lane[OF j]
    have "step E False (queue ?L) (pcs ?L j) \<noteq> Undefined"
      using simulated_step[OF S E room l(2) j, of False] by auto
    then have b: "step E False (queue ?L) (pcs ?L j) = Blocks"
      using stuck_lane[OF T l(2,1) j] by (cases "step E False (queue ?L) (pcs ?L j)") auto
    show ?thesis
    proof (cases "tpcs s j")
      case (TWrite l)
      then show ?thesis
        using blocking_writer[OF _ j b] place_invD(3)[OF P TWrite] \<open>at_lane (tpcs s j) = Some k\<close> by auto
    next
      case (TRead timed l)
      then obtain t where "pcs ?L j = Dequeueing t DeqWaitTurn"
        using blocking_reader[OF _ j b] place_invD(5)[OF P TRead] \<open>at_lane (tpcs s j) = Some k\<close> by auto
      then show ?thesis
        using nd[of j] simD(3)[OF S, of j] by simp
    qed (use \<open>at_lane (tpcs s j) = Some k\<close> in auto)
  qed
qed

text \<open>A writer at rest waits for room in its queue, and nobody is looking for a value.\<close>

definition waits_for_room :: "('s, 'ts, 'a) tqsys \<Rightarrow> nat \<Rightarrow> nat \<Rightarrow> u64 \<Rightarrow> bool" where
  "waits_for_room s i k t \<longleftrightarrow> tpcs s i = TWrite k \<and> k < length (tlanes s) \<and>
     (\<exists>v. pcs (tlanes s ! k) i = Enqueueing t EnqWaitTurn v) \<and>
     popsIssued (tlanes s ! k) + qcap (queue (tlanes s ! k)) \<le> unat t \<and> unat t < length (pushed (tlanes s ! k))"

lemma stuck_threads:
  assumes G: "tq_good tb cur E S cnt N qs" and I: "tq_inv E N cnt qs s" and R: "tq_room s" and T: "tq_stuck E S N s"
    and i: "i < N"
  shows "tpcs s i \<noteq> TPost" "tpcs s i \<noteq> TRead timed k" "tpcs s i = TWrite k \<Longrightarrow> \<exists>t. waits_for_room s i k t"
    "tpcs s i = TWait timed \<Longrightarrow> cnt (tsem s) = 0"
proof -
  note P = tq_invD(1)[OF I]
  have none: "tq_move E S False i s = None"
    using T i by (simp add: tq_stuck_def)
  then show "tpcs s i \<noteq> TPost"
    by (auto simp: tq_move_def split: prod.splits)
  have inner: "inside (pcs (tlanes s ! l) i)" if "at_lane (tpcs s i) = Some l" for l
    using that none place_invD(3,5)[OF P, of i]
    by (cases "tpcs s i"; cases "pcs (tlanes s ! l) i") (auto simp: tq_move_def split: option.splits)
  show "tpcs s i \<noteq> TRead timed k"
  proof
    assume c: "tpcs s i = TRead timed k"
    obtain r where S: "sim tb cur E N (tlanes s ! k) r"
      using tq_lane_sim[OF G I R place_invD(4)[OF P c]] .
    show False
      using stuck_sim(4)[OF G I R T place_invD(4)[OF P c] S inner[of k]] c by simp
  qed
  show "\<exists>t. waits_for_room s i k t" if c: "tpcs s i = TWrite k"
  proof -
    note k = place_invD(2)[OF P c]
    obtain r where S: "sim tb cur E N (tlanes s ! k) r"
      using tq_lane_sim[OF G I R k] .
    obtain t v where e: "pcs (tlanes s ! k) i = Enqueueing t EnqWaitTurn v"
      using stuck_sim(4)[OF G I R T k S inner[of k]] c by auto
    then have "enqT (stages r i) = Some (unat t)"
      using simD(3)[OF S, of i] by simp
    then have "pops r + rcap r \<le> unat t" "unat t < pushes r"
      using stuck_sim(3)[OF G I R T k S] push_sideD(1) simD(1)[OF S] by (auto simp: ring_inv_def)
    then show ?thesis
      using c k e simD(7,9)[OF S] queue_matchD(2)[OF simD(2)[OF S]] by (auto simp: waits_for_room_def)
  qed
  show "cnt (tsem s) = 0" if "tpcs s i = TWait timed"
    using none that G by (auto simp: tq_move_def tq_good_def sem_contract_def split: option.splits)
qed

lemma waits_for_room_unique:
  assumes G: "tq_good tb cur E S cnt N qs" and I: "tq_inv E N cnt qs s" and R: "tq_room s"
    and w: "waits_for_room s i k t" "waits_for_room s j k t"
  shows "i = j"
proof -
  obtain r where S: "sim tb cur E N (tlanes s ! k) r"
    using tq_lane_sim[OF G I R, of k] w(1) by (auto simp: waits_for_room_def)
  have "enqT (stages r i) = Some (unat t)" "enqT (stages r j) = Some (unat t)"
    using w simD(3)[OF S, of i] simD(3)[OF S, of j] by (auto simp: waits_for_room_def)
  then show ?thesis
    using push_sideD(5) simD(1)[OF S] by (auto simp: ring_inv_def)
qed

text \<open>The waiting writers hold different tickets beyond the capacities.\<close>

lemma waiting_writers:
  assumes G: "tq_good tb cur E S cnt N qs" and I: "tq_inv E N cnt qs s" and R: "tq_room s" and T: "tq_stuck E S N s"
  shows "threads N (adding s) \<le>
    (\<Sum>k<length (tlanes s). int (length (pushed (tlanes s ! k)) - (popsIssued (tlanes s ! k) + qcap (queue (tlanes s ! k)))))"
proof -
  let ?A = "{i. i < N \<and> adding s i}"
  let ?B = "\<lambda>k. {popsIssued (tlanes s ! k) + qcap (queue (tlanes s ! k))..<length (pushed (tlanes s ! k))}"
  define f where "f = (\<lambda>i. SOME p. waits_for_room s i (fst p) (snd p))"
  have f: "waits_for_room s i (fst (f i)) (snd (f i))" if "i \<in> ?A" for i
  proof -
    have "\<exists>k t. waits_for_room s i k t"
      using that stuck_threads(1,3)[OF G I R T, of i] by (auto simp: adding_def)
    then have "\<exists>p. waits_for_room s i (fst p) (snd p)"
      by simp
    then show ?thesis
      unfolding f_def by (rule someI_ex)
  qed
  let ?g = "\<lambda>i. (fst (f i), unat (snd (f i)))"
  have "inj_on ?g ?A"
  proof (rule inj_onI)
    fix i j assume ij: "i \<in> ?A" "j \<in> ?A" "?g i = ?g j"
    then have "f i = f j"
      by (simp add: prod_eq_iff word_unat_eq_iff)
    then show "i = j"
      using waits_for_room_unique[OF G I R f[OF ij(1)], of j] f[OF ij(2)] by simp
  qed
  moreover have "?g ` ?A \<subseteq> Sigma {..<length (tlanes s)} ?B"
    using f by (auto simp: waits_for_room_def)
  ultimately have "card ?A \<le> card (Sigma {..<length (tlanes s)} ?B)"
    by (intro card_inj_on_le) auto
  also have "\<dots> = (\<Sum>k<length (tlanes s). card (?B k))"
    by (rule card_SigmaI) auto
  finally have "int (card ?A) \<le> (\<Sum>k<length (tlanes s). int (card (?B k)))"
    by (simp flip: of_nat_sum)
  then show ?thesis
    by (simp add: threads_def)
qed

text \<open>A taker that waits while nobody can move: every queue is empty.\<close>

lemma stuck_empty:
  assumes G: "tq_good tb cur E S cnt N qs" and I: "tq_inv E N cnt qs s" and R: "tq_room s" and T: "tq_stuck E S N s"
    and i: "i < N" "tpcs s i = TWait timed" and k: "k < length (tlanes s)"
  shows "popsIssued (tlanes s ! k) = length (pushed (tlanes s ! k))"
proof (rule ccontr)
  assume ne: "popsIssued (tlanes s ! k) \<noteq> length (pushed (tlanes s ! k))"
  let ?over = "\<lambda>k. int (length (pushed (tlanes s ! k)) - (popsIssued (tlanes s ! k) + qcap (queue (tlanes s ! k))))"
  have le: "popsIssued (tlanes s ! l) \<le> length (pushed (tlanes s ! l))" if "l < length (tlanes s)" for l
    using tq_invD(5)[OF I, of l] that tq_invD(3)[OF I] by simp
  obtain r where S: "sim tb cur E N (tlanes s ! k) r"
    using tq_lane_sim[OF G I R k] .
  have "0 < qcap (queue (tlanes s ! k))"
    using wf_queueD(1)[OF queue_matchD(1)[OF simD(2)[OF S]]] .
  then have lt: "?over k < unclaimed (tlanes s ! k)"
    using le[OF k] ne by (simp add: unclaimed_def)
  have "?over l \<le> unclaimed (tlanes s ! l)" if "l < length (tlanes s)" for l
    unfolding unclaimed_def using le[OF that] by linarith
  then have "(\<Sum>k<length (tlanes s). ?over k) < (\<Sum>k<length (tlanes s). unclaimed (tlanes s ! k))"
    using k lt by (intro sum_strict_mono_ex1) auto
  moreover have "(\<Sum>k<length (tlanes s). unclaimed (tlanes s ! k)) = above s 0"
    by (simp add: above_def atLeast0LessThan)
  moreover have "threads N (looking s 0) = 0"
    using stuck_threads(2)[OF G I R T] by (auto simp: threads_def looking_def)
  moreover have "above s 0 \<le> threads N (adding s) + int (cnt (tsem s)) + threads N (looking s 0)"
    by (rule tq_invD(2)[OF I, unfolded wake_inv_def, rule_format, OF le_less_trans[OF le0 k]])
  ultimately show False
    using waiting_writers[OF G I R T] stuck_threads(4)[OF G I R T i] by simp
qed

lemma stuck_delivered:
  assumes G: "tq_good tb cur E S cnt N qs" and I: "tq_inv E N cnt qs s" and R: "tq_room s" and T: "tq_stuck E S N s"
    and i: "i < N" "tpcs s i = TWait timed" and k: "k < length (tlanes s)"
  shows "set (delivered (tlanes s ! k)) = (\<lambda>t. (t, pushed (tlanes s ! k) ! t)) ` {..<length (pushed (tlanes s ! k))}"
    "distinct (map fst (delivered (tlanes s ! k)))"
proof -
  let ?L = "tlanes s ! k"
  obtain r where S: "sim tb cur E N ?L r"
    using tq_lane_sim[OF G I R k] .
  have "(t, written r ! t) \<in> set (taken r)" if "t < pops r" for t
    using ring_inv_served[OF simD(1)[OF S] that] stuck_sim(2)[OF G I R T k S] by simp
  then have "(t, pushed ?L ! t) \<in> set (delivered ?L)" if "t < length (pushed ?L)" for t
    using that simD(6-8)[OF S] stuck_empty[OF assms] by simp
  moreover have "t < length (pushed ?L) \<and> v = pushed ?L ! t" if "(t, v) \<in> set (delivered ?L)" for t v
    using ring_inv_fifo(2)[OF simD(1)[OF S], of t v] that simD(6,8)[OF S] by simp
  ultimately show "set (delivered ?L) = (\<lambda>t. (t, pushed ?L ! t)) ` {..<length (pushed ?L)}"
    by fastforce
  show "distinct (map fst (delivered ?L))"
    using ring_inv_fifo(1)[OF simD(1)[OF S]] simD(8)[OF S] by simp
qed

section \<open>No lost wake-up\<close>

text \<open>C19. Cn. Any number of threads add to and take from one \<open>PriorityLifoSemMPMCQueue\<close> (or
  \<open>LifoSemMPMCQueue\<close>, its case of one queue) in any interleaving of the atomic steps of its queues
  and its semaphore. When nobody can go on before a deadline passes, every thread that is inside a call either is a
  taker at the semaphore, or an adder that waits for room in a full queue, which happens with \<open>BLOCK\<close> only. And if there is
  a taker among them, no wake-up has been lost: the semaphore is at zero, nobody waits to add, and every value ever added to
  any of the queues has been taken, once.\<close>

theorem tq_no_lost_wakeup:
  assumes "tq_good tb cur E S cnt N qs" "tq_reach E S kBehavior lane N qs s" "tq_room s"
    and "\<forall>i < N. tq_move E S False i s = None" "i < N" "tq_inside (tpcs s i)"
  shows "(\<exists>k t. waits_for_room s i k t \<and> kBehavior = BLOCK) \<or>
     (\<exists>timed. tpcs s i = TWait timed) \<and> cnt (tsem s) = 0 \<and> (\<forall>j < N. \<forall>k t. \<not> waits_for_room s j k t) \<and>
     (\<forall>L \<in> set (tlanes s). distinct (map fst (delivered L)) \<and>
        set (delivered L) = (\<lambda>t. (t, pushed L ! t)) ` {..<length (pushed L)})"
proof -
  note G = assms(1) and R = assms(3)
  note I = tq_reach_inv[OF assms(2) G R]
  have T: "tq_stuck E S N s"
    using assms(4) by (simp add: tq_stuck_def)
  note st = stuck_threads[OF G I R T assms(5)]
  show ?thesis
  proof (cases "tpcs s i")
    case (TWrite k)
    then obtain t where t: "waits_for_room s i k t"
      using st(3) by blast
    moreover have False if "kBehavior = THROW"
    proof -
      have "promising (tlanes s ! k)"
        using tq_reach_promising[of E S lane N qs s tb cur cnt k] assms(2) that G R t by (simp add: waits_for_room_def)
      then have "promised (popsIssued (tlanes s ! k) + qcap (queue (tlanes s ! k))) (pcs (tlanes s ! k) i)"
        by (simp add: promising_def)
      then show False
        using t by (auto simp: waits_for_room_def)
    qed
    ultimately show ?thesis
      by (cases kBehavior) auto
  next
    case (TWait timed)
    have "\<not> waits_for_room s j k t" for j k t
      using stuck_empty[OF G I R T assms(5) TWait, of k] by (auto simp: waits_for_room_def)
    moreover have "distinct (map fst (delivered L)) \<and> set (delivered L) = (\<lambda>t. (t, pushed L ! t)) ` {..<length (pushed L)}"
      if "L \<in> set (tlanes s)" for L
      using stuck_delivered[OF G I R T assms(5) TWait] that by (auto simp: in_set_conv_nth)
    ultimately show ?thesis
      using TWait st(4) by auto
  qed (use st(1,2) assms(6) in auto)
qed

text \<open>Interleavings given as lists of events.\<close>

datatype 'a tq_event =
    TqCall nat "'a tq_call"  \<comment> \<open>thread, operation\<close>
  | TqMove nat bool          \<comment> \<open>thread, whether its deadline has passed\<close>

fun tq_apply :: "'ts mpmc_env \<Rightarrow> 's sem_ops \<Rightarrow> QueueBehaviorIfFull \<Rightarrow> (nat \<Rightarrow> int \<Rightarrow> nat) \<Rightarrow> nat \<Rightarrow>
    ('s, 'ts, 'a) tqsys \<Rightarrow> 'a tq_event \<Rightarrow> ('s, 'ts, 'a) tqsys option" where
  "tq_apply E S kBehavior lane N s (TqCall i c) =
     (if i < N \<and> \<not> tq_inside (tpcs s i) then Some (tq_begin kBehavior lane i c s) else None)"
| "tq_apply E S kBehavior lane N s (TqMove i d) = (if i < N then tq_move E S d i s else None)"

fun tq_run :: "'ts mpmc_env \<Rightarrow> 's sem_ops \<Rightarrow> QueueBehaviorIfFull \<Rightarrow> (nat \<Rightarrow> int \<Rightarrow> nat) \<Rightarrow> nat \<Rightarrow>
    ('s, 'ts, 'a) tqsys \<Rightarrow> 'a tq_event list \<Rightarrow> ('s, 'ts, 'a) tqsys option" where
  "tq_run E S kBehavior lane N s [] = Some s"
| "tq_run E S kBehavior lane N s (e # es) = (case tq_apply E S kBehavior lane N s e of
       None \<Rightarrow> None
     | Some s' \<Rightarrow> tq_run E S kBehavior lane N s' es)"

lemma tq_run_reach:
  "tq_run E S kBehavior lane N s es = Some s' \<Longrightarrow> tq_reach E S kBehavior lane N qs s \<Longrightarrow> tq_reach E S kBehavior lane N qs s'"
proof (induction es arbitrary: s)
  case (Cons e es)
  then obtain s1 where s1: "tq_apply E S kBehavior lane N s e = Some s1" "tq_run E S kBehavior lane N s1 es = Some s'"
    by (auto split: option.splits)
  then have "tq_step E S kBehavior lane N s s1"
    by (cases e) (auto split: if_splits intro: tq_step.intros)
  then show ?case
    using Cons.IH[OF s1(2)] tq_reach.step[OF Cons.prems(2)] by blast
qed simp

text \<open>Two threads on two queues of one slot: thread 1 waits, thread 0 adds 7, thread 1 takes it and waits again.\<close>

definition takingRun :: "int tq_event list" where
  "takingRun = [TqCall 1 TqTake] @ replicate 6 (TqMove 1 False) @ [TqCall 0 (TqAdd 7 0)] @ replicate 8 (TqMove 0 False) @
     replicate 8 (TqMove 1 False) @ [TqCall 1 TqTake] @ replicate 6 (TqMove 1 False)"

definition tq_observe :: "(nat, u32, int) tqsys \<Rightarrow> nat \<times> (int list \<times> nat \<times> (nat \<times> int) list) list \<times> int tq_pc \<times> int tq_pc" where
  "tq_observe s = (tsem s, map (\<lambda>L. (pushed L, popsIssued L, delivered L)) (tlanes s), tpcs s 0, tpcs s 1)"

lemma takingRun_result:
  "map_option tq_observe (tq_run counting_env counter_sem THROW plsq_lane 2 (tq_init counter_sem [oneSlot, oneSlot]) takingRun) =
     Some (0, [([], 0, []), ([7], 1, [(0, 7)])], TAdded False, TWait False)"
  by code_simp

text \<open>Witness of Cn.\<close>

theorem tq_no_lost_wakeup_witness:
  "\<exists>s. tq_reach counting_env counter_sem THROW plsq_lane 2 [oneSlot, oneSlot] s \<and> tpcs s 1 = TWait False \<and> tsem s = 0 \<and>
     pushed (tlanes s ! 1) = [7] \<and> set (delivered (tlanes s ! 1)) = {(0, 7)}"
proof -
  obtain s where s: "tq_run counting_env counter_sem THROW plsq_lane 2 (tq_init counter_sem [oneSlot, oneSlot]) takingRun = Some s"
      "tq_observe s = (0, [([], 0, []), ([7], 1, [(0, 7)])], TAdded False, TWait False)"
    using takingRun_result by blast
  then obtain L M where l: "tlanes s = [L, M]" "pushed L = []" "popsIssued L = 0" "pushed M = [7]" "popsIssued M = 1"
    and o: "tsem s = 0" "tpcs s 0 = TAdded False" "tpcs s 1 = TWait False"
    by (auto simp: tq_observe_def)
  have reach: "tq_reach counting_env counter_sem THROW plsq_lane 2 [oneSlot, oneSlot] s"
    using s(1) by (rule tq_run_reach[OF _ tq_reach.init])
  have good: "tq_good 32 id counting_env counter_sem id 2 [oneSlot, oneSlot]"
    using counting_good counter_sem_contract oneSlot_new oneSlot_room by (auto simp: tq_good_def)
  have room: "tq_room s"
    using l by (simp add: tq_room_def has_room_def ticketRoom_def)
  have stuck: "\<forall>i < 2. tq_move counting_env counter_sem False i s = None"
    using o by (auto simp: less_2_cases_iff tq_move_def counter_sem_def)
  have "set (delivered M) = (\<lambda>t. (t, pushed M ! t)) ` {..<length (pushed M)}"
    using tq_no_lost_wakeup[OF good reach room stuck, of 1] o l by (auto simp: waits_for_room_def)
  then show ?thesis
    using reach o l by (intro exI[of _ s]) auto
qed

end
