(* ===== verification/PoolTasks.thy ===== *)
theory PoolTasks
  imports BlockingQueues
begin

text \<open>
  What the threads of the pool handle: tasks and how a thread runs one
  (\<open>ThreadPoolExecutor::Task\<close>, \<open>runTask\<close>, \<open>CPUThreadPoolExecutor::CPUTask\<close>), and the queue through
  which stopped threads reach the thread that joins them
  (\<open>ThreadPoolExecutor::StoppedThreadQueue\<close>), a fifth implementation of the interface of task queues.
  Times are in nanoseconds, expirations in milliseconds as in the code; readings of the clock are
  arguments. A function object is a value of a type \<open>'f\<close>, and a null one is \<open>None\<close>.
\<close>

section \<open>Tasks\<close>

record 'f Task =
  func :: "'f option"
  enqueueTime :: int
  requestContext :: "u64 option"
  expiration :: "(int \<times> 'f option) option"

record 'f CPUTask = "'f Task" +
  poison :: bool
  taskPriority :: int
  queueObserverPayload :: int

definition newTask :: "'f option \<Rightarrow> int \<Rightarrow> u64 option \<Rightarrow> int \<Rightarrow> 'f option \<Rightarrow> 'f Task" where
  "newTask f now rctx expire callback =
     \<lparr>func = f, enqueueTime = now, requestContext = rctx,
      expiration = (if 0 < expire then Some (expire, callback) else None)\<rparr>"

definition newCPUTask :: "'f option \<Rightarrow> int \<Rightarrow> u64 option \<Rightarrow> int \<Rightarrow> 'f option \<Rightarrow> int \<Rightarrow> 'f CPUTask" where
  "newCPUTask f now rctx expire callback pri =
     Task.extend (newTask f now rctx expire callback) \<lparr>poison = False, taskPriority = pri, queueObserverPayload = 0\<rparr>"

definition poisonTask :: "int \<Rightarrow> u64 option \<Rightarrow> 'f CPUTask" where
  "poisonTask now rctx =
     Task.extend (newTask None now rctx 0 None) \<lparr>poison = True, taskPriority = 0, queueObserverPayload = 0\<rparr>"

section \<open>Running a task\<close>

record Thread =
  idle :: bool
  lastActiveTime :: int

definition newThread :: "int \<Rightarrow> Thread" where
  "newThread now = \<lparr>idle = True, lastActiveTime = now\<rparr>"

record TaskStats =
  expired :: bool
  waitTime :: int
  runTime :: int
  statsEnqueueTime :: int
  requestId :: u64

definition newTaskStats :: TaskStats where
  "newTaskStats = \<lparr>expired = False, waitTime = 0, runTime = 0, statsEnqueueTime = 0, requestId = 0\<rparr>"

text \<open>What is called on behalf of a task: its function, or the callback of an expired task. Exceptions
  of the callee are caught and logged (\<open>invokeCatchingExns\<close>).\<close>

datatype 'f invocation = InvokeFunc "'f option" | InvokeExpire 'f

definition taskExpired :: "('f, 'z) Task_scheme \<Rightarrow> int \<Rightarrow> bool" where
  "taskExpired task waited = (case expiration task of None \<Rightarrow> False | Some (e, callback) \<Rightarrow> waited \<ge> e * 1000000)"

text \<open>The part of \<open>runTask\<close> up to the call of the function, and the part after it.\<close>

definition runTask_begin :: "Thread \<Rightarrow> ('f, 'z) Task_scheme \<Rightarrow> int \<Rightarrow> Thread \<times> TaskStats \<times> 'f invocation option" where
  "runTask_begin thread task startTime =
     (let stats = newTaskStats\<lparr>statsEnqueueTime := enqueueTime task\<rparr>;
          stats = (case requestContext task of None \<Rightarrow> stats | Some root \<Rightarrow> stats\<lparr>requestId := root\<rparr>);
          stats = stats\<lparr>waitTime := startTime - enqueueTime task\<rparr>
      in if taskExpired task (waitTime stats)
         then (thread\<lparr>idle := False\<rparr>, stats\<lparr>expired := True\<rparr>,
               case expiration task of Some (e, Some callback) \<Rightarrow> Some (InvokeExpire callback) | _ \<Rightarrow> None)
         else (thread\<lparr>idle := False\<rparr>, stats, Some (InvokeFunc (func task))))"

text \<open>The statistics callbacks run in one guarded block: one that throws ends it. A callback is the
  function that says whether it throws; the result is the number of callbacks that were called.\<close>

fun runStatsCallbacks :: "(TaskStats \<Rightarrow> bool) list \<Rightarrow> TaskStats \<Rightarrow> nat" where
  "runStatsCallbacks [] stats = 0"
| "runStatsCallbacks (callback # callbacks) stats =
     (if callback stats then 1 else Suc (runStatsCallbacks callbacks stats))"

definition runTask_end :: "Thread \<Rightarrow> TaskStats \<Rightarrow> int \<Rightarrow> int \<Rightarrow> int \<Rightarrow> (TaskStats \<Rightarrow> bool) list \<Rightarrow> Thread \<times> TaskStats \<times> nat" where
  "runTask_end thread stats startTime endTime now callbacks =
     (let stats = (if \<not> expired stats then stats\<lparr>runTime := endTime - startTime\<rparr> else stats)
      in (thread\<lparr>idle := True, lastActiveTime := now\<rparr>, stats, runStatsCallbacks callbacks stats))"

definition runTask :: "Thread \<Rightarrow> ('f, 'z) Task_scheme \<Rightarrow> int \<Rightarrow> int \<Rightarrow> int \<Rightarrow> (TaskStats \<Rightarrow> bool) list \<Rightarrow>
    Thread \<times> TaskStats \<times> 'f invocation option \<times> nat" where
  "runTask thread task startTime endTime now callbacks =
     (let (thread, stats, called) = runTask_begin thread task startTime;
          (thread, stats, n) = runTask_end thread stats startTime endTime now callbacks
      in (thread, stats, called, n))"

datatype subscribe_error = RuntimeError

definition subscribeToTaskStats :: "bool \<Rightarrow> (TaskStats \<Rightarrow> bool) list \<Rightarrow> (TaskStats \<Rightarrow> bool) \<Rightarrow>
    subscribe_error + (TaskStats \<Rightarrow> bool) list" where
  "subscribeToTaskStats inCallback callbacks cb = (if inCallback then Inl RuntimeError else Inr (callbacks @ [cb]))"

section \<open>The queue of stopped threads\<close>

record 's StoppedThreadQueue =
  stq_sem :: 's
  stq_queue :: "u64 list"

definition newStoppedThreadQueue :: "'s sem_ops \<Rightarrow> 's StoppedThreadQueue" where
  "newStoppedThreadQueue S = \<lparr>stq_sem = semNew S, stq_queue = []\<rparr>"

definition stq_add :: "'s sem_ops \<Rightarrow> 's StoppedThreadQueue \<Rightarrow> u64 \<Rightarrow> ('s StoppedThreadQueue, bool) queue_result" where
  "stq_add S q item =
     (let (reused, s) = semPost S (stq_sem q) in Done (\<lparr>stq_sem = s, stq_queue = stq_queue q @ [item]\<rparr>, Inr reused))"

text \<open>The loops of \<open>take\<close> and \<open>try_take_for\<close> go round once per surplus unit of the semaphore.\<close>

fun stq_take_loop :: "'s sem_ops \<Rightarrow> nat \<Rightarrow> 's StoppedThreadQueue \<Rightarrow> ('s StoppedThreadQueue, u64 option) queue_result" where
  "stq_take_loop S 0 q = Undefined"
| "stq_take_loop S (Suc n) q = (case stq_queue q of
       item # rest \<Rightarrow> Done (q\<lparr>stq_queue := rest\<rparr>, Inr (Some item))
     | [] \<Rightarrow> (case semTryWait S (stq_sem q) of
           None \<Rightarrow> Done (q, Inr None)
         | Some s \<Rightarrow> stq_take_loop S n (q\<lparr>stq_sem := s\<rparr>)))"

definition stq_try_take_for :: "'s sem_ops \<Rightarrow> ('s \<Rightarrow> nat) \<Rightarrow> 's StoppedThreadQueue \<Rightarrow>
    ('s StoppedThreadQueue, u64 option) queue_result" where
  "stq_try_take_for S cnt q = stq_take_loop S (cnt (stq_sem q) + 1) q"

definition stq_take :: "'s sem_ops \<Rightarrow> ('s \<Rightarrow> nat) \<Rightarrow> 's StoppedThreadQueue \<Rightarrow> ('s StoppedThreadQueue, u64) queue_result" where
  "stq_take S cnt q = bind_outcome (stq_try_take_for S cnt q) (\<lambda>(q', r). case r of
       Inr (Some x) \<Rightarrow> Done (q', Inr x)
     | Inr None \<Rightarrow> Blocks
     | Inl e \<Rightarrow> Done (q', Inl e))"

definition stq_size :: "'s StoppedThreadQueue \<Rightarrow> u64" where
  "stq_size q = of_nat (length (stq_queue q))"

definition stq_ops :: "'s sem_ops \<Rightarrow> ('s \<Rightarrow> nat) \<Rightarrow> ('s StoppedThreadQueue, u64) BlockingQueue" where
  "stq_ops S cnt = \<lparr>bq_add = stq_add S,
     bq_addWithPriority = default_addWithPriority (stq_add S),
     bq_getNumPriorities = default_getNumPriorities,
     bq_take = stq_take S cnt,
     bq_try_take_for = stq_try_take_for S cnt,
     bq_size = stq_size\<rparr>"

definition stq_lanes :: "'s StoppedThreadQueue \<Rightarrow> u64 list list" where
  "stq_lanes q = [stq_queue q]"

definition stq_inv :: "'s sem_ops \<Rightarrow> ('s \<Rightarrow> nat) \<Rightarrow> nat \<Rightarrow> 's StoppedThreadQueue \<Rightarrow> bool" where
  "stq_inv S cnt n q \<longleftrightarrow> sem_contract S cnt \<and> length (stq_queue q) \<le> cnt (stq_sem q) \<and> length (stq_queue q) + n < 2 ^ 64"

lemma stq_add_ok:
  assumes "stq_inv S cnt (Suc n) q"
  shows "\<exists>q' b. stq_add S q x = Done (q', Inr b) \<and> stq_inv S cnt n q' \<and> stq_queue q' = stq_queue q @ [x]"
proof -
  have C: "sem_contract S cnt"
    using assms by (simp add: stq_inv_def)
  obtain b s where "semPost S (stq_sem q) = (b, s)"
    by fastforce
  with assms sem_contractD(2)[OF C this] show ?thesis
    by (simp add: stq_add_def stq_inv_def)
qed

lemma stq_take_loop_ok:
  assumes "stq_inv S cnt n q" "cnt (stq_sem q) < k"
  shows "\<exists>q'. stq_take_loop S k q = Done (q', Inr (fst (lane_take (stq_lanes q)))) \<and> stq_inv S cnt n q' \<and>
           stq_lanes q' = snd (lane_take (stq_lanes q))"
  using assms
proof (induction k arbitrary: q)
  case (Suc k)
  have C: "sem_contract S cnt"
    using Suc.prems(1) by (simp add: stq_inv_def)
  show ?case
  proof (cases "stq_queue q")
    case Nil
    show ?thesis
    proof (cases "semTryWait S (stq_sem q)")
      case None
      with Nil Suc.prems(1) show ?thesis
        by (simp add: stq_lanes_def)
    next
      case (Some s)
      have "stq_inv S cnt n (q\<lparr>stq_sem := s\<rparr>)"
        using Nil Suc.prems(1) by (simp add: stq_inv_def)
      from Suc.IH[OF this] Suc.prems(2) sem_contractD(4)[OF C Some] Nil Some show ?thesis
        by (simp add: stq_lanes_def)
    qed
  next
    case (Cons x xs)
    with Suc.prems(1) show ?thesis
      by (simp add: stq_lanes_def stq_inv_def)
  qed
qed simp

lemma stq_ops_simps:
  "bq_add (stq_ops S cnt) = stq_add S" "bq_addWithPriority (stq_ops S cnt) q x p = stq_add S q x"
  "bq_take (stq_ops S cnt) = stq_take S cnt"
  "bq_try_take_for (stq_ops S cnt) q = stq_take_loop S (cnt (stq_sem q) + 1) q" "bq_size (stq_ops S cnt) = stq_size"
  by (simp_all add: stq_ops_def default_addWithPriority_def stq_try_take_for_def)

interpretation stq: lane_queue "stq_ops S cnt" "stq_inv S cnt" stq_lanes "\<lambda>q. [None]" THROW "\<lambda>n p. 0" for S cnt
proof (unfold_locales, unfold stq_ops_simps)
  fix n q
  assume I: "stq_inv S cnt n q"
  show take: "\<exists>q'. stq_take_loop S (cnt (stq_sem q) + 1) q = Done (q', Inr (fst (lane_take (stq_lanes q)))) \<and>
      stq_inv S cnt n q' \<and> [None] = [None] \<and> stq_lanes q' = snd (lane_take (stq_lanes q))"
    using stq_take_loop_ok[OF I, of "cnt (stq_sem q) + 1"] by simp
  show "stq_take S cnt q = (case stq_take_loop S (cnt (stq_sem q) + 1) q of
      Done (q', Inr (Some x)) \<Rightarrow> Done (q', Inr x) | _ \<Rightarrow> Blocks)"
    using take by (auto simp: stq_take_def stq_try_take_for_def split: option.splits)
  show "unat (stq_size q) = length (concat (stq_lanes q))"
    using I by (simp add: stq_size_def stq_lanes_def stq_inv_def unat_of_nat_small)
next
  fix n q x p and i :: nat
  assume "stq_inv S cnt (Suc n) q" "i = 0"
  then show "\<exists>q' b. stq_add S q x = Done (q', Inr b) \<and> stq_inv S cnt n q' \<and> [None] = [None] \<and>
        stq_lanes q' = (stq_lanes q)[i := stq_lanes q ! i @ [x]]"
    using stq_add_ok[of S cnt n q x] by (auto simp: stq_lanes_def)
qed (simp_all add: stq_inv_def stq_lanes_def lane_fits_def)

end
