(* ===== verification/ThreadList.thy ===== *)
theory ThreadList
  imports Prelude
begin

text \<open>
  \<open>ThreadPoolExecutor::ThreadList\<close> (ThreadPoolExecutor.h): the vector of the live threads, kept
  sorted by thread id, and the CPU time of the threads that are gone. A thread is represented by
  its id; the CPU time a thread has used comes from the operating system and is an argument. A
  failed \<open>CHECK\<close> is the error \<open>CheckFailed\<close>.
\<close>

section \<open>Sorted vectors\<close>

text \<open>The position \<open>std::lower_bound\<close> and \<open>std::upper_bound\<close> return on a sorted range.\<close>

definition lower_bound :: "u64 list \<Rightarrow> u64 \<Rightarrow> nat" where
  "lower_bound vec x = length (takeWhile (\<lambda>y. y < x) vec)"

definition upper_bound :: "u64 list \<Rightarrow> u64 \<Rightarrow> nat" where
  "upper_bound vec x = length (takeWhile (\<lambda>y. \<not> x < y) vec)"

record ThreadList =
  vec :: "u64 list"
  pastCpuUsed :: int

datatype check_error = CheckFailed

definition newThreadList :: ThreadList where
  "newThreadList = \<lparr>vec = [], pastCpuUsed = 0\<rparr>"

definition threadList_add :: "ThreadList \<Rightarrow> u64 \<Rightarrow> ThreadList" where
  "threadList_add ths state =
     (let it = lower_bound (vec ths) state
      in ths\<lparr>vec := take it (vec ths) @ state # drop it (vec ths)\<rparr>)"

definition threadList_remove :: "(u64 \<Rightarrow> int) \<Rightarrow> ThreadList \<Rightarrow> u64 \<Rightarrow> check_error + ThreadList" where
  "threadList_remove usedCpuTime ths state =
     (let first = lower_bound (vec ths) state; second = upper_bound (vec ths) state
      in if first = length (vec ths) then Inl CheckFailed
         else if Suc first \<noteq> second then Inl CheckFailed
         else Inr (ths\<lparr>vec := take first (vec ths) @ drop (Suc first) (vec ths),
                      pastCpuUsed := pastCpuUsed ths + usedCpuTime state\<rparr>))"

definition threadList_contains :: "ThreadList \<Rightarrow> u64 \<Rightarrow> bool" where
  "threadList_contains ths ts =
     (let it = lower_bound (vec ths) ts in it < length (vec ths) \<and> \<not> ts < vec ths ! it)"

definition getUsedCpuTime :: "(u64 \<Rightarrow> int) \<Rightarrow> ThreadList \<Rightarrow> int" where
  "getUsedCpuTime usedCpuTime ths = foldl (\<lambda>acc thread. acc + usedCpuTime thread) (pastCpuUsed ths) (vec ths)"

section \<open>The order is kept\<close>

definition threadList_ok :: "ThreadList \<Rightarrow> bool" where
  "threadList_ok ths \<longleftrightarrow> sorted_wrt (<) (vec ths)"

lemma takeWhile_less_sorted:
  fixes xs :: "u64 list"
  assumes "sorted_wrt (<) xs"
  shows "takeWhile (\<lambda>y. y < x) xs = filter (\<lambda>y. y < x) xs"
    and "dropWhile (\<lambda>y. y < x) xs = filter (\<lambda>y. x \<le> y) xs"
    and "takeWhile (\<lambda>y. \<not> x < y) xs = filter (\<lambda>y. y \<le> x) xs"
proof -
  have "takeWhile (\<lambda>y. y < x) xs = filter (\<lambda>y. y < x) xs \<and> dropWhile (\<lambda>y. y < x) xs = filter (\<lambda>y. x \<le> y) xs \<and>
      takeWhile (\<lambda>y. \<not> x < y) xs = filter (\<lambda>y. y \<le> x) xs"
    using assms
  proof (induction xs)
    case (Cons a xs)
    have "filter (\<lambda>y. y < x) xs = []" "filter (\<lambda>y. x \<le> y) xs = xs" if "\<not> a < x"
      using Cons.prems that by (auto simp: filter_empty_conv filter_id_conv)
    moreover have "filter (\<lambda>y. y \<le> x) xs = []" if "x < a"
      using Cons.prems that by (auto simp: filter_empty_conv)
    ultimately show ?case
      using Cons by (auto simp: not_less)
  qed simp
  then show "takeWhile (\<lambda>y. y < x) xs = filter (\<lambda>y. y < x) xs" "dropWhile (\<lambda>y. y < x) xs = filter (\<lambda>y. x \<le> y) xs"
    "takeWhile (\<lambda>y. \<not> x < y) xs = filter (\<lambda>y. y \<le> x) xs"
    by auto
qed

lemma vec_add:
  assumes "sorted_wrt (<) (vec ths)"
  shows "vec (threadList_add ths x) = filter (\<lambda>y. y < x) (vec ths) @ x # filter (\<lambda>y. x \<le> y) (vec ths)"
  unfolding threadList_add_def Let_def lower_bound_def
  using takeWhile_less_sorted(1,2)[OF assms, of x] takeWhile_eq_take[of "\<lambda>y. y < x" "vec ths"]
    dropWhile_eq_drop[of "\<lambda>y. y < x" "vec ths"] by simp

lemma threadList_add_set:
  assumes "threadList_ok ths"
  shows "set (vec (threadList_add ths x)) = insert x (set (vec ths))"
    and "length (vec (threadList_add ths x)) = length (vec ths) + 1"
proof -
  have s: "sorted_wrt (<) (vec ths)"
    using assms by (simp add: threadList_ok_def)
  show "set (vec (threadList_add ths x)) = insert x (set (vec ths))"
    unfolding vec_add[OF s] by auto
  show "length (vec (threadList_add ths x)) = length (vec ths) + 1"
    unfolding vec_add[OF s] using sum_length_filter_compl[of "\<lambda>y. y < x" "vec ths"] by (simp add: not_less)
qed

lemma threadList_add_ok:
  assumes "threadList_ok ths" "x \<notin> set (vec ths)"
  shows "threadList_ok (threadList_add ths x)"
proof -
  have s: "sorted_wrt (<) (vec ths)"
    using assms(1) by (simp add: threadList_ok_def)
  have lo: "\<forall>y \<in> set (filter (\<lambda>y. y < x) (vec ths)). y < x"
    by simp
  have hi: "\<forall>y \<in> set (filter (\<lambda>y. x \<le> y) (vec ths)). x < y"
    using assms(2) by (auto simp: less_le)
  show ?thesis
    unfolding threadList_ok_def vec_add[OF s] sorted_wrt_append
    using lo hi sorted_wrt_filter[OF s] by (auto intro: less_trans)
qed

text \<open>\<open>remove\<close> succeeds exactly on the threads of the list, and takes only that thread out.\<close>

lemma bounds_sorted:
  assumes "sorted_wrt (<) xs"
  shows "upper_bound xs x = lower_bound xs x + (if x \<in> set xs then 1 else 0)"
proof -
  have "length (filter (\<lambda>y. y \<le> x) xs) = length (filter (\<lambda>y. y < x) xs) + (if x \<in> set xs then 1 else 0)"
    using assms
  proof (induction xs)
    case (Cons a xs)
    then have "x \<notin> set xs" if "x \<le> a"
      using that by auto
    with Cons show ?case
      by (auto simp: le_less)
  qed simp
  then show ?thesis
    by (simp add: upper_bound_def lower_bound_def takeWhile_less_sorted[OF assms])
qed

lemma lower_bound_head:
  assumes "sorted_wrt (<) xs" "x \<in> set xs"
  shows "drop (lower_bound xs x) xs = x # filter (\<lambda>y. x < y) xs"
proof -
  have "filter (\<lambda>y. x \<le> y) xs = x # filter (\<lambda>y. x < y) xs"
    using assms
  proof (induction xs)
    case (Cons a xs)
    have "filter (\<lambda>y. x \<le> y) xs = filter (\<lambda>y. x < y) xs" if "a = x"
      using Cons.prems(1) that by (intro filter_cong) auto
    with Cons show ?case
      by auto
  qed simp
  moreover have "drop (lower_bound xs x) xs = filter (\<lambda>y. x \<le> y) xs"
    unfolding lower_bound_def dropWhile_eq_drop[symmetric] by (rule takeWhile_less_sorted(2)[OF assms(1)])
  ultimately show ?thesis
    by simp
qed

lemma lower_bound_split:
  assumes "sorted_wrt (<) xs" "x \<in> set xs"
  shows "take (lower_bound xs x) xs = filter (\<lambda>y. y < x) xs"
    and "drop (Suc (lower_bound xs x)) xs = filter (\<lambda>y. x < y) xs"
    and "lower_bound xs x < length xs"
proof -
  note sorted = takeWhile_less_sorted[OF assms(1), of x]
  show "take (lower_bound xs x) xs = filter (\<lambda>y. y < x) xs"
    unfolding lower_bound_def takeWhile_eq_take[symmetric] by (rule sorted(1))
  note d = lower_bound_head[OF assms]
  show "lower_bound xs x < length xs"
    using d by (metis drop_all list.distinct(1) not_le_imp_less)
  show "drop (Suc (lower_bound xs x)) xs = filter (\<lambda>y. x < y) xs"
    using d by (metis drop_Suc list.sel(3) tl_drop)
qed

lemma filter_neq_sorted:
  fixes xs :: "u64 list"
  assumes "sorted_wrt (<) xs"
  shows "filter (\<lambda>y. y < x) xs @ filter (\<lambda>y. x < y) xs = filter (\<lambda>y. y \<noteq> x) xs"
  using assms
proof (induction xs)
  case (Cons a xs)
  have "filter (\<lambda>y. y < x) xs = []" if "x < a"
    using Cons.prems that by (auto simp: filter_empty_conv)
  with Cons show ?case
    by auto
qed simp

lemma threadList_remove_sorted:
  assumes "threadList_ok ths"
  shows "threadList_remove cpu ths x =
    (if x \<in> set (vec ths)
     then Inr \<lparr>vec = filter (\<lambda>y. y \<noteq> x) (vec ths), pastCpuUsed = pastCpuUsed ths + cpu x\<rparr>
     else Inl CheckFailed)"
proof -
  have s: "sorted_wrt (<) (vec ths)"
    using assms by (simp add: threadList_ok_def)
  show ?thesis
    using lower_bound_split[OF s, of x] bounds_sorted[OF s, of x] filter_neq_sorted[OF s, of x]
    by (auto simp: threadList_remove_def Let_def)
qed

lemma threadList_remove_ok:
  assumes "threadList_ok ths" "threadList_remove cpu ths x = Inr ths'"
  shows "threadList_ok ths'" "set (vec ths') = set (vec ths) - {x}" "length (vec ths') + 1 = length (vec ths)"
proof -
  have s: "sorted_wrt (<) (vec ths)"
    using assms(1) by (simp add: threadList_ok_def)
  have x: "x \<in> set (vec ths)" and v: "vec ths' = filter (\<lambda>y. y \<noteq> x) (vec ths)"
    using assms threadList_remove_sorted[OF assms(1), of cpu x] by (auto split: if_splits)
  show "threadList_ok ths'" "set (vec ths') = set (vec ths) - {x}"
    using v sorted_wrt_filter[OF s] by (auto simp: threadList_ok_def)
  have "length (vec ths') = card (set (vec ths) - {x})"
    using v strict_sorted_iff[of "vec ths"] s distinct_card[of "filter (\<lambda>y. y \<noteq> x) (vec ths)"]
    by (simp add: set_diff_eq)
  moreover have "length (vec ths) = card (set (vec ths))"
    using strict_sorted_iff[of "vec ths"] s distinct_card[of "vec ths"] by simp
  ultimately show "length (vec ths') + 1 = length (vec ths)"
    using x card_Suc_Diff1[of "set (vec ths)" x] by simp
qed

lemma threadList_contains_iff:
  assumes "threadList_ok ths"
  shows "threadList_contains ths x \<longleftrightarrow> x \<in> set (vec ths)"
proof -
  have s: "sorted_wrt (<) (vec ths)"
    using assms by (simp add: threadList_ok_def)
  have d: "drop (lower_bound (vec ths) x) (vec ths) = filter (\<lambda>y. x \<le> y) (vec ths)"
    unfolding lower_bound_def dropWhile_eq_drop[symmetric] by (rule takeWhile_less_sorted(2)[OF s])
  show ?thesis
  proof
    assume c: "threadList_contains ths x"
    then have lt: "lower_bound (vec ths) x < length (vec ths)"
      by (simp add: threadList_contains_def Let_def)
    then have "vec ths ! lower_bound (vec ths) x \<in> set (filter (\<lambda>y. x \<le> y) (vec ths))"
      unfolding d[symmetric] by (metis drop_eq_Nil hd_drop_conv_nth list.set_sel(1) not_le)
    with c have "vec ths ! lower_bound (vec ths) x = x"
      by (auto simp: threadList_contains_def Let_def not_less)
    with lt show "x \<in> set (vec ths)"
      by (metis nth_mem)
  next
    assume x: "x \<in> set (vec ths)"
    have "vec ths ! lower_bound (vec ths) x = x"
      using lower_bound_head[OF s x] lower_bound_split(3)[OF s x] by (metis hd_drop_conv_nth list.sel(1))
    then show "threadList_contains ths x"
      using lower_bound_split(3)[OF s x] by (simp add: threadList_contains_def Let_def)
  qed
qed

section \<open>The accounting of CPU time\<close>

lemma foldl_sum: "foldl (\<lambda>acc x. acc + f x) (a :: int) xs = a + sum_list (map f xs)"
  by (induction xs arbitrary: a) auto

lemma sum_list_remove:
  fixes f :: "'b \<Rightarrow> int"
  assumes "distinct xs" "x \<in> set xs"
  shows "sum_list (map f (filter (\<lambda>y. y \<noteq> x) xs)) + f x = sum_list (map f xs)"
  using assms
proof (induction xs)
  case (Cons a xs)
  have "filter (\<lambda>y. y \<noteq> x) xs = xs" if "a = x"
    using Cons.prems that by (auto simp: filter_id_conv)
  with Cons show ?case
    by auto
qed simp

text \<open>C21. On a thread list sorted by id, \<open>add\<close> of a new thread keeps the list sorted and makes
  \<open>contains\<close> true for exactly one thread more; \<open>remove\<close> succeeds exactly on the threads of the
  list (its CHECKs fail on any other), takes only that thread out, keeps the order, and leaves the
  total CPU time of live and past threads unchanged.\<close>

theorem threadList_operations:
  assumes "threadList_ok ths"
  shows "(x \<notin> set (vec ths) \<longrightarrow> threadList_ok (threadList_add ths x) \<and>
           (\<forall>y. threadList_contains (threadList_add ths x) y \<longleftrightarrow> y = x \<or> threadList_contains ths y)) \<and>
         ((\<exists>ths'. threadList_remove cpu ths x = Inr ths') \<longleftrightarrow> threadList_contains ths x) \<and>
         (\<forall>ths'. threadList_remove cpu ths x = Inr ths' \<longrightarrow> threadList_ok ths' \<and>
           (\<forall>y. threadList_contains ths' y \<longleftrightarrow> y \<noteq> x \<and> threadList_contains ths y) \<and>
           getUsedCpuTime cpu ths' = getUsedCpuTime cpu ths)"
proof (intro conjI impI allI)
  show "threadList_ok (threadList_add ths x)" if "x \<notin> set (vec ths)"
    by (rule threadList_add_ok[OF assms that])
  then show "threadList_contains (threadList_add ths x) y \<longleftrightarrow> y = x \<or> threadList_contains ths y"
    if "x \<notin> set (vec ths)" for y
    using threadList_add_set(1)[OF assms, of x] assms that by (simp add: threadList_contains_iff)
  show "(\<exists>ths'. threadList_remove cpu ths x = Inr ths') \<longleftrightarrow> threadList_contains ths x"
    by (simp add: threadList_remove_sorted[OF assms] threadList_contains_iff[OF assms])
next
  fix ths' assume r: "threadList_remove cpu ths x = Inr ths'"
  note ok = threadList_remove_ok[OF assms r]
  show "threadList_ok ths'"
    by (rule ok)
  then show "threadList_contains ths' y \<longleftrightarrow> y \<noteq> x \<and> threadList_contains ths y" for y
    using ok(2) assms by (auto simp: threadList_contains_iff)
  have "distinct (vec ths)"
    using assms strict_sorted_iff[of "vec ths"] by (simp add: threadList_ok_def)
  then show "getUsedCpuTime cpu ths' = getUsedCpuTime cpu ths"
    using r threadList_remove_sorted[OF assms, of cpu x] sum_list_remove[of "vec ths" x cpu]
    by (auto simp: getUsedCpuTime_def foldl_sum split: if_splits)
qed

theorem threadList_operations_witness:
  "threadList_contains (threadList_add \<lparr>vec = [1, 4], pastCpuUsed = 7\<rparr> 3) 3 \<and>
   vec (threadList_add \<lparr>vec = [1, 4], pastCpuUsed = 7\<rparr> 3) = [1, 3, 4]"
proof -
  have "threadList_ok \<lparr>vec = [1, 4], pastCpuUsed = 7\<rparr>" "(3::u64) \<notin> set (vec \<lparr>vec = [1, 4], pastCpuUsed = 7\<rparr>)"
    by (simp_all add: threadList_ok_def)
  with threadList_operations[of "\<lparr>vec = [1, 4], pastCpuUsed = 7\<rparr>" 3] show ?thesis
    by (simp add: threadList_add_def lower_bound_def)
qed

end
