(* ===== verification/ThreadPoolExecutor.thy ===== *)
theory ThreadPoolExecutor
  imports PoolTasks ThreadList
begin

text \<open>
  The base class \<open>ThreadPoolExecutor\<close> (ThreadPoolExecutor.h, ThreadPoolExecutor.cpp): its members,
  its constructor and what its methods do while they hold \<open>threadListLock_\<close>. The virtual methods
  are supplied by the derived class: the number of pending tasks is an argument, and the parts of
  \<open>setNumThreads\<close>, \<open>stop\<close> and \<open>join\<close> before and after \<open>removeThreads\<close> are separate definitions
  that \<open>CPUThreadPoolExecutor\<close> puts together.

  The counters of threads are natural numbers, since the code changes them by guarded decrements and by
  increments that go with the creation of a thread; \<open>getPoolStats\<close> computes with their 64-bit values,
  because its subtractions are not guarded. A thread is identified by its id. Observers are external:
  the calls they get are recorded in \<open>observerLog\<close>.
\<close>

section \<open>Members\<close>

datatype observer_event = ThreadStarted | ThreadStopped | ThreadPreviouslyStarted | ThreadNotYetStopped

record 's ThreadPoolExecutor =
  maxThreads :: nat
  minThreads :: nat
  activeThreads :: nat
  threadsToJoin :: nat
  threadTimeout :: int
  isJoin :: bool
  keepAliveJoined :: bool
  nextId :: u64
  threads :: "u64 \<Rightarrow> Thread"
  threadList :: ThreadList
  stoppedThreads :: "'s StoppedThreadQueue"
  statsCallbacks :: "(TaskStats \<Rightarrow> bool) list"
  observers :: "nat list"
  observerLog :: "(nat \<times> observer_event \<times> u64) list"

definition newThreadPoolExecutor :: "'s sem_ops \<Rightarrow> u64 \<Rightarrow> int \<Rightarrow> nat \<Rightarrow> nat \<Rightarrow> 's ThreadPoolExecutor" where
  "newThreadPoolExecutor S firstId timeout maxThreads0 minThreads0 =
     \<lparr>maxThreads = 0, minThreads = minThreads0, activeThreads = 0, threadsToJoin = 0, threadTimeout = timeout,
      isJoin = False, keepAliveJoined = False, nextId = firstId, threads = (\<lambda>i. newThread 0),
      threadList = newThreadList, stoppedThreads = newStoppedThreadQueue S, statsCallbacks = [],
      observers = [], observerLog = []\<rparr>"

definition numThreads :: "('s, 'z) ThreadPoolExecutor_scheme \<Rightarrow> nat" where
  "numThreads p = maxThreads p"

definition numActiveThreads :: "('s, 'z) ThreadPoolExecutor_scheme \<Rightarrow> nat" where
  "numActiveThreads p = activeThreads p"

definition setThreadDeathTimeout :: "('s, 'z) ThreadPoolExecutor_scheme \<Rightarrow> int \<Rightarrow> ('s, 'z) ThreadPoolExecutor_scheme" where
  "setThreadDeathTimeout p timeout = p\<lparr>threadTimeout := timeout\<rparr>"

text \<open>Observers are called in order, each with the threads in order.\<close>

definition notify :: "nat list \<Rightarrow> observer_event \<Rightarrow> u64 list \<Rightarrow> ('s, 'z) ThreadPoolExecutor_scheme \<Rightarrow>
    ('s, 'z) ThreadPoolExecutor_scheme" where
  "notify os e ids p = p\<lparr>observerLog := observerLog p @ concat (map (\<lambda>obs. map (\<lambda>t. (obs, e, t)) ids) os)\<rparr>"

section \<open>Adding threads\<close>

definition makeThread :: "int \<Rightarrow> ('s, 'z) ThreadPoolExecutor_scheme \<Rightarrow> u64 \<times> ('s, 'z) ThreadPoolExecutor_scheme" where
  "makeThread now p = (nextId p, p\<lparr>nextId := nextId p + 1, threads := (threads p)(nextId p := newThread now)\<rparr>)"

fun makeThreads :: "int \<Rightarrow> nat \<Rightarrow> ('s, 'z) ThreadPoolExecutor_scheme \<Rightarrow> u64 list \<times> ('s, 'z) ThreadPoolExecutor_scheme" where
  "makeThreads now 0 p = ([], p)"
| "makeThreads now (Suc n) p =
     (let (i, p) = makeThread now p; (is, p) = makeThreads now n p in (i # is, p))"

text \<open>The new threads have posted their startup baton when \<open>addThreads\<close> goes on to the observers.\<close>

definition addThreads :: "int \<Rightarrow> nat \<Rightarrow> ('s, 'z) ThreadPoolExecutor_scheme \<Rightarrow>
    u64 list \<times> ('s, 'z) ThreadPoolExecutor_scheme" where
  "addThreads now n p =
     (let (newThreads, p) = makeThreads now n p;
          p = p\<lparr>threadList := foldl threadList_add (threadList p) newThreads\<rparr>
      in (newThreads, notify (observers p) ThreadStarted newThreads p))"

section \<open>Changing the number of threads\<close>

text \<open>The critical section of \<open>setNumThreads\<close> up to the call of \<open>removeThreads\<close>, or all of it when
  threads are added: the result is the number of threads to remove, or the new threads.\<close>

definition setNumThreads_locked :: "int \<Rightarrow> nat \<Rightarrow> nat \<Rightarrow> ('s, 'z) ThreadPoolExecutor_scheme \<Rightarrow>
    (nat + u64 list) \<times> ('s, 'z) ThreadPoolExecutor_scheme" where
  "setNumThreads_locked now pending num p =
     (let p = p\<lparr>maxThreads := num\<rparr>;
          active = activeThreads p;
          p = (if num < minThreads p then p\<lparr>minThreads := num\<rparr> else p)
      in if active > num then (Inl (active - num), p)
         else if pending > 0 \<or> observers p \<noteq> [] \<or> active < minThreads p
         then (let numToAdd = min pending (num - active);
                   numToAdd = (if observers p \<noteq> [] then num - active else numToAdd);
                   numToAdd = (if active + numToAdd < minThreads p then minThreads p - active else numToAdd);
                   (newThreads, p) = addThreads now numToAdd p
               in (Inr newThreads, p\<lparr>activeThreads := active + numToAdd\<rparr>))
         else (Inr [], p))"

definition setNumThreads_removed :: "nat \<Rightarrow> ('s, 'z) ThreadPoolExecutor_scheme \<Rightarrow> ('s, 'z) ThreadPoolExecutor_scheme" where
  "setNumThreads_removed num p = p\<lparr>activeThreads := num\<rparr>"

text \<open>The critical section of \<open>stop\<close> and \<open>join\<close> before and after the call of \<open>removeThreads\<close>.\<close>

definition stop_locked :: "('s, 'z) ThreadPoolExecutor_scheme \<Rightarrow> nat \<times> ('s, 'z) ThreadPoolExecutor_scheme" where
  "stop_locked p = (let p = p\<lparr>maxThreads := 0, activeThreads := 0\<rparr> in (length (vec (threadList p)), p))"

definition stop_removed :: "nat \<Rightarrow> ('s, 'z) ThreadPoolExecutor_scheme \<Rightarrow> nat \<times> ('s, 'z) ThreadPoolExecutor_scheme" where
  "stop_removed n p = (n + threadsToJoin p, p\<lparr>threadsToJoin := 0\<rparr>)"

text \<open>The checks at the end of \<open>stop\<close> and \<open>join\<close>.\<close>

definition stop_checks :: "('s, 'z) ThreadPoolExecutor_scheme \<Rightarrow> bool" where
  "stop_checks p \<longleftrightarrow> length (vec (threadList p)) = 0 \<and> stq_size (stoppedThreads p) = 0"

section \<open>Dynamic threads\<close>

definition minActive :: "('s, 'z) ThreadPoolExecutor_scheme \<Rightarrow> bool" where
  "minActive p \<longleftrightarrow> activeThreads p > minThreads p"

definition tryTimeoutThread :: "nat \<Rightarrow> ('s, 'z) ThreadPoolExecutor_scheme \<Rightarrow> bool \<times> ('s, 'z) ThreadPoolExecutor_scheme" where
  "tryTimeoutThread pending p =
     (if \<not> minActive p then (False, p)
      else let p = p\<lparr>activeThreads := activeThreads p - 1\<rparr>
           in if pending > 0 then (False, p\<lparr>activeThreads := activeThreads p + 1\<rparr>)
              else (True, p\<lparr>threadsToJoin := threadsToJoin p + 1\<rparr>))"

definition ensureJoined_locked :: "('s, 'z) ThreadPoolExecutor_scheme \<Rightarrow> nat \<times> ('s, 'z) ThreadPoolExecutor_scheme" where
  "ensureJoined_locked p = (threadsToJoin p, p\<lparr>threadsToJoin := 0\<rparr>)"

definition ensureActiveThreads_locked :: "int \<Rightarrow> ('s, 'z) ThreadPoolExecutor_scheme \<Rightarrow>
    u64 list \<times> ('s, 'z) ThreadPoolExecutor_scheme" where
  "ensureActiveThreads_locked now p =
     (let active = activeThreads p; total = maxThreads p
      in if active \<ge> total then ([], p)
         else let (newThreads, p) = addThreads now 1 p in (newThreads, p\<lparr>activeThreads := active + 1\<rparr>))"

section \<open>Observers\<close>

definition addObserver_locked :: "nat \<Rightarrow> ('s, 'z) ThreadPoolExecutor_scheme \<Rightarrow> ('s, 'z) ThreadPoolExecutor_scheme" where
  "addObserver_locked obs p =
     (let p = p\<lparr>observers := observers p @ [obs]\<rparr>
      in notify [obs] ThreadPreviouslyStarted (vec (threadList p)) p)"

text \<open>An absent observer fails a \<open>DCHECK\<close> only.\<close>

definition removeObserver_locked :: "nat \<Rightarrow> ('s, 'z) ThreadPoolExecutor_scheme \<Rightarrow> ('s, 'z) ThreadPoolExecutor_scheme" where
  "removeObserver_locked obs p =
     (let p = notify [obs] ThreadNotYetStopped (vec (threadList p)) p in p\<lparr>observers := remove1 obs (observers p)\<rparr>)"

section \<open>Statistics\<close>

record PoolStats =
  threadCount :: u64
  idleThreadCount :: u64
  activeThreadCount :: u64
  pendingTaskCount :: u64
  totalTaskCount :: u64
  maxIdleTime :: int

text \<open>The loop over the threads: active tasks, idle threads and the longest idle time.\<close>

fun poolStats_loop :: "int \<Rightarrow> (u64 \<Rightarrow> Thread) \<Rightarrow> u64 list \<Rightarrow> u64 \<times> u64 \<times> int \<Rightarrow> u64 \<times> u64 \<times> int" where
  "poolStats_loop now ths [] acc = acc"
| "poolStats_loop now ths (t # ts) (activeTasks, idleAlive, maxIdle) =
     (if idle (ths t)
      then poolStats_loop now ths ts (activeTasks, idleAlive + 1, max maxIdle (now - lastActiveTime (ths t)))
      else poolStats_loop now ths ts (activeTasks + 1, idleAlive, maxIdle))"

definition getPoolStats :: "int \<Rightarrow> u64 \<Rightarrow> ('s, 'z) ThreadPoolExecutor_scheme \<Rightarrow> PoolStats" where
  "getPoolStats now pending p =
     (let (activeTasks, idleAlive, maxIdle) = poolStats_loop now (threads p) (vec (threadList p)) (0, 0, 0);
          activeCount = of_nat (activeThreads p) - idleAlive
      in \<lparr>threadCount = of_nat (maxThreads p), idleThreadCount = of_nat (maxThreads p) - activeCount,
          activeThreadCount = activeCount, pendingTaskCount = pending, totalTaskCount = pending + activeTasks,
          maxIdleTime = maxIdle\<rparr>)"

definition poolUsedCpuTime :: "(u64 \<Rightarrow> int) \<Rightarrow> ('s, 'z) ThreadPoolExecutor_scheme \<Rightarrow> int" where
  "poolUsedCpuTime usedCpuTime p = getUsedCpuTime usedCpuTime (threadList p)"

section \<open>The registry of pools\<close>

definition registerThreadPoolExecutor :: "'p \<Rightarrow> 'p list \<Rightarrow> 'p list" where
  "registerThreadPoolExecutor tpe tpes = tpes @ [tpe]"

definition deregisterThreadPoolExecutor :: "'p \<Rightarrow> 'p list \<Rightarrow> 'p list" where
  "deregisterThreadPoolExecutor tpe tpes = filter (\<lambda>t. t \<noteq> tpe) tpes"

definition withAll :: "('p \<Rightarrow> 'w \<Rightarrow> 'w) \<Rightarrow> 'p list \<Rightarrow> 'w \<Rightarrow> 'w" where
  "withAll f tpes w = foldl (\<lambda>w tpe. f tpe w) w tpes"

end
