(* ===== verification/CPUThreadPoolExecutor.thy ===== *)
theory CPUThreadPoolExecutor
  imports ThreadPoolExecutor
begin

text \<open>
  \<open>CPUThreadPoolExecutor\<close> (CPUThreadPoolExecutor.h, CPUThreadPoolExecutor.cpp) at work: the threads of
  the pool, which run \<open>threadRun\<close>, and any number of client threads, which call its methods. The
  members of the class extend those of the base class. A thread is a program counter, and a step is
  what it does up to the next point where another thread can interfere: a critical section of
  \<open>threadListLock_\<close>, an operation of the task queue or of the queue of stopped threads, or an
  access to a shared counter (the loads of one condition are one step). A critical section in which
  nothing can block is one step, possible when the lock is free; \<open>stopThreads\<close> adds its poison tasks
  one by one while its caller holds the lock. A step function returns \<open>None\<close> when the thread cannot move.

  Third-party parts are arguments: the semaphore of \<open>StoppedThreadQueue\<close>, the CPU clock, and the factory
  of queue observers. The queue is any record of the virtual methods of \<open>BlockingQueue\<close>.
\<close>

section \<open>Members\<close>

datatype queue_event = OnEnqueued nat int | OnDequeued nat int

record ('s, 'q) CPUThreadPoolExecutor = "'s ThreadPoolExecutor" +
  taskQueue :: 'q
  threadsToStop :: int
  queueObservers :: "nat \<Rightarrow> nat option"
  queueLog :: "queue_event list"
  osThreadIds :: "u64 set"
  workerKeepAlives :: nat

record ('s, 'q, 'f) pool_env =
  semOps :: "'s sem_ops"
  semCnt :: "'s \<Rightarrow> nat"
  taskOps :: "('q, 'f CPUTask) BlockingQueue"
  usedCpuTime :: "u64 \<Rightarrow> int"
  observerFactory :: "(int \<Rightarrow> nat) option"
  onEnqueuedPayload :: "nat \<Rightarrow> u64 option \<Rightarrow> int"

definition getPendingTaskCountImpl :: "('s, 'q, 'f) pool_env \<Rightarrow> ('s, 'q) CPUThreadPoolExecutor \<Rightarrow> u64" where
  "getPendingTaskCountImpl E p = bq_size (taskOps E) (taskQueue p)"

definition getNumPriorities :: "('s, 'q, 'f) pool_env \<Rightarrow> ('s, 'q) CPUThreadPoolExecutor \<Rightarrow> u8" where
  "getNumPriorities E p = bq_getNumPriorities (taskOps E) (taskQueue p)"

section \<open>Queue observers\<close>

text \<open>The slot of a priority is created on first use; with a single queue all priorities share the
  observer of priority 0.\<close>

definition ownQueueObserver :: "(int \<Rightarrow> nat) \<Rightarrow> int \<Rightarrow> ('s, 'q) CPUThreadPoolExecutor \<Rightarrow> nat \<times> ('s, 'q) CPUThreadPoolExecutor" where
  "ownQueueObserver create pri p = (case queueObservers p (nat (pri mod 256)) of
       Some obs \<Rightarrow> (obs, p)
     | None \<Rightarrow> (create pri, p\<lparr>queueObservers := (queueObservers p)(nat (pri mod 256) \<mapsto> create pri)\<rparr>))"

definition getQueueObserver :: "('s, 'q, 'f) pool_env \<Rightarrow> int \<Rightarrow> ('s, 'q) CPUThreadPoolExecutor \<Rightarrow>
    nat option \<times> ('s, 'q) CPUThreadPoolExecutor" where
  "getQueueObserver E pri p = (case observerFactory E of
       None \<Rightarrow> (None, p)
     | Some create \<Rightarrow> (case queueObservers p (nat (pri mod 256)) of
           Some obs \<Rightarrow> (Some obs, p)
         | None \<Rightarrow>
             if getNumPriorities E p = 1 \<and> pri \<noteq> 0
             then (let (shared, p) = ownQueueObserver create 0 p
                   in (Some shared, p\<lparr>queueObservers := (queueObservers p)(nat (pri mod 256) \<mapsto> shared)\<rparr>))
             else (let (obs, p) = ownQueueObserver create pri p in (Some obs, p))))"

section \<open>Stopping threads\<close>

definition tryDecrToStop :: "('s, 'q) CPUThreadPoolExecutor \<Rightarrow> bool \<times> ('s, 'q) CPUThreadPoolExecutor" where
  "tryDecrToStop p =
     (let toStop = threadsToStop p
      in if toStop \<le> 0 then (False, p) else (True, p\<lparr>threadsToStop := toStop - 1\<rparr>))"

definition taskShouldStop :: "('s, 'q, 'f) pool_env \<Rightarrow> 'f CPUTask option \<Rightarrow> ('s, 'q) CPUThreadPoolExecutor \<Rightarrow>
    bool \<times> ('s, 'q) CPUThreadPoolExecutor" where
  "taskShouldStop E task p =
     (let (stop, p) = tryDecrToStop p
      in if stop then (True, p)
         else if task \<noteq> None then (False, p)
         else tryTimeoutThread (unat (getPendingTaskCountImpl E p)) p)"

text \<open>A thread takes itself off the list and hands itself over to be joined. \<open>None\<close> is a failed check
  of \<open>ThreadList::remove\<close>.\<close>

definition retireThread :: "('s, 'q, 'f) pool_env \<Rightarrow> u64 \<Rightarrow> ('s, 'q) CPUThreadPoolExecutor \<Rightarrow>
    ('s, 'q) CPUThreadPoolExecutor option" where
  "retireThread E t p = (case threadList_remove (usedCpuTime E) (threadList p) t of
       Inl e \<Rightarrow> None
     | Inr ths \<Rightarrow> (case stq_add (semOps E) (stoppedThreads p) t of
           Done (q, Inr b) \<Rightarrow> Some (p\<lparr>threadList := ths, stoppedThreads := q\<rparr>)
         | _ \<Rightarrow> None))"

definition removeThreads_begin :: "nat \<Rightarrow> bool \<Rightarrow> ('s, 'q) CPUThreadPoolExecutor \<Rightarrow> ('s, 'q) CPUThreadPoolExecutor" where
  "removeThreads_begin n j p = p\<lparr>isJoin := j, threadsToStop := threadsToStop p + int n\<rparr>"

section \<open>Thread ids of workers\<close>

definition addTid :: "u64 \<Rightarrow> ('s, 'q) CPUThreadPoolExecutor \<Rightarrow> ('s, 'q) CPUThreadPoolExecutor" where
  "addTid t p = p\<lparr>osThreadIds := insert t (osThreadIds p)\<rparr>"

text \<open>\<open>removeTid\<close> erases the id and then waits until nobody holds a \<open>WorkerKeepAlive\<close>: the thread waits
  in state \<open>WLeaving\<close> below.\<close>

definition removeTid :: "u64 \<Rightarrow> ('s, 'q) CPUThreadPoolExecutor \<Rightarrow> ('s, 'q) CPUThreadPoolExecutor" where
  "removeTid t p = p\<lparr>osThreadIds := osThreadIds p - {t}\<rparr>"

definition collectThreadIds :: "('s, 'q) CPUThreadPoolExecutor \<Rightarrow> u64 set \<times> ('s, 'q) CPUThreadPoolExecutor" where
  "collectThreadIds p = (osThreadIds p, p\<lparr>workerKeepAlives := workerKeepAlives p + 1\<rparr>)"

definition releaseWorkerKeepAlive :: "('s, 'q) CPUThreadPoolExecutor \<Rightarrow> ('s, 'q) CPUThreadPoolExecutor" where
  "releaseWorkerKeepAlive p = p\<lparr>workerKeepAlives := workerKeepAlives p - 1\<rparr>"

section \<open>Construction\<close>

text \<open>The constructor calls \<open>setNumThreads\<close> with no active thread, so that threads are only added.
  The result is the pool and its first threads.\<close>

definition newCPUThreadPoolExecutor :: "('s, 'q, 'f) pool_env \<Rightarrow> u64 \<Rightarrow> int \<Rightarrow> int \<Rightarrow> nat \<times> nat \<Rightarrow> 'q \<Rightarrow>
    u64 list \<times> ('s, 'q) CPUThreadPoolExecutor" where
  "newCPUThreadPoolExecutor E firstId timeout now num queue =
     (let p = ThreadPoolExecutor.ThreadPoolExecutor.extend (newThreadPoolExecutor (semOps E) firstId timeout (fst num) (snd num))
                \<lparr>taskQueue = queue, threadsToStop = 0, queueObservers = (\<lambda>i. None), queueLog = [],
                 osThreadIds = {}, workerKeepAlives = 0\<rparr>;
          (r, p) = setNumThreads_locked now (unat (getPendingTaskCountImpl E p)) (fst num) p;
          p = (if snd num = 0 then p\<lparr>minThreads := 1\<rparr> else p)
      in (case r of Inl n \<Rightarrow> [] | Inr newThreads \<Rightarrow> newThreads, p))"

text \<open>The constructors with one number of threads: \<open>dynamic\<close> is the flag
  \<open>dynamic_cputhreadpoolexecutor\<close>.\<close>

definition fixedNumThreads :: "bool \<Rightarrow> nat \<Rightarrow> nat \<times> nat" where
  "fixedNumThreads dynamic n = (n, if dynamic then 0 else n)"

section \<open>Program counters\<close>

datatype 'f worker_pc =
    WAbsent
  | WStart
  | WTake
  | WPolled "'f CPUTask option"
  | WGot "'f CPUTask"
  | WRun "'f CPUTask" TaskStats "'f invocation option" int
  | WAfter
  | WStopLock
  | WExit
  | WLeaving
  | WDone
  | WJoined

datatype ensure_return = AddReturn bool | MaxReturn

datatype join_return = SetNumReturn | StopReturn bool | EnsureReturn ensure_return

datatype poison_return = PoisonSetNum nat nat | PoisonStop nat bool

datatype 'f pool_call =
    SetNumThreads nat
  | Stop
  | Join
  | Destroy
  | Add 'f int "'f option" "u64 option"
  | AddWithPriority 'f int int "'f option" "u64 option"
  | AddObserver nat
  | RemoveObserver nat

datatype 'f client_pc =
    CIdle
  | CSetNum nat
  | CStop bool bool
  | CKeepAlive bool bool
  | CStopLock bool bool
  | CPoison nat poison_return
  | CJoinLoop nat join_return
  | CJoining u64 nat join_return
  | CAdd bool 'f int int "'f option" "u64 option"
  | CEnqueue "'f CPUTask" bool bool
  | CEnsJoined ensure_return
  | CEnsJoinLock ensure_return
  | CEnsFast ensure_return
  | CEnsLock ensure_return
  | CEnsMax
  | CAddObserver nat
  | CRemoveObserver nat
  | CThrew queue_exn
  | CAborted

text \<open>The system: the pool, the client that holds the lock, the threads, the keep-alive tokens out, and as history
  the tasks accepted by the queue and those that have been run, with what was called for them.\<close>

record ('s, 'q, 'f) pool_sys =
  pool :: "('s, 'q) CPUThreadPoolExecutor"
  lockHolder :: "nat option"
  workers :: "u64 \<Rightarrow> 'f worker_pc"
  clients :: "nat \<Rightarrow> 'f client_pc"
  keepAlives :: nat
  submitted :: "'f CPUTask list"
  completed :: "('f CPUTask \<times> 'f invocation option) list"

abbreviation setWorker :: "u64 \<Rightarrow> 'f worker_pc \<Rightarrow> ('s, 'q, 'f) pool_sys \<Rightarrow> ('s, 'q, 'f) pool_sys" where
  "setWorker w c s \<equiv> s\<lparr>workers := (workers s)(w := c)\<rparr>"

abbreviation setClient :: "nat \<Rightarrow> 'f client_pc \<Rightarrow> ('s, 'q, 'f) pool_sys \<Rightarrow> ('s, 'q, 'f) pool_sys" where
  "setClient c pc s \<equiv> s\<lparr>clients := (clients s)(c := pc)\<rparr>"

definition spawn :: "u64 list \<Rightarrow> ('s, 'q, 'f) pool_sys \<Rightarrow> ('s, 'q, 'f) pool_sys" where
  "spawn newThreads s = s\<lparr>workers := override_on (workers s) (\<lambda>w. WStart) (set newThreads)\<rparr>"

section \<open>The threads of the pool\<close>

fun threadRun_step :: "('s, 'q, 'f) pool_env \<Rightarrow> int \<Rightarrow> u64 \<Rightarrow> ('s, 'q, 'f) pool_sys \<Rightarrow> 'f worker_pc \<Rightarrow>
    ('s, 'q, 'f) pool_sys option" where
  "threadRun_step E now w s WStart = Some (setWorker w WTake (s\<lparr>pool := addTid w (pool s)\<rparr>))"
| "threadRun_step E now w s WTake = (case bq_try_take_for (taskOps E) (taskQueue (pool s)) of
       Done (q, Inr None) \<Rightarrow> Some (setWorker w (WPolled None) (s\<lparr>pool := pool s\<lparr>taskQueue := q\<rparr>\<rparr>))
     | Done (q, Inr (Some task)) \<Rightarrow>
         Some (setWorker w (if poison task then WPolled (Some task) else WGot task) (s\<lparr>pool := pool s\<lparr>taskQueue := q\<rparr>\<rparr>))
     | _ \<Rightarrow> None)"
| "threadRun_step E now w s (WPolled task) =
     (if lockHolder s \<noteq> None then None
      else case taskShouldStop E task (pool s) of
          (False, p) \<Rightarrow> Some (setWorker w WTake (s\<lparr>pool := p\<rparr>))
        | (True, p) \<Rightarrow> (case retireThread E w (notify (observers p) ThreadStopped [w] p) of
              None \<Rightarrow> None
            | Some p \<Rightarrow> Some (setWorker w WExit (s\<lparr>pool := p\<rparr>))))"
| "threadRun_step E now w s (WGot task) =
     (let (obs, p) = getQueueObserver E (taskPriority task) (pool s);
          p = (case obs of None \<Rightarrow> p | Some ob \<Rightarrow> p\<lparr>queueLog := queueLog p @ [OnDequeued ob (queueObserverPayload task)]\<rparr>);
          (th, stats, called) = runTask_begin (threads p w) task now
      in Some (setWorker w (WRun task stats called now) (s\<lparr>pool := p\<lparr>threads := (threads p)(w := th)\<rparr>\<rparr>)))"
| "threadRun_step E now w s (WRun task stats called start) =
     (let (th, stats, n) = runTask_end (threads (pool s) w) stats start now now (statsCallbacks (pool s))
      in Some (setWorker w WAfter (s\<lparr>pool := pool s\<lparr>threads := (threads (pool s))(w := th)\<rparr>,
                                     completed := completed s @ [(task, called)]\<rparr>)))"
| "threadRun_step E now w s WAfter =
     Some (setWorker w (if threadsToStop (pool s) > 0 \<and> \<not> isJoin (pool s) then WStopLock else WTake) s)"
| "threadRun_step E now w s WStopLock =
     (if lockHolder s \<noteq> None then None
      else case tryDecrToStop (pool s) of
          (False, p) \<Rightarrow> Some (setWorker w WTake (s\<lparr>pool := p\<rparr>))
        | (True, p) \<Rightarrow> (case retireThread E w p of
              None \<Rightarrow> None
            | Some p \<Rightarrow> Some (setWorker w WExit (s\<lparr>pool := p\<rparr>))))"
| "threadRun_step E now w s WExit =
     Some (setWorker w WLeaving (s\<lparr>pool := removeTid w (pool s)\<rparr>))"
| "threadRun_step E now w s WLeaving = (if workerKeepAlives (pool s) \<noteq> 0 then None else Some (setWorker w WDone s))"
| "threadRun_step E now w s _ = None"

section \<open>The methods\<close>

fun enter_call :: "'f pool_call \<Rightarrow> 'f client_pc" where
  "enter_call (SetNumThreads n) = CSetNum n"
| "enter_call Stop = CStop False False"
| "enter_call Join = CStop True False"
| "enter_call Destroy = CStop False True"
| "enter_call (Add f expire callback rctx) = CAdd False f 0 expire callback rctx"
| "enter_call (AddWithPriority f pri expire callback rctx) = CAdd True f pri expire callback rctx"
| "enter_call (AddObserver obs) = CAddObserver obs"
| "enter_call (RemoveObserver obs) = CRemoveObserver obs"

fun returned_client :: "'f client_pc \<Rightarrow> bool" where
  "returned_client CIdle = True"
| "returned_client (CThrew e) = True"
| "returned_client _ = False"

text \<open>Where \<open>ensureActiveThreads\<close> returns to: \<open>addImpl\<close>, which drops its keep-alive token, or the loop
  of \<open>ensureMaxActiveThreads\<close>.\<close>

fun ensure_done :: "nat \<Rightarrow> ensure_return \<Rightarrow> ('s, 'q, 'f) pool_sys \<Rightarrow> ('s, 'q, 'f) pool_sys" where
  "ensure_done c (AddReturn token) s = setClient c CIdle (if token then s\<lparr>keepAlives := keepAlives s - 1\<rparr> else s)"
| "ensure_done c MaxReturn s = setClient c CEnsMax s"

text \<open>Where \<open>joinStoppedThreads\<close> returns to. The destructor also checks \<open>threadsToStop_\<close>.\<close>

fun join_done :: "nat \<Rightarrow> join_return \<Rightarrow> ('s, 'q, 'f) pool_sys \<Rightarrow> ('s, 'q, 'f) pool_sys" where
  "join_done c SetNumReturn s = setClient c CIdle s"
| "join_done c (StopReturn destroy) s =
     setClient c (if stop_checks (pool s) \<and> (destroy \<longrightarrow> threadsToStop (pool s) = 0) then CIdle else CAborted) s"
| "join_done c (EnsureReturn r) s = setClient c (CEnsFast r) s"

text \<open>An exception from the queue leaves \<open>setNumThreads\<close>, \<open>stop\<close> and \<open>join\<close>; in the destructor, which is
  \<open>noexcept\<close>, it ends the program.\<close>

fun poison_threw :: "poison_return \<Rightarrow> queue_exn \<Rightarrow> 'f client_pc" where
  "poison_threw (PoisonStop n True) e = CAborted"
| "poison_threw r e = CThrew e"

fun client_step :: "('s, 'q, 'f) pool_env \<Rightarrow> int \<Rightarrow> nat \<Rightarrow> ('s, 'q, 'f) pool_sys \<Rightarrow> 'f client_pc \<Rightarrow>
    ('s, 'q, 'f) pool_sys option" where
  "client_step E now c s (CSetNum num) =
     (if lockHolder s \<noteq> None then None
      else case setNumThreads_locked now (unat (getPendingTaskCountImpl E (pool s))) num (pool s) of
          (Inl n, p) \<Rightarrow> Some (setClient c (CPoison n (PoisonSetNum n num))
              (s\<lparr>pool := removeThreads_begin n False p, lockHolder := Some c\<rparr>))
        | (Inr newThreads, p) \<Rightarrow> Some (setClient c (CJoinLoop 0 SetNumReturn) (spawn newThreads (s\<lparr>pool := p\<rparr>))))"
| "client_step E now c s (CStop j destroy) =
     Some (setClient c (if keepAliveJoined (pool s) then CStopLock j destroy else CKeepAlive j destroy)
       (s\<lparr>pool := pool s\<lparr>keepAliveJoined := True\<rparr>\<rparr>))"
| "client_step E now c s (CKeepAlive j destroy) =
     (if keepAlives s \<noteq> 0 then None else Some (setClient c (CStopLock j destroy) s))"
| "client_step E now c s (CStopLock j destroy) =
     (if lockHolder s \<noteq> None then None
      else let (n, p) = stop_locked (pool s)
           in Some (setClient c (CPoison n (PoisonStop n destroy))
                (s\<lparr>pool := removeThreads_begin n j p, lockHolder := Some c\<rparr>)))"
| "client_step E now c s (CPoison (Suc k) r) =
     (case bq_addWithPriority (taskOps E) (taskQueue (pool s)) (poisonTask now None) LO_PRI of
          Done (q, Inr b) \<Rightarrow> Some (setClient c (CPoison k r) (s\<lparr>pool := pool s\<lparr>taskQueue := q\<rparr>\<rparr>))
        | Done (q, Inl e) \<Rightarrow> Some (setClient c (poison_threw r e) (s\<lparr>pool := pool s\<lparr>taskQueue := q\<rparr>, lockHolder := None\<rparr>))
        | _ \<Rightarrow> None)"
| "client_step E now c s (CPoison 0 (PoisonSetNum n num)) =
     Some (setClient c (CJoinLoop n SetNumReturn) (s\<lparr>pool := setNumThreads_removed num (pool s), lockHolder := None\<rparr>))"
| "client_step E now c s (CPoison 0 (PoisonStop n destroy)) =
     (let (n', p) = stop_removed n (pool s)
      in Some (setClient c (CJoinLoop n' (StopReturn destroy)) (s\<lparr>pool := p, lockHolder := None\<rparr>)))"
| "client_step E now c s (CJoinLoop 0 r) = Some (join_done c r s)"
| "client_step E now c s (CJoinLoop (Suc n) r) =
     (case stq_take (semOps E) (semCnt E) (stoppedThreads (pool s)) of
          Done (q, Inr t) \<Rightarrow> Some (setClient c (CJoining t n r) (s\<lparr>pool := pool s\<lparr>stoppedThreads := q\<rparr>\<rparr>))
        | _ \<Rightarrow> None)"
| "client_step E now c s (CJoining t n r) =
     (if workers s t \<noteq> WDone then None else Some (setClient c (CJoinLoop n r) (setWorker t WJoined s)))"
| "client_step E now c s (CAdd withPriority f pri expire callback rctx) =
     (if withPriority \<and> \<not> getNumPriorities E (pool s) > 0 then Some (setClient c CAborted s)
      else let task = newCPUTask (Some f) now rctx expire callback pri;
               (obs, p) = getQueueObserver E pri (pool s);
               (task, p) = (case obs of
                   None \<Rightarrow> (task, p)
                 | Some ob \<Rightarrow> (task\<lparr>queueObserverPayload := onEnqueuedPayload E ob rctx\<rparr>,
                     p\<lparr>queueLog := queueLog p @ [OnEnqueued ob (onEnqueuedPayload E ob rctx)]\<rparr>));
               mayNeedToAddThreads = (minThreads p = 0 \<or> activeThreads p < maxThreads p)
           in Some (setClient c (CEnqueue task withPriority mayNeedToAddThreads)
                (s\<lparr>pool := p, keepAlives := (if mayNeedToAddThreads then keepAlives s + 1 else keepAlives s)\<rparr>)))"
| "client_step E now c s (CEnqueue task withPriority mayNeed) =
     (case (if withPriority then bq_addWithPriority (taskOps E) (taskQueue (pool s)) task (taskPriority task)
            else bq_add (taskOps E) (taskQueue (pool s)) task) of
          Done (q, Inr reused) \<Rightarrow>
            (let s = s\<lparr>pool := pool s\<lparr>taskQueue := q\<rparr>, submitted := submitted s @ [task]\<rparr>
             in Some (if mayNeed \<and> \<not> reused then setClient c (CEnsJoined (AddReturn True)) s
                      else ensure_done c (AddReturn mayNeed) s))
        | Done (q, Inl e) \<Rightarrow>
            Some (setClient c (CThrew e) (s\<lparr>pool := pool s\<lparr>taskQueue := q\<rparr>,
                                            keepAlives := (if mayNeed then keepAlives s - 1 else keepAlives s)\<rparr>))
        | _ \<Rightarrow> None)"
| "client_step E now c s (CEnsJoined r) =
     Some (setClient c (if threadsToJoin (pool s) \<noteq> 0 then CEnsJoinLock r else CEnsFast r) s)"
| "client_step E now c s (CEnsJoinLock r) =
     (if lockHolder s \<noteq> None then None
      else let (n, p) = ensureJoined_locked (pool s)
           in Some (setClient c (CJoinLoop n (EnsureReturn r)) (s\<lparr>pool := p\<rparr>)))"
| "client_step E now c s (CEnsFast r) =
     Some (if activeThreads (pool s) \<ge> maxThreads (pool s) then ensure_done c r s else setClient c (CEnsLock r) s)"
| "client_step E now c s (CEnsLock r) =
     (if lockHolder s \<noteq> None then None
      else let (newThreads, p) = ensureActiveThreads_locked now (pool s)
           in Some (ensure_done c r (spawn newThreads (s\<lparr>pool := p\<rparr>))))"
| "client_step E now c s CEnsMax =
     Some (setClient c (if activeThreads (pool s) < maxThreads (pool s) then CEnsJoined MaxReturn else CIdle) s)"
| "client_step E now c s (CAddObserver obs) =
     (if lockHolder s \<noteq> None then None else Some (setClient c CEnsMax (s\<lparr>pool := addObserver_locked obs (pool s)\<rparr>)))"
| "client_step E now c s (CRemoveObserver obs) =
     (if lockHolder s \<noteq> None then None else Some (setClient c CIdle (s\<lparr>pool := removeObserver_locked obs (pool s)\<rparr>)))"
| "client_step E now c s _ = None"

section \<open>Executions\<close>

text \<open>Besides the calls and steps of clients and the steps of pool threads, a queue observer may collect the ids of
  the pool threads and later release them.\<close>

datatype 'f action = CallOp nat "'f pool_call" | CStep nat int | WStep u64 int | CollectIds | ReleaseIds

fun pool_step :: "('s, 'q, 'f) pool_env \<Rightarrow> ('s, 'q, 'f) pool_sys \<Rightarrow> 'f action \<Rightarrow> ('s, 'q, 'f) pool_sys option" where
  "pool_step E s (CallOp c op) = (if returned_client (clients s c) then Some (setClient c (enter_call op) s) else None)"
| "pool_step E s (CStep c now) = client_step E now c s (clients s c)"
| "pool_step E s (WStep w now) = threadRun_step E now w s (workers s w)"
| "pool_step E s CollectIds = Some (s\<lparr>pool := snd (collectThreadIds (pool s))\<rparr>)"
| "pool_step E s ReleaseIds =
     (if workerKeepAlives (pool s) = 0 then None else Some (s\<lparr>pool := releaseWorkerKeepAlive (pool s)\<rparr>))"

fun pool_exec :: "('s, 'q, 'f) pool_env \<Rightarrow> ('s, 'q, 'f) pool_sys \<Rightarrow> 'f action list \<Rightarrow> ('s, 'q, 'f) pool_sys option" where
  "pool_exec E s [] = Some s"
| "pool_exec E s (a # as) = (case pool_step E s a of None \<Rightarrow> None | Some s' \<Rightarrow> pool_exec E s' as)"

definition pool_init :: "('s, 'q, 'f) pool_env \<Rightarrow> u64 \<Rightarrow> int \<Rightarrow> int \<Rightarrow> nat \<times> nat \<Rightarrow> 'q \<Rightarrow> ('s, 'q, 'f) pool_sys" where
  "pool_init E firstId timeout now num queue =
     (let (newThreads, p) = newCPUThreadPoolExecutor E firstId timeout now num queue
      in spawn newThreads \<lparr>pool = p, lockHolder = None, workers = (\<lambda>w. WAbsent), clients = (\<lambda>c. CIdle),
           keepAlives = 0, submitted = [], completed = []\<rparr>)"

end
