(* ===== verification/PoolSteps.thy ===== *)
theory PoolSteps
  imports CPUThreadPoolExecutor
begin

text \<open>
  What one step of the pool does, in the form the invariants need. The accounts of a pool are its
  counters, its thread list, the queue of stopped threads and the next thread id. Two case rules,
  \<open>worker_cases\<close> and \<open>client_cases\<close>, list the effects that a step of a pool thread or of a client can
  have on the accounts; the proofs of invariants are by these cases.
\<close>

section \<open>What the operations do\<close>

lemma len64_eq: "LENGTH(64) = 64"
  by simp

definition freshIds :: "u64 \<Rightarrow> nat \<Rightarrow> u64 list" where
  "freshIds i n = map (\<lambda>k. i + of_nat k) [0..<n]"

lemma freshIds_Suc: "freshIds i (Suc n) = i # freshIds (i + 1) n"
  unfolding freshIds_def by (subst upt_conv_Cons) (simp_all add: map_Suc_upt[symmetric] ac_simps o_def del: upt_Suc)

lemma freshIds_less:
  assumes "unat i + n < 2 ^ 64" "x \<in> set (freshIds i n)"
  shows "unat i \<le> unat x" "unat x < unat i + n"
proof -
  obtain k where k: "k < n" "x = i + of_nat k"
    using assms(2) by (auto simp: freshIds_def)
  have "unat (of_nat k :: u64) = k"
    using k(1) assms(1) by (simp add: unat_of_nat_small)
  then have "unat x = unat i + k"
    unfolding k(2) using assms(1) k(1) by (subst unat_add_lem[THEN iffD1]) simp_all
  then show "unat i \<le> unat x" "unat x < unat i + n"
    using k(1) by simp_all
qed

lemma freshIds_props:
  assumes "unat i + n < 2 ^ 64"
  shows "distinct (freshIds i n)" "length (freshIds i n) = n" "unat (i + of_nat n) = unat i + n"
proof -
  show "distinct (freshIds i n)"
    unfolding freshIds_def distinct_map
  proof (intro conjI inj_onI)
    fix x y
    assume "x \<in> set [0..<n]" "y \<in> set [0..<n]" "i + of_nat x = i + of_nat y"
    then have "of_nat x = (of_nat y :: u64)" "x < 2 ^ 64" "y < 2 ^ 64"
      using assms by simp_all
    then show "x = y"
      by (metis unat_of_nat_small len64_eq)
  qed simp
  show "length (freshIds i n) = n"
    by (simp add: freshIds_def)
  have "unat (of_nat n :: u64) = n"
    using assms by (simp add: unat_of_nat_small)
  then show "unat (i + of_nat n) = unat i + n"
    using assms by (subst unat_add_lem[THEN iffD1]) simp_all
qed

lemma makeThreads_spec:
  "\<exists>th. makeThreads now n p = (freshIds (nextId p) n, p\<lparr>nextId := nextId p + of_nat n, threads := th\<rparr>)"
proof (induction n arbitrary: p)
  case 0
  show ?case
    by (intro exI[of _ "threads p"]) (simp add: freshIds_def)
next
  case (Suc n)
  obtain th where "makeThreads now n (snd (makeThread now p)) = (freshIds (nextId p + 1) n,
      (snd (makeThread now p))\<lparr>nextId := nextId p + 1 + of_nat n, threads := th\<rparr>)"
    using Suc[of "snd (makeThread now p)"] by (auto simp: makeThread_def)
  then show ?case
    by (intro exI[of _ th]) (simp add: makeThread_def freshIds_Suc ac_simps)
qed

lemma foldl_add_ok:
  assumes "threadList_ok ths" "distinct ids" "set ids \<inter> set (vec ths) = {}"
  shows "threadList_ok (foldl threadList_add ths ids)"
    "set (vec (foldl threadList_add ths ids)) = set (vec ths) \<union> set ids"
    "length (vec (foldl threadList_add ths ids)) = length (vec ths) + length ids"
  using assms
proof (induction ids arbitrary: ths)
  case (Cons x ids)
  {
    case 1
    then show ?case
      using Cons.IH(1)[of "threadList_add ths x"] threadList_add_ok[of ths x] threadList_add_set[of ths x] by auto
  next
    case 2
    then show ?case
      using Cons.IH(2)[of "threadList_add ths x"] threadList_add_ok[of ths x] threadList_add_set[of ths x] by auto
  next
    case 3
    then show ?case
      using Cons.IH(3)[of "threadList_add ths x"] threadList_add_ok[of ths x] threadList_add_set[of ths x] by auto
  }
qed simp_all

text \<open>The effect of \<open>addThreads\<close> when the new ids are new.\<close>

lemma addThreads_spec:
  assumes "threadList_ok (threadList p)" "unat (nextId p) + n < 2 ^ 64" "\<forall>x \<in> set (vec (threadList p)). unat x < unat (nextId p)"
  shows "\<exists>th ths lg. addThreads now n p = (freshIds (nextId p) n,
      p\<lparr>nextId := nextId p + of_nat n, threads := th, threadList := ths, observerLog := lg\<rparr>) \<and>
      threadList_ok ths \<and> set (vec ths) = set (vec (threadList p)) \<union> set (freshIds (nextId p) n) \<and>
      length (vec ths) = length (vec (threadList p)) + n"
proof -
  have "set (freshIds (nextId p) n) \<inter> set (vec (threadList p)) = {}"
    using freshIds_less(1)[OF assms(2)] assms(3) by fastforce
  note ths = foldl_add_ok[OF assms(1) freshIds_props(1)[OF assms(2)] this]
  obtain th where "makeThreads now n p = (freshIds (nextId p) n, p\<lparr>nextId := nextId p + of_nat n, threads := th\<rparr>)"
    using makeThreads_spec by blast
  then show ?thesis
    using ths freshIds_props(2)[OF assms(2)] by (auto simp: addThreads_def notify_def)
qed

lemma stq_add_eq:
  "stq_add S q x = Done (\<lparr>stq_sem = snd (semPost S (stq_sem q)), stq_queue = stq_queue q @ [x]\<rparr>, Inr (fst (semPost S (stq_sem q))))"
  by (simp add: stq_add_def case_prod_beta)

lemma stq_take_loop_item:
  assumes "stq_take_loop S n q = Done (q', Inr (Some t))"
  shows "stq_queue q = t # stq_queue q'"
  using assms
proof (induction n arbitrary: q)
  case (Suc n)
  show ?case
  proof (cases "stq_queue q")
    case Nil
    with Suc.prems obtain s where "stq_take_loop S n (q\<lparr>stq_sem := s\<rparr>) = Done (q', Inr (Some t))"
      by (cases "semTryWait S (stq_sem q)") auto
    from Suc.IH[OF this] Nil show ?thesis
      by simp
  qed (use Suc.prems in auto)
qed simp

lemma stq_take_item:
  assumes "stq_take S cnt q = Done (q', Inr t)"
  shows "stq_queue q = t # stq_queue q'"
proof -
  obtain q'' r where r: "stq_try_take_for S cnt q = Done (q'', r)"
    using assms by (cases "stq_try_take_for S cnt q") (auto simp: stq_take_def)
  with assms have "stq_try_take_for S cnt q = Done (q', Inr (Some t))"
    by (cases r; cases "projr r") (auto simp: stq_take_def)
  then show ?thesis
    unfolding stq_try_take_for_def by (rule stq_take_loop_item)
qed

lemma retireThread_spec:
  assumes "threadList_ok (threadList p)"
  shows "retireThread E t p = (if t \<in> set (vec (threadList p))
     then Some (p\<lparr>threadList := \<lparr>vec = filter (\<lambda>y. y \<noteq> t) (vec (threadList p)),
                                pastCpuUsed = pastCpuUsed (threadList p) + usedCpuTime E t\<rparr>,
                  stoppedThreads := \<lparr>stq_sem = snd (semPost (semOps E) (stq_sem (stoppedThreads p))),
                                     stq_queue = stq_queue (stoppedThreads p) @ [t]\<rparr>\<rparr>)
     else None)"
  using assms by (simp add: retireThread_def threadList_remove_sorted stq_add_eq)

lemma getQueueObserver_frame:
  "snd (getQueueObserver E pri p) = p\<lparr>queueObservers := queueObservers (snd (getQueueObserver E pri p))\<rparr>"
  by (auto simp: getQueueObserver_def ownQueueObserver_def Let_def split: option.split)

lemma getQueueObserver_fields [simp]:
  "maxThreads (snd (getQueueObserver E pri p)) = maxThreads p"
  "minThreads (snd (getQueueObserver E pri p)) = minThreads p"
  "activeThreads (snd (getQueueObserver E pri p)) = activeThreads p"
  "threadsToJoin (snd (getQueueObserver E pri p)) = threadsToJoin p"
  "threadTimeout (snd (getQueueObserver E pri p)) = threadTimeout p"
  "isJoin (snd (getQueueObserver E pri p)) = isJoin p"
  "keepAliveJoined (snd (getQueueObserver E pri p)) = keepAliveJoined p"
  "nextId (snd (getQueueObserver E pri p)) = nextId p"
  "threads (snd (getQueueObserver E pri p)) = threads p"
  "threadList (snd (getQueueObserver E pri p)) = threadList p"
  "stoppedThreads (snd (getQueueObserver E pri p)) = stoppedThreads p"
  "statsCallbacks (snd (getQueueObserver E pri p)) = statsCallbacks p"
  "observers (snd (getQueueObserver E pri p)) = observers p"
  "observerLog (snd (getQueueObserver E pri p)) = observerLog p"
  "taskQueue (snd (getQueueObserver E pri p)) = taskQueue p"
  "threadsToStop (snd (getQueueObserver E pri p)) = threadsToStop p"
  "queueLog (snd (getQueueObserver E pri p)) = queueLog p"
  "osThreadIds (snd (getQueueObserver E pri p)) = osThreadIds p"
  "workerKeepAlives (snd (getQueueObserver E pri p)) = workerKeepAlives p"
  by (subst getQueueObserver_frame, simp)+

section \<open>Kinds of program counters\<close>

fun on_list :: "'f worker_pc \<Rightarrow> bool" where
  "on_list WAbsent = False"
| "on_list WExit = False"
| "on_list WLeaving = False"
| "on_list WDone = False"
| "on_list WJoined = False"
| "on_list _ = True"

definition exited :: "'f worker_pc \<Rightarrow> bool" where
  "exited pc \<longleftrightarrow> pc = WExit \<or> pc = WLeaving \<or> pc = WDone"

fun holding :: "'f client_pc \<Rightarrow> bool" where
  "holding (CPoison k r) = True"
| "holding _ = False"

text \<open>How many stopped threads a client is still going to take.\<close>

fun demand :: "'f client_pc \<Rightarrow> nat" where
  "demand (CPoison k (PoisonSetNum n num)) = n"
| "demand (CPoison k (PoisonStop n d)) = n"
| "demand (CJoinLoop n r) = n"
| "demand (CJoining t n r) = n"
| "demand _ = 0"

fun joining :: "'f client_pc \<Rightarrow> u64 option" where
  "joining (CJoining t n r) = Some t"
| "joining _ = None"

definition acct :: "('s, 'q) CPUThreadPoolExecutor \<Rightarrow> nat \<times> nat \<times> nat \<times> nat \<times> int \<times> ThreadList \<times> u64 list \<times> u64" where
  "acct p = (maxThreads p, minThreads p, activeThreads p, threadsToJoin p, threadsToStop p, threadList p,
     stq_queue (stoppedThreads p), nextId p)"

lemma acct_eq:
  "acct p = acct p' \<longleftrightarrow> maxThreads p = maxThreads p' \<and> minThreads p = minThreads p' \<and> activeThreads p = activeThreads p' \<and>
     threadsToJoin p = threadsToJoin p' \<and> threadsToStop p = threadsToStop p' \<and> threadList p = threadList p' \<and>
     stq_queue (stoppedThreads p) = stq_queue (stoppedThreads p') \<and> nextId p = nextId p'"
  by (simp add: acct_def)

section \<open>What a step of a pool thread does to the accounts\<close>

lemma worker_cases:
  assumes "threadRun_step E now w s (workers s w) = Some s'" "threadList_ok (threadList (pool s))"
  obtains
    (move) pc p hist where "on_list (workers s w)" "on_list pc" "acct p = acct (pool s)"
      "s' = setWorker w pc (s\<lparr>pool := p, completed := hist\<rparr>)"
  | (retire) p where "on_list (workers s w)" "lockHolder s = None" "0 < threadsToStop (pool s)"
      "w \<in> set (vec (threadList (pool s)))" "s' = setWorker w WExit (s\<lparr>pool := p\<rparr>)"
      "maxThreads p = maxThreads (pool s)" "minThreads p = minThreads (pool s)"
      "activeThreads p = activeThreads (pool s)" "threadsToJoin p = threadsToJoin (pool s)"
      "threadsToStop p = threadsToStop (pool s) - 1" "vec (threadList p) = filter (\<lambda>y. y \<noteq> w) (vec (threadList (pool s)))"
      "stq_queue (stoppedThreads p) = stq_queue (stoppedThreads (pool s)) @ [w]" "nextId p = nextId (pool s)"
  | (timeout) p where "workers s w = WPolled None" "lockHolder s = None" "threadsToStop (pool s) \<le> 0" "minActive (pool s)"
      "getPendingTaskCountImpl E (pool s) = 0"
      "w \<in> set (vec (threadList (pool s)))" "s' = setWorker w WExit (s\<lparr>pool := p\<rparr>)"
      "maxThreads p = maxThreads (pool s)" "minThreads p = minThreads (pool s)"
      "activeThreads p = activeThreads (pool s) - 1" "threadsToJoin p = threadsToJoin (pool s) + 1"
      "threadsToStop p = threadsToStop (pool s)" "vec (threadList p) = filter (\<lambda>y. y \<noteq> w) (vec (threadList (pool s)))"
      "stq_queue (stoppedThreads p) = stq_queue (stoppedThreads (pool s)) @ [w]" "nextId p = nextId (pool s)"
  | (exit) pc p where "exited (workers s w)" "exited pc" "acct p = acct (pool s)" "s' = setWorker w pc (s\<lparr>pool := p\<rparr>)"
proof (cases "workers s w")
  case WStart
  then show thesis
    using assms(1) by (intro move[of WTake "addTid w (pool s)" "completed s"]) (auto simp: acct_def addTid_def)
next
  case WTake
  then show thesis
    using assms(1) by (intro move[of "workers s' w" "pool s'" "completed s"])
      (auto simp: acct_def split: outcome.splits prod.splits sum.splits option.splits)
next
  case (WPolled task)
  show thesis
  proof (cases "threadsToStop (pool s) \<le> 0")
    case True
    show thesis
    proof (cases "task = None \<and> minActive (pool s) \<and> unat (getPendingTaskCountImpl E (pool s)) = 0")
      case stop: True
      have "getPendingTaskCountImpl E (pool s) = 0"
        using stop by (simp add: unat_eq_zero)
      with stop True show thesis
        using assms WPolled
        by (intro timeout[of "pool s'"])
          (auto simp: taskShouldStop_def tryDecrToStop_def tryTimeoutThread_def retireThread_spec notify_def Let_def split: if_splits)
    next
      case cont: False
      with True show thesis
        using assms WPolled
        by (intro move[of WTake "pool s'" "completed s"])
          (auto simp: taskShouldStop_def tryDecrToStop_def tryTimeoutThread_def acct_def Let_def minActive_def split: if_splits)
    qed
  next
    case False
    then show thesis
      using assms WPolled
      by (intro retire[of "pool s'"])
        (auto simp: taskShouldStop_def tryDecrToStop_def retireThread_spec notify_def Let_def split: if_splits)
  qed
next
  case (WGot task)
  then show thesis
    using assms(1)
    by (intro move[of "workers s' w" "pool s'" "completed s"])
      (auto simp: acct_def Let_def case_prod_beta split: option.splits)
next
  case (WRun task stats called start)
  then show thesis
    using assms(1) by (intro move[of "workers s' w" "pool s'" "completed s'"]) (auto simp: acct_def Let_def case_prod_beta)
next
  case WAfter
  then show thesis
    using assms(1) by (intro move[of "workers s' w" "pool s" "completed s"]) (auto split: if_splits)
next
  case WStopLock
  show thesis
  proof (cases "threadsToStop (pool s) \<le> 0")
    case True
    then show thesis
      using assms(1) WStopLock
      by (intro move[of WTake "pool s" "completed s"]) (auto simp: tryDecrToStop_def Let_def split: if_splits)
  next
    case False
    then show thesis
      using assms WStopLock
      by (intro retire[of "pool s'"]) (auto simp: tryDecrToStop_def retireThread_spec Let_def split: if_splits)
  qed
next
  case WExit
  then show thesis
    using assms(1) by (intro exit[of WLeaving "removeTid w (pool s)"]) (auto simp: acct_def removeTid_def exited_def)
next
  case WLeaving
  then show thesis
    using assms(1) by (intro exit[of WDone "pool s"]) (auto simp: exited_def split: if_splits)
qed (use assms(1) in simp_all)

section \<open>What a step of a client does to the accounts\<close>

fun poison_of :: "'f client_pc \<Rightarrow> poison_return option" where
  "poison_of (CPoison k r) = Some r"
| "poison_of _ = None"

definition plain :: "'f client_pc \<Rightarrow> bool" where
  "plain pc \<longleftrightarrow> poison_of pc = None \<and> demand pc = 0 \<and> joining pc = None \<and> (\<forall>num. pc \<noteq> CSetNum num)"

lemma plain_simps [simp]:
  "plain CIdle" "plain (CStop j d)" "plain (CKeepAlive j d)" "plain (CStopLock j d)" "plain (CJoinLoop 0 r)"
  "plain (CAdd wp f pri e cb rc)" "plain (CEnqueue tk wp m)" "plain (CEnsJoined er)" "plain (CEnsJoinLock er)"
  "plain (CEnsFast er)" "plain (CEnsLock er)" "plain CEnsMax" "plain (CAddObserver ob)" "plain (CRemoveObserver ob)"
  "plain (CThrew ex)" "plain CAborted" "\<not> plain (CPoison k pr)" "\<not> plain (CJoinLoop (Suc n) r)" "\<not> plain (CJoining t n r)"
  "\<not> plain (CSetNum num)"
  by (auto simp: plain_def)

lemma plain_threw [simp]: "plain (poison_threw r e)"
  by (cases "(r, e)" rule: poison_threw.cases) (simp_all add: plain_def)

lemma ensure_done_eq:
  obtains pc and ka :: nat where "ensure_done c r s = setClient c pc (s\<lparr>keepAlives := ka\<rparr>)" "plain pc"
proof (cases r)
  case (AddReturn token)
  then show thesis
    using that[where pc = CIdle and ka = "if token then keepAlives s - 1 else keepAlives s"] by simp
next
  case MaxReturn
  then show thesis
    using that[where pc = CEnsMax and ka = "keepAlives s"] by simp
qed

lemma join_done_eq:
  obtains pc where "join_done c r s = setClient c pc s" "plain pc"
  using that by (cases r) auto

lemma setNumThreads_locked_cases:
  assumes "threadList_ok (threadList p)" "\<forall>x \<in> set (vec (threadList p)). unat x < unat (nextId p)"
    "unat (nextId p) + num < 2 ^ 64"
  obtains
    (shrink) "num < activeThreads p"
      "setNumThreads_locked now pending num p = (Inl (activeThreads p - num),
         p\<lparr>maxThreads := num, minThreads := min (minThreads p) num\<rparr>)"
  | (grow) n th ths lg where "activeThreads p \<le> num" "n \<le> num - activeThreads p"
      "setNumThreads_locked now pending num p = (Inr (freshIds (nextId p) n),
         p\<lparr>maxThreads := num, minThreads := min (minThreads p) num, activeThreads := activeThreads p + n,
            nextId := nextId p + of_nat n, threads := th, threadList := ths, observerLog := lg\<rparr>)"
      "threadList_ok ths" "set (vec ths) = set (vec (threadList p)) \<union> set (freshIds (nextId p) n)"
      "length (vec ths) = length (vec (threadList p)) + n"
proof -
  let ?p = "p\<lparr>maxThreads := num, minThreads := min (minThreads p) num\<rparr>"
  have p: "(if num < minThreads p then p\<lparr>maxThreads := num, minThreads := num\<rparr> else p\<lparr>maxThreads := num\<rparr>) = ?p"
    by simp
  define k where "k = (let numToAdd = min pending (num - activeThreads p);
                   numToAdd = (if observers p \<noteq> [] then num - activeThreads p else numToAdd)
               in if activeThreads p + numToAdd < minThreads ?p then minThreads ?p - activeThreads p else numToAdd)"
  have kle: "k \<le> num - activeThreads p"
    by (auto simp: k_def Let_def intro!: diff_le_mono)
  consider (s) "num < activeThreads p" | (g) "activeThreads p \<le> num" "pending > 0 \<or> observers p \<noteq> [] \<or> activeThreads p < minThreads ?p"
    | (n) "activeThreads p \<le> num" "\<not> (pending > 0 \<or> observers p \<noteq> [] \<or> activeThreads p < minThreads ?p)"
    by linarith
  then show thesis
  proof cases
    case s
    then show thesis
      by (intro shrink) (simp_all add: setNumThreads_locked_def Let_def p)
  next
    case g
    have "unat (nextId ?p) + k < 2 ^ 64"
      using kle assms(3) by simp
    with addThreads_spec[of ?p k now] assms(1,2) obtain th ths lg where
      a: "addThreads now k ?p = (freshIds (nextId p) k,
          ?p\<lparr>nextId := nextId p + of_nat k, threads := th, threadList := ths, observerLog := lg\<rparr>)"
        "threadList_ok ths" "set (vec ths) = set (vec (threadList p)) \<union> set (freshIds (nextId p) k)"
        "length (vec ths) = length (vec (threadList p)) + k"
      by auto
    have "setNumThreads_locked now pending num p = (let (newThreads, p') = addThreads now k ?p
        in (Inr newThreads, p'\<lparr>activeThreads := activeThreads p + k\<rparr>))"
      using g unfolding setNumThreads_locked_def k_def by (simp add: Let_def p)
    then show thesis
      using a g(1) kle by (intro grow[where n = k and th = th and ths = ths and lg = lg]) (simp_all add: Let_def)
  next
    case n
    then have "setNumThreads_locked now pending num p = (Inr [], ?p)"
      unfolding setNumThreads_locked_def by (auto simp: Let_def p)
    then show thesis
      using n(1) assms(1)
      by (intro grow[where n = 0 and th = "threads p" and ths = "threadList p" and lg = "observerLog p"]) (simp_all add: freshIds_def)
  qed
qed

text \<open>A client step, by its effect on the accounts. \<open>B\<close> bounds the number of threads it may start.\<close>

lemma client_cases:
  assumes step: "client_step E now c s (clients s c) = Some s'" and ok: "threadList_ok (threadList (pool s))"
    and ids: "\<forall>x \<in> set (vec (threadList (pool s))). unat x < unat (nextId (pool s))"
    and B: "unat (nextId (pool s)) + B < 2 ^ 64" "\<forall>num. clients s c = CSetNum num \<longrightarrow> num \<le> B" "maxThreads (pool s) \<le> B"
  obtains
    (move) pc p ka sub where "plain (clients s c)" "plain pc" "acct p = acct (pool s)"
      "s' = setClient c pc (s\<lparr>pool := p, keepAlives := ka, submitted := sub\<rparr>)"
  | (poison) k r p where "clients s c = CPoison (Suc k) r" "acct p = acct (pool s)"
      "s' = setClient c (CPoison k r) (s\<lparr>pool := p\<rparr>)"
  | (threw) k r p e where "clients s c = CPoison (Suc k) r" "acct p = acct (pool s)"
      "s' = setClient c (poison_threw r e) (s\<lparr>pool := p, lockHolder := None\<rparr>)"
      "\<exists>q. bq_addWithPriority (taskOps E) (taskQueue (pool s)) (poisonTask now None) LO_PRI = Done (q, Inl e)"
  | (shrink) num p where "clients s c = CSetNum num" "lockHolder s = None" "num < activeThreads (pool s)"
      "s' = setClient c (CPoison (activeThreads (pool s) - num) (PoisonSetNum (activeThreads (pool s) - num) num))
         (s\<lparr>pool := p, lockHolder := Some c\<rparr>)"
      "acct p = acct (pool s\<lparr>maxThreads := num, minThreads := min (minThreads (pool s)) num,
         threadsToStop := threadsToStop (pool s) + int (activeThreads (pool s) - num)\<rparr>)"
  | (grow) num n th ths lg where "clients s c = CSetNum num" "lockHolder s = None" "activeThreads (pool s) \<le> num"
      "n \<le> num - activeThreads (pool s)" "threadList_ok ths" 
      "set (vec ths) = set (vec (threadList (pool s))) \<union> set (freshIds (nextId (pool s)) n)"
      "length (vec ths) = length (vec (threadList (pool s))) + n"
      "s' = setClient c (CJoinLoop 0 SetNumReturn) (spawn (freshIds (nextId (pool s)) n) (s\<lparr>pool :=
         pool s\<lparr>maxThreads := num, minThreads := min (minThreads (pool s)) num, activeThreads := activeThreads (pool s) + n,
            nextId := nextId (pool s) + of_nat n, threads := th, threadList := ths, observerLog := lg\<rparr>\<rparr>))"
  | (stopping) j d p where "clients s c = CStopLock j d" "lockHolder s = None"
      "s' = setClient c (CPoison (length (vec (threadList (pool s)))) (PoisonStop (length (vec (threadList (pool s)))) d))
         (s\<lparr>pool := p, lockHolder := Some c\<rparr>)"
      "acct p = acct (pool s\<lparr>maxThreads := 0, activeThreads := 0,
         threadsToStop := threadsToStop (pool s) + int (length (vec (threadList (pool s))))\<rparr>)"
  | (shrunk) n num where "clients s c = CPoison 0 (PoisonSetNum n num)"
      "s' = setClient c (CJoinLoop n SetNumReturn) (s\<lparr>pool := pool s\<lparr>activeThreads := num\<rparr>, lockHolder := None\<rparr>)"
  | (stopped) n d where "clients s c = CPoison 0 (PoisonStop n d)"
      "s' = setClient c (CJoinLoop (n + threadsToJoin (pool s)) (StopReturn d))
         (s\<lparr>pool := pool s\<lparr>threadsToJoin := 0\<rparr>, lockHolder := None\<rparr>)"
  | (taken) n r t q where "clients s c = CJoinLoop (Suc n) r" "stq_queue (stoppedThreads (pool s)) = t # stq_queue q"
      "s' = setClient c (CJoining t n r) (s\<lparr>pool := pool s\<lparr>stoppedThreads := q\<rparr>\<rparr>)"
  | (joined) t n r where "clients s c = CJoining t n r" "workers s t = WDone"
      "s' = setClient c (CJoinLoop n r) (setWorker t WJoined s)"
  | (ensjoin) r where "clients s c = CEnsJoinLock r" "lockHolder s = None"
      "s' = setClient c (CJoinLoop (threadsToJoin (pool s)) (EnsureReturn r)) (s\<lparr>pool := pool s\<lparr>threadsToJoin := 0\<rparr>\<rparr>)"
  | (ensadd) r pc ka th ths lg where "clients s c = CEnsLock r" "lockHolder s = None"
      "activeThreads (pool s) < maxThreads (pool s)" "plain pc" "threadList_ok ths" 
      "set (vec ths) = set (vec (threadList (pool s))) \<union> set (freshIds (nextId (pool s)) 1)"
      "length (vec ths) = length (vec (threadList (pool s))) + 1"
      "s' = setClient c pc (spawn (freshIds (nextId (pool s)) 1) (s\<lparr>pool :=
         pool s\<lparr>nextId := nextId (pool s) + of_nat 1, threads := th, threadList := ths, observerLog := lg,
            activeThreads := activeThreads (pool s) + 1\<rparr>, keepAlives := ka\<rparr>))"
proof (cases "clients s c")
  case (CSetNum num)
  have free: "lockHolder s = None" and bound: "unat (nextId (pool s)) + num < 2 ^ 64"
    using step CSetNum B(1,2) by (auto split: if_splits)
  show thesis
    using ok ids bound
  proof (cases rule: setNumThreads_locked_cases[where num = num and now = now
        and pending = "unat (getPendingTaskCountImpl E (pool s))"])
    case shrink: shrink
    then show thesis
      using CSetNum step free by (intro that(4)[of num "pool s'"]) (auto simp: acct_def removeThreads_begin_def)
  next
    case (grow n th ths lg)
    then show thesis
      using CSetNum step free
      by (intro that(5)[where num = num and n = n and th = th and ths = ths and lg = lg]) simp_all
  qed
next
  case (CStop j d)
  then show thesis
    using step by (intro move[where pc = "clients s' c" and p = "pool s'" and ka = "keepAlives s" and sub = "submitted s"]) (auto simp: acct_def)
next
  case (CKeepAlive j d)
  then show thesis
    using step by (intro move[where pc = "CStopLock j d" and p = "pool s" and ka = "keepAlives s" and sub = "submitted s"]) (auto split: if_splits)
next
  case (CStopLock j d)
  then show thesis
    using step by (intro stopping[of j d "pool s'"])
      (auto simp: acct_def stop_locked_def removeThreads_begin_def Let_def split: if_splits)
next
  case (CPoison k r)
  show thesis
  proof (cases k)
    case 0
    show thesis
    proof (cases r)
      case (PoisonSetNum n num)
      then show thesis
        using step CPoison 0 by (intro shrunk[of n num]) (auto simp: setNumThreads_removed_def)
    next
      case (PoisonStop n d)
      then show thesis
        using step CPoison 0 by (intro stopped[of n d]) (auto simp: stop_removed_def)
    qed
  next
    case (Suc k')
    then consider (a) q b where "bq_addWithPriority (taskOps E) (taskQueue (pool s)) (poisonTask now None) LO_PRI = Done (q, Inr b)"
      | (b) q e where "bq_addWithPriority (taskOps E) (taskQueue (pool s)) (poisonTask now None) LO_PRI = Done (q, Inl e)"
      using step CPoison by (auto split: outcome.splits prod.splits sum.splits)
    then show thesis
    proof cases
      case a
      then show thesis
        using step CPoison Suc by (intro poison[of k' r "pool s'"]) (auto simp: acct_def)
    next
      case b
      then show thesis
        using step CPoison Suc by (intro threw[of k' r "pool s'" e]) (auto simp: acct_def)
    qed
  qed
next
  case (CJoinLoop n r)
  show thesis
  proof (cases n)
    case 0
    obtain pc where "join_done c r s = setClient c pc s" "plain pc"
      by (rule join_done_eq)
    then show thesis
      using step CJoinLoop 0 by (intro move[where pc = pc and p = "pool s" and ka = "keepAlives s" and sub = "submitted s"]) auto
  next
    case (Suc n')
    then obtain q t where "stq_take (semOps E) (semCnt E) (stoppedThreads (pool s)) = Done (q, Inr t)"
      using step CJoinLoop by (auto split: outcome.splits prod.splits sum.splits)
    then show thesis
      using step CJoinLoop Suc stq_take_item by (intro taken[of n' r t q]) auto
  qed
next
  case (CJoining t n r)
  then show thesis
    using step by (intro joined[of t n r]) (auto split: if_splits)
next
  case (CAdd wp f pri e cb rc)
  then show thesis
    using step by (intro move[where pc = "clients s' c" and p = "pool s'" and ka = "keepAlives s'" and sub = "submitted s"])
      (auto simp: acct_def Let_def case_prod_beta split: if_splits option.splits)
next
  case (CEnqueue task wp mayNeed)
  show thesis
    using step CEnqueue
    by (intro move[where pc = "clients s' c" and p = "pool s'" and ka = "keepAlives s'" and sub = "submitted s'"])
      (auto simp: acct_def Let_def split: outcome.splits prod.splits sum.splits if_splits)
next
  case (CEnsJoined r)
  then show thesis
    using step by (intro move[where pc = "clients s' c" and p = "pool s" and ka = "keepAlives s" and sub = "submitted s"]) auto
next
  case (CEnsJoinLock r)
  then show thesis
    using step by (intro ensjoin[of r]) (auto simp: ensureJoined_locked_def split: if_splits)
next
  case (CEnsFast r)
  obtain pc ka where "ensure_done c r s = setClient c pc (s\<lparr>keepAlives := ka\<rparr>)" "plain pc"
    by (rule ensure_done_eq)
  then show thesis
    using step CEnsFast by (intro move[where pc = "clients s' c" and p = "pool s" and ka = "keepAlives s'" and sub = "submitted s"]) (auto split: if_splits)
next
  case (CEnsLock r)
  have free: "lockHolder s = None"
    using step CEnsLock by (auto split: if_splits)
  show thesis
  proof (cases "activeThreads (pool s) < maxThreads (pool s)")
    case True
    then have "unat (nextId (pool s)) + 1 < 2 ^ 64"
      using B(1,3) by simp
    from addThreads_spec[OF ok this ids, of now] obtain th ths lg where
      a: "addThreads now 1 (pool s) = (freshIds (nextId (pool s)) 1,
          pool s\<lparr>nextId := nextId (pool s) + of_nat 1, threads := th, threadList := ths, observerLog := lg\<rparr>)"
        "threadList_ok ths" "set (vec ths) = set (vec (threadList (pool s))) \<union> set (freshIds (nextId (pool s)) 1)"
        "length (vec ths) = length (vec (threadList (pool s))) + 1"
      by blast
    let ?s = "spawn (freshIds (nextId (pool s)) 1) (s\<lparr>pool := pool s\<lparr>nextId := nextId (pool s) + of_nat 1, threads := th,
            threadList := ths, observerLog := lg, activeThreads := activeThreads (pool s) + 1\<rparr>\<rparr>)"
    obtain pc ka where d: "ensure_done c r ?s = setClient c pc (?s\<lparr>keepAlives := ka\<rparr>)" "plain pc"
      by (rule ensure_done_eq)
    have "s' = ensure_done c r ?s"
      using step CEnsLock free True a(1) by (simp add: ensureActiveThreads_locked_def Let_def)
    then show thesis
      using d CEnsLock free True a(2-4)
      by (intro ensadd[where r = r and pc = pc and ka = ka and th = th and ths = ths and lg = lg]) (simp_all add: spawn_def)
  next
    case False
    obtain pc ka where "ensure_done c r s = setClient c pc (s\<lparr>keepAlives := ka\<rparr>)" "plain pc"
      by (rule ensure_done_eq)
    then show thesis
      using step CEnsLock free False
      by (intro move[where pc = pc and p = "pool s" and ka = ka and sub = "submitted s"]) (auto simp: ensureActiveThreads_locked_def spawn_def Let_def)
  qed
next
  case CEnsMax
  then show thesis
    using step by (intro move[where pc = "clients s' c" and p = "pool s" and ka = "keepAlives s" and sub = "submitted s"]) auto
next
  case (CAddObserver ob)
  then show thesis
    using step by (intro move[where pc = CEnsMax and p = "pool s'" and ka = "keepAlives s" and sub = "submitted s"])
      (auto simp: acct_def addObserver_locked_def notify_def Let_def split: if_splits)
next
  case (CRemoveObserver ob)
  then show thesis
    using step by (intro move[where pc = CIdle and p = "pool s'" and ka = "keepAlives s" and sub = "submitted s"])
      (auto simp: acct_def removeObserver_locked_def notify_def Let_def split: if_splits)
qed (use step in simp_all)

end
