(* ===== verification/PoolInvariants.thy ===== *)
theory PoolInvariants
  imports PoolSteps
begin

text \<open>
  The invariants of a pool at work, for any task queue and any number of clients:
  \<open>lock_ok\<close> (the lock is held by the client that is adding poison tasks), \<open>list_ok\<close> (the thread
  list is sorted and holds exactly the running threads), \<open>stopped_ok\<close> (stopped threads are joined once),
  \<open>counts_ok\<close> (how the thread list, the active threads and the threads to stop are related) and
  \<open>demand_ok\<close> (how many stopped threads are waited for). The last two are inequalities in general, and
  equalities (flag \<open>ex\<close>) in an execution in which \<open>stop\<close> and \<open>join\<close> begin only when no thread remains to
  be stopped and no poison task is refused by the queue.
\<close>

section \<open>The invariant\<close>

definition upto :: "bool \<Rightarrow> int \<Rightarrow> int \<Rightarrow> bool" where
  "upto ex a b \<longleftrightarrow> a \<le> b \<and> (ex \<longrightarrow> a = b)"

definition overlap :: "('s, 'q, 'f) pool_sys \<Rightarrow> nat" where
  "overlap s = (case lockHolder s of
       None \<Rightarrow> 0
     | Some c \<Rightarrow> (case poison_of (clients s c) of Some (PoisonSetNum n num) \<Rightarrow> n | _ \<Rightarrow> 0))"

definition lock_ok :: "('s, 'q, 'f) pool_sys \<Rightarrow> bool" where
  "lock_ok s \<longleftrightarrow>
     (\<forall>c. lockHolder s = Some c \<longleftrightarrow> poison_of (clients s c) \<noteq> None) \<and>
     (\<forall>c n num. poison_of (clients s c) = Some (PoisonSetNum n num) \<longrightarrow>
        activeThreads (pool s) = num + n \<and> maxThreads (pool s) = num) \<and>
     (\<forall>c n d. poison_of (clients s c) = Some (PoisonStop n d) \<longrightarrow> activeThreads (pool s) = 0 \<and> maxThreads (pool s) = 0)"

definition list_ok :: "('s, 'q, 'f) pool_sys \<Rightarrow> bool" where
  "list_ok s \<longleftrightarrow> threadList_ok (threadList (pool s)) \<and>
     (\<forall>w. w \<in> set (vec (threadList (pool s))) \<longleftrightarrow> on_list (workers s w)) \<and>
     (\<forall>w. workers s w \<noteq> WAbsent \<longrightarrow> unat w < unat (nextId (pool s)))"

definition stopped_ok :: "('s, 'q, 'f) pool_sys \<Rightarrow> bool" where
  "stopped_ok s \<longleftrightarrow> distinct (stq_queue (stoppedThreads (pool s))) \<and>
     (\<forall>w \<in> set (stq_queue (stoppedThreads (pool s))). exited (workers s w)) \<and>
     (\<forall>c t. joining (clients s c) = Some t \<longrightarrow> exited (workers s t) \<and> t \<notin> set (stq_queue (stoppedThreads (pool s)))) \<and>
     (\<forall>c c' t. joining (clients s c) = Some t \<longrightarrow> joining (clients s c') = Some t \<longrightarrow> c = c') \<and>
     (\<forall>w. exited (workers s w) \<longrightarrow> w \<in> set (stq_queue (stoppedThreads (pool s))) \<or> (\<exists>c. joining (clients s c) = Some w))"

definition counts_ok :: "bool \<Rightarrow> ('s, 'q, 'f) pool_sys \<Rightarrow> bool" where
  "counts_ok ex s \<longleftrightarrow> 0 \<le> threadsToStop (pool s) \<and>
     (ex \<longrightarrow> activeThreads (pool s) \<le> maxThreads (pool s) + overlap s) \<and>
     upto ex (int (length (vec (threadList (pool s))) + overlap s)) (int (activeThreads (pool s)) + threadsToStop (pool s))"

definition demand_ok :: "bool \<Rightarrow> nat \<Rightarrow> ('s, 'q, 'f) pool_sys \<Rightarrow> bool" where
  "demand_ok ex K s \<longleftrightarrow> upto ex (int (threadsToJoin (pool s) + (\<Sum>c<K. demand (clients s c))))
     (int (length (stq_queue (stoppedThreads (pool s)))) + threadsToStop (pool s))"

definition limits_ok :: "nat \<Rightarrow> nat \<Rightarrow> ('s, 'q, 'f) pool_sys \<Rightarrow> bool" where
  "limits_ok B K s \<longleftrightarrow> maxThreads (pool s) \<le> B \<and> (\<forall>c num. clients s c = CSetNum num \<longrightarrow> num \<le> B) \<and>
     (\<forall>c. K \<le> c \<longrightarrow> clients s c = CIdle)"

definition pool_inv :: "bool \<Rightarrow> nat \<Rightarrow> nat \<Rightarrow> ('s, 'q, 'f) pool_sys \<Rightarrow> bool" where
  "pool_inv ex B K s \<longleftrightarrow> lock_ok s \<and> list_ok s \<and> stopped_ok s \<and> counts_ok ex s \<and> demand_ok ex K s \<and> limits_ok B K s"

lemma pool_invD:
  assumes "pool_inv ex B K s"
  shows "lock_ok s" "list_ok s" "stopped_ok s" "counts_ok ex s" "demand_ok ex K s" "limits_ok B K s"
  using assms by (auto simp: pool_inv_def)

text \<open>The calls and steps of an execution with thread counts up to \<open>B\<close> and clients below \<open>K\<close>.\<close>

fun call_ok :: "nat \<Rightarrow> nat \<Rightarrow> 'f action \<Rightarrow> bool" where
  "call_ok B K (CallOp c (SetNumThreads n)) = (c < K \<and> n \<le> B)"
| "call_ok B K (CallOp c op) = (c < K)"
| "call_ok B K a = True"

fun orderly :: "('s, 'q, 'f) pool_env \<Rightarrow> ('s, 'q, 'f) pool_sys \<Rightarrow> 'f action \<Rightarrow> bool" where
  "orderly E s (CStep c now) = (case clients s c of
       CStopLock j d \<Rightarrow> threadsToStop (pool s) = 0
     | CPoison (Suc k) r \<Rightarrow>
         (case bq_addWithPriority (taskOps E) (taskQueue (pool s)) (poisonTask now None) LO_PRI of
            Done (q, Inl e) \<Rightarrow> False | _ \<Rightarrow> True)
     | _ \<Rightarrow> True)"
| "orderly E s a = True"

fun orderly_exec :: "('s, 'q, 'f) pool_env \<Rightarrow> ('s, 'q, 'f) pool_sys \<Rightarrow> 'f action list \<Rightarrow> bool" where
  "orderly_exec E s [] = True"
| "orderly_exec E s (a # as) = (orderly E s a \<and> (case pool_step E s a of None \<Rightarrow> True | Some s' \<Rightarrow> orderly_exec E s' as))"

section \<open>Helpers\<close>

lemma sum_demand_upd:
  fixes K :: nat
  shows "c < K \<Longrightarrow> (\<Sum>i<K. demand ((f(c := x)) i)) + demand (f c) = (\<Sum>i<K. demand (f i)) + demand x"
  by (rule sum_fun_upd) simp_all

lemma length_filter_neq:
  assumes "sorted_wrt (<) (xs :: u64 list)" "x \<in> set xs"
  shows "length (filter (\<lambda>y. y \<noteq> x) xs) + 1 = length xs"
  using assms by (induction xs) (auto intro!: arg_cong[of _ _ length] filter_True)

lemma overlap_free: "lockHolder s = None \<Longrightarrow> overlap s = 0"
  by (simp add: overlap_def)

lemma overlap_frame:
  "lockHolder s' = lockHolder s \<Longrightarrow> (\<And>c. poison_of (clients s' c) = poison_of (clients s c)) \<Longrightarrow> overlap s' = overlap s"
  by (auto simp: overlap_def split: option.split)

lemma on_listD: "on_list pc \<Longrightarrow> pc \<noteq> WAbsent" "on_list pc \<Longrightarrow> \<not> exited pc"
  by (auto simp: exited_def)

lemma plainD: "plain pc \<Longrightarrow> poison_of pc = None" "plain pc \<Longrightarrow> demand pc = 0" "plain pc \<Longrightarrow> joining pc = None"
  "plain pc \<Longrightarrow> pc \<noteq> CSetNum num"
  by (auto simp: plain_def)

lemma acctD:
  assumes "acct p = acct p'"
  shows "maxThreads p = maxThreads p'" "minThreads p = minThreads p'" "activeThreads p = activeThreads p'"
     "threadsToJoin p = threadsToJoin p'" "threadsToStop p = threadsToStop p'" "threadList p = threadList p'"
     "stq_queue (stoppedThreads p) = stq_queue (stoppedThreads p')" "nextId p = nextId p'"
  using assms by (auto simp: acct_def)

lemma lock_free_no_poison: "lock_ok s \<Longrightarrow> lockHolder s = None \<Longrightarrow> poison_of (clients s c) = None"
  by (metis lock_ok_def option.distinct(1))

lemma stopped_frame:
  assumes "stopped_ok s" "stq_queue (stoppedThreads (pool s')) = stq_queue (stoppedThreads (pool s))"
    "\<And>c. joining (clients s' c) = joining (clients s c)" "\<And>w. exited (workers s' w) = exited (workers s w)"
  shows "stopped_ok s'"
  using assms(1) unfolding stopped_ok_def assms(2-4) .

lemma stopped_retire:
  assumes S: "stopped_ok s" and "\<not> exited (workers s w)" "workers s' = (workers s)(w := WExit)"
    "stq_queue (stoppedThreads (pool s')) = stq_queue (stoppedThreads (pool s)) @ [w]" "clients s' = clients s"
  shows "stopped_ok s'"
proof -
  have w: "w \<notin> set (stq_queue (stoppedThreads (pool s)))" "\<And>c. joining (clients s c) \<noteq> Some w"
    using S assms(2) unfolding stopped_ok_def by blast+
  have ex: "exited (workers s' v) \<longleftrightarrow> v = w \<or> exited (workers s v)" for v
    by (simp add: assms(3) exited_def)
  show ?thesis
    using S w unfolding stopped_ok_def ex assms(4,5) by auto
qed

section \<open>Steps of pool threads\<close>

lemma worker_inv:
  assumes inv: "pool_inv ex B K s" and step: "threadRun_step E now w s (workers s w) = Some s'"
  shows "pool_inv ex B K s' \<and> nextId (pool s') = nextId (pool s)"
proof -
  note I = pool_invD[OF inv]
  have ok: "threadList_ok (threadList (pool s))"
    using I(2) by (simp add: list_ok_def)
  note srt = ok[unfolded threadList_ok_def]
  from step ok show ?thesis
  proof (cases rule: worker_cases)
    case (move pc p hist)
    note a = acctD[OF move(3)]
    have ov: "overlap s' = overlap s"
      by (rule overlap_frame) (simp_all add: move(4))
    have "lock_ok s'" "counts_ok ex s'" "demand_ok ex K s'" "limits_ok B K s'"
      using I ov by (auto simp: lock_ok_def counts_ok_def demand_ok_def limits_ok_def move(4) a)
    moreover have "list_ok s'"
      using I(2) move(1,2) on_listD(1)[OF move(1)] by (auto simp: list_ok_def move(4) a)
    moreover have "stopped_ok s'"
      by (rule stopped_frame[OF I(3)]) (simp_all add: move(4) a on_listD(2)[OF move(1)] on_listD(2)[OF move(2)])
    ultimately show ?thesis
      by (simp add: pool_inv_def move(4) a)
  next
    case (retire p)
    have ov: "overlap s' = overlap s"
      by (rule overlap_frame) (simp_all add: retire)
    have "lock_ok s'" "limits_ok B K s'"
      using I by (auto simp: lock_ok_def limits_ok_def retire)
    moreover have "counts_ok ex s'" "demand_ok ex K s'"
      using I(4,5) ov retire(3) length_filter_neq[OF srt retire(4)]
      by (auto simp: counts_ok_def demand_ok_def upto_def retire(5-13))
    moreover have "list_ok s'"
      using I(2) on_listD(1)[OF retire(1)] by (auto simp: list_ok_def retire(5-13) threadList_ok_def sorted_wrt_filter)
    moreover have "stopped_ok s'"
      by (rule stopped_retire[OF I(3) on_listD(2)[OF retire(1)]]) (simp_all add: retire(5-13))
    ultimately show ?thesis
      by (simp add: pool_inv_def retire(5-13))
  next
    case (timeout p)
    have ov: "overlap s' = overlap s" "overlap s = 0"
      using timeout(2) by (simp_all add: overlap_free timeout)
    have alive: "\<not> exited (workers s w)"
      by (simp add: timeout(1) exited_def)
    have act: "0 < activeThreads (pool s)"
      using timeout(4) by (simp add: minActive_def)
    have "lock_ok s'" "limits_ok B K s'"
      using I lock_free_no_poison[OF I(1) timeout(2)] by (auto simp: lock_ok_def limits_ok_def timeout)
    moreover have "counts_ok ex s'" "demand_ok ex K s'"
      using I(4,5) ov act length_filter_neq[OF srt timeout(6)]
      by (auto simp: counts_ok_def demand_ok_def upto_def timeout(7-15))
    moreover have "list_ok s'"
      using I(2) timeout(1) by (auto simp: list_ok_def timeout(7-15) threadList_ok_def sorted_wrt_filter)
    moreover have "stopped_ok s'"
      by (rule stopped_retire[OF I(3) alive]) (simp_all add: timeout(7-15))
    ultimately show ?thesis
      by (simp add: pool_inv_def timeout(7-15))
  next
    case (exit pc p)
    note a = acctD[OF exit(3)]
    have ov: "overlap s' = overlap s"
      by (rule overlap_frame) (simp_all add: exit(4))
    have off: "\<not> on_list (workers s w)" "\<not> on_list pc" "workers s w \<noteq> WAbsent"
      using exit(1,2) by (auto simp: exited_def)
    have "lock_ok s'" "counts_ok ex s'" "demand_ok ex K s'" "limits_ok B K s'"
      using I ov by (auto simp: lock_ok_def counts_ok_def demand_ok_def limits_ok_def exit(4) a)
    moreover have "list_ok s'"
      using I(2) off by (auto simp: list_ok_def exit(4) a)
    moreover have "stopped_ok s'"
      by (rule stopped_frame[OF I(3)]) (simp_all add: exit(1,2,4) a)
    ultimately show ?thesis
      by (simp add: pool_inv_def exit(4) a)
  qed
qed

section \<open>Steps of clients\<close>

text \<open>Starting threads.\<close>

lemma spawn_list_ok:
  assumes "list_ok s" "unat (nextId (pool s)) + n < 2 ^ 64" "threadList_ok ths"
    "set (vec ths) = set (vec (threadList (pool s))) \<union> set (freshIds (nextId (pool s)) n)"
    "threadList (pool s') = ths" "nextId (pool s') = nextId (pool s) + of_nat n"
    "workers s' = override_on (workers s) (\<lambda>w. WStart) (set (freshIds (nextId (pool s)) n))"
  shows "list_ok s'"
proof -
  have new: "unat w < unat (nextId (pool s)) + n" if "w \<in> set (freshIds (nextId (pool s)) n)" for w
    using freshIds_less(2)[OF assms(2) that] .
  have "unat w < unat (nextId (pool s)) + n" if "workers s' w \<noteq> WAbsent" for w
    using that new[of w] assms(1) by (cases "w \<in> set (freshIds (nextId (pool s)) n)") (auto simp: list_ok_def assms(7) trans_less_add1)
  moreover have "w \<in> set (vec ths) \<longleftrightarrow> on_list (workers s' w)" for w
    using assms(1) by (cases "w \<in> set (freshIds (nextId (pool s)) n)") (auto simp: list_ok_def assms(4,7))
  ultimately show ?thesis
    using assms(3) freshIds_props(3)[OF assms(2)] by (auto simp: list_ok_def assms(5,6))
qed

lemma spawn_stopped_ok:
  assumes "list_ok s" "unat (nextId (pool s)) + n < 2 ^ 64" "stopped_ok s"
    "stq_queue (stoppedThreads (pool s')) = stq_queue (stoppedThreads (pool s))"
    "\<And>c. joining (clients s' c) = joining (clients s c)"
    "workers s' = override_on (workers s) (\<lambda>w. WStart) (set (freshIds (nextId (pool s)) n))"
  shows "stopped_ok s'"
proof -
  have "w \<notin> set (freshIds (nextId (pool s)) n)" if "exited (workers s w)" for w
  proof
    assume "w \<in> set (freshIds (nextId (pool s)) n)"
    from freshIds_less(1)[OF assms(2) this] have "\<not> unat w < unat (nextId (pool s))"
      by simp
    then have "workers s w = WAbsent"
      using assms(1) by (auto simp: list_ok_def)
    with that show False
      by (simp add: exited_def)
  qed
  then have "exited (workers s' w) = exited (workers s w)" for w
    by (cases "w \<in> set (freshIds (nextId (pool s)) n)") (auto simp: assms(6) exited_def)
  then show ?thesis
    by (intro stopped_frame[OF assms(3-5)])
qed

lemma stopped_taken:
  assumes S: "stopped_ok s" and "stq_queue (stoppedThreads (pool s)) = t # stq_queue (stoppedThreads (pool s'))"
    "workers s' = workers s" "clients s' = (clients s)(c := pc)" "joining (clients s c) = None" "joining pc = Some t"
  shows "stopped_ok s'"
proof -
  have t: "exited (workers s t)" "t \<notin> set (stq_queue (stoppedThreads (pool s')))" "\<And>i. joining (clients s i) \<noteq> Some t"
    using S assms(2) unfolding stopped_ok_def by auto
  have j: "joining (clients s' i) = Some v \<longleftrightarrow> (i = c \<and> v = t) \<or> joining (clients s i) = Some v" for i v
    using assms(5,6) by (auto simp: assms(4))
  show ?thesis
    using S t unfolding stopped_ok_def j assms(2,3) by auto
qed

lemma stopped_joined:
  assumes S: "stopped_ok s" and "joining (clients s c) = Some t" "workers s' = (workers s)(t := WJoined)"
    "clients s' = (clients s)(c := pc)" "joining pc = None" "stoppedThreads (pool s') = stoppedThreads (pool s)"
  shows "stopped_ok s'"
proof -
  have t: "t \<notin> set (stq_queue (stoppedThreads (pool s)))" "\<And>i. joining (clients s i) = Some t \<Longrightarrow> i = c"
    using S assms(2) unfolding stopped_ok_def by blast+
  have j: "joining (clients s' i) = Some v \<longleftrightarrow> i \<noteq> c \<and> joining (clients s i) = Some v" for i v
    using assms(5) by (auto simp: assms(4))
  have ex: "exited (workers s' v) \<longleftrightarrow> v \<noteq> t \<and> exited (workers s v)" for v
    by (simp add: assms(3) exited_def)
  show ?thesis
    unfolding stopped_ok_def j ex assms(6)
  proof (intro conjI allI ballI impI)
    fix v
    assume "v \<noteq> t \<and> exited (workers s v)"
    then have "v \<noteq> t" "v \<in> set (stq_queue (stoppedThreads (pool s))) \<or> (\<exists>i. joining (clients s i) = Some v)"
      using S unfolding stopped_ok_def by blast+
    with assms(2) show "v \<in> set (stq_queue (stoppedThreads (pool s))) \<or> (\<exists>i. i \<noteq> c \<and> joining (clients s i) = Some v)"
      by (metis option.inject)
  qed (use S t in \<open>unfold stopped_ok_def, blast+\<close>)
qed

lemma joining_upd: "joining pc = joining (f c) \<Longrightarrow> joining ((f(c := pc)) c') = joining (f c')"
  by simp

lemma limits_upd:
  assumes "limits_ok B K s" "c < K" "\<forall>num. pc \<noteq> CSetNum num" "clients s' = (clients s)(c := pc)" "maxThreads (pool s') \<le> B"
  shows "limits_ok B K s'"
  using assms by (auto simp: limits_ok_def)

lemma demand_upd:
  assumes "demand_ok ex K s" "c < K" "clients s' = (clients s)(c := pc)"
    "int (threadsToJoin (pool s')) + int (demand pc) - int (length (stq_queue (stoppedThreads (pool s')))) - threadsToStop (pool s') =
     int (threadsToJoin (pool s)) + int (demand (clients s c)) - int (length (stq_queue (stoppedThreads (pool s)))) - threadsToStop (pool s)"
  shows "demand_ok ex K s'"
proof -
  have "(\<Sum>i<K. demand (clients s' i)) + demand (clients s c) = (\<Sum>i<K. demand (clients s i)) + demand pc"
    unfolding assms(3) by (rule sum_demand_upd[OF assms(2)])
  then have "int (\<Sum>i<K. demand (clients s' i)) + int (demand (clients s c)) = int (\<Sum>i<K. demand (clients s i)) + int (demand pc)"
    by (metis of_nat_add)
  then show ?thesis
    using assms(1,4) unfolding demand_ok_def upto_def by (auto simp del: of_nat_sum)
qed

lemma demand_drop:
  assumes "demand_ok False K s" "c < K" "clients s' = (clients s)(c := pc)" "demand pc = 0" "acct (pool s') = acct (pool s)"
  shows "demand_ok False K s'"
proof -
  have "(\<Sum>i<K. demand (clients s' i)) + demand (clients s c) = (\<Sum>i<K. demand (clients s i)) + demand pc"
    unfolding assms(3) by (rule sum_demand_upd[OF assms(2)])
  then have "(\<Sum>i<K. demand (clients s' i)) \<le> (\<Sum>i<K. demand (clients s i))"
    using assms(4) by simp
  then have "int (threadsToJoin (pool s) + (\<Sum>i<K. demand (clients s' i))) \<le> int (threadsToJoin (pool s) + (\<Sum>i<K. demand (clients s i)))"
    by (simp del: of_nat_sum)
  then show ?thesis
    using assms(1) acctD[OF assms(5)] unfolding demand_ok_def upto_def by auto
qed

text \<open>A change of one client that touches neither the lock nor the accounts of the lock holder.\<close>

lemma lock_upd:
  assumes "lock_ok s" "lockHolder s' = lockHolder s" "clients s' = (clients s)(c := pc)" "poison_of pc = poison_of (clients s c)"
    "lockHolder s = None \<or> activeThreads (pool s') = activeThreads (pool s) \<and> maxThreads (pool s') = maxThreads (pool s)"
  shows "lock_ok s'" "overlap s' = overlap s"
proof -
  have p: "poison_of (clients s' i) = poison_of (clients s i)" for i
    using assms(4) by (simp add: assms(3))
  show "lock_ok s'"
    using assms(1,5) lock_free_no_poison[OF assms(1)] unfolding lock_ok_def p assms(2) by auto
  show "overlap s' = overlap s"
    by (rule overlap_frame[OF assms(2) p])
qed

lemma lock_acquire:
  assumes "lock_ok s" "lockHolder s = None" "lockHolder s' = Some c" "clients s' = (clients s)(c := CPoison k r)"
    "\<And>n num. r = PoisonSetNum n num \<Longrightarrow> activeThreads (pool s') = num + n \<and> maxThreads (pool s') = num"
    "\<And>n d. r = PoisonStop n d \<Longrightarrow> activeThreads (pool s') = 0 \<and> maxThreads (pool s') = 0"
  shows "lock_ok s'"
  using lock_free_no_poison[OF assms(1,2)] assms(5,6) by (auto simp: lock_ok_def assms(3,4))

lemma lock_release:
  assumes "lock_ok s" "poison_of (clients s c) = Some r" "lockHolder s' = None" "clients s' = (clients s)(c := pc)"
    "poison_of pc = None"
  shows "lock_ok s'" "lockHolder s = Some c"
proof -
  show h: "lockHolder s = Some c"
    using assms(1,2) by (auto simp: lock_ok_def)
  have "poison_of (clients s i) = None" if "i \<noteq> c" for i
    using assms(1) h that by (auto simp: lock_ok_def)
  then show "lock_ok s'"
    using assms(5) by (auto simp: lock_ok_def assms(3,4))
qed

lemma client_inv:
  assumes inv: "pool_inv ex B K s" and step: "client_step E now c s (clients s c) = Some s'"
    and room: "unat (nextId (pool s)) + B < 2 ^ 64" and ord: "ex \<longrightarrow> orderly E s (CStep c now)"
  shows "pool_inv ex B K s' \<and> unat (nextId (pool s')) \<le> unat (nextId (pool s)) + B"
proof -
  note I = pool_invD[OF inv]
  have cK: "c < K"
    using I(6) step by (cases "c < K") (auto simp: limits_ok_def)
  have ok: "threadList_ok (threadList (pool s))"
    and ids: "\<forall>x \<in> set (vec (threadList (pool s))). unat x < unat (nextId (pool s))"
    using I(2) by (auto simp: list_ok_def dest!: on_listD(1))
  have lim: "\<forall>num. clients s c = CSetNum num \<longrightarrow> num \<le> B" "maxThreads (pool s) \<le> B"
    using I(6) by (auto simp: limits_ok_def)
  from step ok ids room lim show ?thesis
  proof (cases rule: client_cases)
    case (move pc p ka sub)
    note a = acctD[OF move(3)] and pl = plainD[OF move(1)] plainD[OF move(2)]
    have "lock_ok s'" "overlap s' = overlap s"
      by (rule lock_upd[OF I(1), where c = c and pc = pc]; simp add: move(4) a pl)+
    moreover have "list_ok s'"
      using I(2) by (simp add: list_ok_def move(4) a)
    moreover have "stopped_ok s'"
      by (rule stopped_frame[OF I(3)]) (simp_all add: move(4) a pl)
    moreover have "demand_ok ex K s'"
      by (rule demand_upd[OF I(5) cK, where pc = pc]) (simp_all add: move(4) a pl)
    moreover have "limits_ok B K s'"
      by (rule limits_upd[OF I(6) cK, where pc = pc]) (use pl lim in \<open>auto simp: move(4) a\<close>)
    ultimately show ?thesis
      using I(4) by (simp add: pool_inv_def counts_ok_def move(4) a)
  next
    case (poison k r p)
    note a = acctD[OF poison(2)]
    have "lock_ok s'" "overlap s' = overlap s"
      by (rule lock_upd[OF I(1), where c = c and pc = "CPoison k r"]; simp add: poison a)+
    moreover have "list_ok s'"
      using I(2) by (simp add: list_ok_def poison(3) a)
    moreover have "stopped_ok s'"
      by (rule stopped_frame[OF I(3)]) (simp_all add: poison(1,3) a)
    moreover have "demand_ok ex K s'"
      by (rule demand_upd[OF I(5) cK, where pc = "CPoison k r"]) (cases r; simp add: poison a)+
    moreover have "limits_ok B K s'"
      by (rule limits_upd[OF I(6) cK, where pc = "CPoison k r"]) (use lim in \<open>auto simp: poison(3) a\<close>)
    ultimately show ?thesis
      using I(4) by (simp add: pool_inv_def counts_ok_def poison(3) a)
  next
    case (threw k r p e)
    note a = acctD[OF threw(2)] and pl = plainD[OF plain_threw, of r e]
    have nex: "ex = False"
      using ord threw(1,4) by auto
    have "lock_ok s'"
      by (rule lock_release(1)[OF I(1), where c = c and r = r and pc = "poison_threw r e"]) (simp_all add: threw(1,3) pl)
    moreover have "overlap s' = 0"
      by (simp add: overlap_def threw(3))
    then have "counts_ok ex s'"
      using I(4) nex by (simp add: counts_ok_def upto_def threw(3) a)
    moreover have "list_ok s'"
      using I(2) by (simp add: list_ok_def threw(3) a)
    moreover have "stopped_ok s'"
      by (rule stopped_frame[OF I(3)]) (simp_all add: threw(1,3) a pl)
    moreover have "demand_ok ex K s'"
      using demand_drop[OF _ cK, of s s' "poison_threw r e"] I(5) nex by (simp add: threw(2,3) pl)
    moreover have "limits_ok B K s'"
      by (rule limits_upd[OF I(6) cK, where pc = "poison_threw r e"]) (use lim in \<open>auto simp: threw(3) a pl\<close>)
    ultimately show ?thesis
      by (simp add: pool_inv_def threw(3) a)
  next
    case (shrink num p)
    let ?n = "activeThreads (pool s) - num" let ?pc = "CPoison ?n (PoisonSetNum ?n num)"
    note a = acctD[OF shrink(5)]
    have "lock_ok s'"
      by (rule lock_acquire[OF I(1) shrink(2), where c = c]) (use shrink(3) in \<open>auto simp: shrink(4) a\<close>)
    moreover have "overlap s' = ?n" "overlap s = 0"
      using shrink(2) by (simp_all add: overlap_def shrink(4))
    then have "counts_ok ex s'"
      using I(4) shrink(3) by (auto simp: counts_ok_def upto_def shrink(4) a)
    moreover have "list_ok s'"
      using I(2) by (simp add: list_ok_def shrink(4) a)
    moreover have "stopped_ok s'"
      by (rule stopped_frame[OF I(3)]) (simp_all add: shrink(1,4) a)
    moreover have "demand_ok ex K s'"
      by (rule demand_upd[OF I(5) cK, where pc = ?pc]) (simp_all add: shrink(1,4) a)
    moreover have "limits_ok B K s'"
      by (rule limits_upd[OF I(6) cK, where pc = ?pc]) (use lim shrink(1) in \<open>auto simp: shrink(4) a\<close>)
    ultimately show ?thesis
      by (simp add: pool_inv_def shrink(4) a)
  next
    case (grow num n th ths lg)
    have room': "unat (nextId (pool s)) + n < 2 ^ 64" and nB: "n \<le> B" "num \<le> B"
      using grow(1,4) lim room by auto
    have f: "lockHolder s' = lockHolder s" "clients s' = (clients s)(c := CJoinLoop 0 SetNumReturn)"
      "threadsToJoin (pool s') = threadsToJoin (pool s)" "threadsToStop (pool s') = threadsToStop (pool s)"
      "maxThreads (pool s') = num" "activeThreads (pool s') = activeThreads (pool s) + n"
      "threadList (pool s') = ths" "nextId (pool s') = nextId (pool s) + of_nat n"
      "stoppedThreads (pool s') = stoppedThreads (pool s)"
      "workers s' = override_on (workers s) (\<lambda>w. WStart) (set (freshIds (nextId (pool s)) n))"
      by (simp_all add: grow(8) spawn_def)
    have "lock_ok s'" "overlap s' = overlap s"
      by (rule lock_upd[OF I(1), where c = c and pc = "CJoinLoop 0 SetNumReturn"]; simp add: f grow(1,2))+
    moreover have "list_ok s'"
      by (rule spawn_list_ok[OF I(2) room' grow(5,6)]) (simp_all add: f)
    moreover have "stopped_ok s'"
      by (rule spawn_stopped_ok[OF I(2) room' I(3)]) (simp_all add: f grow(1))
    moreover have "demand_ok ex K s'"
      by (rule demand_upd[OF I(5) cK, where pc = "CJoinLoop 0 SetNumReturn"]) (simp_all add: f grow(1))
    moreover have "limits_ok B K s'"
      by (rule limits_upd[OF I(6) cK, where pc = "CJoinLoop 0 SetNumReturn"]) (simp_all add: f nB)
    ultimately show ?thesis
      using I(4) nB freshIds_props(3)[OF room'] grow(3,4) overlap_free[OF grow(2)]
      by (auto simp: pool_inv_def counts_ok_def upto_def f grow(7))
  next
    case (stopping j d p)
    let ?n = "length (vec (threadList (pool s)))" let ?pc = "CPoison ?n (PoisonStop ?n d)"
    note a = acctD[OF stopping(4)]
    have zero: "ex \<longrightarrow> threadsToStop (pool s) = 0"
      using ord stopping(1) by simp
    have "lock_ok s'"
      by (rule lock_acquire[OF I(1) stopping(2), where c = c]) (auto simp: stopping(3) a)
    moreover have "overlap s' = 0"
      by (simp add: overlap_def stopping(3))
    then have "counts_ok ex s'"
      using I(4) zero by (auto simp: counts_ok_def upto_def stopping(3) a)
    moreover have "list_ok s'"
      using I(2) by (simp add: list_ok_def stopping(3) a)
    moreover have "stopped_ok s'"
      by (rule stopped_frame[OF I(3)]) (simp_all add: stopping(1,3) a)
    moreover have "demand_ok ex K s'"
      by (rule demand_upd[OF I(5) cK, where pc = ?pc]) (simp_all add: stopping(1,3) a)
    moreover have "limits_ok B K s'"
      by (rule limits_upd[OF I(6) cK, where pc = ?pc]) (simp_all add: stopping(3) a)
    ultimately show ?thesis
      by (simp add: pool_inv_def stopping(3) a)
  next
    case (shrunk n num)
    let ?pc = "CJoinLoop n SetNumReturn"
    have "lock_ok s'" "lockHolder s = Some c"
      by (rule lock_release[OF I(1), where c = c and r = "PoisonSetNum n num" and s' = s' and pc = ?pc]; simp add: shrunk)+
    moreover have "poison_of (clients s c) = Some (PoisonSetNum n num)"
      by (simp add: shrunk(1))
    then have "activeThreads (pool s) = num + n" "maxThreads (pool s) = num"
      using I(1) unfolding lock_ok_def by blast+
    moreover have "overlap s' = 0" "overlap s = n"
      using calculation(2) by (simp_all add: overlap_def shrunk)
    ultimately have "lock_ok s'" "counts_ok ex s'"
      using I(4) by (auto simp: counts_ok_def upto_def shrunk(2))
    moreover have "list_ok s'"
      using I(2) by (simp add: list_ok_def shrunk(2))
    moreover have "stopped_ok s'"
      by (rule stopped_frame[OF I(3)]) (simp_all add: shrunk(1,2))
    moreover have "demand_ok ex K s'"
      by (rule demand_upd[OF I(5) cK, where pc = ?pc]) (simp_all add: shrunk)
    moreover have "limits_ok B K s'"
      by (rule limits_upd[OF I(6) cK, where pc = ?pc]) (simp_all add: shrunk(2) lim)
    ultimately show ?thesis
      by (simp add: pool_inv_def shrunk(2))
  next
    case (stopped n d)
    let ?pc = "CJoinLoop (n + threadsToJoin (pool s)) (StopReturn d)"
    have "lock_ok s'" "lockHolder s = Some c"
      by (rule lock_release[OF I(1), where c = c and r = "PoisonStop n d" and s' = s' and pc = ?pc]; simp add: stopped)+
    moreover have "overlap s' = 0" "overlap s = 0"
      using calculation(2) by (simp_all add: overlap_def stopped)
    ultimately have "lock_ok s'" "counts_ok ex s'"
      using I(4) by (auto simp: counts_ok_def upto_def stopped(2))
    moreover have "list_ok s'"
      using I(2) by (simp add: list_ok_def stopped(2))
    moreover have "stopped_ok s'"
      by (rule stopped_frame[OF I(3)]) (simp_all add: stopped(1,2))
    moreover have "demand_ok ex K s'"
      by (rule demand_upd[OF I(5) cK, where pc = ?pc]) (simp_all add: stopped)
    moreover have "limits_ok B K s'"
      by (rule limits_upd[OF I(6) cK, where pc = ?pc]) (simp_all add: stopped(2) lim)
    ultimately show ?thesis
      by (simp add: pool_inv_def stopped(2))
  next
    case (taken n r t q)
    let ?pc = "CJoining t n r"
    have "lock_ok s'" "overlap s' = overlap s"
      by (rule lock_upd[OF I(1), where c = c and pc = ?pc]; simp add: taken(1,3))+
    moreover have "list_ok s'"
      using I(2) by (simp add: list_ok_def taken(3))
    moreover have "stopped_ok s'"
      by (rule stopped_taken[OF I(3), where t = t and c = c and pc = ?pc]) (simp_all add: taken)
    moreover have "demand_ok ex K s'"
      by (rule demand_upd[OF I(5) cK, where pc = ?pc]) (simp_all add: taken)
    moreover have "limits_ok B K s'"
      by (rule limits_upd[OF I(6) cK, where pc = ?pc]) (simp_all add: taken(3) lim)
    ultimately show ?thesis
      using I(4) by (simp add: pool_inv_def counts_ok_def taken(3))
  next
    case (joined t n r)
    let ?pc = "CJoinLoop n r"
    have "lock_ok s'" "overlap s' = overlap s"
      by (rule lock_upd[OF I(1), where c = c and pc = ?pc]; simp add: joined(1,3))+
    moreover have "list_ok s'"
      using I(2) joined(2) by (auto simp: list_ok_def joined(3))
    moreover have "stopped_ok s'"
      by (rule stopped_joined[OF I(3), where c = c and t = t and pc = ?pc]) (simp_all add: joined(1,3))
    moreover have "demand_ok ex K s'"
      by (rule demand_upd[OF I(5) cK, where pc = ?pc]) (simp_all add: joined)
    moreover have "limits_ok B K s'"
      by (rule limits_upd[OF I(6) cK, where pc = ?pc]) (simp_all add: joined(3) lim)
    ultimately show ?thesis
      using I(4) by (simp add: pool_inv_def counts_ok_def joined(3))
  next
    case (ensjoin r)
    let ?pc = "CJoinLoop (threadsToJoin (pool s)) (EnsureReturn r)"
    have "lock_ok s'" "overlap s' = overlap s"
      by (rule lock_upd[OF I(1), where c = c and pc = ?pc]; simp add: ensjoin(1,3))+
    moreover have "list_ok s'"
      using I(2) by (simp add: list_ok_def ensjoin(3))
    moreover have "stopped_ok s'"
      by (rule stopped_frame[OF I(3)]) (simp_all add: ensjoin(1,3))
    moreover have "demand_ok ex K s'"
      by (rule demand_upd[OF I(5) cK, where pc = ?pc]) (simp_all add: ensjoin)
    moreover have "limits_ok B K s'"
      by (rule limits_upd[OF I(6) cK, where pc = ?pc]) (simp_all add: ensjoin(3) lim)
    ultimately show ?thesis
      using I(4) by (simp add: pool_inv_def counts_ok_def ensjoin(3))
  next
    case (ensadd r pc ka th ths lg)
    have nB: "1 \<le> B" and room': "unat (nextId (pool s)) + 1 < 2 ^ 64"
      using ensadd(3) lim room by auto
    have f: "lockHolder s' = lockHolder s" "clients s' = (clients s)(c := pc)"
      "threadsToJoin (pool s') = threadsToJoin (pool s)" "threadsToStop (pool s') = threadsToStop (pool s)"
      "maxThreads (pool s') = maxThreads (pool s)" "activeThreads (pool s') = activeThreads (pool s) + 1"
      "threadList (pool s') = ths" "nextId (pool s') = nextId (pool s) + of_nat 1"
      "stoppedThreads (pool s') = stoppedThreads (pool s)"
      "workers s' = override_on (workers s) (\<lambda>w. WStart) (set (freshIds (nextId (pool s)) 1))"
      by (simp_all add: ensadd(8) spawn_def)
    note pl = plainD[OF ensadd(4)]
    have "lock_ok s'" "overlap s' = overlap s"
      by (rule lock_upd[OF I(1), where c = c and pc = pc]; simp add: f ensadd(1,2) pl)+
    moreover have "list_ok s'"
      by (rule spawn_list_ok[OF I(2) room' ensadd(5,6)]) (simp_all add: f)
    moreover have "stopped_ok s'"
      by (rule spawn_stopped_ok[OF I(2) room' I(3)]) (simp_all add: f ensadd(1) pl)
    moreover have "demand_ok ex K s'"
      by (rule demand_upd[OF I(5) cK, where pc = pc]) (simp_all add: f ensadd(1) pl)
    moreover have "limits_ok B K s'"
      by (rule limits_upd[OF I(6) cK, where pc = pc]) (simp_all add: f lim pl)
    ultimately show ?thesis
      using I(4) nB freshIds_props(3)[OF room'] ensadd(3) overlap_free[OF ensadd(2)]
      by (auto simp: pool_inv_def counts_ok_def upto_def f ensadd(7))
  qed
qed

section \<open>Executions\<close>

lemma call_inv:
  assumes inv: "pool_inv ex B K s" and step: "pool_step E s (CallOp c op) = Some s'" and call: "call_ok B K (CallOp c op)"
  shows "pool_inv ex B K s'" "pool s' = pool s"
proof -
  note I = pool_invD[OF inv]
  let ?pc = "enter_call op"
  have cK: "c < K" and bound: "\<forall>num. ?pc = CSetNum num \<longrightarrow> num \<le> B"
    using call by (cases op; simp)+
  have ret: "poison_of (clients s c) = None" "demand (clients s c) = 0" "joining (clients s c) = None"
    and s': "s' = setClient c ?pc s"
    using step by (cases "clients s c"; simp split: if_splits)+
  have pc: "poison_of ?pc = None" "demand ?pc = 0" "joining ?pc = None"
    by (cases op; simp)+
  have "lock_ok s'" "overlap s' = overlap s"
    by (rule lock_upd[OF I(1), where c = c and pc = ?pc]; simp add: s' ret pc)+
  moreover have "list_ok s'"
    using I(2) by (simp add: list_ok_def s')
  moreover have "stopped_ok s'"
    by (rule stopped_frame[OF I(3)]) (simp_all add: s' ret pc)
  moreover have "demand_ok ex K s'"
    by (rule demand_upd[OF I(5) cK, where pc = ?pc]) (simp_all add: s' ret pc)
  moreover have "limits_ok B K s'"
    using I(6) cK bound by (auto simp: limits_ok_def s')
  ultimately show "pool_inv ex B K s'" "pool s' = pool s"
    using I(4) by (simp_all add: pool_inv_def counts_ok_def s')
qed

text \<open>Collecting and releasing thread ids leaves the accounts alone.\<close>

lemma ids_inv:
  assumes inv: "pool_inv ex B K s" and p: "acct p = acct (pool s)" and s': "s' = s\<lparr>pool := p\<rparr>"
  shows "pool_inv ex B K s' \<and> nextId (pool s') = nextId (pool s)"
proof -
  note I = pool_invD[OF inv] and a = acctD[OF p]
  have "overlap s' = overlap s"
    by (rule overlap_frame) (simp_all add: s')
  then show ?thesis
    using I by (simp add: pool_inv_def lock_ok_def list_ok_def stopped_ok_def counts_ok_def demand_ok_def limits_ok_def s' a)
qed

lemma step_inv:
  assumes "pool_inv ex B K s" "pool_step E s a = Some s'" "call_ok B K a" "ex \<longrightarrow> orderly E s a"
    "unat (nextId (pool s)) + B < 2 ^ 64"
  shows "pool_inv ex B K s' \<and> unat (nextId (pool s')) \<le> unat (nextId (pool s)) + B"
proof (cases a)
  case (CallOp c op)
  then show ?thesis
    using call_inv[OF assms(1), of E c op s'] assms(2,3) by simp
next
  case (CStep c now)
  then show ?thesis
    using client_inv[OF assms(1) _ assms(5), of E now c s'] assms(2,4) by simp
next
  case (WStep w now)
  then show ?thesis
    using worker_inv[OF assms(1), of E now w s'] assms(2) by simp
next
  case CollectIds
  then show ?thesis
    using ids_inv[OF assms(1), of "pool s'" s'] assms(2) by (auto simp: acct_def collectThreadIds_def)
next
  case ReleaseIds
  then show ?thesis
    using ids_inv[OF assms(1), of "pool s'" s'] assms(2)
    by (auto simp: acct_def releaseWorkerKeepAlive_def split: if_splits)
qed

lemma exec_inv:
  assumes "pool_inv ex B K s" "pool_exec E s as = Some s'" "list_all (call_ok B K) as" "ex \<longrightarrow> orderly_exec E s as"
    "unat (nextId (pool s)) + length as * B < 2 ^ 64"
  shows "pool_inv ex B K s' \<and> unat (nextId (pool s')) \<le> unat (nextId (pool s)) + length as * B"
  using assms
proof (induction as arbitrary: s)
  case (Cons a as)
  obtain s1 where s1: "pool_step E s a = Some s1" "pool_exec E s1 as = Some s'"
    using Cons.prems(2) by (auto split: option.splits)
  have "pool_inv ex B K s1" "unat (nextId (pool s1)) \<le> unat (nextId (pool s)) + B"
    using step_inv[OF Cons.prems(1) s1(1)] Cons.prems(3-5) s1(1) by auto
  with Cons.IH[OF _ s1(2)] Cons.prems(3-5) s1(1) show ?case
    by auto
qed simp

text \<open>The state after the constructor.\<close>

lemma init_inv:
  assumes "fst num \<le> B" "B < 2 ^ 64"
  shows "pool_inv ex B K (pool_init E 0 timeout now num queue)"
    "unat (nextId (pool (pool_init E 0 timeout now num queue))) \<le> B"
proof -
  define p where "p = ThreadPoolExecutor.ThreadPoolExecutor.extend (newThreadPoolExecutor (semOps E) 0 timeout (fst num) (snd num))
                \<lparr>taskQueue = queue, threadsToStop = 0, queueObservers = (\<lambda>i. None), queueLog = [],
                 osThreadIds = {}, workerKeepAlives = 0\<rparr>"
  let ?pending = "unat (getPendingTaskCountImpl E p)"
  have f: "activeThreads p = 0" "threadsToJoin p = 0" "threadsToStop p = 0" "vec (threadList p) = []" "nextId p = 0"
    "stq_queue (stoppedThreads p) = []" "threadList_ok (threadList p)"
    by (simp_all add: p_def newThreadPoolExecutor_def newThreadList_def newStoppedThreadQueue_def threadList_ok_def
        ThreadPoolExecutor.ThreadPoolExecutor.defs)
  have "\<forall>x \<in> set (vec (threadList p)). unat x < unat (nextId p)" "unat (nextId p) + fst num < 2 ^ 64"
    using assms by (simp_all add: f)
  note c = setNumThreads_locked_cases[OF f(7) this, of now ?pending]
  obtain n th ths lg where g: "n \<le> fst num" "threadList_ok ths" "set (vec ths) = set (freshIds 0 n)" "length (vec ths) = n"
      "setNumThreads_locked now ?pending (fst num) p = (Inr (freshIds 0 n),
         p\<lparr>maxThreads := fst num, minThreads := min (minThreads p) (fst num), activeThreads := n,
            nextId := of_nat n, threads := th, threadList := ths, observerLog := lg\<rparr>)"
    by (rule c) (auto simp: f)
  define p' where "p' = p\<lparr>maxThreads := fst num, minThreads := min (minThreads p) (fst num), activeThreads := n,
            nextId := of_nat n, threads := th, threadList := ths, observerLog := lg\<rparr>"
  let ?s = "pool_init E 0 timeout now num queue"
  have new: "newCPUThreadPoolExecutor E 0 timeout now num queue =
      (freshIds 0 n, if snd num = 0 then p'\<lparr>minThreads := 1\<rparr> else p')"
    unfolding newCPUThreadPoolExecutor_def p_def[symmetric] Let_def g(5) p'_def by simp
  have s: "activeThreads (pool ?s) = n" "maxThreads (pool ?s) = fst num" "threadsToJoin (pool ?s) = 0"
    "threadsToStop (pool ?s) = 0" "threadList (pool ?s) = ths" "nextId (pool ?s) = of_nat n"
    "stq_queue (stoppedThreads (pool ?s)) = []" "lockHolder ?s = None" "clients ?s = (\<lambda>c. CIdle)"
    "workers ?s = override_on (\<lambda>w. WAbsent) (\<lambda>w. WStart) (set (freshIds 0 n))"
    by (simp_all add: pool_init_def new spawn_def p'_def f)
  have n: "unat (0 :: u64) + n < 2 ^ 64"
    using g(1) assms by simp
  have less: "unat w < n" if "w \<in> set (freshIds 0 n)" for w
    using freshIds_less(2)[OF n that] by simp
  show "unat (nextId (pool ?s)) \<le> B"
    using g(1) assms n by (simp add: s unat_of_nat_small)
  have "on_list (workers ?s w) \<longleftrightarrow> w \<in> set (freshIds 0 n)" "workers ?s w \<noteq> WAbsent \<Longrightarrow> unat w < n" for w
    using less[of w] by (cases "w \<in> set (freshIds 0 n)"; simp add: s)+
  moreover have "\<not> exited (workers ?s w)" for w
    by (cases "w \<in> set (freshIds 0 n)") (simp_all add: s exited_def)
  ultimately have "list_ok ?s" "stopped_ok ?s"
    using g(2,3) n by (simp_all add: list_ok_def stopped_ok_def s unat_of_nat_small)
  then show "pool_inv ex B K ?s"
    using g(1,4) assms
    by (simp add: pool_inv_def lock_ok_def counts_ok_def demand_ok_def limits_ok_def upto_def overlap_def s)
qed

end
