(* ===== verification/PoolTaskFlow.thy ===== *)
theory PoolTaskFlow
  imports PoolInvariants
begin

text \<open>
  Where the tasks are. Every task that the queue has accepted is in the queue, in the hands of one thread of
  the pool, or has been run, and what was called for it is its function or, when it waited too long, its
  expiration callback. The locale \<open>pool_queue\<close> is a pool over a queue that keeps the contract
  \<open>blocking_queue\<close>: it is all that the pool needs of its queue here.
\<close>

section \<open>Tasks in hand\<close>

fun hand :: "'f worker_pc \<Rightarrow> 'f CPUTask multiset" where
  "hand (WGot task) = {#task#}"
| "hand (WRun task stats called start) = {#task#}"
| "hand _ = {#}"

definition inHand :: "('s, 'q, 'f) pool_sys \<Rightarrow> 'f CPUTask multiset" where
  "inHand s = (\<Sum>w\<in>UNIV. hand (workers s w))"

definition pendingTasks :: "'f CPUTask list \<Rightarrow> 'f CPUTask multiset" where
  "pendingTasks ts = mset (filter (\<lambda>t. \<not> poison t) ts)"

text \<open>What is called for a task that a thread starts at a given time.\<close>

definition invocationAt :: "int \<Rightarrow> 'f CPUTask \<Rightarrow> 'f invocation option" where
  "invocationAt start task =
     (if taskExpired task (start - enqueueTime task)
      then (case expiration task of Some (e, Some callback) \<Rightarrow> Some (InvokeExpire callback) | _ \<Rightarrow> None)
      else Some (InvokeFunc (func task)))"

fun runs_ok :: "'f worker_pc \<Rightarrow> bool" where
  "runs_ok (WPolled (Some task)) = poison task"
| "runs_ok (WGot task) = (\<not> poison task)"
| "runs_ok (WRun task stats called start) = (\<not> poison task \<and> called = invocationAt start task)"
| "runs_ok _ = True"

fun enqueues_ok :: "'f client_pc \<Rightarrow> bool" where
  "enqueues_ok (CEnqueue task withPriority mayNeed) = (\<not> poison task)"
| "enqueues_ok _ = True"

definition flow_ok :: "('s, 'q, 'f) pool_sys \<Rightarrow> bool" where
  "flow_ok s \<longleftrightarrow> (\<forall>w. runs_ok (workers s w)) \<and> (\<forall>c. enqueues_ok (clients s c)) \<and>
     (\<forall>(task, called) \<in> set (completed s). \<exists>start. called = invocationAt start task)"

lemma runTask_begin_called: "snd (snd (runTask_begin th task now)) = invocationAt now task"
  by (simp add: runTask_begin_def invocationAt_def Let_def split: option.split)

lemma inHand_upd: "inHand (setWorker w pc s) + hand (workers s w) = inHand s + hand pc"
  using sum_fun_upd[of UNIV w hand "workers s" pc] by (simp add: inHand_def)

lemma inHand_cong: "(\<And>w. hand (workers s' w) = hand (workers s w)) \<Longrightarrow> inHand s' = inHand s"
  by (simp add: inHand_def)

lemma inHand_workers: "workers s' = workers s \<Longrightarrow> inHand s' = inHand s"
  by (simp add: inHand_def)

section \<open>What steps leave alone\<close>

text \<open>Only \<open>addImpl\<close> and \<open>stopThreads\<close> add to the queue.\<close>

fun adds :: "'f client_pc \<Rightarrow> bool" where
  "adds (CEnqueue task withPriority mayNeed) = True"
| "adds (CPoison k r) = True"
| "adds _ = False"

definition flow :: "('s, 'q, 'f) pool_sys \<Rightarrow> 'q \<times> 'f CPUTask list \<times> ('f CPUTask \<times> 'f invocation option) list" where
  "flow s = (taskQueue (pool s), submitted s, completed s)"

lemma addThreads_taskQueue: "taskQueue (snd (addThreads now n p)) = taskQueue p"
proof -
  obtain th where "makeThreads now n p = (freshIds (nextId p) n, p\<lparr>nextId := nextId p + of_nat n, threads := th\<rparr>)"
    using makeThreads_spec by blast
  then show ?thesis
    by (simp add: addThreads_def notify_def)
qed

lemma locked_taskQueue:
  "taskQueue (snd (setNumThreads_locked now pending num p)) = taskQueue p"
  "taskQueue (snd (ensureActiveThreads_locked now p)) = taskQueue p"
  by (auto simp: setNumThreads_locked_def ensureActiveThreads_locked_def Let_def case_prod_beta addThreads_taskQueue)

lemma done_fields [simp]:
  "pool (ensure_done c r s) = pool s" "submitted (ensure_done c r s) = submitted s" "completed (ensure_done c r s) = completed s"
  "pool (join_done c j s) = pool s" "submitted (join_done c j s) = submitted s" "completed (join_done c j s) = completed s"
  "pool (spawn ids s) = pool s" "submitted (spawn ids s) = submitted s" "completed (spawn ids s) = completed s"
  by (cases r; simp)+ (cases j; simp | simp add: spawn_def)+

lemma done_clients:
  "\<exists>pc. clients (ensure_done c r s) = (clients s)(c := pc) \<and> enqueues_ok pc"
  "\<exists>pc. clients (join_done c j s) = (clients s)(c := pc) \<and> enqueues_ok pc"
  by (cases r; auto) (cases j; auto)

lemma client_flow:
  assumes "client_step E now c s (clients s c) = Some s'" "\<not> adds (clients s c)"
  shows "flow s' = flow s"
proof (cases "clients s c")
  case (CSetNum num)
  obtain r p where r: "setNumThreads_locked now (unat (getPendingTaskCountImpl E (pool s))) num (pool s) = (r, p)"
    by fastforce
  then have "taskQueue p = taskQueue (pool s)"
    using locked_taskQueue(1) by (metis snd_conv)
  with CSetNum assms(1) r show ?thesis
    by (auto simp: flow_def removeThreads_begin_def spawn_def split: if_splits sum.splits)
next
  case (CJoinLoop n r)
  with assms(1) show ?thesis
    by (cases n) (auto simp: flow_def split: outcome.splits prod.splits sum.splits)
next
  case (CEnsLock r)
  have "taskQueue (snd (ensureActiveThreads_locked now (pool s))) = taskQueue (pool s)"
    by (rule locked_taskQueue)
  with CEnsLock assms(1) show ?thesis
    by (auto simp: flow_def case_prod_beta split: if_splits)
qed (use assms in \<open>auto simp: flow_def stop_locked_def removeThreads_begin_def ensureJoined_locked_def notify_def
    addObserver_locked_def removeObserver_locked_def Let_def case_prod_beta
    split: if_splits option.splits\<close>)

lemma fresh_absent:
  assumes "list_ok s" "unat (nextId (pool s)) + n < 2 ^ 64" "w \<in> set (freshIds (nextId (pool s)) n)"
  shows "workers s w = WAbsent"
proof -
  have "\<not> unat w < unat (nextId (pool s))"
    using freshIds_less(1)[OF assms(2,3)] by simp
  then show ?thesis
    using assms(1) by (auto simp: list_ok_def)
qed

lemma client_premises:
  assumes "pool_inv ex B K s"
  shows "threadList_ok (threadList (pool s))" "\<forall>x \<in> set (vec (threadList (pool s))). unat x < unat (nextId (pool s))"
    "maxThreads (pool s) \<le> B" "\<And>c. \<forall>num. clients s c = CSetNum num \<longrightarrow> num \<le> B"
  using assms by (auto simp: pool_inv_def list_ok_def limits_ok_def dest!: on_listD(1))

lemma client_hands:
  assumes inv: "pool_inv ex B K s" and step: "client_step E now c s (clients s c) = Some s'"
    and room: "unat (nextId (pool s)) + B < 2 ^ 64"
  shows "hand (workers s' w) = hand (workers s w)" "runs_ok (workers s w) \<Longrightarrow> runs_ok (workers s' w)"
proof -
  note I = pool_invD[OF inv]
  have "workers s' w = workers s w \<or> (workers s w = WAbsent \<and> workers s' w = WStart) \<or> (workers s w = WDone \<and> workers s' w = WJoined)"
    using step client_premises(1,2)[OF inv] room client_premises(4)[OF inv] client_premises(3)[OF inv]
  proof (cases rule: client_cases)
    case (grow num n th ths lg)
    have "num \<le> B"
      using I(6) grow(1) by (auto simp: limits_ok_def)
    then have "unat (nextId (pool s)) + n < 2 ^ 64"
      using grow(4) room by simp
    from fresh_absent[OF I(2) this, of w] grow(8) show ?thesis
      by (auto simp: spawn_def override_on_def)
  next
    case (ensadd r pc ka th ths lg)
    then have "unat (nextId (pool s)) + 1 < 2 ^ 64"
      using I(6) room by (simp add: limits_ok_def)
    from fresh_absent[OF I(2) this, of w] ensadd(8) show ?thesis
      by (auto simp: spawn_def override_on_def)
  qed auto
  then show "hand (workers s' w) = hand (workers s w)" "runs_ok (workers s w) \<Longrightarrow> runs_ok (workers s' w)"
    by auto
qed

lemma enqueues_threw [simp]: "enqueues_ok (poison_threw r e)"
  by (cases "(r, e)" rule: poison_threw.cases) simp_all

lemma client_enqueues:
  assumes "client_step E now c s (clients s c) = Some s'"
  shows "\<exists>pc. clients s' = (clients s)(c := pc) \<and> enqueues_ok pc"
proof (cases "clients s c")
  case (CSetNum num)
  with assms show ?thesis
    by (auto simp: spawn_def split: if_splits prod.splits sum.splits)
next
  case (CPoison k r)
  with assms show ?thesis
    by (cases k; cases r)
      (auto simp: Let_def case_prod_beta split: outcome.splits prod.splits sum.splits)
next
  case (CJoinLoop n r)
  with assms show ?thesis
    by (cases n) (auto simp: done_clients split: outcome.splits prod.splits sum.splits)
next
  case (CAdd wp f pri e cb rc)
  with assms show ?thesis
    by (auto simp: Let_def case_prod_beta newCPUTask_def newTask_def Task.defs split: if_splits option.splits)
next
  case (CEnqueue task wp mayNeed)
  with assms show ?thesis
    by (auto simp: Let_def split: outcome.splits prod.splits sum.splits if_splits)
next
  case (CEnsFast r)
  with assms show ?thesis
    using done_clients(1)[of c r s] by (auto split: if_splits)
next
  case (CEnsLock r)
  let ?s = "spawn (fst (ensureActiveThreads_locked now (pool s))) (s\<lparr>pool := snd (ensureActiveThreads_locked now (pool s))\<rparr>)"
  show ?thesis
    using assms CEnsLock done_clients(1)[of c r ?s] by (auto simp: Let_def case_prod_beta spawn_def split: if_splits)
qed (use assms in \<open>auto simp: Let_def case_prod_beta split: if_splits\<close>)

section \<open>Conservation of tasks\<close>

definition conserved :: "('q \<Rightarrow> 'f CPUTask list) \<Rightarrow> ('s, 'q, 'f) pool_sys \<Rightarrow> bool" where
  "conserved items s \<longleftrightarrow> mset (submitted s) =
     pendingTasks (items (taskQueue (pool s))) + inHand s + image_mset fst (mset (completed s))"

lemma conserved_upd:
  assumes "conserved items s" "workers s' = (workers s)(w := pc)" "submitted s' = submitted s"
    "pendingTasks (items (taskQueue (pool s'))) + hand pc + image_mset fst (mset (completed s')) =
     pendingTasks (items (taskQueue (pool s))) + hand (workers s w) + image_mset fst (mset (completed s))"
    (is "?P' + _ + ?C' = ?P + _ + ?C")
  shows "conserved items s'"
proof -
  have "inHand s' + hand (workers s w) = inHand s + hand pc"
    using sum_fun_upd[of UNIV w hand "workers s" pc] by (simp add: inHand_def assms(2))
  with assms(4) have "(?P' + hand pc + ?C') + (inHand s' + hand (workers s w)) =
      (?P + hand (workers s w) + ?C) + (inHand s + hand pc)"
    by simp
  then have "(?P' + inHand s' + ?C') + (hand pc + hand (workers s w)) = (?P + inHand s + ?C) + (hand pc + hand (workers s w))"
    by (simp only: ac_simps)
  then have "?P' + inHand s' + ?C' = ?P + inHand s + ?C"
    by (rule add_right_imp_eq)
  with assms(1,3) show ?thesis
    by (simp add: conserved_def)
qed

text \<open>What a step of a pool thread does to the tasks.\<close>

lemma worker_flow:
  assumes "threadRun_step E now w s (workers s w) = Some s'" "runs_ok (workers s w)"
  obtains
    (take) q r where "workers s w = WTake" "bq_try_take_for (taskOps E) (taskQueue (pool s)) = Done (q, Inr r)"
      "s' = setWorker w (case r of Some task \<Rightarrow> if poison task then WPolled r else WGot task | None \<Rightarrow> WPolled None)
         (s\<lparr>pool := pool s\<lparr>taskQueue := q\<rparr>\<rparr>)"
  | (start) task stats p where "workers s w = WGot task" "\<not> poison task" "taskQueue p = taskQueue (pool s)"
      "s' = setWorker w (WRun task stats (invocationAt now task) now) (s\<lparr>pool := p\<rparr>)"
  | (finish) task stats called start p where "workers s w = WRun task stats called start" "called = invocationAt start task"
      "taskQueue p = taskQueue (pool s)" "s' = setWorker w WAfter (s\<lparr>pool := p, completed := completed s @ [(task, called)]\<rparr>)"
  | (quiet) pc p where "hand (workers s w) = {#}" "hand pc = {#}" "runs_ok pc" "taskQueue p = taskQueue (pool s)"
      "s' = setWorker w pc (s\<lparr>pool := p\<rparr>)"
proof (cases "workers s w")
  case WTake
  then show thesis
    using assms(1)
    by (auto split: outcome.splits prod.splits sum.splits option.splits intro: take[where r = None] take[where r = "Some _"])
next
  case (WPolled task)
  obtain stop p where p: "taskShouldStop E task (pool s) = (stop, p)"
    by fastforce
  then have "taskQueue p = taskQueue (pool s)"
    by (auto simp: taskShouldStop_def tryDecrToStop_def tryTimeoutThread_def Let_def split: if_splits)
  with p WPolled assms(1) show thesis
    by (intro quiet[of "workers s' w" "pool s'"])
      (auto simp: retireThread_def notify_def split: if_splits bool.splits option.splits sum.splits outcome.splits prod.splits)
next
  case (WGot task)
  then show thesis
    using assms
    by (intro start[where task = task and stats = "fst (snd (runTask_begin (threads (pool s) w) task now))" and p = "pool s'"])
      (auto simp: Let_def case_prod_beta runTask_begin_called split: option.splits)
next
  case (WRun task stats called start)
  then show thesis
    using assms by (intro finish[where p = "pool s'"]) (auto simp: Let_def case_prod_beta)
next
  case WStopLock
  then show thesis
    using assms(1) by (intro quiet[of "workers s' w" "pool s'"])
      (auto simp: tryDecrToStop_def retireThread_def Let_def split: if_splits option.splits sum.splits outcome.splits prod.splits)
qed (use assms(1) in \<open>(intro quiet[of "workers s' w" "pool s'"]; auto simp: addTid_def removeTid_def split: if_splits)+\<close>)

locale pool_queue = blocking_queue "taskOps E" inv items
  for E :: "('s, 'q, 'f) pool_env" and inv :: "nat \<Rightarrow> 'q \<Rightarrow> bool" and items :: "'q \<Rightarrow> 'f CPUTask list"
begin

lemma worker_conserved:
  assumes I: "inv n (taskQueue (pool s))" and F: "flow_ok s" and C: "conserved items s"
    and step: "threadRun_step E now w s (workers s w) = Some s'"
  shows "inv n (taskQueue (pool s')) \<and> flow_ok s' \<and> conserved items s'"
proof -
  have "runs_ok (workers s w)"
    using F by (simp add: flow_ok_def)
  from step this show ?thesis
  proof (cases rule: worker_flow)
    case (take q r)
    let ?pc = "case r of Some task \<Rightarrow> if poison task then WPolled r else WGot task | None \<Rightarrow> WPolled None"
    have q: "inv n q" "pendingTasks (items q) + hand ?pc = pendingTasks (items (taskQueue (pool s)))"
      using take_empty[OF I] take_item[OF I] take(2)
      by (cases "items (taskQueue (pool s))"; auto simp: pendingTasks_def)+
    have "conserved items s'"
      by (rule conserved_upd[OF C, where w = w and pc = ?pc]) (use q in \<open>simp_all add: take\<close>)
    moreover have "flow_ok s'"
      using F by (auto simp: flow_ok_def take(3) split: option.splits)
    ultimately show ?thesis
      using q by (simp add: take(3))
  next
    case (start task stats p)
    have "conserved items s'"
      by (rule conserved_upd[OF C, where w = w and pc = "workers s' w"]) (simp_all add: start)
    then show ?thesis
      using I F start(2) by (auto simp: flow_ok_def start(3,4))
  next
    case (finish task stats called strt p)
    have "conserved items s'"
      by (rule conserved_upd[OF C, where w = w and pc = WAfter]) (simp_all add: finish)
    then show ?thesis
      using I F finish(2) by (auto simp: flow_ok_def finish(3,4))
  next
    case (quiet pc p)
    have "conserved items s'"
      by (rule conserved_upd[OF C, where w = w and pc = pc]) (simp_all add: quiet)
    then show ?thesis
      using I F quiet(3) by (auto simp: flow_ok_def quiet(4,5))
  qed
qed

lemma add_any:
  assumes "inv (Suc n) q" "(if withPriority then bq_addWithPriority (taskOps E) q x p else bq_add (taskOps E) q x) = Done (q', r)"
  shows "inv n q'" "r = Inr b \<Longrightarrow> mset (items q') = add_mset x (mset (items q))" "r = Inl e \<Longrightarrow> items q' = items q"
  using addWithPriority_law[OF assms(1), of x p] addWithPriority_law[OF assms(1), of x MID_PRI] add_is[OF assms(1), of x] assms(2)
  by (cases withPriority; auto)+

lemma mset_pending: "mset xs = mset ys \<Longrightarrow> pendingTasks xs = pendingTasks ys"
  by (simp add: pendingTasks_def)

lemma pending_add:
  assumes "mset ys = add_mset x (mset xs)"
  shows "pendingTasks ys = (if poison x then pendingTasks xs else add_mset x (pendingTasks xs))"
  using mset_pending[of ys "x # xs"] assms by (simp add: pendingTasks_def)

lemma client_conserved:
  assumes I: "inv (Suc n) (taskQueue (pool s))" and F: "flow_ok s" and C: "conserved items s"
    and step: "client_step E now c s (clients s c) = Some s'"
    and P: "pool_inv ex B K s" and room: "unat (nextId (pool s)) + B < 2 ^ 64"
  shows "inv n (taskQueue (pool s')) \<and> flow_ok s' \<and> conserved items s'"
proof -
  have hands: "inHand s' = inHand s"
    by (rule inHand_cong) (rule client_hands(1)[OF P step room])
  have runs: "\<forall>w. runs_ok (workers s' w)"
    using F client_hands(2)[OF P step room] by (simp add: flow_ok_def)
  obtain pc where pc: "clients s' = (clients s)(c := pc)" "enqueues_ok pc"
    using client_enqueues[OF step] by blast
  have ok: "flow_ok s'" if "completed s' = completed s"
    using F runs pc that by (simp add: flow_ok_def)
  show ?thesis
  proof (cases "adds (clients s c)")
    case False
    then have "taskQueue (pool s') = taskQueue (pool s)" "submitted s' = submitted s" "completed s' = completed s"
      using client_flow[OF step] by (simp_all add: flow_def)
    with ok C hands inv_weaken[OF I] show ?thesis
      by (simp add: conserved_def)
  next
    case True
    then consider (enqueue) task wp mayNeed where "clients s c = CEnqueue task wp mayNeed"
      | (poison) k r where "clients s c = CPoison (Suc k) r" | (last) r where "clients s c = CPoison 0 r"
      by (cases "clients s c") (auto, metis not0_implies_Suc)
    then show ?thesis
    proof cases
      case enqueue
      have np: "\<not> poison task"
        using F enqueue unfolding flow_ok_def by (metis enqueues_ok.simps(1))
      obtain q r where q: "(if wp then bq_addWithPriority (taskOps E) (taskQueue (pool s)) task (taskPriority task)
            else bq_add (taskOps E) (taskQueue (pool s)) task) = Done (q, r)"
        using step enqueue by (auto split: outcome.splits)
      note a = add_any[OF I q]
      have "completed s' = completed s" "taskQueue (pool s') = q"
        "submitted s' = (case r of Inr b \<Rightarrow> submitted s @ [task] | Inl e \<Rightarrow> submitted s)"
        using step enqueue q by (auto simp: Let_def split: sum.splits if_splits)
      then show ?thesis
        using ok C hands a np by (cases r) (auto simp: conserved_def pending_add)
    next
      case poison
      obtain q r' where q: "bq_addWithPriority (taskOps E) (taskQueue (pool s)) (poisonTask now None) LO_PRI = Done (q, r')"
        using step poison by (auto split: outcome.splits)
      note a = add_any[OF I, of True, simplified, OF q]
      have "CPUTask.poison (poisonTask now None)"
        by (simp add: poisonTask_def newTask_def Task.defs)
      moreover have "completed s' = completed s" "taskQueue (pool s') = q" "submitted s' = submitted s"
        using step poison q by (auto split: sum.splits)
      ultimately show ?thesis
        using ok C hands a by (cases r') (auto simp: conserved_def pending_add)
    next
      case (last r)
      then have "taskQueue (pool s') = taskQueue (pool s)" "submitted s' = submitted s" "completed s' = completed s"
        using step by (cases r; auto simp: setNumThreads_removed_def stop_removed_def)+
      with ok C hands inv_weaken[OF I] show ?thesis
        by (simp add: conserved_def)
    qed
  qed
qed

lemma conserved_frame:
  assumes "inv n (taskQueue (pool s))" "flow_ok s" "conserved items s"
    "flow s' = flow s" "workers s' = workers s" "\<forall>c. enqueues_ok (clients s' c)"
  shows "inv n (taskQueue (pool s')) \<and> flow_ok s' \<and> conserved items s'"
  using assms by (simp add: flow_ok_def conserved_def inHand_def flow_def)

lemma step_conserved:
  assumes I: "inv (Suc n) (taskQueue (pool s))" and F: "flow_ok s" and C: "conserved items s"
    and P: "pool_inv ex B K s" and room: "unat (nextId (pool s)) + B < 2 ^ 64" and step: "pool_step E s a = Some s'"
  shows "inv n (taskQueue (pool s')) \<and> flow_ok s' \<and> conserved items s'"
proof -
  have en: "\<forall>c. enqueues_ok (clients s c)"
    using F by (simp add: flow_ok_def)
  note frame = conserved_frame[OF inv_weaken[OF I] F C]
  show ?thesis
  proof (cases a)
    case (CallOp c op)
    have "enqueues_ok (enter_call op)"
      by (cases op) simp_all
    then show ?thesis
      using step CallOp en by (intro frame) (auto simp: flow_def split: if_splits)
  next
    case (CStep c now)
    then show ?thesis
      using step client_conserved[OF I F C _ P room] by simp
  next
    case (WStep w now)
    then show ?thesis
      using step worker_conserved[OF inv_weaken[OF I] F C] by simp
  next
    case CollectIds
    then show ?thesis
      using step en by (intro frame) (auto simp: flow_def collectThreadIds_def)
  next
    case ReleaseIds
    then show ?thesis
      using step en by (intro frame) (auto simp: flow_def releaseWorkerKeepAlive_def split: if_splits)
  qed
qed

lemma exec_conserved:
  assumes "inv (n + length as) (taskQueue (pool s))" "flow_ok s" "conserved items s"
    "pool_inv ex B K s" "pool_exec E s as = Some s'" "list_all (call_ok B K) as" "ex \<longrightarrow> orderly_exec E s as"
    "unat (nextId (pool s)) + length as * B < 2 ^ 64"
  shows "inv n (taskQueue (pool s')) \<and> flow_ok s' \<and> conserved items s'"
  using assms
proof (induction as arbitrary: s)
  case (Cons a as)
  obtain s1 where s1: "pool_step E s a = Some s1" "pool_exec E s1 as = Some s'"
    using Cons.prems(5) by (auto split: option.splits)
  have I: "inv (Suc (n + length as)) (taskQueue (pool s))" and room: "unat (nextId (pool s)) + B < 2 ^ 64"
    using Cons.prems(1,8) by simp_all
  have next_ok: "inv (n + length as) (taskQueue (pool s1))" "flow_ok s1" "conserved items s1"
    using step_conserved[OF I Cons.prems(2-4) room s1(1)] by blast+
  have "call_ok B K a" "ex \<longrightarrow> orderly E s a" "list_all (call_ok B K) as" "ex \<longrightarrow> orderly_exec E s1 as"
    using Cons.prems(6,7) s1(1) by auto
  moreover from this have "pool_inv ex B K s1" "unat (nextId (pool s1)) \<le> unat (nextId (pool s)) + B"
    using step_inv[OF Cons.prems(4) s1(1) _ _ room] by blast+
  moreover from this have "unat (nextId (pool s1)) + length as * B < 2 ^ 64"
    using Cons.prems(8) by simp
  ultimately show ?case
    using next_ok s1(2) by (intro Cons.IH[of s1])
qed simp

end

end
