(* ===== verification/PoolShutdown.thy ===== *)
theory PoolShutdown
  imports PoolTaskFlow
begin

text \<open>
  Shutting down: a client that calls \<open>stop\<close>, \<open>join\<close> or the destructor while the other clients have returned.
  From the call on only this client and the threads of the pool move (\<open>driver\<close>). The client first takes the
  lock (\<open>entered\<close>), then adds its poison tasks and joins the stopped threads (\<open>stopping\<close>), and in the end
  the pool is \<open>clean\<close>. The locale \<open>draining_queue\<close> adds to \<open>pool_queue\<close> that a task of the lowest priority
  is accepted and comes last: then the shutdown makes progress (\<open>shutdownRank\<close> decreases with every step and some
  step is possible until the client returns), and \<open>join\<close> finds all tasks ahead of its poison tasks
  (\<open>draining\<close>).
\<close>

section \<open>The phases of a shutdown\<close>

fun entering :: "'f client_pc \<Rightarrow> bool" where
  "entering (CStop j d) = True"
| "entering (CKeepAlive j d) = True"
| "entering (CStopLock j d) = True"
| "entering _ = False"

fun stop_pc :: "'f client_pc \<Rightarrow> bool" where
  "stop_pc (CPoison k (PoisonStop n d)) = True"
| "stop_pc (CJoinLoop n (StopReturn d)) = True"
| "stop_pc (CJoining t n (StopReturn d)) = True"
| "stop_pc _ = False"

fun driver :: "nat \<Rightarrow> 'f action \<Rightarrow> bool" where
  "driver c (CStep i now) = (i = c)"
| "driver c (WStep w now) = True"
| "driver c _ = False"

definition alone :: "nat \<Rightarrow> ('s, 'q, 'f) pool_sys \<Rightarrow> bool" where
  "alone c s \<longleftrightarrow> (\<forall>i. i \<noteq> c \<longrightarrow> returned_client (clients s i))"

definition stopping :: "nat \<Rightarrow> ('s, 'q, 'f) pool_sys \<Rightarrow> bool" where
  "stopping c s \<longleftrightarrow> stop_pc (clients s c) \<and> alone c s \<and> activeThreads (pool s) = 0 \<and> maxThreads (pool s) = 0 \<and>
     (poison_of (clients s c) = None \<longrightarrow> threadsToJoin (pool s) = 0)"

definition entered :: "nat \<Rightarrow> ('s, 'q, 'f) pool_sys \<Rightarrow> bool" where
  "entered c s \<longleftrightarrow> entering (clients s c) \<and> alone c s \<and> threadsToStop (pool s) = 0"

definition clean :: "nat \<Rightarrow> ('s, 'q, 'f) pool_sys \<Rightarrow> bool" where
  "clean c s \<longleftrightarrow> clients s c = CIdle \<and> vec (threadList (pool s)) = [] \<and> stq_queue (stoppedThreads (pool s)) = [] \<and>
     threadsToStop (pool s) = 0 \<and> threadsToJoin (pool s) = 0 \<and> (\<forall>w. workers s w = WAbsent \<or> workers s w = WJoined)"

lemma returned_facts: "returned_client pc \<Longrightarrow> poison_of pc = None \<and> demand pc = 0 \<and> joining pc = None"
  by (cases pc) simp_all

lemma aloneD:
  assumes "alone c s" "i \<noteq> c"
  shows "poison_of (clients s i) = None" "demand (clients s i) = 0" "joining (clients s i) = None"
  using assms returned_facts[of "clients s i"] by (simp_all add: alone_def)

lemma joining_exited: "stopped_ok s \<Longrightarrow> joining (clients s c) = Some t \<Longrightarrow> exited (workers s t)"
  unfolding stopped_ok_def by blast

lemma lock_ok_iff: "lock_ok s \<Longrightarrow> lockHolder s = Some i \<longleftrightarrow> poison_of (clients s i) \<noteq> None"
  unfolding lock_ok_def by (elim conjE allE)

lemma alone_lock:
  assumes "lock_ok s" "alone c s" "poison_of (clients s c) = None"
  shows "lockHolder s = None"
proof -
  have "poison_of (clients s i) = None" for i
    using assms(3) aloneD(1)[OF assms(2)] by (cases "i = c") simp_all
  then have "lockHolder s \<noteq> Some i" for i
    using assms(1) by (simp add: lock_ok_def)
  then show ?thesis
    by (cases "lockHolder s") auto
qed

lemma alone_demand:
  assumes "alone c s" "c < K"
  shows "(\<Sum>i<K. demand (clients s i)) = demand (clients s c)"
proof -
  have "(\<Sum>i\<in>{..<K} - {c}. demand (clients s i)) = 0"
    by (rule sum.neutral) (simp add: aloneD(2)[OF assms(1)])
  then show ?thesis
    using sum.remove[of "{..<K}" c "\<lambda>i. demand (clients s i)"] assms(2) by simp
qed

lemma stop_pc_poison: "stop_pc pc \<Longrightarrow> poison_of pc \<noteq> Some (PoisonSetNum n num)"
  by (cases pc rule: stop_pc.cases) simp_all

text \<open>The accounts while one client stops the pool.\<close>

lemma stopping_accounts:
  assumes P: "pool_inv True B K s" and S: "stopping c s"
  shows "int (length (vec (threadList (pool s)))) = threadsToStop (pool s)"
    "int (threadsToJoin (pool s) + demand (clients s c)) = int (length (stq_queue (stoppedThreads (pool s)))) + threadsToStop (pool s)"
    "poison_of (clients s c) = None \<Longrightarrow> lockHolder s = None"
proof -
  note I = pool_invD[OF P]
  have "c < K"
    using I(6) S by (cases "c < K") (auto simp: limits_ok_def stopping_def)
  then have "(\<Sum>i<K. demand (clients s i)) = demand (clients s c)"
    using S by (intro alone_demand) (simp_all add: stopping_def)
  then show "int (threadsToJoin (pool s) + demand (clients s c)) =
      int (length (stq_queue (stoppedThreads (pool s)))) + threadsToStop (pool s)"
    using I(5) unfolding demand_ok_def upto_def by simp
  have "overlap s = 0"
  proof (cases "lockHolder s")
    case (Some i)
    then have "poison_of (clients s i) \<noteq> None"
      by (rule lock_ok_iff[OF I(1), THEN iffD1])
    then have "i = c"
      using S aloneD(1)[of c s i] by (cases "i = c") (simp_all add: stopping_def)
    moreover have "stop_pc (clients s c)"
      using S by (simp add: stopping_def)
    ultimately show ?thesis
      using Some stop_pc_poison[of "clients s c"] by (auto simp: overlap_def split: option.split poison_return.split)
  qed (simp add: overlap_def)
  then show "int (length (vec (threadList (pool s)))) = threadsToStop (pool s)"
    using I(4) S by (simp add: counts_ok_def upto_def stopping_def)
  show "poison_of (clients s c) = None \<Longrightarrow> lockHolder s = None"
    using alone_lock[OF I(1), of c] S by (simp add: stopping_def)
qed

lemma alone_setClient: "alone c s \<Longrightarrow> clients s' = (clients s)(c := pc) \<Longrightarrow> alone c s'"
  by (simp add: alone_def)

text \<open>When all threads to be joined have been joined, everything is clean.\<close>

lemma stopping_clean:
  assumes P: "pool_inv True B K s" and S: "stopping c s" and pc: "clients s c = CJoinLoop 0 (StopReturn d)"
  shows "stop_checks (pool s)" "threadsToStop (pool s) = 0" "threadsToJoin (pool s) = 0"
    "vec (threadList (pool s)) = []" "stq_queue (stoppedThreads (pool s)) = []"
    "workers s w = WAbsent \<or> workers s w = WJoined"
proof -
  note I = pool_invD[OF P] and A = stopping_accounts[OF P S]
  show z: "threadsToJoin (pool s) = 0" "threadsToStop (pool s) = 0"
    using S pc A(2) I(4) by (simp_all add: stopping_def counts_ok_def)
  then show e: "vec (threadList (pool s)) = []" "stq_queue (stoppedThreads (pool s)) = []"
    using A(1,2) pc by simp_all
  then show "stop_checks (pool s)"
    by (simp add: stop_checks_def stq_size_def)
  have "joining (clients s i) = None" for i
    using S pc aloneD(3)[of c s i] by (cases "i = c") (simp_all add: stopping_def)
  then have "\<not> exited (workers s w)" "\<not> on_list (workers s w)"
    using I(2,3) e by (simp_all add: stopped_ok_def list_ok_def)
  then show "workers s w = WAbsent \<or> workers s w = WJoined"
    by (cases "workers s w") (simp_all add: exited_def)
qed

lemma stopping_worker:
  assumes P: "pool_inv True B K s" and S: "stopping c s" and step: "threadRun_step E now w s (workers s w) = Some s'"
  shows "stopping c s'"
proof -
  have ok: "threadList_ok (threadList (pool s))"
    using P by (simp add: pool_inv_def list_ok_def)
  from step ok show ?thesis
  proof (cases rule: worker_cases)
    case (move pc p hist)
    with S acctD[OF move(3)] show ?thesis
      by (auto simp: stopping_def alone_def)
  next
    case (retire p)
    with S show ?thesis
      by (auto simp: stopping_def alone_def)
  next
    case (timeout p)
    with S show ?thesis
      by (simp add: stopping_def minActive_def)
  next
    case (exit pc p)
    with S acctD[OF exit(3)] show ?thesis
      by (auto simp: stopping_def alone_def)
  qed
qed

lemma stopping_client:
  assumes P: "pool_inv True B K s" and S: "stopping c s" and step: "client_step E now c s (clients s c) = Some s'"
    and ord: "orderly E s (CStep c now)"
  shows "stopping c s' \<or> clean c s'"
proof (cases "clients s c" rule: stop_pc.cases)
  case (1 k n d)
  with S step ord show ?thesis
    by (cases k) (auto simp: stopping_def alone_def stop_removed_def Let_def split: outcome.splits prod.splits sum.splits)
next
  case (2 n d)
  show ?thesis
  proof (cases n)
    case 0
    with 2 have pc: "clients s c = CJoinLoop 0 (StopReturn d)"
      by simp
    note C = stopping_clean[OF P S pc]
    have "s' = setClient c CIdle s"
      using step pc C(1,2) by simp
    then show ?thesis
      using C(2-6) by (simp add: clean_def)
  next
    case (Suc m)
    with 2 S step show ?thesis
      by (auto simp: stopping_def alone_def split: outcome.splits prod.splits sum.splits)
  qed
next
  case (3 t n d)
  with S step show ?thesis
    by (auto simp: stopping_def alone_def split: if_splits)
qed (use S in \<open>auto simp: stopping_def\<close>)

section \<open>Safety of a shutdown\<close>

lemma entered_step:
  assumes P: "pool_inv True B K s" and En: "entered c s" and step: "pool_step E s a = Some s'" and a: "driver c a"
  shows "entered c s' \<or> stopping c s'"
proof (cases a)
  case (CStep i now)
  with a step have "client_step E now c s (clients s c) = Some s'"
    by simp
  then show ?thesis
    using En by (cases "clients s c" rule: entering.cases)
      (auto simp: entered_def stopping_def alone_def stop_locked_def removeThreads_begin_def Let_def split: if_splits)
next
  case (WStep w now)
  have ok: "threadList_ok (threadList (pool s))"
    using P by (simp add: pool_inv_def list_ok_def)
  from WStep step have "threadRun_step E now w s (workers s w) = Some s'"
    by simp
  from this ok show ?thesis
  proof (cases rule: worker_cases)
    case (move pc p hist)
    with En acctD[OF move(3)] show ?thesis
      by (auto simp: entered_def alone_def)
  next
    case (exit pc p)
    with En acctD[OF exit(3)] show ?thesis
      by (auto simp: entered_def alone_def)
  qed (use En in \<open>auto simp: entered_def alone_def\<close>)
qed (use a in simp_all)

lemma clean_stays:
  assumes "clean c s" "driver c a"
  shows "pool_step E s a = None"
  using assms by (cases a) (auto simp: clean_def, metis threadRun_step.simps(10,12))

lemma stopping_step:
  assumes "pool_inv True B K s" "stopping c s" "pool_step E s a = Some s'" "driver c a" "orderly E s a"
  shows "stopping c s' \<or> clean c s'"
  using assms stopping_worker[OF assms(1,2)] stopping_client[OF assms(1,2)] by (cases a) auto

lemma entered_orderly: "entered c s \<Longrightarrow> driver c a \<Longrightarrow> orderly E s a"
  by (cases a) (auto simp: entered_def split: client_pc.splits nat.splits)

lemma driver_call_ok: "driver c a \<Longrightarrow> call_ok B K a"
  by (cases a) simp_all

section \<open>Progress of a shutdown\<close>

fun wrank :: "'f worker_pc \<Rightarrow> nat" where
  "wrank WLeaving = 1"
| "wrank WExit = 2"
| "wrank (WPolled task) = 3"
| "wrank WStopLock = 3"
| "wrank WTake = 4"
| "wrank WStart = 5"
| "wrank WAfter = 5"
| "wrank (WRun task stats called start) = 6"
| "wrank (WGot task) = 7"
| "wrank _ = 0"

fun crank :: "nat \<Rightarrow> 'f client_pc \<Rightarrow> nat" where
  "crank j (CPoison k (PoisonStop n d)) = 5 * k + 2 * (n + j) + 3"
| "crank j (CJoinLoop n r) = 2 * n + 1"
| "crank j (CJoining t n r) = 2 * n + 2"
| "crank j _ = 0"

definition shutdownRank :: "('q \<Rightarrow> 'f CPUTask list) \<Rightarrow> nat \<Rightarrow> ('s, 'q, 'f) pool_sys \<Rightarrow> nat" where
  "shutdownRank items c s = (\<Sum>w\<in>UNIV. wrank (workers s w)) + 4 * length (items (taskQueue (pool s))) +
     crank (threadsToJoin (pool s)) (clients s c)"

lemma rank_worker_upd:
  assumes "workers s' = (workers s)(w := pc)" "clients s' = clients s" "threadsToJoin (pool s') = threadsToJoin (pool s)"
    "wrank pc + 4 * length (items (taskQueue (pool s'))) < wrank (workers s w) + 4 * length (items (taskQueue (pool s)))"
  shows "shutdownRank items c s' < shutdownRank items c s"
  using sum_fun_upd[of UNIV w wrank "workers s" pc] assms by (simp add: shutdownRank_def)

text \<open>A thread that finds threads to be stopped retires.\<close>

lemma retires:
  assumes "threadList_ok (threadList (pool s))" "w \<in> set (vec (threadList (pool s)))" "lockHolder s = None"
    "0 < threadsToStop (pool s)" "workers s w = WStopLock \<or> (\<exists>task. workers s w = WPolled task)"
  obtains p where "threadRun_step E now w s (workers s w) = Some (setWorker w WExit (s\<lparr>pool := p\<rparr>))"
    "taskQueue p = taskQueue (pool s)" "threadsToJoin p = threadsToJoin (pool s)"
  using assms by (auto simp: taskShouldStop_def tryDecrToStop_def retireThread_spec notify_def Let_def)

text \<open>A thread that is on its way to look at \<open>threadsToStop_\<close>.\<close>

fun leaving :: "'f worker_pc \<Rightarrow> bool" where
  "leaving (WPolled task) = True"
| "leaving WStopLock = True"
| "leaving _ = False"

fun joinFlag :: "'f client_pc \<Rightarrow> bool" where
  "joinFlag (CStop j d) = j"
| "joinFlag (CKeepAlive j d) = j"
| "joinFlag (CStopLock j d) = j"
| "joinFlag _ = True"

text \<open>During \<open>join\<close> all poison tasks are behind the tasks, and while there are tasks there is a thread and
  none is leaving.\<close>

definition tasksFirst :: "'f CPUTask list \<Rightarrow> bool" where
  "tasksFirst xs \<longleftrightarrow> (\<exists>ts ps. xs = ts @ ps \<and> (\<forall>t\<in>set ts. \<not> poison t) \<and> (\<forall>t\<in>set ps. poison t))"

definition draining :: "('q \<Rightarrow> 'f CPUTask list) \<Rightarrow> nat \<Rightarrow> ('s, 'q, 'f) pool_sys \<Rightarrow> bool" where
  "draining items c s \<longleftrightarrow> joinFlag (clients s c) \<and> (stop_pc (clients s c) \<longrightarrow> isJoin (pool s)) \<and>
     tasksFirst (items (taskQueue (pool s))) \<and>
     (pendingTasks (items (taskQueue (pool s))) \<noteq> {#} \<longrightarrow>
        vec (threadList (pool s)) \<noteq> [] \<and> (\<forall>w. \<not> leaving (workers s w)))"

lemma poisonTask_poison [simp]: "poison (poisonTask now rctx)"
  by (simp add: poisonTask_def newTask_def Task.defs)

lemma tasksFirst_Cons: "tasksFirst (x # xs) \<longleftrightarrow> tasksFirst xs \<and> (poison x \<longrightarrow> pendingTasks xs = {#})"
proof
  assume "tasksFirst (x # xs)"
  then obtain ts ps where t: "x # xs = ts @ ps" "\<forall>t\<in>set ts. \<not> poison t" "\<forall>t\<in>set ps. poison t"
    by (auto simp: tasksFirst_def)
  show "tasksFirst xs \<and> (poison x \<longrightarrow> pendingTasks xs = {#})"
  proof (cases ts)
    case Nil
    then show ?thesis
      using t unfolding tasksFirst_def pendingTasks_def by (intro conjI exI[of _ "[]"] exI[of _ xs]) auto
  next
    case (Cons y ys)
    then show ?thesis
      using t unfolding tasksFirst_def by (intro conjI exI[of _ ys] exI[of _ ps]) auto
  qed
next
  assume A: "tasksFirst xs \<and> (poison x \<longrightarrow> pendingTasks xs = {#})"
  show "tasksFirst (x # xs)"
  proof (cases "poison x")
    case True
    then show ?thesis
      using A unfolding tasksFirst_def pendingTasks_def
      by (intro exI[of _ "[]"] exI[of _ "x # xs"]) (auto simp: filter_empty_conv)
  next
    case False
    obtain ts ps where "xs = ts @ ps" "\<forall>t\<in>set ts. \<not> poison t" "\<forall>t\<in>set ps. poison t"
      using A by (auto simp: tasksFirst_def)
    with False show ?thesis
      unfolding tasksFirst_def by (intro exI[of _ "x # ts"] exI[of _ ps]) auto
  qed
qed

lemma tasksFirst_snoc: "tasksFirst xs \<Longrightarrow> poison x \<Longrightarrow> tasksFirst (xs @ [x])"
proof -
  assume "tasksFirst xs" "poison x"
  then obtain ts ps where "xs = ts @ ps" "\<forall>t\<in>set ts. \<not> poison t" "\<forall>t\<in>set ps. poison t"
    by (auto simp: tasksFirst_def)
  with \<open>poison x\<close> show ?thesis
    unfolding tasksFirst_def by (intro exI[of _ ts] exI[of _ "ps @ [x]"]) auto
qed

lemma pendingTasks_simps [simp]:
  "pendingTasks [] = {#}" "pendingTasks (x # xs) = (if poison x then pendingTasks xs else add_mset x (pendingTasks xs))"
  "pendingTasks (xs @ ys) = pendingTasks xs + pendingTasks ys"
  by (simp_all add: pendingTasks_def)

text \<open>The pool while it is being stopped: no more threads can be created, so that the bound on thread
  ids is met trivially.\<close>

definition closing :: "(nat \<Rightarrow> 'q \<Rightarrow> bool) \<Rightarrow> ('q \<Rightarrow> 'f CPUTask list) \<Rightarrow> nat \<Rightarrow> nat \<Rightarrow> nat \<Rightarrow> ('s, 'q, 'f) pool_sys \<Rightarrow> bool" where
  "closing qinv items n K c s \<longleftrightarrow> qinv n (taskQueue (pool s)) \<and> flow_ok s \<and> conserved items s \<and> pool_inv True 0 K s \<and>
     (stopping c s \<or> clean c s)"

text \<open>The whole of a shutdown, from the call on.\<close>

definition shutting :: "(nat \<Rightarrow> 'q \<Rightarrow> bool) \<Rightarrow> ('q \<Rightarrow> 'f CPUTask list) \<Rightarrow> nat \<Rightarrow> nat \<Rightarrow> nat \<Rightarrow> nat \<Rightarrow> ('s, 'q, 'f) pool_sys \<Rightarrow> bool" where
  "shutting qinv items n B K c s \<longleftrightarrow> qinv n (taskQueue (pool s)) \<and> flow_ok s \<and> conserved items s \<and> pool_inv True B K s \<and>
     (entered c s \<or> stopping c s \<or> clean c s)"

lemma shutting_closing: "shutting qinv items n B K c s \<Longrightarrow> stopping c s \<Longrightarrow> closing qinv items n K c s"
proof -
  assume A: "shutting qinv items n B K c s" "stopping c s"
  have "clients s i \<noteq> CSetNum num" for i num
  proof (cases "i = c")
    case True
    with A(2) show ?thesis
      by (auto simp: stopping_def)
  next
    case False
    with A(2) have "returned_client (clients s i)"
      by (simp add: stopping_def alone_def)
    then show ?thesis
      by auto
  qed
  with A show ?thesis
    by (simp add: shutting_def closing_def pool_inv_def limits_ok_def stopping_def)
qed

locale draining_queue = pool_queue E inv items
  for E :: "('s, 'q, 'f) pool_env" and inv :: "nat \<Rightarrow> 'q \<Rightarrow> bool" and items :: "'q \<Rightarrow> 'f CPUTask list" +
  assumes poison_last: "inv (Suc n) q \<Longrightarrow>
    \<exists>q' b. bq_addWithPriority (taskOps E) q x LO_PRI = Done (q', Inr b) \<and> inv n q' \<and> items q' = items q @ [x]"
begin

lemma phase_orderly:
  assumes "inv (Suc n) (taskQueue (pool s))" "stopping c s" "driver c a"
  shows "orderly E s a"
proof (cases a)
  case (CStep i now)
  obtain q b where "bq_addWithPriority (taskOps E) (taskQueue (pool s)) (poisonTask now None) LO_PRI = Done (q, Inr b)"
    using poison_last[OF assms(1)] by blast
  with CStep assms(2,3) show ?thesis
    by (auto simp: stopping_def split: client_pc.splits nat.splits)
qed (use assms(3) in simp_all)

lemma worker_ranks:
  assumes I: "inv n (taskQueue (pool s))" and P: "pool_inv True B K s" and S: "stopping c s"
    and step: "threadRun_step E now w s (workers s w) = Some s'"
  shows "shutdownRank items c s' < shutdownRank items c s"
proof -
  note A = stopping_accounts[OF P S]
  have ok: "threadList_ok (threadList (pool s))" and mem: "w \<in> set (vec (threadList (pool s))) \<longleftrightarrow> on_list (workers s w)"
    using P by (simp_all add: pool_inv_def list_ok_def)
  show ?thesis
  proof (cases "workers s w = WStopLock \<or> (\<exists>task. workers s w = WPolled task)")
    case True
    then have w: "w \<in> set (vec (threadList (pool s)))"
      using mem by auto
    then have "0 < threadsToStop (pool s)"
      unfolding A(1)[symmetric] using length_pos_if_in_set[OF w] by simp
    moreover have "lockHolder s = None"
      using True step by (auto split: if_splits)
    ultimately obtain p where "threadRun_step E now w s (workers s w) = Some (setWorker w WExit (s\<lparr>pool := p\<rparr>))"
        "taskQueue p = taskQueue (pool s)" "threadsToJoin p = threadsToJoin (pool s)"
      using retires[OF ok w] True by metis
    with step True show ?thesis
      by (intro rank_worker_upd[of s' s w WExit]) auto
  next
    case False
    show ?thesis
    proof (cases "workers s w")
      case WTake
      show ?thesis
      proof (cases "items (taskQueue (pool s))")
        case Nil
        from take_empty[OF I Nil] WTake step show ?thesis
          by (intro rank_worker_upd[of s' s w "workers s' w"]) (auto simp: Nil)
      next
        case (Cons x xs)
        from take_item[OF I Cons] WTake step show ?thesis
          by (intro rank_worker_upd[of s' s w "workers s' w"]) (auto simp: Cons)
      qed
    qed (use False step in \<open>(intro rank_worker_upd[of s' s w "workers s' w"];
        auto simp: addTid_def removeTid_def Let_def case_prod_beta split: if_splits option.splits)+\<close>)
  qed
qed

lemma client_ranks:
  assumes I: "inv (Suc n) (taskQueue (pool s))" and S: "stopping c s"
    and step: "client_step E now c s (clients s c) = Some s'"
  shows "shutdownRank items c s' < shutdownRank items c s"
proof (cases "clients s c" rule: stop_pc.cases)
  case (1 k n d)
  show ?thesis
  proof (cases k)
    case 0
    with 1 step show ?thesis
      by (auto simp: shutdownRank_def stop_removed_def)
  next
    case (Suc k')
    obtain q b where "bq_addWithPriority (taskOps E) (taskQueue (pool s)) (poisonTask now None) LO_PRI = Done (q, Inr b)"
        "items q = items (taskQueue (pool s)) @ [poisonTask now None]"
      using poison_last[OF I] by blast
    with 1 Suc step show ?thesis
      by (auto simp: shutdownRank_def)
  qed
next
  case (2 n d)
  with step show ?thesis
    by (cases n) (auto simp: shutdownRank_def split: outcome.splits prod.splits sum.splits)
next
  case (3 t n d)
  then have t: "workers s t = WDone" "s' = setClient c (CJoinLoop n (StopReturn d)) (setWorker t WJoined s)"
    using step by (auto split: if_splits)
  have "(\<Sum>w\<in>UNIV. wrank (workers s' w)) = (\<Sum>w\<in>UNIV. wrank (workers s w))"
    using sum_fun_upd[of UNIV t wrank "workers s" WJoined] t by simp
  with 3 t show ?thesis
    by (simp add: shutdownRank_def)
qed (use S in \<open>auto simp: stopping_def\<close>)

lemma closing_step:
  assumes C: "closing inv items (Suc n) K c s" and step: "pool_step E s a = Some s'" and a: "driver c a"
  shows "closing inv items n K c s'" "shutdownRank items c s' < shutdownRank items c s"
proof -
  have I: "inv (Suc n) (taskQueue (pool s))" and F: "flow_ok s" "conserved items s" and P: "pool_inv True 0 K s"
    using C by (auto simp: closing_def)
  have S: "stopping c s"
    using C clean_stays[of c s a E] step a by (auto simp: closing_def)
  have ord: "orderly E s a"
    by (rule phase_orderly[OF I S a])
  have room: "unat (nextId (pool s)) + 0 < 2 ^ 64"
    using unsigned_less[of "nextId (pool s)", where 'a = nat] by simp
  have "pool_inv True 0 K s'"
    using step_inv[OF P step driver_call_ok[OF a] _ room] ord by blast
  moreover have "stopping c s' \<or> clean c s'"
    by (rule stopping_step[OF P S step a ord])
  ultimately show "closing inv items n K c s'"
    using step_conserved[OF I F P room step] unfolding closing_def by blast
  show "shutdownRank items c s' < shutdownRank items c s"
    using worker_ranks[OF I P S] client_ranks[OF I S] step a by (cases a) auto
qed

lemma closing_exec:
  assumes "closing inv items n K c s" "shutdownRank items c s \<le> n" "pool_exec E s bs = Some s'" "list_all (driver c) bs"
  shows "closing inv items (n - length bs) K c s' \<and> length bs + shutdownRank items c s' \<le> shutdownRank items c s"
  using assms
proof (induction bs arbitrary: s n)
  case (Cons a bs)
  obtain s1 where s1: "pool_step E s a = Some s1" "pool_exec E s1 bs = Some s'"
    using Cons.prems(3) by (auto split: option.splits)
  have a: "driver c a" "list_all (driver c) bs"
    using Cons.prems(4) by simp_all
  have "n \<noteq> 0"
  proof
    assume "n = 0"
    then have r: "shutdownRank items c s = 0"
      using Cons.prems(2) by simp
    have "\<not> stopping c s"
    proof
      assume "stopping c s"
      then show False
        using r by (cases "clients s c" rule: stop_pc.cases) (auto simp: stopping_def shutdownRank_def)
    qed
    then have "clean c s"
      using Cons.prems(1) by (simp add: closing_def)
    from clean_stays[OF this a(1)] s1(1) show False
      by simp
  qed
  then obtain m where m: "n = Suc m"
    by (cases n) auto
  note C = closing_step[OF Cons.prems(1)[unfolded m] s1(1) a(1)]
  have "shutdownRank items c s1 \<le> m"
    using C(2) Cons.prems(2) m by simp
  from Cons.IH[OF C(1) this s1(2) a(2)] C(2) m show ?case
    by simp
qed simp

text \<open>Until the client has returned, it or a thread of the pool can move.\<close>

lemma worker_moves:
  assumes I: "inv n (taskQueue (pool s))" and P: "pool_inv True B K s" and S: "stopping c s"
    and w: "w \<in> set (vec (threadList (pool s)))" and free: "lockHolder s = None"
  shows "\<exists>s'. threadRun_step E 0 w s (workers s w) = Some s'"
proof (cases "workers s w = WStopLock \<or> (\<exists>task. workers s w = WPolled task)")
  case True
  have ok: "threadList_ok (threadList (pool s))"
    using P by (simp add: pool_inv_def list_ok_def)
  have "0 < threadsToStop (pool s)"
    unfolding stopping_accounts(1)[OF P S, symmetric] using length_pos_if_in_set[OF w] by simp
  then show ?thesis
    using retires[OF ok w free _ True] by metis
next
  case False
  have on: "on_list (workers s w)"
    using P w by (simp add: pool_inv_def list_ok_def)
  show ?thesis
  proof (cases "workers s w")
    case WTake
    obtain q r where "bq_try_take_for (taskOps E) (taskQueue (pool s)) = Done (q, Inr r)"
      using take_empty[OF I] take_item[OF I] by (cases "items (taskQueue (pool s))") auto
    with WTake show ?thesis
      by (cases r) auto
  qed (use False on in \<open>auto simp: Let_def case_prod_beta\<close>)
qed

lemma closing_moves:
  assumes C: "closing inv items (Suc n) K c s" and k: "workerKeepAlives (pool s) = 0"
  shows "clean c s \<or> (\<exists>a s'. driver c a \<and> pool_step E s a = Some s')"
proof (cases "clean c s")
  case False
  then have I: "inv (Suc n) (taskQueue (pool s))" and P: "pool_inv True 0 K s" and S: "stopping c s"
    using C by (auto simp: closing_def)
  have client: ?thesis if "client_step E 0 c s (clients s c) \<noteq> None"
    using that by (intro disjI2 exI[of _ "CStep c 0"]) auto
  have worker: ?thesis if "threadRun_step E 0 w s (workers s w) \<noteq> None" for w
    using that by (intro disjI2 exI[of _ "WStep w 0"]) auto
  show ?thesis
  proof (cases "clients s c" rule: stop_pc.cases)
    case (1 m n d)
    obtain q b where "bq_addWithPriority (taskOps E) (taskQueue (pool s)) (poisonTask 0 None) LO_PRI = Done (q, Inr b)"
      using poison_last[OF I] by blast
    with 1 show ?thesis
      by (intro client) (cases m; simp add: stop_removed_def)
  next
    case (2 m d)
    have free: "lockHolder s = None"
      using stopping_accounts(3)[OF P S] 2 by simp
    show ?thesis
    proof (cases m)
      case 0
      with 2 show ?thesis
        by (intro client) simp
    next
      case (Suc m')
      show ?thesis
      proof (cases "stq_queue (stoppedThreads (pool s))")
        case Nil
        have "vec (threadList (pool s)) \<noteq> []"
          using stopping_accounts(1,2)[OF P S] S 2 Suc Nil by (auto simp: stopping_def)
        then obtain w where "w \<in> set (vec (threadList (pool s)))"
          by (cases "vec (threadList (pool s))") auto
        then show ?thesis
          using worker_moves[OF I P S _ free] by (intro worker[of w]) auto
      next
        case (Cons t ts)
        then have "\<exists>q. stq_take (semOps E) (semCnt E) (stoppedThreads (pool s)) = Done (q, Inr t)"
          by (simp add: stq_take_def stq_try_take_for_def)
        with 2 Suc show ?thesis
          by (intro client) auto
      qed
    qed
  next
    case (3 t m d)
    then have "exited (workers s t)"
      using joining_exited[OF pool_invD(3)[OF P], of c t] by simp
    then show ?thesis
      using 3 k unfolding exited_def by (elim disjE; (intro worker[of t], simp; fail)?) (intro client, simp)
  qed (use S in \<open>auto simp: stopping_def\<close>)
qed simp

text \<open>Every task is run before \<open>join\<close> returns.\<close>

lemma draining_worker:
  assumes I: "inv n (taskQueue (pool s))" and D: "draining items c s"
    and j: "entered c s \<or> stopping c s" and step: "threadRun_step E now w s (workers s w) = Some s'"
  shows "draining items c s'"
proof (cases "leaving (workers s w)")
  case True
  then have "pendingTasks (items (taskQueue (pool s))) = {#}"
    using D by (auto simp: draining_def)
  moreover have "taskQueue (pool s') = taskQueue (pool s)" "clients s' = clients s" "isJoin (pool s') = isJoin (pool s)"
    using True step
    by (cases "workers s w"; auto simp: taskShouldStop_def tryDecrToStop_def tryTimeoutThread_def retireThread_def notify_def Let_def
        split: if_splits option.splits sum.splits outcome.splits prod.splits)+
  ultimately show ?thesis
    using D by (simp add: draining_def)
next
  case False
  have same: "draining items c s'" if "taskQueue (pool s') = taskQueue (pool s)" "clients s' = clients s"
      "isJoin (pool s') = isJoin (pool s)" "vec (threadList (pool s')) = vec (threadList (pool s))"
      "workers s' = (workers s)(w := pc)" "\<not> leaving pc" for pc
    using D that by (simp add: draining_def)
  show ?thesis
  proof (cases "workers s w")
    case WTake
    show ?thesis
    proof (cases "items (taskQueue (pool s))")
      case Nil
      from take_empty[OF I Nil] WTake step D show ?thesis
        by (auto simp: draining_def Nil)
    next
      case (Cons x xs)
      from take_item[OF I Cons] WTake step D show ?thesis
        by (auto simp: draining_def Cons tasksFirst_Cons split: if_splits)
    qed
  next
    case WAfter
    have "\<not> (0 < threadsToStop (pool s) \<and> \<not> isJoin (pool s))"
      using j D by (auto simp: entered_def stopping_def draining_def)
    with WAfter step show ?thesis
      by (intro same[of WTake]) auto
  qed (use False step in \<open>(intro same[of "workers s' w"];
      auto simp: addTid_def removeTid_def Let_def case_prod_beta split: if_splits option.splits)+\<close>)
qed

lemma draining_client:
  assumes I: "inv (Suc n) (taskQueue (pool s))" and D: "draining items c s"
    and j: "entered c s \<or> stopping c s" and step: "client_step E now c s (clients s c) = Some s'"
  shows "draining items c s'"
  using j
proof
  assume "entered c s"
  with D step show ?thesis
    by (cases "clients s c" rule: entering.cases)
      (auto simp: entered_def draining_def stop_locked_def removeThreads_begin_def Let_def split: if_splits)
next
  assume S: "stopping c s"
  show ?thesis
  proof (cases "clients s c" rule: stop_pc.cases)
    case (1 k n d)
    show ?thesis
    proof (cases k)
      case 0
      with 1 step D show ?thesis
        by (auto simp: draining_def stop_removed_def)
    next
      case (Suc k')
      obtain q b where
          "bq_addWithPriority (taskOps E) (taskQueue (pool s)) (poisonTask now None) LO_PRI = Done (q, Inr b)"
          "items q = items (taskQueue (pool s)) @ [poisonTask now None]"
        using poison_last[OF I] by blast
      then show ?thesis
        using 1 Suc step D by (auto simp: draining_def tasksFirst_snoc)
    qed
  next
    case (2 n d)
    with step D show ?thesis
      by (cases n) (auto simp: draining_def split: outcome.splits prod.splits sum.splits)
  next
    case (3 t n d)
    with step D show ?thesis
      by (auto simp: draining_def split: if_splits)
  qed (use S in \<open>auto simp: stopping_def\<close>)
qed

lemma draining_step:
  assumes I: "inv (Suc n) (taskQueue (pool s))" and D: "draining items c s"
    and j: "entered c s \<or> stopping c s" and step: "pool_step E s a = Some s'" and a: "driver c a"
  shows "draining items c s'"
proof (cases a)
  case (CStep i now)
  with a step show ?thesis
    by (intro draining_client[OF I D j]) simp
next
  case (WStep w now)
  with step show ?thesis
    by (intro draining_worker[OF I D j]) simp
qed (use a in simp_all)

lemma drained:
  assumes "draining items c s" "clean c s" "conserved items s"
  shows "mset (submitted s) = image_mset fst (mset (completed s))"
proof -
  have "pendingTasks (items (taskQueue (pool s))) = {#}"
    using assms(1,2) by (auto simp: draining_def clean_def)
  moreover have "hand (workers s w) = {#}" for w
  proof -
    have "workers s w = WAbsent \<or> workers s w = WJoined"
      using assms(2) by (simp add: clean_def)
    then show ?thesis
      by auto
  qed
  then have "inHand s = {#}"
    by (simp add: inHand_def)
  ultimately show ?thesis
    using assms(3) by (simp add: conserved_def)
qed

lemma shutting_step:
  assumes C: "shutting inv items (Suc n) B K c s" and step: "pool_step E s a = Some s'" and a: "driver c a"
    and room: "unat (nextId (pool s)) + B < 2 ^ 64"
  shows "shutting inv items n B K c s'" "unat (nextId (pool s')) \<le> unat (nextId (pool s)) + B"
    "draining items c s \<Longrightarrow> draining items c s'"
proof -
  have I: "inv (Suc n) (taskQueue (pool s))" and F: "flow_ok s" "conserved items s" and P: "pool_inv True B K s"
    using C by (auto simp: shutting_def)
  have j: "entered c s \<or> stopping c s"
    using C clean_stays[of c s a E] step a by (auto simp: shutting_def)
  have ord: "orderly E s a"
    using j phase_orderly[OF I _ a] entered_orderly[OF _ a, of s E] by argo
  have ph: "entered c s' \<or> stopping c s' \<or> clean c s'"
    using j entered_step[OF P _ step a] stopping_step[OF P _ step a ord] by argo
  have S: "pool_inv True B K s' \<and> unat (nextId (pool s')) \<le> unat (nextId (pool s)) + B"
    by (rule step_inv[OF P step driver_call_ok[OF a] _ room]) (simp add: ord)
  then show "unat (nextId (pool s')) \<le> unat (nextId (pool s)) + B"
    by (rule conjunct2)
  show "shutting inv items n B K c s'"
    using S ph step_conserved[OF I F P room step] by (simp add: shutting_def)
  show "draining items c s \<Longrightarrow> draining items c s'"
    by (rule draining_step[OF I _ j step a])
qed

lemma shutting_exec:
  assumes "shutting inv items (n + length bs) B K c s" "pool_exec E s bs = Some s'" "list_all (driver c) bs"
    "unat (nextId (pool s)) + length bs * B < 2 ^ 64"
  shows "shutting inv items n B K c s' \<and> (draining items c s \<longrightarrow> draining items c s')"
  using assms
proof (induction bs arbitrary: s)
  case (Cons a bs)
  obtain s1 where s1: "pool_step E s a = Some s1" "pool_exec E s1 bs = Some s'"
    using Cons.prems(2) by (auto split: option.splits)
  have C: "shutting inv items (Suc (n + length bs)) B K c s" and a: "driver c a" and room: "unat (nextId (pool s)) + B < 2 ^ 64"
    using Cons.prems(1,3,4) by simp_all
  note S = shutting_step[OF C s1(1) a room]
  have "unat (nextId (pool s1)) + length bs * B < 2 ^ 64"
    using S(2) Cons.prems(4) by simp
  from Cons.IH[OF S(1) s1(2) _ this] Cons.prems(3) S(3) show ?case
    by auto
qed simp

end

end
