(* ===== verification/PoolRuns.thy ===== *)
theory PoolRuns
  imports PoolShutdown
begin

text \<open>
  Runs of a pool from its constructor on. The two default queues of \<open>CPUThreadPoolExecutor\<close> satisfy the contract
  \<open>draining_queue\<close>, so that the results on task flow and shutdown hold of pools with them; the lemmas for the
  default queue follow. At the end, a pool over concrete third-party parts whose runs can be evaluated.
\<close>

section \<open>The default queues under the pool\<close>

lemma concat_last_lane:
  "L \<noteq> [] \<Longrightarrow> concat (L[length L - 1 := L ! (length L - 1) @ [x]]) = concat L @ [x]"
proof -
  assume "L \<noteq> []"
  then obtain M ys where "L = M @ [ys]"
    by (metis append_butlast_last_id)
  then show ?thesis
    by simp
qed

interpretation ubq_pool: draining_queue "E\<lparr>taskOps := ubq_ops S U\<rparr>" "ubq_inv S cnt U els" "\<lambda>q. concat (ubq_lanes els q)"
  for E S U cnt els
proof (intro draining_queue.intro pool_queue.intro draining_queue_axioms.intro)
  show "blocking_queue (taskOps (E\<lparr>taskOps := ubq_ops S U\<rparr>)) (ubq_inv S cnt U els) (\<lambda>q. concat (ubq_lanes els q))"
    using ubq.blocking_queue_axioms[of S U cnt els] by simp
  fix n q x
  assume "ubq_inv S cnt U els (Suc n) q"
  from ubq_add_ok[OF this] show "\<exists>q' b. bq_addWithPriority (taskOps (E\<lparr>taskOps := ubq_ops S U\<rparr>)) q x LO_PRI = Done (q', Inr b) \<and>
      ubq_inv S cnt U els n q' \<and> concat (ubq_lanes els q') = concat (ubq_lanes els q) @ [x]"
    by (simp add: ubq_ops_simps ubq_lanes_def)
qed

interpretation pubq_pool: draining_queue "E\<lparr>taskOps := pubq_ops S P\<rparr>" "pubq_inv S cnt P lanes"
    "\<lambda>q. concat (lanes (pubq_queue q))"
  for E S P cnt lanes
proof (intro draining_queue.intro pool_queue.intro draining_queue_axioms.intro)
  show "blocking_queue (taskOps (E\<lparr>taskOps := pubq_ops S P\<rparr>)) (pubq_inv S cnt P lanes) (\<lambda>q. concat (lanes (pubq_queue q)))"
    using pubq.blocking_queue_axioms[of S P cnt lanes] by simp
  fix n q x
  assume I: "pubq_inv S cnt P lanes (Suc n) q"
  let ?L = "lanes (pubq_queue q)"
  have "priority_lane (length ?L) LO_PRI = length ?L - 1" "?L \<noteq> []"
    using I by (auto simp: pubq_inv_def priority_lane_def LO_PRI_def)
  with pubq_add_ok[OF I, of x LO_PRI] concat_last_lane[of ?L x]
  show "\<exists>q' b. bq_addWithPriority (taskOps (E\<lparr>taskOps := pubq_ops S P\<rparr>)) q x LO_PRI = Done (q', Inr b) \<and>
      pubq_inv S cnt P lanes n q' \<and> concat (lanes (pubq_queue q')) = concat ?L @ [x]"
    by (simp add: pubq_ops_simps) metis
qed

section \<open>Runs\<close>

text \<open>A run of a pool from its constructor on, with at most \<open>B\<close> threads asked for at a time and clients
  below \<open>K\<close>. It is orderly when \<open>stop\<close> and \<open>join\<close> enter their critical section only when no thread remains to
  be stopped, and no poison task is refused.\<close>

definition pool_run :: "('s, 'q, 'f) pool_env \<Rightarrow> int \<Rightarrow> int \<Rightarrow> nat \<times> nat \<Rightarrow> 'q \<Rightarrow> nat \<Rightarrow> nat \<Rightarrow> 'f action list \<Rightarrow>
    ('s, 'q, 'f) pool_sys \<Rightarrow> bool" where
  "pool_run E timeout now num queue B K as s \<longleftrightarrow>
     pool_exec E (pool_init E 0 timeout now num queue) as = Some s \<and>
     list_all (call_ok B K) as \<and> fst num \<le> B \<and> (length as + 1) * B < 2 ^ 64"

definition orderly_run :: "('s, 'q, 'f) pool_env \<Rightarrow> int \<Rightarrow> int \<Rightarrow> nat \<times> nat \<Rightarrow> 'q \<Rightarrow> nat \<Rightarrow> nat \<Rightarrow> 'f action list \<Rightarrow>
    ('s, 'q, 'f) pool_sys \<Rightarrow> bool" where
  "orderly_run E timeout now num queue B K as s \<longleftrightarrow> pool_run E timeout now num queue B K as s \<and>
     orderly_exec E (pool_init E 0 timeout now num queue) as"

lemma run_inv:
  assumes R: "pool_run E timeout now num queue B K as s"
    and ex: "ex \<longrightarrow> orderly_exec E (pool_init E 0 timeout now num queue) as"
  shows "pool_inv ex B K s" "unat (nextId (pool s)) \<le> (length as + 1) * B"
proof -
  let ?i = "pool_init E 0 timeout now num queue"
  have b: "fst num \<le> B" "B < 2 ^ 64"
    using R by (auto simp: pool_run_def)
  have i: "pool_inv ex B K ?i" "unat (nextId (pool ?i)) \<le> B"
    by (rule init_inv[OF b])+
  have "unat (nextId (pool ?i)) + length as * B < 2 ^ 64"
    using i(2) R by (simp add: pool_run_def)
  from exec_inv[OF i(1) _ _ ex this] i(2) R show "pool_inv ex B K s" "unat (nextId (pool s)) \<le> (length as + 1) * B"
    by (auto simp: pool_run_def)
qed

lemma init_flow:
  "taskQueue (pool (pool_init E firstId timeout now num queue)) = queue"
  "items queue = [] \<Longrightarrow> conserved items (pool_init E firstId timeout now num queue)"
  "flow_ok (pool_init E firstId timeout now num queue)"
proof -
  let ?s = "pool_init E firstId timeout now num queue"
  define ths where "ths = fst (newCPUThreadPoolExecutor E firstId timeout now num queue)"
  have w: "workers ?s w = WAbsent \<or> workers ?s w = WStart" for w
    by (simp add: pool_init_def spawn_def case_prod_beta override_on_def)
  then have hand: "hand (workers ?s w) = {#}" "runs_ok (workers ?s w)" for w
    by (metis hand.simps(3,4), metis runs_ok.simps(4,5))
  show q: "taskQueue (pool ?s) = queue"
    by (simp add: pool_init_def newCPUThreadPoolExecutor_def Let_def case_prod_beta locked_taskQueue spawn_def
        ThreadPoolExecutor.ThreadPoolExecutor.defs)
  have "submitted ?s = []" "completed ?s = []" "clients ?s = (\<lambda>c. CIdle)"
    by (simp_all add: pool_init_def spawn_def case_prod_beta)
  with hand show "items queue = [] \<Longrightarrow> conserved items ?s" "flow_ok ?s"
    by (simp_all add: conserved_def inHand_def flow_ok_def q)
qed

text \<open>The default queue.\<close>

lemma ubq_env: "taskOps E = ubq_ops S U \<Longrightarrow> E\<lparr>taskOps := ubq_ops S U\<rparr> = E"
  by (metis pool_env.surjective pool_env.update_convs(3) pool_env.select_convs(3))

lemma ubq_new_inv:
  assumes "sem_contract S cnt" "umpmc_contract U els" "n < 2 ^ 64"
  shows "ubq_inv S cnt U els n (newUnboundedBlockingQueue S U)" "concat (ubq_lanes els (newUnboundedBlockingQueue S U)) = []"
  using assms sem_contractD(1)[OF assms(1)] umpmc_contractD(1)[OF assms(2)]
  by (simp_all add: ubq_inv_def ubq_lanes_def newUnboundedBlockingQueue_def)

abbreviation ubq_items :: "('u \<Rightarrow> 'a list) \<Rightarrow> ('s, 'u) UnboundedBlockingQueue \<Rightarrow> 'a list" where
  "ubq_items els q \<equiv> els (ubq_queue q)"

lemma ubq_items_lanes: "(\<lambda>q. concat (ubq_lanes els q)) = ubq_items els"
  by (simp add: ubq_lanes_def)

lemma ubq_run:
  assumes E: "taskOps E = ubq_ops S U" and S: "sem_contract S cnt" "umpmc_contract U els"
    and R: "pool_run E timeout now num (newUnboundedBlockingQueue S U) B K as s"
    and ex: "ex \<longrightarrow> orderly_exec E (pool_init E 0 timeout now num (newUnboundedBlockingQueue S U)) as"
    and n: "n + length as < 2 ^ 64"
  shows "ubq_inv S cnt U els n (taskQueue (pool s)) \<and> flow_ok s \<and> conserved (ubq_items els) s"
proof -
  let ?i = "pool_init E 0 timeout now num (newUnboundedBlockingQueue S U)"
  have b: "fst num \<le> B" "B < 2 ^ 64"
    using R by (auto simp: pool_run_def)
  have i: "pool_inv ex B K ?i" "unat (nextId (pool ?i)) \<le> B"
    by (rule init_inv[OF b])+
  note q = ubq_new_inv[OF S n]
  have I: "ubq_inv S cnt U els (n + length as) (taskQueue (pool ?i))"
    using q(1) by (simp add: init_flow(1))
  have C: "conserved (\<lambda>q. concat (ubq_lanes els q)) ?i"
    by (rule init_flow(2)[where items = "\<lambda>q. concat (ubq_lanes els q)"]) (rule q(2))
  have room: "unat (nextId (pool ?i)) + length as * B < 2 ^ 64"
    using i(2) R by (simp add: pool_run_def)
  have "pool_exec E ?i as = Some s" "list_all (call_ok B K) as"
    using R by (auto simp: pool_run_def)
  from ubq_pool.exec_conserved[of S cnt U els n as ?i ex B K E s, unfolded ubq_env[OF E], OF I init_flow(3) C i(1) this ex room]
  show ?thesis
    by (simp add: ubq_items_lanes)
qed

text \<open>A shutdown of a pool with the default queue.\<close>

lemma ubq_shutting:
  assumes E: "taskOps E = ubq_ops S U" and S: "sem_contract S cnt" "umpmc_contract U els"
    and R: "orderly_run E timeout now num (newUnboundedBlockingQueue S U) B K as s" and n: "n + length as < 2 ^ 64"
    and c: "entered c s \<or> stopping c s"
  shows "shutting (ubq_inv S cnt U els) (ubq_items els) n B K c s"
proof -
  have R': "pool_run E timeout now num (newUnboundedBlockingQueue S U) B K as s"
    "True \<longrightarrow> orderly_exec E (pool_init E 0 timeout now num (newUnboundedBlockingQueue S U)) as"
    using R by (simp_all add: orderly_run_def)
  have "pool_inv True B K s"
    by (rule run_inv(1)[OF R'])
  moreover have "ubq_inv S cnt U els n (taskQueue (pool s)) \<and> flow_ok s \<and> conserved (ubq_items els) s"
    by (rule ubq_run[OF E S R' n])
  ultimately show ?thesis
    using c by (auto simp: shutting_def)
qed

lemma ubq_shutdown:
  assumes E: "taskOps E = ubq_ops S U" and S: "sem_contract S cnt" "umpmc_contract U els"
    and R: "orderly_run E timeout now num (newUnboundedBlockingQueue S U) B K as s"
    and c: "entered c s" and bs: "pool_exec E s bs = Some s'" "list_all (driver c) bs"
    and room: "(length as + length bs + 1) * B < 2 ^ 64" "length as + length bs < 2 ^ 64"
  shows "shutting (ubq_inv S cnt U els) (ubq_items els) 0 B K c s'"
    "draining (ubq_items els) c s \<Longrightarrow> draining (ubq_items els) c s'"
proof -
  have "pool_run E timeout now num (newUnboundedBlockingQueue S U) B K as s"
    using R by (simp add: orderly_run_def)
  then have id: "unat (nextId (pool s)) \<le> (length as + 1) * B"
    by (rule run_inv(2)[where ex = False]) simp
  have "unat (nextId (pool s)) + length bs * B < 2 ^ 64"
    using id room(1) by (simp add: algebra_simps)
  moreover have "shutting (ubq_inv S cnt U els) (ubq_items els) (0 + length bs) B K c s"
    using c room(2) by (intro ubq_shutting[OF E S R]) auto
  ultimately show "shutting (ubq_inv S cnt U els) (ubq_items els) 0 B K c s'"
    "draining (ubq_items els) c s \<Longrightarrow> draining (ubq_items els) c s'"
    using ubq_pool.shutting_exec[of S cnt U els 0 bs B K c s E s', unfolded ubq_env[OF E] ubq_items_lanes] bs by blast+
qed

section \<open>Concrete pools\<close>

text \<open>A pool with the default queue over lists and a counter, for executions that can be evaluated.\<close>

definition list_env :: "(nat, (nat, nat CPUTask list) UnboundedBlockingQueue, nat) pool_env" where
  "list_env = \<lparr>semOps = counter_sem, semCnt = id, taskOps = ubq_ops counter_sem list_umpmc, usedCpuTime = (\<lambda>t. 0),
     observerFactory = None, onEnqueuedPayload = (\<lambda>b c. 0)\<rparr>"

abbreviation list_queue :: "(nat, nat CPUTask list) UnboundedBlockingQueue" where
  "list_queue \<equiv> newUnboundedBlockingQueue counter_sem list_umpmc"

definition list_pool :: "nat \<times> nat \<Rightarrow> (nat, (nat, nat CPUTask list) UnboundedBlockingQueue, nat) pool_sys" where
  "list_pool num = pool_init list_env 0 60000 0 num list_queue"

definition wsteps :: "nat \<Rightarrow> u64 \<Rightarrow> int \<Rightarrow> nat action list" where
  "wsteps n w t = replicate n (WStep w t)"

definition csteps :: "nat \<Rightarrow> int \<Rightarrow> nat action list" where
  "csteps n t = replicate n (CStep 0 t)"

definition calls :: "nat pool_call \<Rightarrow> nat \<Rightarrow> int \<Rightarrow> nat action list" where
  "calls op n t = CallOp 0 op # csteps n t"

lemma list_env_facts:
  "taskOps list_env = ubq_ops counter_sem list_umpmc" "sem_contract counter_sem id"
  "umpmc_contract (list_umpmc :: (nat CPUTask list, nat CPUTask) umpmc_ops) id"
  by (simp_all add: list_env_def counter_sem_contract list_umpmc_contract)

lemma list_run:
  assumes "pool_exec list_env (list_pool num) as = Some s" "list_all (call_ok 2 1) as" "fst num \<le> 2" "length as < 100"
  shows "pool_run list_env 60000 0 num list_queue 2 1 as s"
    "\<And>i. i \<noteq> 0 \<Longrightarrow> clients s i = CIdle"
    "\<And>w. nextId (pool s) \<le> w \<Longrightarrow> workers s w = WAbsent"
proof -
  show R: "pool_run list_env 60000 0 num list_queue 2 1 as s"
    using assms by (simp add: pool_run_def list_pool_def)
  have "pool_inv False 2 1 s"
    using run_inv(1)[OF R, of False] by simp
  then show "\<And>i. i \<noteq> 0 \<Longrightarrow> clients s i = CIdle" "\<And>w. nextId (pool s) \<le> w \<Longrightarrow> workers s w = WAbsent"
    by (auto simp: pool_inv_def limits_ok_def list_ok_def word_le_nat_alt)
qed

text \<open>Executions: some activity with a thread that times out and one that is removed; a shutdown by the destructor; a
  shutdown by \<open>join\<close>.\<close>

definition churn :: "nat action list" where
  "churn = wsteps 1 0 0 @ calls (Add 10 0 None None) 5 1 @ wsteps 2 0 1 @ wsteps 4 1 2 @ calls (SetNumThreads 0) 2 3"

definition stopCall :: "nat action list" where
  "stopCall = wsteps 1 0 0 @ calls (Add 10 0 None None) 5 1 @ calls Destroy 0 2"

definition stopRest :: "nat action list" where
  "stopRest = csteps 6 2 @ wsteps 7 0 3 @ wsteps 5 1 3 @ csteps 5 4"

definition joinCall :: "nat action list" where
  "joinCall = wsteps 1 0 0 @ calls (Add 10 0 None None) 5 1 @ calls (Add 11 0 None None) 2 1 @ calls Join 0 2"

definition joinRest :: "nat action list" where
  "joinRest = csteps 6 2 @ wsteps 12 0 3 @ wsteps 5 1 3 @ csteps 5 4"

lemma pool_exec_append: "pool_exec E s (as @ bs) = Option.bind (pool_exec E s as) (\<lambda>s'. pool_exec E s' bs)"
  by (induction as arbitrary: s) (auto split: option.split)

lemma churn_run: "\<exists>s. orderly_run list_env 60000 0 (2, 1) list_queue 2 1 churn s"
proof -
  have "pool_exec list_env (list_pool (2, 1)) churn \<noteq> None"
    by code_simp
  then obtain s where s: "pool_exec list_env (list_pool (2, 1)) churn = Some s"
    by blast
  have "list_all (call_ok 2 1) churn" "length churn < 100" "orderly_exec list_env (list_pool (2, 1)) churn"
    by code_simp+
  with list_run(1)[OF s] show ?thesis
    by (auto simp: orderly_run_def list_pool_def)
qed

text \<open>Evaluation of a run in two parts.\<close>

definition runsTo :: "nat \<times> nat \<Rightarrow> nat action list \<Rightarrow> ((nat, (nat, nat CPUTask list) UnboundedBlockingQueue, nat) pool_sys \<Rightarrow> bool) \<Rightarrow> bool" where
  "runsTo num as ok = (list_all (call_ok 2 1) as \<and> fst num \<le> 2 \<and> length as < 100 \<and>
     (case pool_exec list_env (list_pool num) as of None \<Rightarrow> False | Some s \<Rightarrow> ok s))"

definition continuesTo :: "nat action list \<Rightarrow> ((nat, (nat, nat CPUTask list) UnboundedBlockingQueue, nat) pool_sys \<Rightarrow> bool) \<Rightarrow>
    (nat, (nat, nat CPUTask list) UnboundedBlockingQueue, nat) pool_sys \<Rightarrow> bool" where
  "continuesTo bs ok s = (case pool_exec list_env s bs of None \<Rightarrow> False | Some s' \<Rightarrow> ok s')"

lemma runsTo_run:
  assumes "runsTo num as ok"
  shows "\<exists>s. pool_run list_env 60000 0 num list_queue 2 1 as s \<and> ok s \<and> (\<forall>i. i \<noteq> 0 \<longrightarrow> clients s i = CIdle) \<and>
    (\<forall>w. nextId (pool s) \<le> w \<longrightarrow> workers s w = WAbsent)"
  using assms list_run[of num as] by (auto simp: runsTo_def split: option.splits)

lemma continuesTo_exec:
  assumes "continuesTo bs ok s"
  obtains s' where "pool_exec list_env s bs = Some s'" "ok s'"
  using assms that by (auto simp: continuesTo_def split: option.splits)

lemma run_lengths: "length churn = 16" "length stopCall = 8" "length stopRest = 23" "length joinCall = 11" "length joinRest = 28"
    "length (csteps n t) = n" "length (wsteps n w t) = n"
  by (simp_all add: churn_def stopCall_def stopRest_def joinCall_def joinRest_def wsteps_def csteps_def calls_def)

end
