(* ===== verification/PoolProperties.thy ===== *)
theory PoolProperties
  imports PoolRuns
begin

text \<open>
  What the thread pool guarantees, and where it does not do what it means to do. The positive results are for any
  interleaving of any number of clients and pool threads; those on shutdown are for pools with the default queue,
  whose semaphore and \<open>folly::UMPMCQueue\<close> keep their contracts.
\<close>

lemma two_or_more: "w = 0 \<or> w = 1 \<or> (2 :: u64) \<le> w"
  by (auto simp: word_unat_eq_iff word_le_nat_alt)

section \<open>Properties\<close>

text \<open>C27. The books of the pool balance. In any orderly run, with any task queue, the thread list is sorted and
  holds exactly the threads that are in \<open>threadRun\<close> and have not been told to leave; whenever
  \<open>threadListLock_\<close> is free, at most \<open>maxThreads_\<close> threads are active and the listed threads are the active
  ones plus those still to stop (\<open>activeThreads_ + threadsToStop_\<close>); and the stopped threads that somebody
  is going to join, \<open>threadsToJoin_\<close> plus what the calls in progress wait for, are exactly those that have stopped
  or still will.\<close>

theorem pool_accounting:
  assumes "orderly_run E timeout now num queue B K as s"
  shows "sorted_wrt (<) (vec (threadList (pool s))) \<and>
    (\<forall>w. w \<in> set (vec (threadList (pool s))) \<longleftrightarrow> on_list (workers s w)) \<and>
    (lockHolder s = None \<longrightarrow> activeThreads (pool s) \<le> maxThreads (pool s) \<and>
       int (length (vec (threadList (pool s)))) = int (activeThreads (pool s)) + threadsToStop (pool s)) \<and>
    int (threadsToJoin (pool s) + (\<Sum>c<K. demand (clients s c))) =
      int (length (stq_queue (stoppedThreads (pool s)))) + threadsToStop (pool s)"
proof -
  have "pool_inv True B K s"
    using assms run_inv(1)[of E timeout now num queue B K as s True] by (simp add: orderly_run_def)
  note I = pool_invD[OF this]
  have "lockHolder s = None \<Longrightarrow> activeThreads (pool s) \<le> maxThreads (pool s) \<and>
       int (length (vec (threadList (pool s)))) = int (activeThreads (pool s)) + threadsToStop (pool s)"
    using I(4) overlap_free[of s] by (simp add: counts_ok_def upto_def)
  then show ?thesis
    using I(2,5) by (simp add: list_ok_def threadList_ok_def demand_ok_def upto_def del: of_nat_sum of_nat_add)
qed

theorem pool_accounting_witness:
  "\<exists>s. orderly_run list_env 60000 0 (2, 1) list_queue 2 1 churn s \<and>
     (\<forall>w. w \<in> set (vec (threadList (pool s))) \<longleftrightarrow> on_list (workers s w)) \<and>
     int (threadsToJoin (pool s) + (\<Sum>c<1. demand (clients s c))) =
       int (length (stq_queue (stoppedThreads (pool s)))) + threadsToStop (pool s)"
proof -
  obtain s where s: "orderly_run list_env 60000 0 (2, 1) list_queue 2 1 churn s"
    using churn_run by blast
  with pool_accounting[OF s] show ?thesis
    by blast
qed

text \<open>C28. No thread is lost, whatever the clients do, even when \<open>stop\<close> overlaps other calls or the
  queue refuses poison tasks. The thread list holds exactly the running threads; a thread that has left it
  is either waiting in the queue of stopped threads or being joined by exactly one client, so that no
  thread is joined twice; \<open>threadsToStop_\<close> is never negative; and at most \<open>activeThreads_ + threadsToStop_\<close>
  threads are listed while the lock is free.\<close>

theorem pool_threads_tracked:
  assumes "pool_run E timeout now num queue B K as s"
  shows "(\<forall>w. w \<in> set (vec (threadList (pool s))) \<longleftrightarrow> on_list (workers s w)) \<and>
    distinct (stq_queue (stoppedThreads (pool s))) \<and>
    (\<forall>w. exited (workers s w) \<longleftrightarrow>
       w \<in> set (stq_queue (stoppedThreads (pool s))) \<or> (\<exists>c. joining (clients s c) = Some w)) \<and>
    (\<forall>c c' w. joining (clients s c) = Some w \<longrightarrow> joining (clients s c') = Some w \<longrightarrow> c = c') \<and>
    0 \<le> threadsToStop (pool s) \<and>
    (lockHolder s = None \<longrightarrow> int (length (vec (threadList (pool s)))) \<le> int (activeThreads (pool s)) + threadsToStop (pool s))"
proof -
  have "pool_inv False B K s"
    using run_inv(1)[OF assms, of False] by simp
  note I = pool_invD[OF this]
  have "lockHolder s = None \<Longrightarrow>
      int (length (vec (threadList (pool s)))) \<le> int (activeThreads (pool s)) + threadsToStop (pool s)"
    using I(4) overlap_free[of s] by (simp add: counts_ok_def upto_def)
  moreover have "exited (workers s w) \<longleftrightarrow>
       w \<in> set (stq_queue (stoppedThreads (pool s))) \<or> (\<exists>c. joining (clients s c) = Some w)" for w
    using I(3) unfolding stopped_ok_def by blast
  ultimately show ?thesis
    using I(2-4) by (simp add: list_ok_def stopped_ok_def counts_ok_def)
qed

theorem pool_threads_tracked_witness:
  "\<exists>s. pool_run list_env 60000 0 (2, 1) list_queue 2 1 churn s \<and>
     (\<forall>w. w \<in> set (vec (threadList (pool s))) \<longleftrightarrow> on_list (workers s w)) \<and> 0 \<le> threadsToStop (pool s)"
proof -
  obtain s where "pool_run list_env 60000 0 (2, 1) list_queue 2 1 churn s"
    using churn_run by (auto simp: orderly_run_def)
  with pool_threads_tracked[OF this] show ?thesis
    by blast
qed

text \<open>C25. No task is lost or run twice. In any run of a pool with the default queue the tasks accepted by
  \<open>add\<close> are, counted with multiplicity, those waiting in the queue, those in the hands of a pool thread and
  those that have been run; and for each task that has been run its function was called, or its expiration
  callback if it had waited for longer than its expiration.\<close>

theorem tasks_conserved:
  assumes "taskOps E = ubq_ops S U" "sem_contract S cnt" "umpmc_contract U els"
    "pool_run E timeout now num (newUnboundedBlockingQueue S U) B K as s" "length as < 2 ^ 64"
  shows "mset (submitted s) = mset (filter (\<lambda>t. \<not> poison t) (els (ubq_queue (taskQueue (pool s))))) +
      (\<Sum>w\<in>UNIV. hand (workers s w)) + image_mset fst (mset (completed s)) \<and>
    (\<forall>(task, called) \<in> set (completed s). \<exists>start. called = invocationAt start task)"
proof -
  have "flow_ok s \<and> conserved (ubq_items els) s"
    using ubq_run[OF assms(1-4), of False 0] assms(5) by simp
  then show ?thesis
    by (simp add: flow_ok_def conserved_def pendingTasks_def inHand_def)
qed

theorem tasks_conserved_witness:
  "\<exists>s. pool_run list_env 60000 0 (2, 1) list_queue 2 1 churn s \<and> length (submitted s) = 1 \<and>
     mset (submitted s) = mset (filter (\<lambda>t. \<not> poison t) (ubq_queue (taskQueue (pool s)))) +
       (\<Sum>w\<in>UNIV. hand (workers s w)) + image_mset fst (mset (completed s))"
proof -
  have "runsTo (2, 1) churn (\<lambda>s. length (submitted s) = 1)"
    by code_simp
  from runsTo_run[OF this] obtain s where s: "pool_run list_env 60000 0 (2, 1) list_queue 2 1 churn s" "length (submitted s) = 1"
    by blast
  have "length churn < 2 ^ 64"
    by (simp add: run_lengths)
  from tasks_conserved[OF list_env_facts s(1) this] show ?thesis
    by (intro exI[of _ s] conjI s) (simp only: id_apply)
qed

text \<open>C22. A shutdown ends well. Let a client enter \<open>stop\<close>, \<open>join\<close> or the destructor after an orderly
  run, when the other clients have returned and no thread remains to be stopped. However its steps and those
  of the pool threads interleave, no check of the shutdown fails and no exception is thrown, and when it
  returns the thread list and the queue of stopped threads are empty, the counters are zero and every
  thread ever created has been joined.\<close>

theorem stop_returns_clean:
  assumes "taskOps E = ubq_ops S U" "sem_contract S cnt" "umpmc_contract U els"
    "orderly_run E timeout now num (newUnboundedBlockingQueue S U) B K as s"
    "entering (clients s c)" "\<forall>i. i \<noteq> c \<longrightarrow> returned_client (clients s i)" "threadsToStop (pool s) = 0"
    "pool_exec E s bs = Some s'" "list_all (driver c) bs"
    "(length as + length bs + 1) * B < 2 ^ 64" "length as + length bs < 2 ^ 64"
  shows "clients s' c \<noteq> CAborted \<and> (\<forall>e. clients s' c \<noteq> CThrew e) \<and>
    (clients s' c = CIdle \<longrightarrow> vec (threadList (pool s')) = [] \<and> stq_queue (stoppedThreads (pool s')) = [] \<and>
       threadsToStop (pool s') = 0 \<and> threadsToJoin (pool s') = 0 \<and>
       (\<forall>w. workers s' w = WAbsent \<or> workers s' w = WJoined))"
proof -
  have "entered c s"
    using assms(5-7) by (simp add: entered_def alone_def)
  from ubq_shutdown(1)[OF assms(1-4) this assms(8-11)] have "entered c s' \<or> stopping c s' \<or> clean c s'"
    by (simp add: shutting_def)
  then show ?thesis
    by (auto simp: entered_def stopping_def clean_def)
qed

theorem stop_returns_clean_witness:
  "\<exists>s s'. orderly_run list_env 60000 0 (2, 1) list_queue 2 1 stopCall s \<and> clients s 0 = CStop False True \<and>
     pool_exec list_env s stopRest = Some s' \<and> clients s' 0 = CIdle \<and> vec (threadList (pool s')) = [] \<and>
     (\<forall>w. workers s' w = WAbsent \<or> workers s' w = WJoined)"
proof -
  have "runsTo (2, 1) stopCall (\<lambda>s. clients s 0 = CStop False True \<and> threadsToStop (pool s) = 0 \<and>
      continuesTo stopRest (\<lambda>s'. clients s' 0 = CIdle) s)"
    by code_simp
  from runsTo_run[OF this] obtain s where s: "pool_run list_env 60000 0 (2, 1) list_queue 2 1 stopCall s"
      "clients s 0 = CStop False True \<and> threadsToStop (pool s) = 0 \<and> continuesTo stopRest (\<lambda>s'. clients s' 0 = CIdle) s"
      "\<forall>i. i \<noteq> 0 \<longrightarrow> clients s i = CIdle"
    by blast
  obtain s' where s': "pool_exec list_env s stopRest = Some s'" "clients s' 0 = CIdle"
    using s(2) by (auto elim: continuesTo_exec)
  have o: "orderly_run list_env 60000 0 (2, 1) list_queue 2 1 stopCall s"
    unfolding orderly_run_def list_pool_def[symmetric] by (intro conjI s(1)) code_simp
  have b: "list_all (driver 0) stopRest" "(length stopCall + length stopRest + 1) * 2 < 2 ^ 64"
    "length stopCall + length stopRest < 2 ^ 64"
    by (code_simp, simp_all add: run_lengths)
  have "entering (clients s 0)" "\<forall>i. i \<noteq> 0 \<longrightarrow> returned_client (clients s i)" "threadsToStop (pool s) = 0"
    using s(2,3) by simp_all
  from stop_returns_clean[OF list_env_facts o this s'(1) b] s(2) s' o show ?thesis
    by blast
qed

text \<open>C23. A shutdown ends, under the following conditions. The pool has the default queue; its run so far was orderly, so that
  no shutdown took the lock while threads were left to be stopped by an earlier one (without this the destructor can
  wait forever: see \<open>stop_can_hang\<close>); the shutting client has taken the lock and zeroed the counters of threads; the
  other clients have returned and make no calls; no queue observer is holding collected thread ids. Then the steps of the
  client and of the pool threads come to an end: there are at most \<open>shutdownRank\<close> of them (a sum over the threads, the queued
  tasks and the joins left to do), and until the client has returned some step is possible.\<close>

theorem stop_terminates:
  assumes "taskOps E = ubq_ops S U" "sem_contract S cnt" "umpmc_contract U els"
    "orderly_run E timeout now num (newUnboundedBlockingQueue S U) B K as s" "stopping c s"
    "shutdownRank (ubq_items els) c s + 1 + length as < 2 ^ 64"
    "pool_exec E s bs = Some s'" "list_all (driver c) bs" "workerKeepAlives (pool s') = 0"
  shows "length bs \<le> shutdownRank (ubq_items els) c s \<and>
    (clients s' c = CIdle \<or> (\<exists>a. driver c a \<and> pool_step E s' a \<noteq> None))"
proof -
  let ?r = "shutdownRank (ubq_items els) c s"
  have "shutting (ubq_inv S cnt U els) (ubq_items els) (?r + 1) B K c s"
    using assms(5,6) by (intro ubq_shutting[OF assms(1-4)]) simp_all
  then have C: "closing (ubq_inv S cnt U els) (ubq_items els) (?r + 1) K c s"
    by (rule shutting_closing) (rule assms(5))
  have X: "closing (ubq_inv S cnt U els) (ubq_items els) (?r + 1 - length bs) K c s' \<and>
      length bs + shutdownRank (ubq_items els) c s' \<le> ?r"
    using ubq_pool.closing_exec[of S cnt U els "?r + 1" K c s E bs s', unfolded ubq_env[OF assms(1)] ubq_items_lanes]
      C assms(7,8) by simp
  have "?r + 1 - length bs = Suc (?r - length bs)"
    using X by (simp add: Suc_diff_le)
  with X have "clean c s' \<or> (\<exists>a s''. driver c a \<and> pool_step E s' a = Some s'')"
    using ubq_pool.closing_moves[of S cnt U els "?r - length bs" K c s' E, unfolded ubq_env[OF assms(1)] ubq_items_lanes]
      assms(9) by simp
  then show ?thesis
    using X by (auto simp: clean_def)
qed

theorem stop_terminates_witness:
  "\<exists>s s'. orderly_run list_env 60000 0 (2, 1) list_queue 2 1 (stopCall @ csteps 3 2) s \<and>
     pool_exec list_env s (csteps 3 2 @ wsteps 2 0 3) = Some s' \<and>
     5 \<le> shutdownRank ubq_queue 0 s \<and> (\<exists>a. driver 0 a \<and> pool_step list_env s' a \<noteq> None)"
proof -
  let ?as = "stopCall @ csteps 3 2" and ?bs = "csteps 3 2 @ wsteps 2 0 3"
  have "runsTo (2, 1) ?as (\<lambda>s. clients s 0 = CPoison 2 (PoisonStop 2 True) \<and> activeThreads (pool s) = 0 \<and>
      maxThreads (pool s) = 0 \<and> threadsToJoin (pool s) = 0 \<and> nextId (pool s) = 2 \<and> workers s 0 = WTake \<and> workers s 1 = WStart \<and>
      length (ubq_queue (taskQueue (pool s))) = 1 \<and>
      continuesTo ?bs (\<lambda>s'. clients s' 0 \<noteq> CIdle \<and> workerKeepAlives (pool s') = 0) s)"
    by code_simp
  from runsTo_run[OF this] obtain s where s: "pool_run list_env 60000 0 (2, 1) list_queue 2 1 ?as s"
      "clients s 0 = CPoison 2 (PoisonStop 2 True) \<and> activeThreads (pool s) = 0 \<and>
      maxThreads (pool s) = 0 \<and> threadsToJoin (pool s) = 0 \<and> nextId (pool s) = 2 \<and> workers s 0 = WTake \<and> workers s 1 = WStart \<and>
      length (ubq_queue (taskQueue (pool s))) = 1 \<and>
      continuesTo ?bs (\<lambda>s'. clients s' 0 \<noteq> CIdle \<and> workerKeepAlives (pool s') = 0) s"
      "\<forall>i. i \<noteq> 0 \<longrightarrow> clients s i = CIdle" "\<forall>w. nextId (pool s) \<le> w \<longrightarrow> workers s w = WAbsent"
    by blast
  obtain s' where s': "pool_exec list_env s ?bs = Some s'" "clients s' 0 \<noteq> CIdle \<and> workerKeepAlives (pool s') = 0"
    using s(2) by (auto elim: continuesTo_exec)
  have o: "orderly_run list_env 60000 0 (2, 1) list_queue 2 1 ?as s"
    unfolding orderly_run_def list_pool_def[symmetric] by (intro conjI s(1)) code_simp
  have "w = 0 \<or> w = 1 \<or> workers s w = WAbsent" for w
    using s(2,4) two_or_more[of w] by auto
  then have "wrank (workers s w) = 0" if "w \<notin> {0, 1}" for w
    using that by (metis insertI1 insertI2 wrank.simps(10))
  then have "(\<Sum>w\<in>UNIV. wrank (workers s w)) = (\<Sum>w\<in>{0, 1}. wrank (workers s w))"
    by (intro sum.mono_neutral_right) auto
  then have rank: "shutdownRank (ubq_items id) 0 s = 30"
    using s(2) by (simp add: shutdownRank_def)
  have "stopping 0 s"
    using s(2,3) by (simp add: stopping_def alone_def)
  moreover have "shutdownRank (ubq_items id) 0 s + 1 + length ?as < 2 ^ 64"
    unfolding rank by (simp add: run_lengths)
  moreover have "list_all (driver 0) ?bs"
    by code_simp
  ultimately have "length ?bs \<le> shutdownRank (ubq_items id) 0 s \<and>
      (clients s' 0 = CIdle \<or> (\<exists>a. driver 0 a \<and> pool_step list_env s' a \<noteq> None))"
    using stop_terminates[OF list_env_facts o] s' by blast
  then have "\<exists>a. driver 0 a \<and> pool_step list_env s' a \<noteq> None"
    using s'(2) by blast
  with o s'(1) rank show ?thesis
    by (intro exI[of _ s] exI[of _ s'] conjI) simp_all
qed

text \<open>C24. \<open>join\<close> runs everything, under the following conditions at its call. The pool has the default queue and its run so far
  was orderly; the other clients have returned and make no calls; no thread is left to be stopped by an earlier call
  (\<open>threadsToStop_\<close> is zero); the thread list is not empty; no thread is about to look at \<open>threadsToStop_\<close> or to leave; and the
  queue has no stale poison task ahead of a task. Then every task ever accepted has been run when \<open>join\<close> returns. Without
  threads a queued task stays in the queue, and without the condition on leaving threads it can: see \<open>join_can_drop_task\<close>.\<close>

theorem join_runs_all_tasks:
  assumes "taskOps E = ubq_ops S U" "sem_contract S cnt" "umpmc_contract U els"
    "orderly_run E timeout now num (newUnboundedBlockingQueue S U) B K as s"
    "clients s c = CStop True d" "\<forall>i. i \<noteq> c \<longrightarrow> returned_client (clients s i)" "threadsToStop (pool s) = 0"
    "tasksFirst (els (ubq_queue (taskQueue (pool s))))" "vec (threadList (pool s)) \<noteq> []" "\<forall>w. \<not> leaving (workers s w)"
    "pool_exec E s bs = Some s'" "list_all (driver c) bs" "clients s' c = CIdle"
    "(length as + length bs + 1) * B < 2 ^ 64" "length as + length bs < 2 ^ 64"
  shows "mset (submitted s') = mset (map fst (completed s'))"
proof -
  have en: "entered c s"
    using assms(5-7) by (simp add: entered_def alone_def)
  have "draining (ubq_items els) c s"
    using assms(5,8-10) by (simp add: draining_def)
  note D = ubq_shutdown[OF assms(1-4) en assms(11,12,14,15)]
  have "clean c s'" "conserved (ubq_items els) s'"
    using D(1) assms(13) by (auto simp: shutting_def entered_def stopping_def)
  then show ?thesis
    using ubq_pool.drained[of els c s'] D(2) \<open>draining (ubq_items els) c s\<close> by (simp add: ubq_items_lanes)
qed

theorem join_runs_all_tasks_witness:
  "\<exists>s s'. orderly_run list_env 60000 0 (2, 1) list_queue 2 1 joinCall s \<and>
     pool_exec list_env s joinRest = Some s' \<and> clients s' 0 = CIdle \<and> length (submitted s') = 2 \<and>
     mset (submitted s') = mset (map fst (completed s'))"
proof -
  have "runsTo (2, 1) joinCall (\<lambda>s. clients s 0 = CStop True False \<and> threadsToStop (pool s) = 0 \<and> nextId (pool s) = 2 \<and>
      workers s 0 = WTake \<and> workers s 1 = WStart \<and> list_all (\<lambda>t. \<not> poison t) (ubq_queue (taskQueue (pool s))) \<and>
      vec (threadList (pool s)) \<noteq> [] \<and>
      continuesTo joinRest (\<lambda>s'. clients s' 0 = CIdle \<and> length (submitted s') = 2) s)"
    by code_simp
  from runsTo_run[OF this] obtain s where s: "pool_run list_env 60000 0 (2, 1) list_queue 2 1 joinCall s"
      "clients s 0 = CStop True False \<and> threadsToStop (pool s) = 0 \<and> nextId (pool s) = 2 \<and>
      workers s 0 = WTake \<and> workers s 1 = WStart \<and> list_all (\<lambda>t. \<not> poison t) (ubq_queue (taskQueue (pool s))) \<and>
      vec (threadList (pool s)) \<noteq> [] \<and>
      continuesTo joinRest (\<lambda>s'. clients s' 0 = CIdle \<and> length (submitted s') = 2) s"
      "\<forall>i. i \<noteq> 0 \<longrightarrow> clients s i = CIdle" "\<forall>w. nextId (pool s) \<le> w \<longrightarrow> workers s w = WAbsent"
    by blast
  obtain s' where s': "pool_exec list_env s joinRest = Some s'" "clients s' 0 = CIdle \<and> length (submitted s') = 2"
    using s(2) by (auto elim: continuesTo_exec)
  have o: "orderly_run list_env 60000 0 (2, 1) list_queue 2 1 joinCall s"
    unfolding orderly_run_def list_pool_def[symmetric] by (intro conjI s(1)) code_simp
  have b: "list_all (driver 0) joinRest" "(length joinCall + length joinRest + 1) * 2 < 2 ^ 64"
    "length joinCall + length joinRest < 2 ^ 64"
    by (code_simp, simp_all add: run_lengths)
  have "w = 0 \<or> w = 1 \<or> workers s w = WAbsent" for w
    using s(2,4) two_or_more[of w] by auto
  then have "\<not> leaving (workers s w)" for w
    using s(2) by (metis leaving.simps(3-5))
  moreover have "tasksFirst (id (ubq_queue (taskQueue (pool s))))"
    using s(2) unfolding tasksFirst_def by (intro exI[of _ "ubq_queue (taskQueue (pool s))"] exI[of _ "[]"]) (auto simp: list_all_iff)
  moreover have "clients s 0 = CStop True False" "\<forall>i. i \<noteq> 0 \<longrightarrow> returned_client (clients s i)" "threadsToStop (pool s) = 0"
      "vec (threadList (pool s)) \<noteq> []" "clients s' 0 = CIdle"
    using s(2,3) s'(2) by simp_all
  ultimately have "mset (submitted s') = mset (map fst (completed s'))"
    using join_runs_all_tasks[OF list_env_facts o _ _ _ _ _ _ s'(1) b(1) _ b(2,3)] by blast
  then show ?thesis
    using o s' by blast
qed

section \<open>Where the pool falls short\<close>

definition hangRun :: "nat action list" where
  "hangRun = wsteps 1 0 0 @ calls (Add 10 0 None None) 5 1 @ wsteps 2 0 1 @ wsteps 5 1 2 @ calls (SetNumThreads 0) 6 3 @
     calls Destroy 5 4 @ wsteps 5 0 5 @ csteps 2 6"

text \<open>C29. The destructor can hang. A pool of at most two threads runs a task; its second thread times out and
  is not joined; \<open>setNumThreads(0)\<close> then joins that thread instead of the one it asked to stop, and returns
  with \<open>threadsToStop_\<close> at one. The destructor asks one more thread to stop but waits for two: in the final
  state it waits for a second stopped thread, no other thread exists, and no thread of the pool or
  client can ever move.\<close>

theorem stop_can_hang:
  "\<exists>s. pool_run list_env 60000 0 (2, 1) list_queue 2 1 hangRun s \<and> clients s 0 = CJoinLoop 1 (StopReturn True) \<and>
     (\<forall>c now. pool_step list_env s (CStep c now) = None) \<and> (\<forall>w now. pool_step list_env s (WStep w now) = None)"
proof -
  have "runsTo (2, 1) hangRun (\<lambda>s. clients s 0 = CJoinLoop 1 (StopReturn True) \<and> workers s 0 = WJoined \<and> workers s 1 = WJoined \<and>
      nextId (pool s) = 2 \<and> stq_queue (stoppedThreads (pool s)) = [] \<and> stq_sem (stoppedThreads (pool s)) = 2)"
    by code_simp
  from runsTo_run[OF this] obtain s where s: "pool_run list_env 60000 0 (2, 1) list_queue 2 1 hangRun s"
      "clients s 0 = CJoinLoop 1 (StopReturn True) \<and> workers s 0 = WJoined \<and> workers s 1 = WJoined \<and>
      nextId (pool s) = 2 \<and> stq_queue (stoppedThreads (pool s)) = [] \<and> stq_sem (stoppedThreads (pool s)) = 2"
      "\<forall>i. i \<noteq> 0 \<longrightarrow> clients s i = CIdle" "\<forall>w. nextId (pool s) \<le> w \<longrightarrow> workers s w = WAbsent"
    by blast
  have w: "workers s w = WAbsent \<or> workers s w = WJoined" for w
    using s(2,4) two_or_more[of w] by auto
  have "stq_take (semOps list_env) (semCnt list_env) (stoppedThreads (pool s)) = Blocks"
    using s(2) by (simp add: stq_take_def stq_try_take_for_def list_env_def counter_sem_def numeral_eq_Suc)
  then have "client_step list_env now c s (clients s c) = None" for now c
    using s(2,3) by (cases "c = 0") simp_all
  moreover have "threadRun_step list_env now v s (workers s v) = None" for now v
    using w[of v] by auto
  ultimately show ?thesis
    using s(1,2) by auto
qed

definition dropRun :: "nat action list" where
  "dropRun = wsteps 2 0 0 @ calls (Add 10 0 None None) 2 1 @ calls Join 5 2 @ wsteps 3 0 3 @ csteps 3 4"

text \<open>C30. \<open>join\<close> can leave a task behind. A single client adds a task to a pool of one thread, just after
  that thread has timed out waiting for one and before it has looked at \<open>threadsToStop_\<close>, and then calls
  \<open>join\<close>. The thread sees that it is to stop and leaves; \<open>join\<close> returns normally, all threads are gone, and the
  task has never been run.\<close>

theorem join_can_drop_task:
  "\<exists>s. orderly_run list_env 60000 0 (1, 1) list_queue 2 1 dropRun s \<and> clients s 0 = CIdle \<and>
     map func (submitted s) = [Some 10] \<and> completed s = [] \<and> vec (threadList (pool s)) = []"
proof -
  have "runsTo (1, 1) dropRun (\<lambda>s. clients s 0 = CIdle \<and> map func (submitted s) = [Some 10] \<and> length (completed s) = 0 \<and>
      vec (threadList (pool s)) = [])"
    by code_simp
  from runsTo_run[OF this] obtain s where s: "pool_run list_env 60000 0 (1, 1) list_queue 2 1 dropRun s"
      "clients s 0 = CIdle \<and> map func (submitted s) = [Some 10] \<and> length (completed s) = 0 \<and> vec (threadList (pool s)) = []"
    by auto
  have "orderly_run list_env 60000 0 (1, 1) list_queue 2 1 dropRun s"
    unfolding orderly_run_def list_pool_def[symmetric] by (intro conjI s(1)) code_simp
  with s(2) show ?thesis
    by auto
qed

end
