(* ===== verification/BoundedPools.thy ===== *)
theory BoundedPools
  imports PoolRuns BoundedTaskQueues
begin

text \<open>
  Pools whose task queue is bounded: the constructor with a number of priorities and a maximal queue size makes a
  \<open>PriorityLifoSemMPMCQueue\<close>. The bounded queues keep the contract \<open>pool_queue\<close>, so that the flow of tasks is that of every
  pool; they do not keep \<open>draining_queue\<close>, because a full queue refuses the poison tasks of a shutdown, and the runs at the
  end show what that leads to.
\<close>

section \<open>The bounded queues under the pool\<close>

interpretation plsq_pool: pool_queue "E\<lparr>taskOps := plsq_ops k S cnt M\<rparr>" "plsq_inv tb cur S cnt M" "\<lambda>q. concat (plsq_lanes M q)"
  for E k S cnt M tb cur
proof (rule pool_queue.intro)
  show "blocking_queue (taskOps (E\<lparr>taskOps := plsq_ops k S cnt M\<rparr>)) (plsq_inv tb cur S cnt M) (\<lambda>q. concat (plsq_lanes M q))"
    using plsq.blocking_queue_axioms[of k S cnt M tb cur] by simp
qed

interpretation lsq_pool: pool_queue "E\<lparr>taskOps := lsq_ops k S cnt M\<rparr>" "lsq_inv tb cur S cnt M" "\<lambda>q. concat (lsq_lanes M q)"
  for E k S cnt M tb cur
proof (rule pool_queue.intro)
  show "blocking_queue (taskOps (E\<lparr>taskOps := lsq_ops k S cnt M\<rparr>)) (lsq_inv tb cur S cnt M) (\<lambda>q. concat (lsq_lanes M q))"
    using lsq.blocking_queue_axioms[of k S cnt M tb cur] by simp
qed

lemma plsq_env: "taskOps E = plsq_ops k S cnt M \<Longrightarrow> E\<lparr>taskOps := plsq_ops k S cnt M\<rparr> = E"
  by (metis pool_env.surjective pool_env.update_convs(3) pool_env.select_convs(3))

lemma plsq_run:
  assumes E: "taskOps E = plsq_ops k S cnt M"
    and q: "plsq_inv tb cur S cnt M (n + length as) q" "concat (plsq_lanes M q) = []"
    and R: "pool_run E timeout now num q B K as s"
  shows "flow_ok s \<and> conserved (\<lambda>q. concat (plsq_lanes M q)) s"
proof -
  let ?i = "pool_init E 0 timeout now num q"
  have b: "fst num \<le> B" "B < 2 ^ 64"
    using R by (auto simp: pool_run_def)
  have i: "pool_inv False B K ?i" "unat (nextId (pool ?i)) \<le> B"
    by (rule init_inv[OF b])+
  have I: "plsq_inv tb cur S cnt M (n + length as) (taskQueue (pool ?i))"
    using q(1) by (simp add: init_flow(1))
  have C: "conserved (\<lambda>q. concat (plsq_lanes M q)) ?i"
    by (rule init_flow(2)[where items = "\<lambda>q. concat (plsq_lanes M q)"]) (rule q(2))
  have room: "unat (nextId (pool ?i)) + length as * B < 2 ^ 64"
    using i(2) R by (simp add: pool_run_def)
  have "pool_exec E ?i as = Some s" "list_all (call_ok B K) as" "False \<longrightarrow> orderly_exec E ?i as"
    using R by (auto simp: pool_run_def)
  from plsq_pool.exec_conserved[where E = E and k = k and S = S and cnt = cnt and M = M and tb = tb and cur = cur,
      unfolded plsq_env[OF E], OF I init_flow(3) C i(1) this room]
  show ?thesis
    by simp
qed

section \<open>No task is lost\<close>

text \<open>C26. Cn. No task is lost or run twice in a pool with a bounded queue either. In any run of a pool with a
  \<open>PriorityLifoSemMPMCQueue\<close>, whether full queues throw or block, the tasks accepted by \<open>add\<close> are, counted with multiplicity,
  those waiting in the queue, those in the hands of a pool thread and those that have been run; a refused task is none of
  them; and for each task that has been run its function was called, or its expiration callback if it had expired.\<close>

theorem bounded_pool_tasks_conserved:
  assumes "newPriorityLifoSemMPMCQueue S M n numPriorities cap = Some (Inr q)" "unat cap + 2 * unat (slotPadding M) < 2 ^ 63"
    "turn_contract tb (seqOps M) cur" "sem_contract S cnt" "taskOps E = plsq_ops k S cnt M"
    "pool_run E timeout now num q B K as s" "6 * length as < 2 ^ 58"
  shows "mset (submitted s) = mset (filter (\<lambda>t. \<not> poison t) (concat (plsq_lanes M (taskQueue (pool s))))) +
      (\<Sum>w\<in>UNIV. hand (workers s w)) + image_mset fst (mset (completed s)) \<and>
    (\<forall>(task, called) \<in> set (completed s). \<exists>start. called = invocationAt start task)"
proof -
  have "plsq_inv tb cur S cnt M (0 + length as) q" "concat (plsq_lanes M q) = []"
    using plsq_new[OF assms(1-4), of "length as"] assms(7) by simp_all
  from plsq_run[OF assms(5) this assms(6)] show ?thesis
    by (simp add: flow_ok_def conserved_def pendingTasks_def inHand_def)
qed

section \<open>A concrete pool\<close>

text \<open>One priority and room for one task.\<close>

definition full_env :: "(nat, (nat, u32, nat CPUTask) PriorityLifoSemMPMCQueue, nat) pool_env" where
  "full_env = \<lparr>semOps = counter_sem, semCnt = id, taskOps = plsq_ops THROW counter_sem id counting_env, usedCpuTime = (\<lambda>t. 0),
     observerFactory = None, onEnqueuedPayload = (\<lambda>b c. 0)\<rparr>"

definition full_queue :: "(nat, u32, nat CPUTask) PriorityLifoSemMPMCQueue" where
  "full_queue = \<lparr>plsq_sem = 0, plsq_queues = [\<lparr>capacity = 1, slots = replicate 5 (newSlot counting_ops), stride = 1,
     pushTicket = 0, popTicket = 0, pushSpinCutoff = 0, popSpinCutoff = 0\<rparr>]\<rparr>"

lemma full_queue_new: "newPriorityLifoSemMPMCQueue counter_sem counting_env 1 1 1 = Some (Inr full_queue)"
  by code_simp

abbreviation full_pool :: "(nat, (nat, u32, nat CPUTask) PriorityLifoSemMPMCQueue, nat) pool_sys" where
  "full_pool \<equiv> pool_init full_env 0 60000 0 (1, 1) full_queue"

text \<open>What is observed of a state: client 0, the bound on threads, threads to stop, threads, functions accepted and run.\<close>

definition full_observe :: "(nat, (nat, u32, nat CPUTask) PriorityLifoSemMPMCQueue, nat) pool_sys \<Rightarrow>
    nat client_pc \<times> nat \<times> int \<times> u64 list \<times> nat option list \<times> nat option list" where
  "full_observe s = (clients s 0, maxThreads (pool s), threadsToStop (pool s), vec (threadList (pool s)),
     map func (submitted s), map (func \<circ> fst) (completed s))"

definition fullRuns :: "nat action list \<Rightarrow>
    (nat client_pc \<times> nat \<times> int \<times> u64 list \<times> nat option list \<times> nat option list) option" where
  "fullRuns as = (if list_all (call_ok 1 1) as \<and> length as < 100
     then map_option full_observe (pool_exec full_env full_pool as) else None)"

lemma fullRuns_run:
  assumes "fullRuns as = Some x"
  obtains s where "pool_run full_env 60000 0 (1, 1) full_queue 1 1 as s" "full_observe s = x" "length as < 100"
  using assms by (auto simp: fullRuns_def pool_run_def split: if_splits)

text \<open>Two functions are added before the thread starts, of which the second is refused; then \<open>join\<close> is called. After it the
  thread runs what there is, and the pool is destroyed.\<close>

definition refusedRun :: "nat action list" where
  "refusedRun = calls (Add 10 0 None None) 2 1 @ calls (Add 11 0 None None) 2 1 @ calls Join 4 2"

definition destroyedRun :: "nat action list" where
  "destroyedRun = refusedRun @ wsteps 5 0 3 @ calls Destroy 4 4 @ wsteps 4 0 5 @ csteps 3 6"

definition destroyedFull :: "nat action list" where
  "destroyedFull = calls (Add 10 0 None None) 2 1 @ calls Destroy 4 2"

lemma fullRuns_results:
  "fullRuns refusedRun = Some (CThrew QueueFullException, 0, 1, [0], [Some 10], [])"
  "fullRuns destroyedRun = Some (CAborted, 0, 1, [], [Some 10], [Some 10])"
  "fullRuns destroyedFull = Some (CAborted, 0, 1, [0], [Some 10], [])"
  by code_simp+

text \<open>Witness of Cn.\<close>

theorem bounded_pool_tasks_conserved_witness:
  "\<exists>s. pool_run full_env 60000 0 (1, 1) full_queue 1 1 refusedRun s \<and> clients s 0 = CThrew QueueFullException \<and>
     mset (submitted s) = mset (filter (\<lambda>t. \<not> poison t) (concat (plsq_lanes counting_env (taskQueue (pool s))))) +
       (\<Sum>w\<in>UNIV. hand (workers s w)) + image_mset fst (mset (completed s))"
proof -
  obtain s where s: "pool_run full_env 60000 0 (1, 1) full_queue 1 1 refusedRun s"
      "full_observe s = (CThrew QueueFullException, 0, 1, [0], [Some 10], [])" "length refusedRun < 100"
    using fullRuns_run[OF fullRuns_results(1)] .
  have "taskOps full_env = plsq_ops THROW counter_sem id counting_env"
    by (simp add: full_env_def)
  moreover have "unat (1 :: u64) + 2 * unat (slotPadding counting_env) < 2 ^ 63"
    by (simp add: counting_env_def)
  moreover have "turn_contract 32 (seqOps counting_env) id"
    using counting_contract by (simp add: counting_env_def)
  moreover have "6 * length refusedRun < 2 ^ 58"
    using s(3) by simp
  ultimately have "mset (submitted s) = mset (filter (\<lambda>t. \<not> poison t) (concat (plsq_lanes counting_env (taskQueue (pool s))))) +
       (\<Sum>w\<in>UNIV. hand (workers s w)) + image_mset fst (mset (completed s))"
    using bounded_pool_tasks_conserved[OF full_queue_new _ _ counter_sem_contract _ s(1), of 32 id THROW] by blast
  moreover have "clients s 0 = CThrew QueueFullException"
    using s(2) by (simp add: full_observe_def)
  ultimately show ?thesis
    using s(1) by blast
qed

section \<open>Where the pool falls short\<close>

text \<open>C31. Cn. A full queue breaks the shutdown. On a pool of one thread with room for one task, \<open>join\<close> called while the queue is
  full throws \<open>QueueFullException\<close>, since the poison task is refused: the bound on threads is zero by then and one thread is
  counted as to be stopped, but it has not been told. It goes on and runs the task; but when the pool is destroyed later,
  with its thread joined and everything run, the destructor still finds that count and aborts the program. If the
  pool is destroyed while the queue is full, the exception leaves the destructor, which ends the program with the task not run.\<close>

theorem full_queue_breaks_shutdown:
  "(\<exists>s. pool_run full_env 60000 0 (1, 1) full_queue 1 1 refusedRun s \<and> clients s 0 = CThrew QueueFullException \<and>
      maxThreads (pool s) = 0 \<and> threadsToStop (pool s) = 1 \<and> vec (threadList (pool s)) = [0]) \<and>
   (\<exists>s. pool_run full_env 60000 0 (1, 1) full_queue 1 1 destroyedRun s \<and> clients s 0 = CAborted \<and>
      vec (threadList (pool s)) = [] \<and> map (func \<circ> fst) (completed s) = map func (submitted s)) \<and>
   (\<exists>s. pool_run full_env 60000 0 (1, 1) full_queue 1 1 destroyedFull s \<and> clients s 0 = CAborted \<and>
      map func (submitted s) = [Some 10] \<and> completed s = [])"
proof (intro conjI)
  obtain s where s: "pool_run full_env 60000 0 (1, 1) full_queue 1 1 refusedRun s"
      "full_observe s = (CThrew QueueFullException, 0, 1, [0], [Some 10], [])"
    using fullRuns_run[OF fullRuns_results(1)] .
  then show "\<exists>s. pool_run full_env 60000 0 (1, 1) full_queue 1 1 refusedRun s \<and> clients s 0 = CThrew QueueFullException \<and>
      maxThreads (pool s) = 0 \<and> threadsToStop (pool s) = 1 \<and> vec (threadList (pool s)) = [0]"
    by (auto simp: full_observe_def)
next
  obtain s where s: "pool_run full_env 60000 0 (1, 1) full_queue 1 1 destroyedRun s"
      "full_observe s = (CAborted, 0, 1, [], [Some 10], [Some 10])"
    using fullRuns_run[OF fullRuns_results(2)] .
  then show "\<exists>s. pool_run full_env 60000 0 (1, 1) full_queue 1 1 destroyedRun s \<and> clients s 0 = CAborted \<and>
      vec (threadList (pool s)) = [] \<and> map (func \<circ> fst) (completed s) = map func (submitted s)"
    by (auto simp: full_observe_def)
next
  obtain s where s: "pool_run full_env 60000 0 (1, 1) full_queue 1 1 destroyedFull s"
      "full_observe s = (CAborted, 0, 1, [0], [Some 10], [])"
    using fullRuns_run[OF fullRuns_results(3)] .
  then show "\<exists>s. pool_run full_env 60000 0 (1, 1) full_queue 1 1 destroyedFull s \<and> clients s 0 = CAborted \<and>
      map func (submitted s) = [Some 10] \<and> completed s = []"
    by (auto simp: full_observe_def)
qed

end
