(* ===== verification/PoolConstructors.thy ===== *)
theory PoolConstructors
  imports CPUThreadPoolExecutor BoundedTaskQueues
begin

text \<open>
  Everything a \<open>CPUThreadPoolExecutor\<close> is put together from before it runs: the static functions that make task queues, the
  options, the factory of queue observers, the constructors that delegate to the one of \<open>CPUThreadPoolExecutor\<close>, and
  \<open>NamedThreadFactory\<close>, which names the threads. \<open>folly::ThrottledLifoSem\<close> is a semaphore for each wake-up interval.
\<close>

section \<open>Task queues\<close>

definition kDefaultMaxQueueSize :: u64 where
  "kDefaultMaxQueueSize = push_bit 14 1"

definition makeDefaultQueue :: "'s sem_ops \<Rightarrow> ('u, 'a) umpmc_ops \<Rightarrow> ('s, 'u) UnboundedBlockingQueue" where
  "makeDefaultQueue S U = newUnboundedBlockingQueue S U"

text \<open>The number of priorities is an \<open>int8_t\<close> here and a \<open>uint8_t\<close> in the queues.\<close>

definition makeDefaultPriorityQueue :: "'s sem_ops \<Rightarrow> ('p, 'a) pset_ops \<Rightarrow> int \<Rightarrow>
    ctor_error + ('s, 'p) PriorityUnboundedBlockingQueue" where
  "makeDefaultPriorityQueue S P numPriorities =
     (if \<not> 0 < numPriorities then Inl CtorCheckFailed
      else Inr (newPriorityUnboundedBlockingQueue S P (word_of_int numPriorities)))"

definition makeThrottledLifoSemQueue :: "(int \<Rightarrow> 's sem_ops) \<Rightarrow> ('u, 'a) umpmc_ops \<Rightarrow> int \<Rightarrow> ('s, 'u) UnboundedBlockingQueue" where
  "makeThrottledLifoSemQueue throttled U wakeUpInterval = newUnboundedBlockingQueue (throttled wakeUpInterval) U"

definition makeThrottledLifoSemPriorityQueue :: "(int \<Rightarrow> 's sem_ops) \<Rightarrow> ('p, 'a) pset_ops \<Rightarrow> int \<Rightarrow> int \<Rightarrow>
    ('s, 'p) PriorityUnboundedBlockingQueue" where
  "makeThrottledLifoSemPriorityQueue throttled P numPriorities wakeUpInterval =
     newPriorityUnboundedBlockingQueue (throttled wakeUpInterval) P (word_of_int numPriorities)"

section \<open>Names of threads\<close>

text \<open>Decimal notation, as \<open>folly::to<std::string>\<close> gives it, and its inverse.\<close>

fun decimal :: "nat \<Rightarrow> string" where
  "decimal n = (if n < 10 then [char_of (48 + n)] else decimal (n div 10) @ [char_of (48 + n mod 10)])"

declare decimal.simps [simp del]

definition decimal_value :: "string \<Rightarrow> nat" where
  "decimal_value = foldl (\<lambda>n c. 10 * n + (of_char c - 48)) 0"

lemma decimal_value: "decimal_value (decimal n) = n"
proof (induction n rule: decimal.induct)
  case (1 n)
  have d: "(of_char (char_of (48 + m) :: char) :: nat) - 48 = m" if "m < 10" for m :: nat
    using that by (simp add: of_char_of)
  show ?case
  proof (cases "n < 10")
    case True
    then show ?thesis
      by (simp add: decimal.simps[of n] decimal_value_def d)
  next
    case False
    then have "decimal_value (decimal n) = 10 * (n div 10) + n mod 10"
      using 1 d[of "n mod 10"] by (simp add: decimal.simps[of n] decimal_value_def)
    then show ?thesis
      by simp
  qed
qed

lemma decimal_inject: "decimal m = decimal n \<longleftrightarrow> m = n"
  by (metis decimal_value)

record NamedThreadFactory =
  namePrefix :: string
  suffix :: u64

definition newNamedThreadFactory :: "string \<Rightarrow> NamedThreadFactory" where
  "newNamedThreadFactory p = \<lparr>namePrefix = p, suffix = 0\<rparr>"

definition factory_newThread :: "NamedThreadFactory \<Rightarrow> string \<times> NamedThreadFactory" where
  "factory_newThread f = (namePrefix f @ decimal (unat (suffix f)), f\<lparr>suffix := suffix f + 1\<rparr>)"

definition setNamePrefix :: "string \<Rightarrow> NamedThreadFactory \<Rightarrow> NamedThreadFactory" where
  "setNamePrefix p f = f\<lparr>namePrefix := p\<rparr>"

definition getNamePrefix :: "NamedThreadFactory \<Rightarrow> string" where
  "getNamePrefix f = namePrefix f"

text \<open>The names of the next \<open>n\<close> threads.\<close>

primrec thread_names :: "nat \<Rightarrow> NamedThreadFactory \<Rightarrow> string list" where
  "thread_names 0 f = []"
| "thread_names (Suc n) f = (let (name, f) = factory_newThread f in name # thread_names n f)"

lemma thread_names_map:
  "thread_names n f = map (\<lambda>i. namePrefix f @ decimal (unat (suffix f + of_nat i))) [0..<n]"
proof (induction n arbitrary: f)
  case (Suc n)
  have "[0..<Suc n] = 0 # map Suc [0..<n]"
    by (metis map_Suc_upt upt_conv_Cons zero_less_Suc)
  then show ?case
    by (simp add: factory_newThread_def Suc.IH comp_def add.assoc)
qed simp

text \<open>As long as the counter does not wrap and the prefix stays, no two threads have the same name.\<close>

lemma thread_names_distinct:
  assumes "n \<le> 2 ^ 64"
  shows "distinct (thread_names n f)"
proof -
  have "inj_on (\<lambda>i. namePrefix f @ decimal (unat (suffix f + of_nat i))) {0..<n}"
  proof (rule inj_onI)
    fix i j assume a: "i \<in> {0..<n}" "j \<in> {0..<n}"
      "namePrefix f @ decimal (unat (suffix f + of_nat i)) = namePrefix f @ decimal (unat (suffix f + of_nat j))"
    then have "(of_nat i :: u64) = of_nat j"
      by (simp add: decimal_inject word_unat_eq_iff[symmetric])
    then have "i mod 2 ^ 64 = j mod 2 ^ 64"
      by (simp add: word_unat_eq_iff unat_of_nat)
    then show "i = j"
      using a(1,2) assms by simp
  qed
  then show ?thesis
    by (simp add: thread_names_map distinct_map)
qed

section \<open>Options and queue observers\<close>

datatype Blocking = prohibit | allow

record Options =
  blocking :: Blocking
  queueObserverFactory :: "(int \<Rightarrow> nat) option"

definition newOptions :: Options where
  "newOptions = \<lparr>blocking = allow, queueObserverFactory = None\<rparr>"

definition setBlocking :: "Blocking \<Rightarrow> Options \<Rightarrow> Options" where
  "setBlocking b opt = opt\<lparr>blocking := b\<rparr>"

definition setQueueObserverFactory :: "(int \<Rightarrow> nat) option \<Rightarrow> Options \<Rightarrow> Options" where
  "setQueueObserverFactory factory opt = opt\<lparr>queueObserverFactory := factory\<rparr>"

text \<open>\<open>make_queue_observer_factory\<close> is a weak symbol: it may be missing, and then there is no factory. Before it makes the
  factory \<open>createQueueObserverFactory\<close> clears the observers, which \<open>newCPUThreadPoolExecutor\<close> starts with.\<close>

definition QueueObserverFactory_make :: "(string \<Rightarrow> nat \<Rightarrow> (int \<Rightarrow> nat) option) option \<Rightarrow> string \<Rightarrow> nat \<Rightarrow> (int \<Rightarrow> nat) option" where
  "QueueObserverFactory_make weak context numPriorities =
     (case weak of Some f \<Rightarrow> f context numPriorities | None \<Rightarrow> None)"

definition createQueueObserverFactory :: "(string \<Rightarrow> nat \<Rightarrow> (int \<Rightarrow> nat) option) option \<Rightarrow> string \<Rightarrow> ('s, 'q, 'f) pool_env \<Rightarrow>
    'q \<Rightarrow> (int \<Rightarrow> nat) option" where
  "createQueueObserverFactory weak name E queue =
     QueueObserverFactory_make weak (''cpu.'' @ name) (unat (bq_getNumPriorities (taskOps E) queue))"

section \<open>Constructors\<close>

text \<open>The constructor all others delegate to, with the environment its pool runs in.\<close>

type_synonym ('s, 'q, 'f) new_pool = "('s, 'q, 'f) pool_env \<times> u64 list \<times> ('s, 'q) CPUThreadPoolExecutor"

record ctor_env =
  weakFactory :: "(string \<Rightarrow> nat \<Rightarrow> (int \<Rightarrow> nat) option) option"
  flag_dynamic :: bool     \<comment> \<open>\<open>FLAGS_dynamic_cputhreadpoolexecutor\<close>\<close>
  flag_timeout :: int      \<comment> \<open>\<open>FLAGS_threadtimeout_ms\<close>\<close>
  firstThreadId :: u64     \<comment> \<open>\<open>Thread::nextId\<close>\<close>
  ctorTime :: int

definition ctor_pair_queue :: "ctor_env \<Rightarrow> ('s, 'q, 'f) pool_env \<Rightarrow> nat \<times> nat \<Rightarrow> 'q \<Rightarrow> NamedThreadFactory \<Rightarrow> Options \<Rightarrow>
    ('s, 'q, 'f) new_pool" where
  "ctor_pair_queue C E num queue factory opt =
     (let E = E\<lparr>observerFactory := (case queueObserverFactory opt of
                  None \<Rightarrow> createQueueObserverFactory (weakFactory C) (getNamePrefix factory) E queue
                | Some f \<Rightarrow> Some f)\<rparr>
      in (E, newCPUThreadPoolExecutor E (firstThreadId C) (flag_timeout C) (ctorTime C) num queue))"

definition ctor_queue :: "ctor_env \<Rightarrow> ('s, 'q, 'f) pool_env \<Rightarrow> nat \<Rightarrow> 'q \<Rightarrow> NamedThreadFactory \<Rightarrow> Options \<Rightarrow> ('s, 'q, 'f) new_pool" where
  "ctor_queue C E n queue factory opt = ctor_pair_queue C E (fixedNumThreads (flag_dynamic C) n) queue factory opt"

definition ctor_pair :: "ctor_env \<Rightarrow> 's sem_ops \<Rightarrow> ('u, 'f CPUTask) umpmc_ops \<Rightarrow> ('s, ('s, 'u) UnboundedBlockingQueue, 'f) pool_env \<Rightarrow>
    nat \<times> nat \<Rightarrow> NamedThreadFactory \<Rightarrow> Options \<Rightarrow> ('s, ('s, 'u) UnboundedBlockingQueue, 'f) new_pool" where
  "ctor_pair C S U E num factory opt =
     ctor_pair_queue C (E\<lparr>taskOps := ubq_ops S U\<rparr>) num (makeDefaultQueue S U) factory opt"

definition ctor_factory :: "ctor_env \<Rightarrow> 's sem_ops \<Rightarrow> ('u, 'f CPUTask) umpmc_ops \<Rightarrow> ('s, ('s, 'u) UnboundedBlockingQueue, 'f) pool_env \<Rightarrow>
    nat \<Rightarrow> NamedThreadFactory \<Rightarrow> Options \<Rightarrow> ('s, ('s, 'u) UnboundedBlockingQueue, 'f) new_pool" where
  "ctor_factory C S U E n factory opt = ctor_pair C S U E (fixedNumThreads (flag_dynamic C) n) factory opt"

definition ctor_number :: "ctor_env \<Rightarrow> 's sem_ops \<Rightarrow> ('u, 'f CPUTask) umpmc_ops \<Rightarrow> ('s, ('s, 'u) UnboundedBlockingQueue, 'f) pool_env \<Rightarrow>
    nat \<Rightarrow> Options \<Rightarrow> ('s, ('s, 'u) UnboundedBlockingQueue, 'f) new_pool" where
  "ctor_number C S U E n opt = ctor_factory C S U E n (newNamedThreadFactory ''CPUThreadPool'') opt"

definition ctor_priority :: "ctor_env \<Rightarrow> 's sem_ops \<Rightarrow> ('p, 'f CPUTask) pset_ops \<Rightarrow>
    ('s, ('s, 'p) PriorityUnboundedBlockingQueue, 'f) pool_env \<Rightarrow> nat \<Rightarrow> int \<Rightarrow> NamedThreadFactory \<Rightarrow> Options \<Rightarrow>
    ctor_error + ('s, ('s, 'p) PriorityUnboundedBlockingQueue, 'f) new_pool" where
  "ctor_priority C S P E n numPriorities factory opt =
     map_sum id (\<lambda>q. ctor_queue C (E\<lparr>taskOps := pubq_ops S P\<rparr>) n q factory opt) (makeDefaultPriorityQueue S P numPriorities)"

text \<open>The constructor with a bounded queue of priorities converts the number of priorities to \<open>uint8_t\<close> unchecked; \<open>k\<close>
  bounds the iterations of the loop of the queue's constructor.\<close>

definition ctor_bounded :: "ctor_env \<Rightarrow> 's sem_ops \<Rightarrow> ('s \<Rightarrow> nat) \<Rightarrow> 'ts mpmc_env \<Rightarrow>
    ('s, ('s, 'ts, 'f CPUTask) PriorityLifoSemMPMCQueue, 'f) pool_env \<Rightarrow> nat \<Rightarrow> nat \<Rightarrow> int \<Rightarrow> u64 \<Rightarrow> NamedThreadFactory \<Rightarrow> Options \<Rightarrow>
    (ctor_error + ('s, ('s, 'ts, 'f CPUTask) PriorityLifoSemMPMCQueue, 'f) new_pool) option" where
  "ctor_bounded C S cnt M E k n numPriorities maxQueueSize factory opt =
     map_option (map_sum id (\<lambda>q. ctor_queue C (E\<lparr>taskOps := plsq_ops THROW S cnt M\<rparr>) n q factory opt))
       (newPriorityLifoSemMPMCQueue S M k (word_of_int numPriorities) maxQueueSize)"

section \<open>What the constructors give\<close>

lemma fixedNumThreads_simps [simp]:
  "fst (fixedNumThreads dynamic n) = n" "snd (fixedNumThreads dynamic n) = (if dynamic then 0 else n)"
  by (simp_all add: fixedNumThreads_def)

text \<open>The first threads and the bounds on their number: with the flag \<open>dynamic\<close> a pool starts without threads and keeps
  one, without it all \<open>n\<close> threads start at once and stay.\<close>

lemma makeThreads_counts:
  "length (fst (makeThreads now n p)) = n"
  "minThreads (snd (makeThreads now n p)) = minThreads p" "maxThreads (snd (makeThreads now n p)) = maxThreads p"
  "observers (snd (makeThreads now n p)) = observers p"
  by (induction n arbitrary: p) (simp_all add: makeThread_def case_prod_beta)

lemma constructor_threads:
  assumes "bq_size (taskOps E) queue = 0" "newCPUThreadPoolExecutor E firstId timeout now num queue = (started, p)"
  shows "maxThreads p = fst num" "minThreads p = (if snd num = 0 then 1 else min (fst num) (snd num))"
    "activeThreads p = min (fst num) (snd num)" "length started = min (fst num) (snd num)"
  using assms
  by (auto simp: newCPUThreadPoolExecutor_def setNumThreads_locked_def newThreadPoolExecutor_def Let_def addThreads_def notify_def
      getPendingTaskCountImpl_def makeThreads_counts ThreadPoolExecutor.ThreadPoolExecutor.defs case_prod_beta min_def
      split: if_splits sum.splits)

lemma constructor_fixed:
  assumes "bq_size (taskOps E) queue = 0" "ctor_queue C E n queue factory opt = (E', started, p)"
  shows "maxThreads p = n" "minThreads p = (if flag_dynamic C \<or> n = 0 then 1 else n)"
    "length started = (if flag_dynamic C then 0 else n)"
proof -
  have e: "newCPUThreadPoolExecutor E' (firstThreadId C) (flag_timeout C) (ctorTime C) (fixedNumThreads (flag_dynamic C) n) queue = (started, p)"
    and t: "taskOps E' = taskOps E"
    using assms(2) by (auto simp: ctor_queue_def ctor_pair_queue_def Let_def)
  from constructor_threads[OF _ e] show "maxThreads p = n" "minThreads p = (if flag_dynamic C \<or> n = 0 then 1 else n)"
    "length started = (if flag_dynamic C then 0 else n)"
    using assms(1) t by (auto simp: fixedNumThreads_def)
qed

text \<open>With a bounded queue of priorities, a negative number of priorities makes the constructor loop forever: it is at
  least 128 as a \<open>uint8_t\<close>.\<close>

lemma bounded_constructor_returns:
  fixes E :: "('s, ('s, 'ts, 'f CPUTask) PriorityLifoSemMPMCQueue, 'f) pool_env"
  assumes "maxQueueSize \<noteq> 0" "- 128 \<le> numPriorities" "numPriorities \<le> 127"
  shows "(\<exists>k. ctor_bounded C S cnt M E k n numPriorities maxQueueSize factory opt \<noteq> None) \<longleftrightarrow> 0 \<le> numPriorities"
proof (cases "numPriorities = 0")
  case True
  then show ?thesis
    by (simp add: ctor_bounded_def newPriorityLifoSemMPMCQueue_def)
next
  case False
  have u: "unat (word_of_int numPriorities :: u8) = nat (numPriorities mod 256)"
    by (simp add: unsigned_of_int take_bit_eq_mod)
  have m: "numPriorities mod 256 = (if 0 \<le> numPriorities then numPriorities else numPriorities + 256)"
  proof (cases "0 \<le> numPriorities")
    case False
    then have "(numPriorities + 256) mod 256 = numPriorities + 256"
      using assms(2) by (intro mod_pos_pos_trivial) auto
    then show ?thesis
      using False by simp
  qed (use assms(3) in simp)
  then have "0 < nat (numPriorities mod 256)"
    using False assms(2) by (simp split: if_splits)
  then have pos: "0 < (word_of_int numPriorities :: u8)"
    using u by (simp add: word_less_nat_alt)
  have "unat (word_of_int numPriorities :: u8) < 128 \<longleftrightarrow> 0 \<le> numPriorities"
    using u m assms(2,3) by auto
  then show ?thesis
    using plsq_ctor_returns[OF pos assms(1), of S M, where ?'a = "'f CPUTask"] by (simp add: ctor_bounded_def)
qed

end
