(* ===== verification/Baton.thy ===== *)
theory Baton
  imports Prelude
begin

text \<open>
  Waiting for one event: the options of a wait (WaitOptions.h), the spin loops (Spin.h) and the baton
  (Baton.h), by which one thread waits once for another to post once. A deadline is a time in
  nanoseconds, or \<open>None\<close> for \<open>time_point::max()\<close>; readings of the clock are arguments.

  The baton is a system of two threads, the poster and the waiter, that share the word \<open>state_\<close>; a step
  is one atomic access. \<open>folly::detail::MemoryIdler::futexWaitUntil\<close> and \<open>futexWake\<close> are the futex of the
  platform: the waiter falls asleep only if the word still has the expected value, and it is woken by
  \<open>futexWake\<close>, spuriously, by a signal, or by its deadline. A failed assertion of the code is a state of
  its own, and the theorems show that it is never reached.
\<close>

section \<open>Options\<close>

record WaitOptions =
  spin_max :: int
  logging_enabled :: bool

definition wait_options :: WaitOptions where
  "wait_options = \<lparr>spin_max = 2000, logging_enabled = True\<rparr>"

definition set_spin_max :: "int \<Rightarrow> WaitOptions \<Rightarrow> WaitOptions" where
  "set_spin_max dur opt = opt\<lparr>spin_max := dur\<rparr>"

definition set_logging_enabled :: "bool \<Rightarrow> WaitOptions \<Rightarrow> WaitOptions" where
  "set_logging_enabled enable opt = opt\<lparr>logging_enabled := enable\<rparr>"

section \<open>Spinning\<close>

datatype spin_result = SpinSuccess | SpinTimeout | SpinAdvance

type_synonym deadline = "int option"

definition passed :: "deadline \<Rightarrow> int \<Rightarrow> bool" where
  "passed deadline tnow = (case deadline of None \<Rightarrow> False | Some t \<Rightarrow> tnow \<ge> t)"

definition minTime :: int where
  "minTime = - (2 ^ 63)"

text \<open>What \<open>spin_pause_until\<close> does before its loop and in one round of it: \<open>f\<close> is the value of the condition
  and \<open>tnow\<close> the reading of the clock; the result is a reason to return, or the start of the spin.\<close>

definition spin_pause_begin :: "deadline \<Rightarrow> WaitOptions \<Rightarrow> bool \<Rightarrow> int \<Rightarrow> spin_result + int" where
  "spin_pause_begin deadline opt f tnow =
     (if spin_max opt \<le> 0 then Inl SpinAdvance
      else if f then Inl SpinSuccess
      else if deadline = Some minTime then Inl SpinTimeout
      else Inr tnow)"

definition spin_pause_round :: "deadline \<Rightarrow> WaitOptions \<Rightarrow> int \<Rightarrow> bool \<Rightarrow> int \<Rightarrow> spin_result + int" where
  "spin_pause_round deadline opt tbegin f tnow =
     (if f then Inl SpinSuccess
      else if passed deadline tnow then Inl SpinTimeout
      else let tbegin = min tbegin tnow
           in if tnow \<ge> tbegin + spin_max opt then Inl SpinAdvance else Inr tbegin)"

fun spin_pause_loop :: "deadline \<Rightarrow> WaitOptions \<Rightarrow> int \<Rightarrow> (bool \<times> int) list \<Rightarrow> spin_result option" where
  "spin_pause_loop deadline opt tbegin [] = None"
| "spin_pause_loop deadline opt tbegin ((f, tnow) # polls) = (case spin_pause_round deadline opt tbegin f tnow of
       Inl r \<Rightarrow> Some r
     | Inr tbegin' \<Rightarrow> spin_pause_loop deadline opt tbegin' polls)"

text \<open>The whole function on the polls it makes; \<open>None\<close> when it needs more of them.\<close>

fun spin_pause_until :: "deadline \<Rightarrow> WaitOptions \<Rightarrow> (bool \<times> int) list \<Rightarrow> spin_result option" where
  "spin_pause_until deadline opt [] = (if spin_max opt \<le> 0 then Some SpinAdvance else None)"
| "spin_pause_until deadline opt ((f, tnow) # polls) = (case spin_pause_begin deadline opt f tnow of
       Inl r \<Rightarrow> Some r
     | Inr tbegin \<Rightarrow> spin_pause_loop deadline opt tbegin polls)"

definition spin_yield_round :: "deadline \<Rightarrow> bool \<Rightarrow> int \<Rightarrow> spin_result option" where
  "spin_yield_round deadline f tnow = (if f then Some SpinSuccess else if passed deadline tnow then Some SpinTimeout else None)"

fun spin_yield_until :: "deadline \<Rightarrow> (bool \<times> int) list \<Rightarrow> spin_result option" where
  "spin_yield_until deadline [] = None"
| "spin_yield_until deadline ((f, tnow) # polls) = (case spin_yield_round deadline f tnow of
       Some r \<Rightarrow> Some r
     | None \<Rightarrow> spin_yield_until deadline polls)"

section \<open>The baton\<close>

datatype State = INIT | EARLY_DELIVERY | WAITING | LATE_DELIVERY | TIMED_OUT

datatype post_pc = PIdle | PLoad | PCas | PStore | PWake | PDone | PAssert

datatype wait_pc = WIdle | WTry | WSpin0 | WSpin int | WYield | WCas | WFutex | WAsleep | WCheck | WTimedOut
  | WReturned bool | WAssert

record Baton =
  state :: State
  poster :: post_pc
  waiter :: wait_pc

definition newBaton :: Baton where
  "newBaton = \<lparr>state = INIT, poster = PIdle, waiter = WIdle\<rparr>"

definition ready :: "State \<Rightarrow> bool" where
  "ready s \<longleftrightarrow> s = EARLY_DELIVERY \<or> s = LATE_DELIVERY"

text \<open>\<open>reset\<close> and the destructor: a failed assertion is \<open>None\<close>.\<close>

definition baton_reset :: "Baton \<Rightarrow> Baton option" where
  "baton_reset b = (if state b = WAITING then None else Some newBaton)"

text \<open>\<open>post\<close>, for both values of \<open>MayBlock\<close>. \<open>PCas\<close> is reached with \<open>before = INIT\<close>; when the exchange fails it
  reloads \<open>before\<close>.\<close>

fun post_step :: "bool \<Rightarrow> Baton \<Rightarrow> post_pc \<Rightarrow> Baton option" where
  "post_step mayBlock b PLoad =
     (if \<not> mayBlock
      then (if state b = INIT \<or> state b = EARLY_DELIVERY then Some (b\<lparr>state := EARLY_DELIVERY, poster := PDone\<rparr>)
            else Some (b\<lparr>poster := PAssert\<rparr>))
      else (case state b of
          INIT \<Rightarrow> Some (b\<lparr>poster := PCas\<rparr>)
        | WAITING \<Rightarrow> Some (b\<lparr>poster := PStore\<rparr>)
        | TIMED_OUT \<Rightarrow> Some (b\<lparr>poster := PDone\<rparr>)
        | _ \<Rightarrow> Some (b\<lparr>poster := PAssert\<rparr>)))"
| "post_step mayBlock b PCas = (case state b of
       INIT \<Rightarrow> Some (b\<lparr>state := EARLY_DELIVERY, poster := PDone\<rparr>)
     | WAITING \<Rightarrow> Some (b\<lparr>poster := PStore\<rparr>)
     | TIMED_OUT \<Rightarrow> Some (b\<lparr>poster := PDone\<rparr>)
     | _ \<Rightarrow> Some (b\<lparr>poster := PAssert\<rparr>))"
| "post_step mayBlock b PStore = Some (b\<lparr>state := LATE_DELIVERY, poster := PWake\<rparr>)"
| "post_step mayBlock b PWake = Some (b\<lparr>poster := PDone, waiter := (if waiter b = WAsleep then WCheck else waiter b)\<rparr>)"
| "post_step mayBlock b _ = None"

definition after_spin :: "bool \<Rightarrow> spin_result \<Rightarrow> wait_pc" where
  "after_spin mayBlock r = (case r of
       SpinSuccess \<Rightarrow> WReturned True
     | SpinTimeout \<Rightarrow> WReturned False
     | SpinAdvance \<Rightarrow> if mayBlock then WCas else WYield)"

text \<open>\<open>wait\<close>, \<open>try_wait_for\<close> and \<open>try_wait_until\<close>: \<open>try_wait\<close>, then \<open>tryWaitSlow\<close>. The result of a wait is
  \<open>True\<close> when the baton was posted.\<close>

fun wait_step :: "bool \<Rightarrow> deadline \<Rightarrow> WaitOptions \<Rightarrow> int \<Rightarrow> Baton \<Rightarrow> wait_pc \<Rightarrow> Baton option" where
  "wait_step mayBlock deadline opt tnow b WTry = (case state b of
       EARLY_DELIVERY \<Rightarrow> Some (b\<lparr>waiter := WReturned True\<rparr>)
     | INIT \<Rightarrow> Some (b\<lparr>waiter := WSpin0\<rparr>)
     | _ \<Rightarrow> Some (b\<lparr>waiter := WAssert\<rparr>))"
| "wait_step mayBlock deadline opt tnow b WSpin0 =
     (case spin_pause_begin deadline opt (ready (state b)) tnow of
        Inl r \<Rightarrow> Some (b\<lparr>waiter := after_spin mayBlock r\<rparr>)
      | Inr tbegin \<Rightarrow> Some (b\<lparr>waiter := WSpin tbegin\<rparr>))"
| "wait_step mayBlock deadline opt tnow b (WSpin tbegin) =
     (case spin_pause_round deadline opt tbegin (ready (state b)) tnow of
        Inl r \<Rightarrow> Some (b\<lparr>waiter := after_spin mayBlock r\<rparr>)
      | Inr tbegin' \<Rightarrow> Some (b\<lparr>waiter := WSpin tbegin'\<rparr>))"
| "wait_step mayBlock deadline opt tnow b WYield =
     (case spin_yield_round deadline (ready (state b)) tnow of
        Some r \<Rightarrow> Some (b\<lparr>waiter := (if r = SpinSuccess then WReturned True else WReturned False)\<rparr>)
      | None \<Rightarrow> Some b)"
| "wait_step mayBlock deadline opt tnow b WCas =
     (if state b = INIT then Some (b\<lparr>state := WAITING, waiter := WFutex\<rparr>)
      else if state b = EARLY_DELIVERY then Some (b\<lparr>waiter := WReturned True\<rparr>)
      else Some (b\<lparr>waiter := WAssert\<rparr>))"
| "wait_step mayBlock deadline opt tnow b WFutex =
     Some (b\<lparr>waiter := (if state b = WAITING then WAsleep else WCheck)\<rparr>)"
| "wait_step mayBlock deadline opt tnow b WCheck = (case state b of
       LATE_DELIVERY \<Rightarrow> Some (b\<lparr>waiter := WReturned True\<rparr>)
     | WAITING \<Rightarrow> Some (b\<lparr>waiter := WFutex\<rparr>)
     | _ \<Rightarrow> Some (b\<lparr>waiter := WAssert\<rparr>))"
| "wait_step mayBlock deadline opt tnow b WTimedOut = Some (b\<lparr>state := TIMED_OUT, waiter := WReturned False\<rparr>)"
| "wait_step mayBlock deadline opt tnow b _ = None"

datatype baton_action = CallPost | CallWait | PostStep | WaitStep int | Spurious | DeadlinePasses int

fun baton_step :: "bool \<Rightarrow> deadline \<Rightarrow> WaitOptions \<Rightarrow> Baton \<Rightarrow> baton_action \<Rightarrow> Baton option" where
  "baton_step mayBlock deadline opt b CallPost = (if poster b = PIdle then Some (b\<lparr>poster := PLoad\<rparr>) else None)"
| "baton_step mayBlock deadline opt b CallWait = (if waiter b = WIdle then Some (b\<lparr>waiter := WTry\<rparr>) else None)"
| "baton_step mayBlock deadline opt b PostStep = post_step mayBlock b (poster b)"
| "baton_step mayBlock deadline opt b (WaitStep tnow) = wait_step mayBlock deadline opt tnow b (waiter b)"
| "baton_step mayBlock deadline opt b Spurious = (if waiter b = WAsleep then Some (b\<lparr>waiter := WCheck\<rparr>) else None)"
| "baton_step mayBlock deadline opt b (DeadlinePasses tnow) =
     (if waiter b = WAsleep \<and> passed deadline tnow then Some (b\<lparr>waiter := WTimedOut\<rparr>) else None)"

fun baton_run :: "bool \<Rightarrow> deadline \<Rightarrow> WaitOptions \<Rightarrow> Baton \<Rightarrow> baton_action list \<Rightarrow> Baton option" where
  "baton_run mayBlock deadline opt b [] = Some b"
| "baton_run mayBlock deadline opt b (a # as) = (case baton_step mayBlock deadline opt b a of
       None \<Rightarrow> None | Some b' \<Rightarrow> baton_run mayBlock deadline opt b' as)"

section \<open>Invariant\<close>

text \<open>Which program points go with which value of \<open>state_\<close>.\<close>

fun spinning :: "wait_pc \<Rightarrow> bool" where
  "spinning WIdle = True"
| "spinning WTry = True"
| "spinning WSpin0 = True"
| "spinning (WSpin t) = True"
| "spinning WYield = True"
| "spinning WCas = True"
| "spinning _ = False"

fun blocking :: "wait_pc \<Rightarrow> bool" where
  "blocking WFutex = True"
| "blocking WAsleep = True"
| "blocking WCheck = True"
| "blocking WTimedOut = True"
| "blocking _ = False"

definition baton_inv :: "bool \<Rightarrow> deadline \<Rightarrow> Baton \<Rightarrow> bool" where
  "baton_inv mayBlock deadline b \<longleftrightarrow>
     poster b \<noteq> PAssert \<and> waiter b \<noteq> WAssert \<and>
     (\<not> mayBlock \<longrightarrow> poster b \<in> {PIdle, PLoad, PDone} \<and> waiter b \<noteq> WCas \<and> state b \<in> {INIT, EARLY_DELIVERY}) \<and>
     (waiter b = WReturned False \<or> waiter b = WTimedOut \<longrightarrow> deadline \<noteq> None) \<and>
     (case state b of
        INIT \<Rightarrow> poster b \<in> {PIdle, PLoad, PCas} \<and> (spinning (waiter b) \<or> waiter b = WReturned False)
      | EARLY_DELIVERY \<Rightarrow> poster b = PDone \<and> (spinning (waiter b) \<or> (\<exists>r. waiter b = WReturned r))
      | WAITING \<Rightarrow> poster b \<in> {PIdle, PLoad, PCas, PStore} \<and> blocking (waiter b)
      | LATE_DELIVERY \<Rightarrow> poster b \<in> {PWake, PDone} \<and> (blocking (waiter b) \<or> (\<exists>r. waiter b = WReturned r)) \<and>
          (waiter b = WAsleep \<longrightarrow> poster b = PWake)
      | TIMED_OUT \<Rightarrow> waiter b = WReturned False)"

lemma baton_new_inv: "baton_inv mayBlock deadline newBaton"
  by (simp add: baton_inv_def newBaton_def)

lemma spin_results:
  "spin_pause_begin deadline opt f tnow = Inl SpinSuccess \<Longrightarrow> f"
  "spin_pause_round deadline opt tbegin f tnow = Inl SpinSuccess \<Longrightarrow> f"
  "spin_pause_begin deadline opt f tnow = Inl SpinTimeout \<Longrightarrow> deadline \<noteq> None"
  "spin_pause_round deadline opt tbegin f tnow = Inl SpinTimeout \<Longrightarrow> deadline \<noteq> None"
  "spin_yield_round deadline f tnow = Some SpinSuccess \<Longrightarrow> f"
  "spin_yield_round deadline f tnow = Some r \<Longrightarrow> r \<noteq> SpinSuccess \<Longrightarrow> deadline \<noteq> None"
  by (auto simp: spin_pause_begin_def spin_pause_round_def spin_yield_round_def passed_def Let_def split: if_splits option.splits)

lemma baton_post_inv:
  assumes "baton_inv mayBlock deadline b" "post_step mayBlock b (poster b) = Some b'"
  shows "baton_inv mayBlock deadline b'"
  using assms by (cases "poster b"; cases "state b"; cases mayBlock) (auto simp: baton_inv_def split: if_splits)

lemma baton_wait_inv:
  assumes I: "baton_inv mayBlock deadline b" and step: "wait_step mayBlock deadline opt tnow b (waiter b) = Some b'"
  shows "baton_inv mayBlock deadline b'"
proof (cases "waiter b")
  case WSpin0
  with assms show ?thesis
    by (cases "state b"; cases "spin_pause_begin deadline opt (ready (state b)) tnow")
      (auto simp: baton_inv_def after_spin_def ready_def split: spin_result.splits if_splits dest: spin_results)
next
  case (WSpin t)
  with assms show ?thesis
    by (cases "state b"; cases "spin_pause_round deadline opt t (ready (state b)) tnow")
      (auto simp: baton_inv_def after_spin_def ready_def split: spin_result.splits if_splits dest: spin_results)
next
  case WYield
  with assms show ?thesis
    by (cases "state b"; cases "spin_yield_round deadline (ready (state b)) tnow")
      (auto simp: baton_inv_def ready_def dest: spin_results split: if_splits)
qed (use assms in \<open>cases "state b"; auto simp: baton_inv_def split: if_splits\<close>)+

lemma baton_step_inv:
  assumes "baton_inv mayBlock deadline b" "baton_step mayBlock deadline opt b a = Some b'"
  shows "baton_inv mayBlock deadline b'"
proof (cases a)
  case CallPost
  with assms show ?thesis
    by (cases "state b") (auto simp: baton_inv_def split: if_splits)
next
  case CallWait
  with assms show ?thesis
    by (cases "state b") (auto simp: baton_inv_def split: if_splits)
next
  case PostStep
  with assms show ?thesis
    by (simp add: baton_post_inv)
next
  case (WaitStep tnow)
  from assms(2) WaitStep have "wait_step mayBlock deadline opt tnow b (waiter b) = Some b'"
    by simp
  with assms(1) show ?thesis
    by (rule baton_wait_inv)
next
  case Spurious
  with assms show ?thesis
    by (cases "state b") (auto simp: baton_inv_def split: if_splits)
next
  case (DeadlinePasses tnow)
  with assms show ?thesis
    by (cases "state b") (auto simp: baton_inv_def passed_def split: if_splits option.splits)
qed

lemma baton_run_inv:
  "baton_inv mayBlock deadline b \<Longrightarrow> baton_run mayBlock deadline opt b as = Some b' \<Longrightarrow> baton_inv mayBlock deadline b'"
  by (induction as arbitrary: b) (auto split: option.splits dest: baton_step_inv)

lemma spin_loop_returns:
  assumes "tbegin \<le> t0" "(f, t) \<in> set polls" "t0 + spin_max opt \<le> t"
  shows "spin_pause_loop deadline opt tbegin polls \<noteq> None"
  using assms
proof (induction polls arbitrary: tbegin)
  case (Cons p polls)
  obtain g u where p: "p = (g, u)"
    by fastforce
  show ?case
  proof (cases "spin_pause_round deadline opt tbegin g u")
    case (Inl r)
    with p show ?thesis
      by simp
  next
    case (Inr tb)
    then have tb: "tb = min tbegin u" "u < tb + spin_max opt"
      by (auto simp: spin_pause_round_def Let_def split: if_splits)
    then have "(f, t) \<in> set polls" "tb \<le> t0"
      using Cons.prems p by auto
    from Cons.IH[OF this(2,1) Cons.prems(3)] p Inr show ?thesis
      by simp
  qed
qed simp

lemma spin_loop_results:
  assumes "spin_pause_loop deadline opt tbegin polls = Some r"
  shows "r = SpinSuccess \<Longrightarrow> True \<in> fst ` set polls"
    "r = SpinTimeout \<Longrightarrow> \<exists>t \<in> snd ` set polls. passed deadline t"
  using assms
  by (induction polls arbitrary: tbegin) (auto simp: spin_pause_round_def Let_def split: sum.splits if_splits)

section \<open>Properties\<close>

text \<open>\<open>spin_pause_until\<close> returns, at the latest with the first reading of the clock at which
  \<open>spin_max\<close> has gone by since it began, even if the clock goes backwards in between; it reports
  success only if its condition was seen to hold, and a timeout only if the deadline had passed.\<close>

theorem spin_pause_until_returns:
  assumes "(f, t) \<in> set polls" "t0 + spin_max opt \<le> t"
  shows "\<exists>r. spin_pause_until deadline opt ((f0, t0) # polls) = Some r \<and>
    (r = SpinSuccess \<longrightarrow> f0 \<or> True \<in> fst ` set polls) \<and>
    (r = SpinTimeout \<longrightarrow> deadline = Some minTime \<or> (\<exists>u \<in> snd ` set polls. passed deadline u))"
proof (cases "spin_pause_begin deadline opt f0 t0")
  case (Inl r)
  then show ?thesis
    by (auto simp: spin_pause_begin_def split: if_splits)
next
  case (Inr tb)
  then have "tb = t0"
    by (auto simp: spin_pause_begin_def split: if_splits)
  with spin_loop_returns[OF order.refl assms] obtain r where r: "spin_pause_loop deadline opt tb polls = Some r"
    by auto
  with Inr spin_loop_results[OF r] show ?thesis
    by auto
qed

theorem spin_pause_until_returns_witness:
  "\<exists>r. spin_pause_until (Some 9000) wait_options [(False, 0), (False, 1000), (False, 500), (False, 2600)] = Some r \<and> r \<noteq> SpinSuccess"
  using spin_pause_until_returns[of False 2600 "[(False, 1000), (False, 500), (False, 2600)]" 0 wait_options "Some 9000" False]
  by (auto simp: wait_options_def)

lemma baton_handover:
  assumes "baton_run mayBlock deadline opt newBaton as = Some b"
  shows "poster b \<noteq> PAssert \<and> waiter b \<noteq> WAssert \<and>
    (waiter b = WReturned True \<longrightarrow> poster b = PWake \<or> poster b = PDone) \<and>
    (waiter b = WReturned False \<longrightarrow> deadline \<noteq> None) \<and>
    ((\<exists>r. waiter b = WReturned r) \<longrightarrow> baton_reset b = Some newBaton)"
  using baton_run_inv[OF baton_new_inv assms] by (cases "state b") (auto simp: baton_inv_def baton_reset_def)

lemma baton_wakes:
  assumes "baton_run mayBlock deadline opt newBaton as = Some b" "poster b = PDone"
    "waiter b \<noteq> WIdle" "waiter b \<noteq> WTimedOut" "\<forall>r. waiter b \<noteq> WReturned r"
  shows "\<exists>b'. baton_step mayBlock deadline opt b (WaitStep t) = Some b' \<and>
    (waiter b' = WReturned True \<or>
     (\<exists>b''. baton_step mayBlock deadline opt b' (WaitStep t') = Some b'' \<and> waiter b'' = WReturned True))"
proof -
  have I: "baton_inv mayBlock deadline b"
    by (rule baton_run_inv[OF baton_new_inv assms(1)])
  show ?thesis
    using I assms(2-5) by (cases "state b"; cases "waiter b")
      (auto simp: baton_inv_def ready_def spin_pause_begin_def spin_pause_round_def spin_yield_round_def after_spin_def split: if_splits)
qed

text \<open>C32. Cn. The baton hands over once and loses no wake-up. Whatever the interleaving of one \<open>post\<close> and one \<open>wait\<close>, with
  spurious wake-ups, signals and an expiring deadline, no assertion of either side fails; the wait reports that the baton
  was posted only after \<open>post\<close> has stored its delivery, and gives up only if it has a deadline; once it has returned,
  \<open>reset\<close> and the destructor do not fail either. And once \<open>post\<close> has returned, a waiter is not left asleep: unless its
  deadline has already ended the wait, it reports success after at most two more of its own steps, whatever the clock shows.\<close>

theorem baton_hands_over:
  assumes "baton_run mayBlock deadline opt newBaton as = Some b"
  shows "poster b \<noteq> PAssert \<and> waiter b \<noteq> WAssert \<and>
    (waiter b = WReturned True \<longrightarrow> poster b = PWake \<or> poster b = PDone) \<and>
    (waiter b = WReturned False \<longrightarrow> deadline \<noteq> None) \<and>
    ((\<exists>r. waiter b = WReturned r) \<longrightarrow> baton_reset b = Some newBaton) \<and>
    (poster b = PDone \<and> waiter b \<noteq> WIdle \<and> waiter b \<noteq> WTimedOut \<and> (\<forall>r. waiter b \<noteq> WReturned r) \<longrightarrow>
      (\<exists>b'. baton_step mayBlock deadline opt b (WaitStep t) = Some b' \<and>
        (waiter b' = WReturned True \<or>
         (\<exists>b''. baton_step mayBlock deadline opt b' (WaitStep t') = Some b'' \<and> waiter b'' = WReturned True))))"
  using baton_handover[OF assms] baton_wakes[OF assms, of t t'] by blast

text \<open>Witness of Cn.\<close>

theorem baton_hands_over_witness:
  "\<exists>b b'. baton_run True None wait_options newBaton
      [CallWait, WaitStep 0, WaitStep 0, WaitStep 3000, WaitStep 3000, WaitStep 3000, CallPost, PostStep, PostStep, PostStep] = Some b \<and>
    baton_step True None wait_options b (WaitStep 4000) = Some b' \<and> waiter b = WCheck \<and> waiter b' = WReturned True"
proof -
  let ?as = "[CallWait, WaitStep 0, WaitStep 0, WaitStep 3000, WaitStep 3000, WaitStep 3000, CallPost, PostStep, PostStep, PostStep]"
  let ?b = "\<lparr>state = LATE_DELIVERY, poster = PDone, waiter = WCheck\<rparr>"
  have r: "baton_run True None wait_options newBaton ?as = Some ?b"
    by code_simp
  have "\<exists>b'. baton_step True None wait_options ?b (WaitStep 4000) = Some b' \<and>
    (waiter b' = WReturned True \<or>
     (\<exists>b''. baton_step True None wait_options b' (WaitStep 4000) = Some b'' \<and> waiter b'' = WReturned True))"
    using baton_hands_over[OF r, of 4000 4000] by simp
  then obtain b' where "baton_step True None wait_options ?b (WaitStep 4000) = Some b'" "waiter b' = WReturned True"
    by auto
  then show ?thesis
    by (intro exI[of _ ?b] exI[of _ b'] conjI r) simp_all
qed

end
