(* ===== verification/KeepAlive.thy ===== *)
theory KeepAlive
  imports Prelude
begin

text \<open>
  \<open>Executor::KeepAlive\<close> (Executor.h), a pointer to an executor with two flags in its spare low bits, and the
  tokens it stands for. An executor is identified by its address; the virtual methods \<open>keepAliveAcquire\<close>
  and \<open>keepAliveRelease\<close> are those of an executor that counts its tokens (see \<open>DefaultKeepAlive\<close>) or of the
  base class, which has none. The state is the number of tokens of each executor, and the storage words
  of a program's handles.
\<close>

unbundle bit_operations_syntax

section \<open>Storage\<close>

definition kDummyFlag :: u64 where
  "kDummyFlag = push_bit 0 1"

definition kAliasFlag :: u64 where
  "kAliasFlag = push_bit 1 1"

definition kFlagMask :: u64 where
  "kFlagMask = kDummyFlag OR kAliasFlag"

definition kExecutorMask :: u64 where
  "kExecutorMask = NOT kFlagMask"

text \<open>The constructor from a pointer and flags, and the addresses and flags it asserts.\<close>

definition makeStorage :: "u64 \<Rightarrow> u64 \<Rightarrow> u64" where
  "makeStorage executor flags = executor OR flags"

definition storage_ok :: "u64 \<Rightarrow> u64 \<Rightarrow> bool" where
  "storage_ok executor flags \<longleftrightarrow> executor \<noteq> 0 \<and> executor AND NOT kExecutorMask = 0 \<and> flags AND kExecutorMask = 0"

definition ka_get :: "u64 \<Rightarrow> u64" where
  "ka_get storage = storage AND kExecutorMask"

definition ka_flags :: "u64 \<Rightarrow> u64" where
  "ka_flags storage = storage AND kFlagMask"

definition ka_bool :: "u64 \<Rightarrow> bool" where
  "ka_bool storage \<longleftrightarrow> storage \<noteq> 0"

definition isKeepAliveDummy :: "u64 \<Rightarrow> bool" where
  "isKeepAliveDummy storage \<longleftrightarrow> storage AND kDummyFlag \<noteq> 0"

definition get_alias :: "u64 \<Rightarrow> u64" where
  "get_alias storage = storage OR kAliasFlag"

lemmas flag_defs = kDummyFlag_def kAliasFlag_def kFlagMask_def kExecutorMask_def

section \<open>Tokens\<close>

text \<open>Which executors count tokens, and how many there are.\<close>

record executors =
  supports :: "u64 \<Rightarrow> bool"
  tokens :: "u64 \<Rightarrow> int"

definition keepAliveAcquire :: "u64 \<Rightarrow> executors \<Rightarrow> bool \<times> executors" where
  "keepAliveAcquire ex w =
     (if supports w ex then (True, w\<lparr>tokens := (tokens w)(ex := tokens w ex + 1)\<rparr>) else (False, w))"

definition keepAliveRelease :: "u64 \<Rightarrow> executors \<Rightarrow> executors" where
  "keepAliveRelease ex w = w\<lparr>tokens := (tokens w)(ex := tokens w ex - 1)\<rparr>"

definition makeKeepAlive :: "u64 \<Rightarrow> u64" where
  "makeKeepAlive ex = makeStorage ex 0"

definition makeKeepAliveDummy :: "u64 \<Rightarrow> u64" where
  "makeKeepAliveDummy ex = makeStorage ex kDummyFlag"

definition getKeepAliveToken :: "u64 \<Rightarrow> executors \<Rightarrow> u64 \<times> executors" where
  "getKeepAliveToken ex w =
     (if ex = 0 then (0, w)
      else case keepAliveAcquire ex w of
          (True, w') \<Rightarrow> (makeKeepAlive ex, w')
        | (False, w') \<Rightarrow> (makeKeepAliveDummy ex, w'))"

definition ka_reset :: "u64 \<Rightarrow> executors \<Rightarrow> u64 \<times> executors" where
  "ka_reset storage w =
     (if ka_get storage = 0 then (storage, w)
      else if ka_flags storage AND (kDummyFlag OR kAliasFlag) = 0 then (0, keepAliveRelease (ka_get storage) w)
      else (0, w))"

definition ka_copy :: "u64 \<Rightarrow> executors \<Rightarrow> u64 \<times> executors" where
  "ka_copy storage w =
     (if isKeepAliveDummy storage then (makeKeepAliveDummy (ka_get storage), w)
      else getKeepAliveToken (ka_get storage) w)"

text \<open>The constructors from a handle of a compatible executor type, whose pointer converts to the same address: the
  copying one takes a token of its own, the moving one takes over address and flags and leaves the source empty. The
  moving one goes through the constructor that asserts \<open>storage_ok\<close>, which does not hold of an empty source; the
  programs below are those of a build without assertions.\<close>

definition convertCopy :: "u64 \<Rightarrow> executors \<Rightarrow> u64 \<times> executors" where
  "convertCopy other w = getKeepAliveToken (ka_get other) w"

definition convertMove :: "u64 \<Rightarrow> u64 \<times> u64" where
  "convertMove other = (makeStorage (ka_get other) (other AND kFlagMask), 0)"

section \<open>Programs over handles\<close>

datatype ka_cmd =
    FromExecutor nat u64
  | CopyAssign nat nat
  | MoveAssign nat nat
  | CopyMethod nat nat
  | AliasOf nat nat
  | ConvertCopyAssign nat nat
  | ConvertMoveAssign nat nat
  | ResetHandle nat

type_synonym handles = "nat \<Rightarrow> u64"

text \<open>Move assignment of a temporary: the old value of the handle is reset first.\<close>

definition assignHandle :: "nat \<Rightarrow> u64 \<Rightarrow> handles \<times> executors \<Rightarrow> handles \<times> executors" where
  "assignHandle v storage hw = (case hw of (h, w) \<Rightarrow> (h(v := storage), snd (ka_reset (h v) w)))"

fun ka_step :: "handles \<times> executors \<Rightarrow> ka_cmd \<Rightarrow> handles \<times> executors" where
  "ka_step (h, w) (FromExecutor v ex) = (let (t, w) = getKeepAliveToken ex w in assignHandle v t (h, w))"
| "ka_step (h, w) (CopyAssign v u) = (let (t, w) = getKeepAliveToken (ka_get (h u)) w in assignHandle v t (h, w))"
| "ka_step (h, w) (MoveAssign v u) =
     (let (r, w) = ka_reset (h v) w; h = h(v := r); moved = h u in ((h(u := 0))(v := moved), w))"
| "ka_step (h, w) (CopyMethod v u) = (let (t, w) = ka_copy (h u) w in assignHandle v t (h, w))"
| "ka_step (h, w) (AliasOf v u) = assignHandle v (get_alias (h u)) (h, w)"
| "ka_step (h, w) (ConvertCopyAssign v u) = (let (t, w) = convertCopy (h u) w in assignHandle v t (h, w))"
| "ka_step (h, w) (ConvertMoveAssign v u) = (let (t, r) = convertMove (h u) in assignHandle v t (h(u := r), w))"
| "ka_step (h, w) (ResetHandle v) = (let (r, w) = ka_reset (h v) w in (h(v := r), w))"

definition ka_run :: "handles \<times> executors \<Rightarrow> ka_cmd list \<Rightarrow> handles \<times> executors" where
  "ka_run = foldl ka_step"

section \<open>Bits\<close>

definition aligned :: "u64 \<Rightarrow> bool" where
  "aligned p \<longleftrightarrow> p AND kFlagMask = 0"

lemma flag_mask: "kFlagMask = mask 2"
  by (simp add: flag_defs mask_eq_exp_minus_1)

lemma flag_mask_bit: "bit kFlagMask n \<longleftrightarrow> n = 0 \<or> n = 1"
  by (auto simp: flag_mask bit_mask_iff)

lemma flag_bit: "bit kDummyFlag n \<longleftrightarrow> n = 0" "bit kAliasFlag n \<longleftrightarrow> n = 1"
  by (auto simp: flag_defs bit_simps)

lemma word_zero_iff: "(w :: u64) = 0 \<longleftrightarrow> (\<forall>n. \<not> bit w n)"
proof
  show "w = 0" if "\<forall>n. \<not> bit w n"
    using that by (intro bit_word_eqI) simp
qed simp

lemma pack_unpack:
  assumes "aligned p" "f AND kExecutorMask = 0"
  shows "ka_get (makeStorage p f) = p" "ka_flags (makeStorage p f) = f"
proof -
  have p: "n \<noteq> 0 \<and> n \<noteq> 1" if "bit p n" for n :: nat
  proof -
    have "\<not> bit (p AND kFlagMask) n"
      using assms(1) by (simp add: aligned_def)
    then show ?thesis
      using that by (simp add: bit_simps flag_mask_bit)
  qed
  have f: "n = 0 \<or> n = 1" if "bit f n" for n :: nat
  proof -
    have "\<not> bit (f AND kExecutorMask) n"
      by (simp add: assms(2))
    then show ?thesis
      using that bit_imp_le_length[OF that] by (simp add: kExecutorMask_def bit_simps flag_mask_bit)
  qed
  have "bit (ka_get (makeStorage p f)) n = bit p n" "bit (ka_flags (makeStorage p f)) n = bit f n" if "n < 64" for n
    using p[of n] f[of n] that
    by (auto simp: ka_get_def ka_flags_def makeStorage_def kExecutorMask_def bit_simps flag_mask_bit)
  then show "ka_get (makeStorage p f) = p" "ka_flags (makeStorage p f) = f"
    by (auto intro!: bit_word_eqI)
qed

lemma unpack_pack: "makeStorage (ka_get s) (ka_flags s) = s"
  by (auto intro!: bit_word_eqI simp: ka_get_def ka_flags_def makeStorage_def kExecutorMask_def bit_simps)

lemma flags_ok: "0 AND kExecutorMask = 0" "kDummyFlag AND kExecutorMask = 0"
  by (auto simp: word_zero_iff kExecutorMask_def bit_simps flag_mask_bit flag_bit)

lemma get_aligned: "aligned (ka_get s)"
  by (auto simp: aligned_def ka_get_def kExecutorMask_def word_zero_iff bit_simps)

lemma convertMove_eq: "convertMove s = (s, 0)"
  by (simp add: convertMove_def unpack_pack[unfolded ka_flags_def])

lemma convertMove_storage_ok: "storage_ok (ka_get s) (s AND kFlagMask) \<longleftrightarrow> ka_get s \<noteq> 0"
  using get_aligned[of s] by (auto simp: storage_ok_def aligned_def kExecutorMask_def word_zero_iff bit_simps)

section \<open>Counting\<close>

definition strongAt :: "u64 \<Rightarrow> u64 \<Rightarrow> int" where
  "strongAt p storage = (if ka_get storage = p \<and> p \<noteq> 0 \<and> ka_flags storage = 0 then 1 else 0)"

lemma flags_and: "ka_flags s AND (kDummyFlag OR kAliasFlag) = ka_flags s"
  by (simp add: ka_flags_def kFlagMask_def[symmetric])

lemma reset_counts:
  "tokens (snd (ka_reset s w)) p = tokens w p - strongAt p s" "strongAt p (fst (ka_reset s w)) = 0"
  "supports (snd (ka_reset s w)) = supports w"
  by (auto simp: ka_reset_def flags_and strongAt_def keepAliveRelease_def ka_get_def)

lemma alias_counts: "strongAt p (get_alias s) = 0"
proof -
  have "bit (ka_flags (get_alias s)) 1"
    by (simp add: ka_flags_def get_alias_def bit_simps flag_mask_bit flag_bit)
  then have "ka_flags (get_alias s) \<noteq> 0"
    by auto
  then show ?thesis
    by (simp add: strongAt_def)
qed

lemma dummy_counts: "aligned e \<Longrightarrow> strongAt p (makeKeepAliveDummy e) = 0"
  using pack_unpack(2)[OF _ flags_ok(2), of e] by (auto simp: strongAt_def makeKeepAliveDummy_def kDummyFlag_def)

lemma token_counts:
  assumes "aligned e"
  shows "tokens (snd (getKeepAliveToken e w)) p = tokens w p + strongAt p (fst (getKeepAliveToken e w))"
    "strongAt q (fst (getKeepAliveToken e w)) \<noteq> 0 \<Longrightarrow> supports w q" "supports (snd (getKeepAliveToken e w)) = supports w"
proof -
  have s: "strongAt x (makeKeepAlive e) = (if x = e \<and> e \<noteq> 0 then 1 else 0)" "strongAt x 0 = 0" for x
    using pack_unpack[OF assms flags_ok(1)] by (auto simp: strongAt_def makeKeepAlive_def ka_get_def)
  note d = dummy_counts[OF assms]
  show "tokens (snd (getKeepAliveToken e w)) p = tokens w p + strongAt p (fst (getKeepAliveToken e w))"
    "strongAt q (fst (getKeepAliveToken e w)) \<noteq> 0 \<Longrightarrow> supports w q" "supports (snd (getKeepAliveToken e w)) = supports w"
    by (cases "e = 0"; cases "supports w e"; auto simp: getKeepAliveToken_def keepAliveAcquire_def s d split: if_splits)+
qed

lemma copy_counts:
  "tokens (snd (ka_copy s w)) p = tokens w p + strongAt p (fst (ka_copy s w))"
  "strongAt q (fst (ka_copy s w)) \<noteq> 0 \<Longrightarrow> supports w q" "supports (snd (ka_copy s w)) = supports w"
  using token_counts[OF get_aligned] dummy_counts[OF get_aligned] by (auto simp: ka_copy_def split: if_splits)

fun cmd_ok :: "nat \<Rightarrow> ka_cmd \<Rightarrow> bool" where
  "cmd_ok N (FromExecutor v ex) = (v < N \<and> aligned ex)"
| "cmd_ok N (CopyAssign v u) = (v < N \<and> u < N)"
| "cmd_ok N (MoveAssign v u) = (v < N \<and> u < N)"
| "cmd_ok N (CopyMethod v u) = (v < N \<and> u < N)"
| "cmd_ok N (AliasOf v u) = (v < N \<and> u < N)"
| "cmd_ok N (ConvertCopyAssign v u) = (v < N \<and> u < N)"
| "cmd_ok N (ConvertMoveAssign v u) = (v < N \<and> u < N)"
| "cmd_ok N (ResetHandle v) = (v < N)"

definition balance :: "nat \<Rightarrow> u64 \<Rightarrow> handles \<times> executors \<Rightarrow> int" where
  "balance N p hw = tokens (snd hw) p - (\<Sum>v<N. strongAt p (fst hw v))"

definition backed :: "handles \<times> executors \<Rightarrow> bool" where
  "backed hw \<longleftrightarrow> (\<forall>v p. strongAt p (fst hw v) \<noteq> 0 \<longrightarrow> supports (snd hw) p)"

lemma balance_upd:
  assumes "v < N"
  shows "balance N p (h(v := s), w) = tokens w p - (\<Sum>u<N. strongAt p (h u)) + strongAt p (h v) - strongAt p s"
  using sum_fun_upd[of "{..<N}" v "strongAt p" h s] assms by (simp add: balance_def)

lemma backed_upd:
  assumes "backed (h, w)" "\<And>p. strongAt p s \<noteq> 0 \<Longrightarrow> supports w p"
  shows "backed (h(v := s), w)"
  using assms by (simp add: backed_def)

lemma assign_counts:
  assumes "v < N"
  shows "balance N p (assignHandle v s (h, w)) = balance N p (h, w) - strongAt p s"
  using reset_counts(1)[where s = "h v" and w = w and p = p] balance_upd[OF assms, where p = p and h = h and s = s]
  by (simp add: assignHandle_def) (simp add: balance_def)

lemma assign_backed:
  assumes "backed (h, w)" "\<And>p. strongAt p s \<noteq> 0 \<Longrightarrow> supports w p"
  shows "backed (assignHandle v s (h, w))" "supports (snd (assignHandle v s (h, w))) = supports w"
  using assms reset_counts(3)[where s = "h v" and w = w] by (auto simp: backed_def assignHandle_def)

lemma step_counts:
  assumes "cmd_ok N c" "backed (h, w)"
  shows "balance N p (ka_step (h, w) c) = balance N p (h, w) \<and> backed (ka_step (h, w) c) \<and>
    supports (snd (ka_step (h, w) c)) = supports w"
proof -
  have temp: "balance N p (assignHandle v t (h, w')) = balance N p (h, w) \<and> backed (assignHandle v t (h, w')) \<and>
      supports (snd (assignHandle v t (h, w'))) = supports w"
    if "v < N" "tokens w' p = tokens w p + strongAt p t" "\<And>p. strongAt p t \<noteq> 0 \<Longrightarrow> supports w p" "supports w' = supports w" for v t w'
    using that assms(2) assign_counts[of v N p t h w'] assign_backed[of h w' t v] by (simp add: balance_def backed_def)
  have res: "balance N p (h(v := r), w') = balance N p (h, w) \<and> backed (h(v := r), w') \<and> supports w' = supports w"
    if "v < N" "ka_reset (h v) w = (r, w')" for v r w'
    using that assms(2) reset_counts(1)[where s = "h v" and w = w and p = p]
      reset_counts(2)[where s = "h v" and w = w] reset_counts(3)[where s = "h v" and w = w]
      balance_upd[where v = v and N = N and p = p and h = h and s = r and w = w']
    by (simp add: balance_def backed_def)
  show ?thesis
  proof (cases c)
    case (FromExecutor v ex)
    with assms(1) show ?thesis
      using token_counts[of ex] by (simp add: case_prod_beta) (rule temp; simp)
  next
    case (CopyAssign v u)
    with assms(1) show ?thesis
      using token_counts[OF get_aligned] by (simp add: case_prod_beta) (rule temp; simp)
  next
    case (MoveAssign v u)
    obtain r w' where r: "ka_reset (h v) w = (r, w')"
      by fastforce
    let ?h = "h(v := r)"
    have v: "v < N" "u < N"
      using assms(1) MoveAssign by simp_all
    have r0: "strongAt q r = 0" for q
      using reset_counts(2)[where p = q and s = "h v" and w = w] r by simp
    have z: "strongAt q 0 = 0" for q
      by (simp add: strongAt_def ka_get_def)
    note R = res[OF v(1) r]
    have "(\<Sum>i<N. strongAt p (((?h(u := 0))(v := ?h u)) i)) = (\<Sum>i<N. strongAt p (?h i))"
      using sum_fun_upd[of "{..<N}" v "strongAt p" "?h(u := 0)" "?h u"] sum_fun_upd[of "{..<N}" u "strongAt p" ?h 0]
        v r0[of p] z[of p] by (cases "u = v") auto
    then have "balance N p ((?h(u := 0))(v := ?h u), w') = balance N p (?h, w')"
      by (simp add: balance_def)
    moreover have "backed ((?h(u := 0))(v := ?h u), w')"
    proof -
      have "backed (?h(u := 0), w')"
        by (rule backed_upd) (simp_all only: R z not_True_eq_False)
      then show ?thesis
      proof (rule backed_upd)
        show "supports w' q" if "strongAt q (?h u) \<noteq> 0" for q
          using R that unfolding backed_def by (metis fst_conv snd_conv)
      qed
    qed
    ultimately show ?thesis
      using MoveAssign R r by (simp add: Let_def)
  next
    case (CopyMethod v u)
    with assms(1) show ?thesis
      using copy_counts by (simp add: case_prod_beta) (rule temp; simp)
  next
    case (AliasOf v u)
    with assms(1) show ?thesis
      using alias_counts[of _ "h u"] by simp (rule temp; simp)
  next
    case (ConvertCopyAssign v u)
    with assms(1) show ?thesis
      using token_counts[OF get_aligned] by (simp add: convertCopy_def case_prod_beta) (rule temp; simp)
  next
    case (ConvertMoveAssign v u)
    let ?h = "h(u := 0)"
    have v: "v < N" "u < N"
      using assms(1) ConvertMoveAssign by simp_all
    have z: "strongAt q 0 = 0" for q
      by (simp add: strongAt_def ka_get_def)
    have "balance N p (assignHandle v (h u) (?h, w)) = balance N p (h, w)"
      using assign_counts[OF v(1), of p "h u" ?h w] balance_upd[OF v(2), of p h 0 w] z[of p] by (simp add: balance_def)
    moreover have "backed (?h, w)"
      by (rule backed_upd) (simp_all only: assms(2) z not_True_eq_False)
    moreover have "supports w q" if "strongAt q (h u) \<noteq> 0" for q
      using assms(2) that by (auto simp: backed_def)
    ultimately show ?thesis
      using assign_backed[of ?h w "h u" v] ConvertMoveAssign by (simp add: convertMove_eq)
  next
    case (ResetHandle v)
    moreover obtain r w' where "ka_reset (h v) w = (r, w')"
      by fastforce
    ultimately show ?thesis
      using assms(1) res[of v r w'] by simp
  qed
qed

lemma run_counts:
  assumes "backed hw" "\<forall>c\<in>set cs. cmd_ok N c"
  shows "balance N p (ka_run hw cs) = balance N p hw \<and> backed (ka_run hw cs) \<and>
    supports (snd (ka_run hw cs)) = supports (snd hw)"
  using assms
proof (induction cs arbitrary: hw)
  case (Cons c cs)
  obtain h w where hw: "hw = (h, w)"
    by fastforce
  have s: "balance N p (ka_step (h, w) c) = balance N p (h, w)" "backed (ka_step (h, w) c)"
    "supports (snd (ka_step (h, w) c)) = supports w"
    using Cons.prems step_counts[where N = N and c = c and h = h and w = w and p = p] by (simp_all add: hw)
  show ?case
    using Cons.IH[OF s(2)] Cons.prems(2) s by (simp add: ka_run_def hw)
qed (simp add: ka_run_def)

section \<open>Properties\<close>

text \<open>C37. Cn. The constructor of a handle packs an executor's address and the flags into one word. For an address
  whose two low bits are clear and flags in those two bits, as the constructor asserts, get() gives the address
  back and the flags are read back as they were; and the word of any handle is rebuilt from its address and
  its flags, as the converting move constructor does.\<close>

theorem keepAlive_storage_roundtrip:
  assumes "storage_ok executor flags"
  shows "ka_get (makeStorage executor flags) = executor \<and> ka_flags (makeStorage executor flags) = flags \<and>
    makeStorage (ka_get storage) (ka_flags storage) = storage \<and> ka_bool (makeStorage executor flags)"
proof -
  have a: "aligned executor" "flags AND kExecutorMask = 0" "executor \<noteq> 0"
    using assms by (simp_all add: storage_ok_def aligned_def kExecutorMask_def)
  note g = pack_unpack[OF a(1,2)]
  then have "ka_bool (makeStorage executor flags)"
    using a(3) by (auto simp: ka_bool_def ka_get_def)
  with g show ?thesis
    by (simp add: unpack_pack)
qed

theorem keepAlive_storage_roundtrip_witness:
  "ka_get (makeStorage 4096 1) = 4096 \<and> ka_flags (makeStorage 4096 1) = 1"
  using keepAlive_storage_roundtrip[of 4096 1] by (simp add: storage_ok_def flag_defs)

text \<open>C36. Cn. Every token is paired with a handle. From empty handles, after any sequence of constructions from an
  executor, copy and move assignments (of a handle to itself too, and from handles of a compatible executor type),
  copy(), get_alias() and reset(), the tokens an executor has given out beyond those of the start are exactly the
  handles that point to it and are neither dummies nor aliases; an executor without the keep-alive mechanism never
  sees keepAliveRelease.\<close>

theorem keepAlive_counts:
  assumes "\<forall>c\<in>set cs. cmd_ok N c" "ka_run (\<lambda>v. 0, w0) cs = (h, w)"
  shows "tokens w p = tokens w0 p + (\<Sum>v<N. strongAt p (h v)) \<and>
    (\<not> supports w0 p \<longrightarrow> tokens w p = tokens w0 p) \<and> supports w = supports w0"
proof -
  have z: "strongAt q 0 = 0" for q
    by (simp add: strongAt_def ka_get_def)
  have "backed (\<lambda>v. 0, w0)"
    by (simp add: backed_def z)
  note r = run_counts[OF this assms(1), where p = p]
  have t: "tokens w p = tokens w0 p + (\<Sum>v<N. strongAt p (h v))"
    using r assms(2) by (simp add: balance_def z)
  have "\<forall>v\<in>{..<N}. strongAt p (h v) = 0" if "\<not> supports w0 p"
    using r assms(2) that by (simp add: backed_def) metis
  then have "(\<Sum>v<N. strongAt p (h v)) = 0" if "\<not> supports w0 p"
    using that by (blast intro: sum.neutral)
  with t show ?thesis
    using r assms(2) by simp
qed

theorem keepAlive_counts_witness:
  "let w = snd (ka_run (\<lambda>v. 0, \<lparr>supports = (\<lambda>p. p = 4096), tokens = (\<lambda>p. 1)\<rparr>)
       [FromExecutor 0 4096, CopyAssign 1 0, AliasOf 2 0, MoveAssign 0 1, FromExecutor 1 8192])
   in tokens w 4096 = 2 \<and> tokens w 8192 = 1"
proof -
  let ?cs = "[FromExecutor 0 4096, CopyAssign 1 0, AliasOf 2 0, MoveAssign 0 1, FromExecutor 1 8192]"
  let ?w0 = "\<lparr>supports = (\<lambda>p. p = 4096), tokens = (\<lambda>p. 1)\<rparr>"
  obtain h w where r: "ka_run (\<lambda>v. 0, ?w0) ?cs = (h, w)"
    by fastforce
  have ok: "\<forall>c\<in>set ?cs. cmd_ok 3 c"
    by (simp add: aligned_def flag_defs)
  have h: "h 0 = 4096" "h 1 = 8193" "h 2 = 4098"
    using r by (auto simp: ka_run_def getKeepAliveToken_def keepAliveAcquire_def keepAliveRelease_def ka_reset_def
        makeKeepAlive_def makeKeepAliveDummy_def makeStorage_def assignHandle_def ka_get_def ka_flags_def get_alias_def flag_defs)
  have "(\<Sum>v<3. strongAt 4096 (h v)) = 1"
    using h by (simp add: strongAt_def ka_get_def ka_flags_def flag_defs lessThan_nat_numeral)
  then show ?thesis
    using keepAlive_counts[OF ok r, of 4096] keepAlive_counts[OF ok r, of 8192] by (simp add: Let_def r del: One_nat_def)
qed

end
