(* ===== verification/DefaultKeepAlive.thy ===== *)
theory DefaultKeepAlive
  imports Prelude
begin

text \<open>
  \<open>DefaultKeepAliveExecutor\<close> (DefaultKeepAliveExecutor.h): the counted keep-alive tokens of an executor, the
  join that waits for them, and the weak reference that turns into a token only while the executor lives. Threads
  interleave at atomic operations: each step of a caller or of the joining thread is one access to
  \<open>keepAliveCount_\<close>, to the weak reference's own count, or to the baton, whose \<open>post\<close> and
  \<open>wait\<close> are taken as setting and awaiting a flag (theory \<open>Baton\<close> shows that they are). A failed DCHECK
  is recorded in \<open>checkFailed\<close> and the run goes on, as it does in a release build. The counters are integers: they
  would need \<open>2 ^ 63\<close> handles to wrap.
\<close>

section \<open>State\<close>

type_synonym func = nat

datatype caller_pc =
    Idle
  | PostBaton
  | LockLoad func
  | LockCas func int
  | ForwardAdd func
  | DropToken

datatype join_pc =
    NotJoining
  | JoinPost bool
  | JoinWait bool
  | JoinExchange
  | JoinBatonReset
  | JoinMakeKeepAlive
  | Joined

record dka =
  keepAliveCount :: int
  weakRefCount :: int
  weakRefDeletes :: nat
  keepAliveReleaseBaton :: bool
  ownKeepAlive :: bool
  joiner :: join_pc
  callers :: "nat \<Rightarrow> caller_pc"
  strong :: "nat \<Rightarrow> nat"
  weak :: "nat \<Rightarrow> nat"
  received :: "func list"
  checkFailed :: bool

text \<open>An executor and one weak reference to it, created by thread 0.\<close>

definition newDka :: dka where
  "newDka = \<lparr>keepAliveCount = 1, weakRefCount = 1, weakRefDeletes = 0, keepAliveReleaseBaton = False, ownKeepAlive = True,
     joiner = NotJoining, callers = (\<lambda>t. Idle), strong = (\<lambda>t. 0), weak = (\<lambda>t. 0)(0 := 1), received = [],
     checkFailed = False\<rparr>"

definition dcheck :: "bool \<Rightarrow> dka \<Rightarrow> dka" where
  "dcheck b s = s\<lparr>checkFailed := checkFailed s \<or> \<not> b\<rparr>"

abbreviation goto :: "nat \<Rightarrow> caller_pc \<Rightarrow> dka \<Rightarrow> dka" where
  "goto t pc s \<equiv> s\<lparr>callers := (callers s)(t := pc)\<rparr>"

abbreviation setStrong :: "nat \<Rightarrow> nat \<Rightarrow> dka \<Rightarrow> dka" where
  "setStrong t n s \<equiv> s\<lparr>strong := (strong s)(t := n)\<rparr>"

abbreviation setWeak :: "nat \<Rightarrow> nat \<Rightarrow> dka \<Rightarrow> dka" where
  "setWeak t n s \<equiv> s\<lparr>weak := (weak s)(t := n)\<rparr>"

section \<open>Operations\<close>

definition dkaAcquire :: "dka \<Rightarrow> dka" where
  "dkaAcquire s = dcheck (keepAliveCount s > 0) (s\<lparr>keepAliveCount := keepAliveCount s + 1\<rparr>)"

text \<open>The fetch_sub of keepAliveRelease, and whether the caller has to post the baton.\<close>

definition dkaRelease :: "dka \<Rightarrow> bool \<times> dka" where
  "dkaRelease s =
     (keepAliveCount s = 1, dcheck (keepAliveCount s \<ge> 1) (s\<lparr>keepAliveCount := keepAliveCount s - 1\<rparr>))"

definition weakRefAcquire :: "dka \<Rightarrow> dka" where
  "weakRefAcquire s = dcheck (weakRefCount s > 0) (s\<lparr>weakRefCount := weakRefCount s + 1\<rparr>)"

definition weakRefRelease :: "dka \<Rightarrow> dka" where
  "weakRefRelease s =
     (let s' = dcheck (weakRefCount s \<ge> 1) (s\<lparr>weakRefCount := weakRefCount s - 1\<rparr>)
      in if weakRefCount s = 1 then s'\<lparr>weakRefDeletes := weakRefDeletes s' + 1\<rparr> else s')"

text \<open>Dropping one of a thread's tokens.\<close>

definition dropStrong :: "nat \<Rightarrow> dka \<Rightarrow> dka" where
  "dropStrong t s = (case dkaRelease (setStrong t (strong s t - 1) s) of
       (isLast, s') \<Rightarrow> goto t (if isLast then PostBaton else Idle) s')"

text \<open>The next step of a thread inside WeakRef::add, lock or keepAliveRelease.\<close>

fun caller_step :: "nat \<Rightarrow> bool \<Rightarrow> caller_pc \<Rightarrow> dka \<Rightarrow> dka option" where
  "caller_step t spurious Idle s = None"
| "caller_step t spurious PostBaton s = Some (goto t Idle (s\<lparr>keepAliveReleaseBaton := True\<rparr>))"
| "caller_step t spurious (LockLoad f) s =
     Some (goto t (if keepAliveCount s = 0 then Idle else LockCas f (keepAliveCount s)) s)"
| "caller_step t spurious (LockCas f expected) s =
     Some (if keepAliveCount s = expected \<and> \<not> spurious
           then goto t (ForwardAdd f) (setStrong t (strong s t + 1) (s\<lparr>keepAliveCount := expected + 1\<rparr>))
           else goto t (if keepAliveCount s = 0 then Idle else LockCas f (keepAliveCount s)) s)"
| "caller_step t spurious (ForwardAdd f) s = Some (goto t DropToken (s\<lparr>received := received s @ [f]\<rparr>))"
| "caller_step t spurious DropToken s = Some (dropStrong t s)"

text \<open>joinKeepAlive, and joinAndResetKeepAlive when the flag is set.\<close>

definition join_begin :: "bool \<Rightarrow> dka \<Rightarrow> dka" where
  "join_begin resetting s =
     (let s = dcheck (ownKeepAlive s) s
      in if ownKeepAlive s
         then case dkaRelease (s\<lparr>ownKeepAlive := False\<rparr>) of
             (isLast, s') \<Rightarrow> s'\<lparr>joiner := if isLast then JoinPost resetting else JoinWait resetting\<rparr>
         else s\<lparr>joiner := JoinWait resetting\<rparr>)"

fun join_step :: "join_pc \<Rightarrow> dka \<Rightarrow> dka option" where
  "join_step NotJoining s = None"
| "join_step (JoinPost r) s = Some (s\<lparr>keepAliveReleaseBaton := True, joiner := JoinWait r\<rparr>)"
| "join_step (JoinWait r) s =
     (if keepAliveReleaseBaton s then Some (s\<lparr>joiner := if r then JoinExchange else Joined\<rparr>) else None)"
| "join_step JoinExchange s =
     Some (dcheck (keepAliveCount s = 0) (s\<lparr>keepAliveCount := 1, joiner := JoinBatonReset\<rparr>))"
| "join_step JoinBatonReset s = Some (s\<lparr>keepAliveReleaseBaton := False, joiner := JoinMakeKeepAlive\<rparr>)"
| "join_step JoinMakeKeepAlive s = Some (s\<lparr>ownKeepAlive := True, joiner := NotJoining\<rparr>)"
| "join_step Joined s = None"

section \<open>Runs\<close>

text \<open>What a thread may do: take a token through a token it holds or while the executor is in use, drop or hand
  over one, the same with handles to the weak reference, call \<open>WeakRef::add\<close>, or go on with such a call.\<close>

datatype dka_action =
    AcquireToken nat
  | ReleaseToken nat
  | HandToken nat nat
  | AcquireWeak nat
  | ReleaseWeak nat
  | HandWeak nat nat
  | WeakAdd nat func
  | CallerStep nat bool
  | JoinBegin bool
  | JoinStep

definition guarded :: "bool \<Rightarrow> 'a \<Rightarrow> 'a option" where
  "guarded b x = (if b then Some x else None)"

fun dka_step :: "nat \<Rightarrow> dka \<Rightarrow> dka_action \<Rightarrow> dka option" where
  "dka_step N s (AcquireToken t) =
     guarded (t < N \<and> callers s t = Idle \<and> (strong s t > 0 \<or> ownKeepAlive s)) (dkaAcquire (setStrong t (strong s t + 1) s))"
| "dka_step N s (ReleaseToken t) = guarded (t < N \<and> callers s t = Idle \<and> strong s t > 0) (dropStrong t s)"
| "dka_step N s (HandToken t u) =
     guarded (t < N \<and> u < N \<and> t \<noteq> u \<and> callers s t = Idle \<and> strong s t > 0)
       (setStrong u (strong s u + 1) (setStrong t (strong s t - 1) s))"
| "dka_step N s (AcquireWeak t) =
     guarded (t < N \<and> callers s t = Idle \<and> weak s t > 0) (weakRefAcquire (setWeak t (weak s t + 1) s))"
| "dka_step N s (ReleaseWeak t) =
     guarded (t < N \<and> callers s t = Idle \<and> weak s t > 0) (weakRefRelease (setWeak t (weak s t - 1) s))"
| "dka_step N s (HandWeak t u) =
     guarded (t < N \<and> u < N \<and> t \<noteq> u \<and> callers s t = Idle \<and> weak s t > 0)
       (setWeak u (weak s u + 1) (setWeak t (weak s t - 1) s))"
| "dka_step N s (WeakAdd t f) = guarded (t < N \<and> callers s t = Idle \<and> weak s t > 0) (goto t (LockLoad f) s)"
| "dka_step N s (CallerStep t spurious) = (if t < N then caller_step t spurious (callers s t) s else None)"
| "dka_step N s (JoinBegin r) = guarded (joiner s = NotJoining) (join_begin r s)"
| "dka_step N s JoinStep = join_step (joiner s) s"

fun dka_run :: "nat \<Rightarrow> dka \<Rightarrow> dka_action list \<Rightarrow> dka option" where
  "dka_run N s [] = Some s"
| "dka_run N s (a # as) = (case dka_step N s a of None \<Rightarrow> None | Some s' \<Rightarrow> dka_run N s' as)"

section \<open>Invariant\<close>

definition owned :: "dka \<Rightarrow> int" where
  "owned s = (if joiner s \<in> {NotJoining, JoinBatonReset, JoinMakeKeepAlive} then 1 else 0)"

definition posting :: "caller_pc \<Rightarrow> int" where
  "posting pc = (if pc = PostBaton then 1 else 0)"

definition posters :: "nat \<Rightarrow> dka \<Rightarrow> int" where
  "posters N s = (\<Sum>t<N. posting (callers s t)) + (if joiner s \<in> {JoinPost True, JoinPost False} then 1 else 0)"

definition strongs :: "nat \<Rightarrow> dka \<Rightarrow> int" where
  "strongs N s = (\<Sum>t<N. int (strong s t))"

definition weaks :: "nat \<Rightarrow> dka \<Rightarrow> int" where
  "weaks N s = (\<Sum>t<N. int (weak s t))"

text \<open>What a thread at a point of \<open>WeakRef::add\<close> holds: handles of the weak reference, tokens.\<close>

fun pc_ok :: "caller_pc \<Rightarrow> nat \<Rightarrow> nat \<Rightarrow> bool" where
  "pc_ok (LockLoad f) w n = (w > 0)"
| "pc_ok (LockCas f v) w n = (w > 0 \<and> v > 0)"
| "pc_ok (ForwardAdd f) w n = (n > 0)"
| "pc_ok DropToken w n = (n > 0)"
| "pc_ok pc w n = True"

definition callers_inv :: "nat \<Rightarrow> dka \<Rightarrow> bool" where
  "callers_inv N s \<longleftrightarrow> (\<forall>t<N. pc_ok (callers s t) (weak s t) (strong s t))"

text \<open>The baton has been posted, or exactly one thread is about to, exactly when the count is at zero (or was, and the
  joining thread has yet to reset the baton).\<close>

definition count_inv :: "nat \<Rightarrow> dka \<Rightarrow> bool" where
  "count_inv N s \<longleftrightarrow> keepAliveCount s = strongs N s + owned s \<and> ownKeepAlive s = (joiner s = NotJoining)"

definition post_inv :: "nat \<Rightarrow> dka \<Rightarrow> bool" where
  "post_inv N s \<longleftrightarrow>
     posters N s + (if keepAliveReleaseBaton s then 1 else 0) = (if keepAliveCount s = 0 \<or> joiner s = JoinBatonReset then 1 else 0) \<and>
     (joiner s \<in> {JoinExchange, JoinBatonReset, Joined} \<longrightarrow> keepAliveReleaseBaton s)"

definition weak_inv :: "nat \<Rightarrow> dka \<Rightarrow> bool" where
  "weak_inv N s \<longleftrightarrow> weakRefCount s = weaks N s \<and> weakRefDeletes s = (if weakRefCount s = 0 then 1 else 0)"

definition dka_inv :: "nat \<Rightarrow> dka \<Rightarrow> bool" where
  "dka_inv N s \<longleftrightarrow> count_inv N s \<and> post_inv N s \<and> weak_inv N s \<and> callers_inv N s \<and> \<not> checkFailed s"

lemmas dka_inv_defs = dka_inv_def count_inv_def post_inv_def weak_inv_def

lemma upd_sums:
  fixes f :: "nat \<Rightarrow> nat" and g :: "nat \<Rightarrow> caller_pc"
  assumes "t < N"
  shows "(\<Sum>i<N. int (if i = t then n else f i)) = (\<Sum>i<N. int (f i)) - int (f t) + int n"
    and "(\<Sum>i<N. posting (if i = t then pc else g i)) = (\<Sum>i<N. posting (g i)) - posting (g t) + posting pc"
  using sum_fun_upd[of "{..<N}" t int f n] sum_fun_upd[of "{..<N}" t posting g pc] assms
  by (simp_all add: fun_upd_def)

lemma posting_simps [simp]:
  "posting Idle = 0" "posting PostBaton = 1" "posting (LockLoad f) = 0" "posting (LockCas f v) = 0"
  "posting (ForwardAdd f) = 0" "posting DropToken = 0"
  by (simp_all add: posting_def)

lemma sums_nonneg:
  fixes f :: "nat \<Rightarrow> nat" and g :: "nat \<Rightarrow> caller_pc"
  shows "0 \<le> (\<Sum>t<N. int (f t))" "0 \<le> (\<Sum>t<N. posting (g t))"
  by (simp_all add: sum_nonneg posting_def)

lemma member_le:
  fixes f :: "nat \<Rightarrow> nat" and g :: "nat \<Rightarrow> caller_pc"
  assumes "t < N"
  shows "int (f t) \<le> (\<Sum>i<N. int (f i))" and "posting (g t) \<le> (\<Sum>i<N. posting (g i))"
  using member_le_sum[of t "{..<N}" "\<lambda>i. int (f i)"] member_le_sum[of t "{..<N}" "\<lambda>i. posting (g i)"] assms
  by (simp_all add: posting_def)

lemma guarded_Some: "guarded b x = Some y \<longleftrightarrow> b \<and> y = x"
  by (auto simp: guarded_def)

lemmas sum_defs = strongs_def weaks_def posters_def owned_def

lemma dka_invI:
  assumes "count_inv N s" "post_inv N s" "weak_inv N s" "callers_inv N s" "\<not> checkFailed s"
  shows "dka_inv N s"
  using assms by (simp add: dka_inv_def)

lemma pc_ok_mono: "pc_ok pc w n \<Longrightarrow> w \<le> w' \<Longrightarrow> n \<le> n' \<Longrightarrow> pc_ok pc w' n'"
  by (cases pc) auto

lemma callers_upd:
  assumes "callers_inv N s" "\<And>u. u < N \<Longrightarrow> u \<noteq> t \<Longrightarrow> callers s' u = callers s u \<and> weak s u \<le> weak s' u \<and> strong s u \<le> strong s' u"
    "pc_ok (callers s' t) (weak s' t) (strong s' t)"
  shows "callers_inv N s'"
  using assms pc_ok_mono unfolding callers_inv_def by metis

lemma callers_same:
  assumes "callers_inv N s" "callers s' = callers s" "weak s' = weak s" "strong s' = strong s"
  shows "callers_inv N s'"
  using assms by (simp add: callers_inv_def)

lemmas op_defs = dropStrong_def dkaRelease_def dkaAcquire_def weakRefAcquire_def weakRefRelease_def dcheck_def
  join_begin_def Let_def

lemma drop_inv:
  assumes "dka_inv N s" "t < N" "strong s t > 0" "posting (callers s t) = 0"
  shows "dka_inv N (dropStrong t s)"
proof (rule dka_invI)
  let ?s = "dropStrong t s"
  note m = member_le(1)[OF assms(2), of "strong s"]
  have c: "keepAliveCount s \<ge> 1"
    using assms(1,3) m by (simp add: dka_inv_defs sum_defs)
  show "count_inv N ?s" "weak_inv N ?s"
    using assms(1-3) by (simp_all add: dka_inv_defs sum_defs op_defs upd_sums)
  show "post_inv N ?s"
    using assms c m by (auto simp: dka_inv_defs sum_defs op_defs upd_sums)
  show "callers_inv N ?s"
    by (rule callers_upd[of N s t]) (use assms(1) in \<open>simp_all add: dka_inv_def op_defs\<close>)
  show "\<not> checkFailed ?s"
    using assms(1) c by (simp add: dka_inv_def op_defs)
qed

lemma post_baton_inv:
  assumes "dka_inv N s" "t < N" "callers s t = PostBaton"
  shows "dka_inv N (goto t Idle (s\<lparr>keepAliveReleaseBaton := True\<rparr>))"
proof (rule dka_invI)
  let ?s = "goto t Idle (s\<lparr>keepAliveReleaseBaton := True\<rparr>)"
  show "count_inv N ?s" "weak_inv N ?s" "\<not> checkFailed ?s"
    using assms(1,2) by (simp_all add: dka_inv_defs sum_defs)
  show "post_inv N ?s"
    using assms member_le(2)[OF assms(2), of "callers s"] by (simp add: dka_inv_defs sum_defs upd_sums split: if_splits)
  show "callers_inv N ?s"
    by (rule callers_upd[of N s t]) (use assms(1) in \<open>simp_all add: dka_inv_def\<close>)
qed

lemma goto_inv:
  assumes "dka_inv N s" "t < N" "posting (callers s t) = 0" "posting pc = 0" "pc_ok pc (weak s t) (strong s t)"
  shows "dka_inv N (goto t pc s)"
proof (rule dka_invI)
  let ?s = "goto t pc s"
  show "count_inv N ?s" "weak_inv N ?s" "\<not> checkFailed ?s"
    using assms(1,2) by (simp_all add: dka_inv_defs sum_defs)
  show "post_inv N ?s"
    using assms by (simp add: dka_inv_defs sum_defs upd_sums)
  show "callers_inv N ?s"
    by (rule callers_upd[of N s t]) (use assms(1,5) in \<open>simp_all add: dka_inv_def\<close>)
qed

lemma acquire_inv:
  assumes "dka_inv N s" "t < N" "keepAliveCount s > 0" "posting (callers s t) = 0" "posting pc = 0" "pc_ok pc (weak s t) 1"
  shows "dka_inv N (goto t pc (setStrong t (strong s t + 1) (s\<lparr>keepAliveCount := keepAliveCount s + 1\<rparr>)))"
proof (rule dka_invI)
  let ?s = "goto t pc (setStrong t (strong s t + 1) (s\<lparr>keepAliveCount := keepAliveCount s + 1\<rparr>))"
  show "count_inv N ?s" "weak_inv N ?s" "\<not> checkFailed ?s"
    using assms(1,2) by (simp_all add: dka_inv_defs sum_defs upd_sums)
  show "post_inv N ?s"
    using assms by (simp add: dka_inv_defs sum_defs upd_sums split: if_splits)
  show "callers_inv N ?s"
    by (rule callers_upd[of N s t]) (use assms(1) pc_ok_mono[OF assms(6), of "weak s t" "strong s t + 1"] in \<open>simp_all add: dka_inv_def\<close>)
qed

lemma caller_inv:
  assumes "dka_inv N s" "t < N" "caller_step t spurious (callers s t) s = Some s'"
  shows "dka_inv N s'"
proof -
  have ok: "pc_ok (callers s t) (weak s t) (strong s t)"
    using assms(1,2) by (simp add: dka_inv_def callers_inv_def)
  have pos: "keepAliveCount s \<ge> 0"
    using assms(1) sums_nonneg(1)[where N = N and f = "strong s"] by (simp add: dka_inv_defs sum_defs)
  have add: "dka_inv N (s\<lparr>received := fs\<rparr>)" for fs
    using assms(1) by (simp add: dka_inv_defs sum_defs callers_inv_def)
  show ?thesis
  proof (cases "callers s t")
    case DropToken
    then show ?thesis
      using assms ok drop_inv[OF assms(1,2)] by simp
  next
    case PostBaton
    then show ?thesis
      using assms post_baton_inv by auto
  next
    case (LockLoad f)
    then show ?thesis
      using assms(3) ok pos goto_inv[OF assms(1,2)] by auto
  next
    case (LockCas f v)
    then show ?thesis
      using assms(3) ok pos goto_inv[OF assms(1,2)] acquire_inv[OF assms(1,2), of "ForwardAdd f"]
      by (auto split: if_splits)
  next
    case (ForwardAdd f)
    then show ?thesis
      using assms(3) ok goto_inv[OF add assms(2), where pc = DropToken] by auto
  qed (use assms(3) in simp)
qed

lemma join_inv:
  assumes "dka_inv N s" "join_step (joiner s) s = Some s'"
  shows "dka_inv N s'"
proof (rule dka_invI)
  note n = sums_nonneg(2)[where N = N and g = "callers s"] sums_nonneg(1)[where N = N and f = "strong s"]
  show "count_inv N s'" "post_inv N s'" "weak_inv N s'" "\<not> checkFailed s'"
    using assms n by (cases "joiner s"; auto simp: dka_inv_defs sum_defs dcheck_def split: if_splits)+
  show "callers_inv N s'"
    using assms by (cases "joiner s") (auto simp: dka_inv_def callers_inv_def dcheck_def split: if_splits)
qed

lemma begin_inv:
  assumes "dka_inv N s" "joiner s = NotJoining"
  shows "dka_inv N (join_begin r s)"
proof (rule dka_invI)
  let ?s = "join_begin r s"
  note n = sums_nonneg(2)[where N = N and g = "callers s"] sums_nonneg(1)[where N = N and f = "strong s"]
  have "ownKeepAlive s"
    using assms by (simp add: dka_inv_defs)
  note simps = this dka_inv_defs sum_defs op_defs
  show "count_inv N ?s" "post_inv N ?s" "weak_inv N ?s" "\<not> checkFailed ?s"
    using assms n by (auto simp: simps split: if_splits)
  show "callers_inv N ?s"
    by (rule callers_same[of N s]) (use assms \<open>ownKeepAlive s\<close> in \<open>simp_all add: dka_inv_def op_defs\<close>)
qed

lemma weak_step_inv:
  assumes "dka_inv N s" "callers_inv N s'" "weak_inv N s'" "\<not> checkFailed s'" "keepAliveCount s' = keepAliveCount s"
    "joiner s' = joiner s" "callers s' = callers s" "strong s' = strong s" "ownKeepAlive s' = ownKeepAlive s"
    "keepAliveReleaseBaton s' = keepAliveReleaseBaton s"
  shows "dka_inv N s'"
  using assms by (simp add: dka_inv_def count_inv_def post_inv_def sum_defs)

lemma dka_step_inv:
  assumes "dka_inv N s" "dka_step N s a = Some s'"
  shows "dka_inv N s'"
proof (cases a)
  case (AcquireToken t)
  then have t: "t < N" "callers s t = Idle" "strong s t > 0 \<or> ownKeepAlive s"
    using assms(2) by (simp_all add: guarded_Some)
  then have c: "keepAliveCount s > 0"
    using assms(1) member_le(1)[OF t(1), of "strong s"] sums_nonneg(1)[where N = N and f = "strong s"]
    by (auto simp: dka_inv_defs sum_defs)
  have i: "(callers s)(t := Idle) = callers s"
    using t(2) by (simp add: fun_upd_idem)
  have "s' = goto t Idle (setStrong t (strong s t + 1) (s\<lparr>keepAliveCount := keepAliveCount s + 1\<rparr>))"
    using assms AcquireToken c i by (simp add: guarded_Some dkaAcquire_def dcheck_def dka_inv_def)
  then show ?thesis
    using t acquire_inv[OF assms(1) t(1) c, of Idle] by simp
next
  case (ReleaseToken t)
  then show ?thesis
    using assms drop_inv[of N s t] by (simp add: guarded_Some)
next
  case (HandToken t u)
  show ?thesis
  proof (rule dka_invI)
    show "callers_inv N s'"
      by (rule callers_upd[of N s t]) (use assms HandToken in \<open>simp_all add: guarded_Some dka_inv_def\<close>)
  qed (use assms HandToken in \<open>simp_all add: guarded_Some dka_inv_defs sum_defs upd_sums\<close>)
next
  case (AcquireWeak t)
  note A = assms AcquireWeak member_le(1)[of t N "weak s"]
  show ?thesis
  proof (rule weak_step_inv[of N s])
    show "callers_inv N s'"
      by (rule callers_upd[of N s t]) (use A in \<open>auto simp: guarded_Some dka_inv_def op_defs\<close>)
  qed (use A in \<open>auto simp: guarded_Some dka_inv_defs sum_defs upd_sums op_defs split: if_splits\<close>)
next
  case (ReleaseWeak t)
  note A = assms ReleaseWeak member_le(1)[of t N "weak s"]
  show ?thesis
  proof (rule weak_step_inv[of N s])
    show "callers_inv N s'"
      by (rule callers_upd[of N s t]) (use A in \<open>auto simp: guarded_Some dka_inv_def op_defs\<close>)
  qed (use A in \<open>auto simp: guarded_Some dka_inv_defs sum_defs upd_sums op_defs split: if_splits\<close>)
next
  case (HandWeak t u)
  note A = assms HandWeak member_le(1)[of t N "weak s"]
  show ?thesis
  proof (rule weak_step_inv[of N s])
    show "callers_inv N s'"
      by (rule callers_upd[of N s t]) (use A in \<open>auto simp: guarded_Some dka_inv_def op_defs\<close>)
  qed (use A in \<open>auto simp: guarded_Some dka_inv_defs sum_defs upd_sums op_defs split: if_splits\<close>)
next
  case (WeakAdd t f)
  then show ?thesis
    using assms goto_inv[of N s t "LockLoad f"] by (simp add: guarded_Some)
next
  case (CallerStep t b)
  then show ?thesis
    using assms caller_inv[of N s t b s'] by (simp split: if_splits)
next
  case (JoinBegin r)
  then show ?thesis
    using assms begin_inv by (simp add: guarded_Some)
next
  case JoinStep
  then show ?thesis
    using assms join_inv by simp
qed

lemma dka_run_inv: "dka_inv N s \<Longrightarrow> dka_run N s as = Some s' \<Longrightarrow> dka_inv N s'"
  by (induction as arbitrary: s) (auto split: option.splits dest: dka_step_inv)

lemma new_inv:
  assumes "N > 0"
  shows "dka_inv N newDka"
  using upd_sums(1)[OF assms, of "Suc 0" "\<lambda>t. 0"]
  by (simp add: newDka_def dka_inv_defs sum_defs callers_inv_def fun_upd_def)

lemma joined_inv:
  assumes "dka_inv N s" "joiner s = Joined"
  shows "keepAliveCount s = 0" "\<forall>t<N. strong s t = 0"
proof -
  have "posters N s \<ge> 0"
    using sums_nonneg(2)[where N = N and g = "callers s"] by (simp add: posters_def)
  then show c: "keepAliveCount s = 0"
    using assms by (simp add: dka_inv_defs split: if_splits)
  show "\<forall>t<N. strong s t = 0"
    using c assms member_le(1)[where N = N and f = "strong s"] by (simp add: dka_inv_defs strongs_def owned_def)
qed

lemma joined_step:
  assumes "dka_inv N s" "joiner s = Joined" "dka_step N s a = Some s'"
  shows "joiner s' = Joined \<and> received s' = received s"
proof (cases a)
  case (CallerStep t b)
  have t: "t < N" "strong s t = 0" "pc_ok (callers s t) (weak s t) (strong s t)"
    using assms joined_inv[OF assms(1,2)] CallerStep by (auto simp: dka_inv_def callers_inv_def split: if_splits)
  then show ?thesis
    using assms CallerStep by (cases "callers s t") auto
qed (use assms in \<open>auto simp: guarded_Some op_defs\<close>)

lemma joined_run:
  "dka_inv N s \<Longrightarrow> joiner s = Joined \<Longrightarrow> dka_run N s as = Some s' \<Longrightarrow> joiner s' = Joined \<and> received s' = received s"
proof (induction as arbitrary: s)
  case (Cons a as)
  then obtain s1 where "dka_step N s a = Some s1" "dka_run N s1 as = Some s'"
    by (auto split: option.splits)
  then show ?case
    using Cons joined_step dka_step_inv by metis
qed simp

section \<open>Properties\<close>

text \<open>C33. Cn. In every interleaving of threads that take, hand over and drop tokens and weak handles and call
  \<open>WeakRef::add\<close>, with the thread that joins: no DCHECK of the class fails (the count is never incremented
  from zero nor decremented below it, and is zero when joinAndResetKeepAlive exchanges it); the count is the number of
  live tokens plus the executor's own; and the weak reference is deleted exactly once, when its last handle goes.\<close>

theorem keepAlive_count_exact:
  assumes "N > 0" "dka_run N newDka as = Some s"
  shows "\<not> checkFailed s \<and> keepAliveCount s = (\<Sum>t<N. int (strong s t)) + owned s \<and>
    weakRefDeletes s = (if \<forall>t<N. weak s t = 0 then 1 else 0)"
proof -
  have i: "dka_inv N s"
    using dka_run_inv[OF new_inv[OF assms(1)] assms(2)] .
  have "(\<Sum>t<N. int (weak s t)) = 0 \<longleftrightarrow> (\<forall>t<N. weak s t = 0)"
    by (subst sum_nonneg_eq_0_iff) auto
  with i show ?thesis
    by (simp add: dka_inv_defs strongs_def weaks_def)
qed

theorem keepAlive_count_exact_witness:
  "\<exists>s. dka_run 2 newDka [AcquireToken 1, HandWeak 0 1, WeakAdd 1 7, CallerStep 1 False, ReleaseToken 0] = None \<and>
     dka_run 2 newDka [AcquireToken 1, HandWeak 0 1, WeakAdd 1 7, CallerStep 1 False, CallerStep 1 False] = Some s \<and>
     keepAliveCount s = 3 \<and> weakRefDeletes s = 0"
proof -
  let ?as = "[AcquireToken 1, HandWeak 0 1, WeakAdd 1 7, CallerStep 1 False, CallerStep 1 False]"
  obtain s where s: "dka_run 2 newDka ?as = Some s" "strong s 0 = 0" "strong s 1 = 2" "weak s 1 = 1" "joiner s = NotJoining"
    by (simp add: newDka_def guarded_def op_defs)
  have "dka_run 2 newDka [AcquireToken 1, HandWeak 0 1, WeakAdd 1 7, CallerStep 1 False, ReleaseToken 0] = None"
    by (simp add: newDka_def guarded_def op_defs)
  then show ?thesis
    using s keepAlive_count_exact[of 2 ?as s] by (auto simp: owned_def numeral_2_eq_2)
qed

text \<open>C34. Cn. When joinKeepAlive has returned, no thread holds a token of the executor, and none is on its way to hand it
  a function: in every continuation of the run, however many weak references are used, the executor receives no more
  functions and no token is made again.\<close>

theorem joined_executor_is_left_alone:
  assumes "N > 0" "dka_run N newDka as = Some s" "joiner s = Joined" "dka_run N s as' = Some s'"
  shows "received s' = received s \<and> (\<forall>t<N. strong s' t = 0) \<and> keepAliveCount s' = 0"
proof -
  have i: "dka_inv N s"
    using dka_run_inv[OF new_inv[OF assms(1)] assms(2)] .
  note r = joined_run[OF i assms(3,4)]
  show ?thesis
    using r joined_inv[OF dka_run_inv[OF i assms(4)]] by simp
qed

theorem joined_executor_is_left_alone_witness:
  "\<exists>s s'. dka_run 1 newDka [JoinBegin False, JoinStep, JoinStep] = Some s \<and>
     dka_run 1 s [WeakAdd 0 7, CallerStep 0 False] = Some s' \<and> received s' = received s"
proof -
  obtain s s' where s: "dka_run 1 newDka [JoinBegin False, JoinStep, JoinStep] = Some s" "joiner s = Joined"
    "dka_run 1 s [WeakAdd 0 7, CallerStep 0 False] = Some s'"
    by (simp add: newDka_def guarded_def op_defs)
  then show ?thesis
    using joined_executor_is_left_alone[OF _ s] by auto
qed

text \<open>C35. Cn. The join is not left waiting: in every reachable state in which the joining thread waits and no token is left,
  the baton has been posted or one thread is about to post it, and after at most two more steps the wait is over.\<close>

theorem join_is_woken:
  assumes "N > 0" "dka_run N newDka as = Some s" "joiner s = JoinWait r" "\<forall>t<N. strong s t = 0"
  shows "\<exists>as' s'. length as' \<le> 2 \<and> dka_run N s as' = Some s' \<and> joiner s' = (if r then JoinExchange else Joined)"
proof -
  have i: "dka_inv N s"
    using dka_run_inv[OF new_inv[OF assms(1)] assms(2)] .
  have "keepAliveCount s = 0"
    using i assms(3,4) by (simp add: dka_inv_defs strongs_def owned_def)
  then have p: "keepAliveReleaseBaton s \<or> (\<Sum>t<N. posting (callers s t)) = 1"
    using i assms(3) by (auto simp: dka_inv_def post_inv_def posters_def split: if_splits)
  show ?thesis
  proof (cases "keepAliveReleaseBaton s")
    case True
    then show ?thesis
      using assms(3) by (intro exI[of _ "[JoinStep]"]) simp
  next
    case False
    with p have "(\<Sum>t<N. posting (callers s t)) \<noteq> 0"
      by simp
    then have "\<exists>t\<in>{..<N}. posting (callers s t) \<noteq> 0"
      by (meson sum.neutral)
    then obtain t where "t < N" "callers s t = PostBaton"
      by (auto simp: posting_def split: if_splits)
    then show ?thesis
      using assms(3) by (intro exI[of _ "[CallerStep t False, JoinStep]"]) simp
  qed
qed

theorem join_is_woken_witness:
  "\<exists>s as' s'. dka_run 1 newDka [AcquireToken 0, JoinBegin True, ReleaseToken 0] = Some s \<and>
     dka_run 1 s as' = Some s' \<and> joiner s' = JoinExchange"
proof -
  obtain s where s: "dka_run 1 newDka [AcquireToken 0, JoinBegin True, ReleaseToken 0] = Some s" "joiner s = JoinWait True"
    "\<forall>t<1. strong s t = 0"
    by (simp add: newDka_def guarded_def op_defs)
  then show ?thesis
    using join_is_woken[OF _ s] by fastforce
qed

end
