(* ===== verification/BlockingGuard.thy ===== *)
theory BlockingGuard
  imports Prelude
begin

text \<open>
  \<open>ExecutorBlockingGuard\<close> (Executor.cpp, Executor.h): a thread-local linked list of blocking contexts, threaded through
  guard objects that live on the stack. The memory of the lists is a function from addresses, the thread-local
  pointer is an address; \<open>terminate_with\<close> is the value None.
\<close>

section \<open>Contexts and guards\<close>

record ExecutorBlockingContext =
  forbid :: bool
  allowTerminationOnBlocking :: bool
  ex :: nat
  tag :: string

record ExecutorBlockingList =
  prev :: nat
  curr :: ExecutorBlockingContext

datatype guardTag = PermitTag | TrackTag nat string | ProhibitTag nat string

text \<open>Address 0 is the null pointer, address 1 the static \<open>emptyList\<close>.\<close>

definition emptyContext :: ExecutorBlockingContext where
  "emptyContext = \<lparr>forbid = False, allowTerminationOnBlocking = False, ex = 0, tag = []\<rparr>"

definition emptyListAt :: nat where
  "emptyListAt = 1"

record blockingState =
  lists :: "nat \<Rightarrow> ExecutorBlockingList"
  executor_blocking_list :: nat

definition initialBlocking :: blockingState where
  "initialBlocking = \<lparr>lists = (\<lambda>a. \<lparr>prev = 0, curr = emptyContext\<rparr>), executor_blocking_list = emptyListAt\<rparr>"

definition getExecutorBlockingContext :: "bool \<Rightarrow> blockingState \<Rightarrow> ExecutorBlockingContext option" where
  "getExecutorBlockingContext kIsMobile s =
     (if kIsMobile \<or> \<not> forbid (curr (lists s (executor_blocking_list s))) then None
      else Some (curr (lists s (executor_blocking_list s))))"

text \<open>The three constructors: what each changes of the context it copies.\<close>

definition retag :: "string \<Rightarrow> ExecutorBlockingContext \<Rightarrow> ExecutorBlockingContext" where
  "retag t c = (if t \<noteq> [] then c\<lparr>tag := t\<rparr> else c)"

fun enterContext :: "guardTag \<Rightarrow> ExecutorBlockingContext \<Rightarrow> ExecutorBlockingContext" where
  "enterContext PermitTag c = c\<lparr>forbid := False\<rparr>"
| "enterContext (TrackTag e t) c = retag t (c\<lparr>forbid := True, ex := e\<rparr>)"
| "enterContext (ProhibitTag e t) c = retag t (c\<lparr>forbid := True, ex := e, allowTerminationOnBlocking := True\<rparr>)"

definition guardCtor :: "bool \<Rightarrow> guardTag \<Rightarrow> nat \<Rightarrow> blockingState \<Rightarrow> blockingState" where
  "guardCtor kIsMobile g this s =
     (if \<not> kIsMobile
      then let list = lists s (executor_blocking_list s);
               list = list\<lparr>prev := executor_blocking_list s\<rparr>;
               list = list\<lparr>curr := enterContext g (curr list)\<rparr>
           in s\<lparr>lists := (lists s)(this := list), executor_blocking_list := this\<rparr>
      else s)"

definition guardDtor :: "bool \<Rightarrow> nat \<Rightarrow> blockingState \<Rightarrow> blockingState option" where
  "guardDtor kIsMobile this s =
     (if \<not> kIsMobile
      then if executor_blocking_list s \<noteq> this then None
           else Some (s\<lparr>executor_blocking_list := prev (lists s this)\<rparr>)
      else Some s)"

section \<open>Runs and the stack they implement\<close>

datatype guard_op = Enter guardTag nat | Leave nat

fun guard_run :: "bool \<Rightarrow> blockingState \<Rightarrow> guard_op list \<Rightarrow> blockingState option" where
  "guard_run m s [] = Some s"
| "guard_run m s (Enter g a # ops) = guard_run m (guardCtor m g a s) ops"
| "guard_run m s (Leave a # ops) = (case guardDtor m a s of None \<Rightarrow> None | Some s' \<Rightarrow> guard_run m s' ops)"

text \<open>The specification: a stack of guards, each with the context in force since its construction.\<close>

type_synonym contexts = "(nat \<times> ExecutorBlockingContext) list"

definition current :: "contexts \<Rightarrow> ExecutorBlockingContext" where
  "current st = (case st of [] \<Rightarrow> emptyContext | (a, c) # _ \<Rightarrow> c)"

fun stack_run :: "contexts \<Rightarrow> guard_op list \<Rightarrow> contexts option" where
  "stack_run st [] = Some st"
| "stack_run st (Enter g a # ops) = stack_run ((a, enterContext g (current st)) # st) ops"
| "stack_run ((b, c) # st) (Leave a # ops) = (if a = b then stack_run st ops else None)"
| "stack_run [] (Leave a # ops) = None"

text \<open>Guards are objects with an address of their own: a constructor runs at an address where no guard lives.\<close>

fun fresh_ops :: "nat set \<Rightarrow> guard_op list \<Rightarrow> bool" where
  "fresh_ops live [] = True"
| "fresh_ops live (Enter g a # ops) = (a \<notin> live \<and> a \<notin> {0, emptyListAt} \<and> fresh_ops (insert a live) ops)"
| "fresh_ops live (Leave a # ops) = (a \<in> live \<and> fresh_ops (live - {a}) ops)"

fun linked :: "(nat \<Rightarrow> ExecutorBlockingList) \<Rightarrow> nat \<Rightarrow> contexts \<Rightarrow> bool" where
  "linked h p [] = (p = emptyListAt \<and> curr (h p) = emptyContext)"
| "linked h p ((a, c) # st) = (p = a \<and> a \<noteq> emptyListAt \<and> curr (h a) = c \<and> linked h (prev (h a)) st)"

lemma linked_current: "linked h p st \<Longrightarrow> curr (h p) = current st"
  by (cases st) (auto simp: current_def)

lemma linked_upd: "linked h p st \<Longrightarrow> a \<notin> fst ` set st \<Longrightarrow> a \<noteq> emptyListAt \<Longrightarrow> linked (h(a := l)) p st"
  by (induction h p st rule: linked.induct) auto

lemma ctor_linked:
  assumes "linked (lists s) (executor_blocking_list s) st" "a \<notin> fst ` set st" "a \<noteq> emptyListAt"
  shows "linked (lists (guardCtor False g a s)) (executor_blocking_list (guardCtor False g a s)) ((a, enterContext g (current st)) # st)"
  using assms linked_upd[OF assms] linked_current[OF assms(1)] by (simp add: guardCtor_def Let_def)

lemma dtor_linked:
  assumes "linked (lists s) (executor_blocking_list s) ((b, c) # st)"
  shows "guardDtor False a s = (if a = b then Some (s\<lparr>executor_blocking_list := prev (lists s a)\<rparr>) else None)"
    "linked (lists s) (prev (lists s b)) st"
  using assms by (auto simp: guardDtor_def)

lemma guard_simulates:
  assumes "linked (lists s) (executor_blocking_list s) st" "fresh_ops (fst ` set st) ops" "distinct (map fst st)"
  shows "rel_option (\<lambda>s' st'. linked (lists s') (executor_blocking_list s') st') (guard_run False s ops) (stack_run st ops)"
  using assms
proof (induction st ops arbitrary: s rule: stack_run.induct)
  case (2 st g a ops)
  then show ?case
    using ctor_linked[of s st a g] by simp
next
  case (3 b c st a ops)
  note d = dtor_linked(1)[OF "3.prems"(1), of a] dtor_linked(2)[OF "3.prems"(1)]
  show ?case
  proof (cases "a = b")
    case True
    then have "fst ` set ((b, c) # st) - {a} = fst ` set st"
      using "3.prems"(3) by auto
    then show ?thesis
      using 3 d True by simp
  qed (use d in simp)
qed auto

section \<open>Properties\<close>

text \<open>C38. Cn. The linked list of guards implements a stack of contexts: for every sequence of constructions and
  destructions of guards, at addresses where no other guard lives, the run ends with the list linked as the stack
  prescribes and the context in force is the one of the innermost live guard; the run terminates the process exactly
  when the stack is popped out of order.\<close>

theorem guards_implement_stack:
  assumes "fresh_ops {} ops"
  shows "(guard_run False initialBlocking ops = None \<longleftrightarrow> stack_run [] ops = None) \<and>
    (\<forall>s st. guard_run False initialBlocking ops = Some s \<longrightarrow> stack_run [] ops = Some st \<longrightarrow>
      getExecutorBlockingContext False s = (if forbid (current st) then Some (current st) else None) \<and>
      (st = [] \<longleftrightarrow> executor_blocking_list s = emptyListAt))"
proof -
  have "linked (lists initialBlocking) (executor_blocking_list initialBlocking) []"
    by (simp add: initialBlocking_def)
  from guard_simulates[OF this] assms
  have r: "rel_option (\<lambda>s' st'. linked (lists s') (executor_blocking_list s') st') (guard_run False initialBlocking ops) (stack_run [] ops)"
    by simp
  show ?thesis
  proof (intro conjI allI impI)
    show "guard_run False initialBlocking ops = None \<longleftrightarrow> stack_run [] ops = None"
      using r by (cases "guard_run False initialBlocking ops"; cases "stack_run [] ops") auto
    fix s st
    assume "guard_run False initialBlocking ops = Some s" "stack_run [] ops = Some st"
    then have l: "linked (lists s) (executor_blocking_list s) st"
      using r by simp
    show "getExecutorBlockingContext False s = (if forbid (current st) then Some (current st) else None)"
      using linked_current[OF l] by (simp add: getExecutorBlockingContext_def)
    show "st = [] \<longleftrightarrow> executor_blocking_list s = emptyListAt"
      using l by (cases st) auto
  qed
qed

theorem guards_implement_stack_witness:
  "\<exists>s. guard_run False initialBlocking [Enter (ProhibitTag 9 ''pool'') 16, Enter (TrackTag 7 []) 32, Enter PermitTag 48, Leave 48] = Some s \<and>
     getExecutorBlockingContext False s = Some \<lparr>forbid = True, allowTerminationOnBlocking = True, ex = 7, tag = ''pool''\<rparr>"
proof -
  let ?ops = "[Enter (ProhibitTag 9 ''pool'') 16, Enter (TrackTag 7 []) 32, Enter PermitTag 48, Leave 48]"
  obtain st where st: "stack_run [] ?ops = Some st" "current st = \<lparr>forbid = True, allowTerminationOnBlocking = True, ex = 7, tag = ''pool''\<rparr>"
    by (simp add: current_def emptyContext_def retag_def)
  then show ?thesis
    using guards_implement_stack[of ?ops] by (cases "guard_run False initialBlocking ?ops") (auto simp: emptyListAt_def)
qed

end
