(* ===== verification/Futex.thy ===== *)
theory Futex
  imports Prelude "HOL-Library.Signed_Division"
begin

text \<open>
  The futex layer (detail/Futex.cpp, Futex-inl.h, Futex.h): deadlines converted between clocks, the calls of the
  futex system call, and its emulation on \<open>folly::ParkingLot\<close>. The kernel and the parking lot are not code of the
  repository: they are the fields of a record \<open>futexWorld\<close>, and what the code relies on them for are hypotheses.
  Time points are integers in ticks of their clock, and C++'s truncating division is \<open>sdiv\<close>. An assert is part of the
  result: the first component says that all asserts on the way held.
\<close>

unbundle bit_operations_syntax

section \<open>Time\<close>

text \<open>A clock: ticks per second, its largest time point, the present, and whether it is steady.\<close>

record clock =
  ticks :: int
  maxTime :: int
  now :: int
  is_steady :: bool

definition duration_cast :: "int \<Rightarrow> int \<Rightarrow> int \<Rightarrow> int" where
  "duration_cast p q d = (d * q) sdiv p"

text \<open>The flag says whether both are the same clock type.\<close>

definition time_point_conv :: "bool \<Rightarrow> clock \<Rightarrow> clock \<Rightarrow> int \<Rightarrow> int" where
  "time_point_conv same target source time =
     (if time = maxTime source then maxTime target
      else if same then duration_cast (ticks source) (ticks target) time
      else now target + duration_cast (ticks source) (ticks target) (time - now source))"

record timespec =
  tv_sec :: int
  tv_nsec :: int

definition timeSpecFromTimePoint :: "int \<Rightarrow> int \<Rightarrow> timespec" where
  "timeSpecFromTimePoint p absTime =
     (let epoch = (if absTime < 0 then 0 else absTime);
          secs = duration_cast p 1 epoch;
          nanos = duration_cast p 1000000000 (epoch - secs * p)
      in \<lparr>tv_sec = secs, tv_nsec = nanos\<rparr>)"

section \<open>Results and the world\<close>

datatype FutexResult = VALUE_CHANGED | AWOKEN | INTERRUPTED | TIMEDOUT

datatype errno = ETIMEDOUT | EINTR | EWOULDBLOCK | OtherErrno int

datatype ParkResult = Skip | Unpark | Timeout

datatype UnparkControl = RetainContinue | RemoveContinue | RetainBreak | RemoveBreak

type_synonym wake_state = "int \<times> int \<times> bool"

record futexWorld =
  linux :: bool
  systemClock :: clock
  steadyClock :: clock
  futexValue :: u32
  waitCall :: "u32 \<Rightarrow> u32 \<Rightarrow> timespec option \<Rightarrow> u32 \<Rightarrow> int \<times> errno"
  wakeCall :: "u32 \<Rightarrow> int \<Rightarrow> u32 \<Rightarrow> int"
  park :: "u32 \<Rightarrow> bool \<Rightarrow> (bool \<times> int) option \<Rightarrow> ParkResult"
  unpark :: "(u32 \<Rightarrow> wake_state \<Rightarrow> UnparkControl \<times> wake_state) \<Rightarrow> u32 list \<Rightarrow> wake_state \<Rightarrow> u32 list \<times> wake_state"

definition FUTEX_WAIT_BITSET :: u32 where "FUTEX_WAIT_BITSET = 9"

definition FUTEX_WAKE_BITSET :: u32 where "FUTEX_WAKE_BITSET = 10"

definition FUTEX_PRIVATE_FLAG :: u32 where "FUTEX_PRIVATE_FLAG = 128"

definition FUTEX_CLOCK_REALTIME :: u32 where "FUTEX_CLOCK_REALTIME = 256"

section \<open>The system call\<close>

definition nativeFutexWake :: "futexWorld \<Rightarrow> int \<Rightarrow> u32 \<Rightarrow> int" where
  "nativeFutexWake W count wakeMask =
     (let rv = wakeCall W (FUTEX_WAKE_BITSET OR FUTEX_PRIVATE_FLAG) count wakeMask in if rv < 0 then 0 else rv)"

definition nativeFutexWaitImpl :: "futexWorld \<Rightarrow> u32 \<Rightarrow> int option \<Rightarrow> int option \<Rightarrow> u32 \<Rightarrow> bool \<times> FutexResult" where
  "nativeFutexWaitImpl W expected absSystemTime absSteadyTime waitMask =
     (let asserted = (absSystemTime = None \<or> absSteadyTime = None);
          op = FUTEX_WAIT_BITSET OR FUTEX_PRIVATE_FLAG;
          (op, timeout) =
            (case absSystemTime of
               Some t \<Rightarrow> (op OR FUTEX_CLOCK_REALTIME, Some (timeSpecFromTimePoint (ticks (systemClock W)) t))
             | None \<Rightarrow> (case absSteadyTime of
                 Some t \<Rightarrow> (op, Some (timeSpecFromTimePoint (ticks (steadyClock W)) t))
               | None \<Rightarrow> (op, None)));
          (rv, err) = waitCall W op expected timeout waitMask
      in if rv = 0 then (asserted, AWOKEN)
         else case err of
             ETIMEDOUT \<Rightarrow> (asserted \<and> timeout \<noteq> None, TIMEDOUT)
           | EINTR \<Rightarrow> (asserted, INTERRUPTED)
           | EWOULDBLOCK \<Rightarrow> (asserted, VALUE_CHANGED)
           | OtherErrno e \<Rightarrow> (False, VALUE_CHANGED))"

section \<open>The emulation\<close>

text \<open>The callback of \<open>unpark\<close>, on the captured count and woken; and the waiters that stay, the number woken.\<close>

definition wakeVisit :: "u32 \<Rightarrow> u32 \<Rightarrow> wake_state \<Rightarrow> UnparkControl \<times> wake_state" where
  "wakeVisit waitMask parked s = (case s of (count, woken, asserted) \<Rightarrow>
     if parked AND waitMask = 0 then (RetainContinue, s)
     else (if count - 1 > 0 then RemoveContinue else RemoveBreak, (count - 1, woken + 1, asserted \<and> count > 0)))"

definition emulatedFutexWake :: "futexWorld \<Rightarrow> u32 list \<Rightarrow> int \<Rightarrow> u32 \<Rightarrow> u32 list \<times> bool \<times> int" where
  "emulatedFutexWake W waiters count waitMask =
     (case unpark W (wakeVisit waitMask) waiters (count, 0, True) of (rest, c, woken, asserted) \<Rightarrow> (rest, asserted, woken))"

definition emulatedFutexWaitImpl :: "futexWorld \<Rightarrow> u32 \<Rightarrow> int option \<Rightarrow> int option \<Rightarrow> u32 \<Rightarrow> FutexResult" where
  "emulatedFutexWaitImpl W expected absSystemTime absSteadyTime waitMask =
     (let res = (case absSystemTime of
            Some t \<Rightarrow> park W waitMask (futexValue W = expected) (Some (False, t))
          | None \<Rightarrow> (case absSteadyTime of
              Some t \<Rightarrow> park W waitMask (futexValue W = expected) (Some (True, t))
            | None \<Rightarrow> park W waitMask (futexValue W = expected) None))
      in case res of Skip \<Rightarrow> VALUE_CHANGED | Unpark \<Rightarrow> AWOKEN | Timeout \<Rightarrow> TIMEDOUT)"

section \<open>The interface\<close>

text \<open>The flag \<open>emulated\<close> stands for the type \<open>EmulatedFutexAtomic\<close> of the futex.\<close>

definition futexWaitImpl :: "futexWorld \<Rightarrow> bool \<Rightarrow> u32 \<Rightarrow> int option \<Rightarrow> int option \<Rightarrow> u32 \<Rightarrow> bool \<times> FutexResult" where
  "futexWaitImpl W emulated expected absSystemTime absSteadyTime waitMask =
     (if linux W \<and> \<not> emulated then nativeFutexWaitImpl W expected absSystemTime absSteadyTime waitMask
      else (True, emulatedFutexWaitImpl W expected absSystemTime absSteadyTime waitMask))"

definition futexWaitDeadline :: "futexWorld \<Rightarrow> bool \<Rightarrow> u32 \<Rightarrow> bool \<Rightarrow> int \<Rightarrow> u32 \<Rightarrow> bool \<times> FutexResult" where
  "futexWaitDeadline W emulated expected steady deadline waitMask =
     (if steady then futexWaitImpl W emulated expected None (Some deadline) waitMask
      else futexWaitImpl W emulated expected (Some deadline) None waitMask)"

definition futexWait :: "futexWorld \<Rightarrow> bool \<Rightarrow> u32 \<Rightarrow> u32 \<Rightarrow> bool \<times> FutexResult" where
  "futexWait W emulated expected waitMask =
     (let (asserted, rv) = futexWaitImpl W emulated expected None None waitMask in (asserted \<and> rv \<noteq> TIMEDOUT, rv))"

definition futexWaitUntil :: "futexWorld \<Rightarrow> bool \<Rightarrow> u32 \<Rightarrow> bool \<Rightarrow> clock \<Rightarrow> int \<Rightarrow> u32 \<Rightarrow> bool \<times> FutexResult" where
  "futexWaitUntil W emulated expected same source deadline waitMask =
     (let target = (if is_steady source then steadyClock W else systemClock W);
          converted = time_point_conv same target source deadline
      in if converted = maxTime target then futexWaitImpl W emulated expected None None waitMask
         else futexWaitDeadline W emulated expected (is_steady source) converted waitMask)"

definition futexWake :: "futexWorld \<Rightarrow> bool \<Rightarrow> u32 list \<Rightarrow> int \<Rightarrow> u32 \<Rightarrow> bool \<times> int" where
  "futexWake W emulated waiters count wakeMask =
     (if linux W \<and> \<not> emulated then (True, nativeFutexWake W count wakeMask)
      else snd (emulatedFutexWake W waiters count wakeMask))"

section \<open>What the code relies on\<close>

text \<open>The system call and the parking lot report a timeout only for a wait that has a deadline; the system call fails
  only in the ways the code expects of well-formed arguments; the parking lot does not park when the predicate fails.\<close>

definition timely :: "futexWorld \<Rightarrow> bool" where
  "timely W \<longleftrightarrow>
     (\<forall>op e m. fst (waitCall W op e None m) \<noteq> 0 \<longrightarrow> snd (waitCall W op e None m) \<noteq> ETIMEDOUT) \<and>
     (\<forall>op e t m x. fst (waitCall W op e t m) \<noteq> 0 \<longrightarrow> snd (waitCall W op e t m) \<noteq> OtherErrno x) \<and>
     (\<forall>m b. park W m b None \<noteq> Timeout)"

text \<open>\<open>ParkingLot::unpark\<close> visits the parked waiters in order and does with each what the callback answers.\<close>

definition visits_in_order :: "futexWorld \<Rightarrow> bool" where
  "visits_in_order W \<longleftrightarrow>
     (\<forall>f s. unpark W f [] s = ([], s)) \<and>
     (\<forall>f m ms s. unpark W f (m # ms) s = (case f m s of
         (RetainContinue, s') \<Rightarrow> (let (r, s'') = unpark W f ms s' in (m # r, s''))
       | (RemoveContinue, s') \<Rightarrow> unpark W f ms s'
       | (RetainBreak, s') \<Rightarrow> (m # ms, s')
       | (RemoveBreak, s') \<Rightarrow> (ms, s')))"

section \<open>Time points\<close>

lemma sdiv_nonneg: "0 \<le> (x :: int) \<Longrightarrow> 0 < p \<Longrightarrow> x sdiv p = x div p"
  by (cases "x = 0") (simp_all add: signed_divide_int_def)

lemma timespec_split:
  assumes "0 < p" "0 \<le> (x :: int)"
  shows "x - x div p * p = x mod p" "0 \<le> x mod p" "x mod p * 1000000000 div p < 1000000000"
proof -
  show "x - x div p * p = x mod p" "0 \<le> x mod p"
    using assms by (simp_all add: minus_div_mult_eq_mod)
  let ?a = "x mod p * 1000000000"
  have "?a div p * p \<le> ?a"
    using assms(1) minus_mod_eq_div_mult[of ?a p] pos_mod_sign[of p ?a] by linarith
  also have "?a < 1000000000 * p"
    using assms(1) by simp
  finally show "x mod p * 1000000000 div p < 1000000000"
    using assms(1) by (simp only: mult_less_cancel_right_pos)
qed

lemma exact_ticks:
  assumes "0 < p" "p dvd (1000000000 :: int)"
  shows "x div p * 1000000000 + x mod p * 1000000000 div p = x * (1000000000 div p)"
proof -
  obtain k where k: "1000000000 = p * k"
    using assms(2) by (rule dvdE)
  have "x div p * (p * k) + x mod p * k = (x div p * p + x mod p) * k"
    by (simp only: distrib_right mult.assoc)
  moreover have "x mod p * (p * k) div p = x mod p * k" "p * k div p = k"
    using assms(1) by (simp_all add: mult.left_commute)
  ultimately show ?thesis
    unfolding k by (simp add: mult.assoc)
qed

lemma floor_ticks:
  assumes "0 < (p :: int)"
  shows "x div p * 1000000000 + x mod p * 1000000000 div p = x * 1000000000 div p"
proof -
  have "x * 1000000000 = x mod p * 1000000000 + x div p * 1000000000 * p"
    by (simp only: mult.assoc mult.commute[of 1000000000 p]) (simp only: mult.assoc[symmetric] distrib_right[symmetric] mod_div_mult_eq)
  then show ?thesis
    using assms by (simp add: add.commute)
qed

section \<open>Properties\<close>

text \<open>C39. Cn. The absolute timeout handed to the kernel is a valid timespec: the seconds are not negative and the nanoseconds
  are at least zero and below one second. For a clock with \<open>p\<close> ticks in a second it denotes the time point, cut down to
  whole nanoseconds, if that is not before the epoch, and the epoch if it is; when \<open>p\<close> divides the number of nanoseconds
  in a second nothing is cut off.\<close>

theorem timespec_valid:
  assumes "0 < p"
  shows "0 \<le> tv_sec (timeSpecFromTimePoint p t) \<and>
    0 \<le> tv_nsec (timeSpecFromTimePoint p t) \<and> tv_nsec (timeSpecFromTimePoint p t) < 1000000000 \<and>
    tv_sec (timeSpecFromTimePoint p t) * 1000000000 + tv_nsec (timeSpecFromTimePoint p t) = max 0 t * 1000000000 div p \<and>
    (p dvd 1000000000 \<longrightarrow>
      tv_sec (timeSpecFromTimePoint p t) * 1000000000 + tv_nsec (timeSpecFromTimePoint p t) = max 0 t * (1000000000 div p))"
proof -
  define x where "x = max 0 t"
  have x: "0 \<le> x" "(if t < 0 then 0 else t) = x"
    by (simp_all add: x_def)
  note split = timespec_split[OF assms x(1)]
  have s: "duration_cast p 1 x = x div p"
    using assms x(1) by (simp add: duration_cast_def sdiv_nonneg)
  have "duration_cast p 1000000000 (x - x div p * p) = x mod p * 1000000000 div p"
    unfolding split(1) duration_cast_def using assms split(2) by (simp add: sdiv_nonneg)
  with s have "tv_sec (timeSpecFromTimePoint p t) = x div p"
    "tv_nsec (timeSpecFromTimePoint p t) = x mod p * 1000000000 div p"
    by (simp_all only: timeSpecFromTimePoint_def x(2) Let_def timespec.select_convs)
  then show ?thesis
    using assms x(1) split floor_ticks[OF assms, of x] exact_ticks[OF assms, of x]
    by (simp add: x_def[symmetric] pos_imp_zdiv_nonneg_iff)
qed

theorem timespec_valid_witness:
  "tv_nsec (timeSpecFromTimePoint 1000000 (-5)) < 1000000000 \<and>
   tv_sec (timeSpecFromTimePoint 1000000 (-5)) * 1000000000 + tv_nsec (timeSpecFromTimePoint 1000000 (-5)) = 0 \<and>
   tv_sec (timeSpecFromTimePoint 1000000 2500000) * 1000000000 + tv_nsec (timeSpecFromTimePoint 1000000 2500000) = 2500000000 \<and>
   tv_sec (timeSpecFromTimePoint 3 5) * 1000000000 + tv_nsec (timeSpecFromTimePoint 3 5) = 1666666666"
  using timespec_valid[of 1000000 "-5"] timespec_valid[of 1000000 2500000] timespec_valid[of 3 5] by simp

text \<open>A wait without a deadline, or with a deadline that is the largest time point of its clock, never reports a
  timeout, on the system call and on the emulation, and no assert on the way fails; a wait with any other deadline
  passes at most one of the two absolute times, so its asserts hold too.\<close>

theorem unbounded_wait_never_times_out:
  assumes "timely W"
  shows "fst (futexWait W emulated expected waitMask) \<and> snd (futexWait W emulated expected waitMask) \<noteq> TIMEDOUT \<and>
    fst (futexWaitUntil W emulated expected same source t waitMask) \<and>
    (t = maxTime source \<longrightarrow> snd (futexWaitUntil W emulated expected same source t waitMask) \<noteq> TIMEDOUT)"
proof -
  have n: "fst (futexWaitImpl W emulated expected None None waitMask)" "snd (futexWaitImpl W emulated expected None None waitMask) \<noteq> TIMEDOUT"
    using assms by (auto simp: futexWaitImpl_def nativeFutexWaitImpl_def emulatedFutexWaitImpl_def timely_def Let_def
        split: prod.splits errno.splits ParkResult.splits)
      (metis fst_conv snd_conv)+
  have d: "fst (futexWaitDeadline W emulated expected steady d waitMask)" for steady d
    using assms by (auto simp: futexWaitDeadline_def futexWaitImpl_def nativeFutexWaitImpl_def timely_def Let_def
        split: prod.splits errno.splits)
      (metis fst_conv snd_conv)+
  have "fst (futexWait W emulated expected waitMask)" "snd (futexWait W emulated expected waitMask) \<noteq> TIMEDOUT"
    using n by (simp_all add: futexWait_def case_prod_beta)
  moreover have "fst (futexWaitUntil W emulated expected same source t waitMask)"
    using n d by (simp add: futexWaitUntil_def Let_def)
  moreover have "snd (futexWaitUntil W emulated expected same source t waitMask) \<noteq> TIMEDOUT" if "t = maxTime source"
    using n that by (simp add: futexWaitUntil_def time_point_conv_def)
  ultimately show ?thesis
    by blast
qed

section \<open>The emulated wake\<close>

text \<open>The waiters that are left when the first \<open>n\<close> that match are taken away.\<close>

fun dropMatching :: "('a \<Rightarrow> bool) \<Rightarrow> nat \<Rightarrow> 'a list \<Rightarrow> 'a list" where
  "dropMatching P 0 xs = xs"
| "dropMatching P n [] = []"
| "dropMatching P (Suc n) (x # xs) = (if P x then dropMatching P n xs else x # dropMatching P (Suc n) xs)"

lemma unpark_drops:
  assumes "visits_in_order W" "n > 0"
  shows "unpark W (wakeVisit w) ms (int n, k, True) =
    (let d = min n (length (filter (\<lambda>m. m AND w \<noteq> 0) ms))
     in (dropMatching (\<lambda>m. m AND w \<noteq> 0) n ms, int (n - d), k + int d, True))"
  using assms(2)
proof (induction ms arbitrary: n k)
  case Nil
  then show ?case
    using assms(1) by (cases n) (simp_all add: visits_in_order_def)
next
  case (Cons m ms)
  have u: "unpark W f (m # ms) s = (case f m s of
         (RetainContinue, s') \<Rightarrow> (let (r, s'') = unpark W f ms s' in (m # r, s''))
       | (RemoveContinue, s') \<Rightarrow> unpark W f ms s'
       | (RetainBreak, s') \<Rightarrow> (m # ms, s')
       | (RemoveBreak, s') \<Rightarrow> (ms, s'))" for f s
    using assms(1) unfolding visits_in_order_def by blast
  obtain l where l: "n = Suc l"
    using Cons.prems by (cases n) auto
  show ?case
  proof (cases "m AND w = 0")
    case True
    then show ?thesis
      using Cons.IH[of n k] l by (simp add: u wakeVisit_def Let_def)
  next
    case False
    then show ?thesis
      using Cons.IH[of l "k + 1"] l by (cases l) (simp_all add: u wakeVisit_def Let_def min_def)
  qed
qed

text \<open>C40. Cn. The emulated wake takes away exactly the first \<open>count\<close> waiters whose mask meets the given one (all of
  them when there are fewer), leaves every other waiter parked and in order, returns how many it woke, and its
  assert holds at each of them.\<close>

theorem emulatedFutexWake_wakes_first:
  assumes "visits_in_order W" "0 < count"
  shows "emulatedFutexWake W waiters count wakeMask =
    (dropMatching (\<lambda>m. m AND wakeMask \<noteq> 0) (nat count) waiters, True,
     min count (int (length (filter (\<lambda>m. m AND wakeMask \<noteq> 0) waiters))))"
  using unpark_drops[OF assms(1), of "nat count" wakeMask waiters 0] assms(2)
  by (simp add: emulatedFutexWake_def Let_def min_def nat_le_iff)

text \<open>Witnesses: a parking lot that is a list of waiters, and a kernel that always wakes.\<close>

fun unparkList :: "(u32 \<Rightarrow> wake_state \<Rightarrow> UnparkControl \<times> wake_state) \<Rightarrow> u32 list \<Rightarrow> wake_state \<Rightarrow> u32 list \<times> wake_state" where
  "unparkList f [] s = ([], s)"
| "unparkList f (m # ms) s = (case f m s of
         (RetainContinue, s') \<Rightarrow> (let (r, s'') = unparkList f ms s' in (m # r, s''))
       | (RemoveContinue, s') \<Rightarrow> unparkList f ms s'
       | (RetainBreak, s') \<Rightarrow> (m # ms, s')
       | (RemoveBreak, s') \<Rightarrow> (ms, s'))"

definition listWorld :: futexWorld where
  "listWorld = \<lparr>linux = True, systemClock = \<lparr>ticks = 1000000, maxTime = 9223372036854775807, now = 5, is_steady = False\<rparr>,
     steadyClock = \<lparr>ticks = 1000000000, maxTime = 9223372036854775807, now = 7, is_steady = True\<rparr>, futexValue = 1,
     waitCall = (\<lambda>op e t m. (0, EINTR)), wakeCall = (\<lambda>op n m. n), park = (\<lambda>m b t. if b then Unpark else Skip),
     unpark = unparkList\<rparr>"

theorem emulatedFutexWake_wakes_first_witness:
  "emulatedFutexWake listWorld [1, 2, 3, 4, 1] 2 1 = ([2, 4, 1], True, 2)"
proof -
  have "unpark listWorld = unparkList"
    by (simp add: listWorld_def)
  then have "visits_in_order listWorld"
    unfolding visits_in_order_def by (simp only: unparkList.simps simp_thms)
  from emulatedFutexWake_wakes_first[OF this, of 2 "[1, 2, 3, 4, 1]" 1] show ?thesis
    by (simp add: numeral_2_eq_2)
qed

lemma listWorld_never_times_out:
  "snd (futexWait listWorld True 3 1) \<noteq> TIMEDOUT"
proof -
  have "timely listWorld"
    by (simp add: timely_def listWorld_def)
  then show ?thesis
    using unbounded_wait_never_times_out by blast
qed

end
