(* ===== verification/Spec2Isabelle.thy ===== *)
theory Spec2Isabelle
  imports SlotDispatch MPMCProperties DynamicProperties BoundedTaskQueues TaskQueueWakeups PoolProperties BoundedPools PoolConstructors Baton KeepAlive DefaultKeepAlive BlockingGuard Futex
begin

text \<open>
  A verification of the thread pool of this repository (src/ThreadPool, a reduced folly executor library).

  \<^bold>\<open>The program.\<close> A \<open>CPUThreadPoolExecutor\<close> accepts functions from client threads, puts them as tasks into a task queue and
  runs them on worker threads, whose number follows the load. Its parts, from the bottom up:

  \<^item> \<open>MPMCQueue\<close> (MPMCQueue.h), a bounded queue for many producers and consumers: two ticket counters, an array of
    \<open>SingleElementQueue\<close> cells and, in the dynamic variant, a seqlock by which the array is replaced by a larger one;
  \<^item> the task queues (executors/task_queue), two on \<open>folly::UMPMCQueue\<close> and two on \<open>MPMCQueue\<close>, each with a semaphore;
  \<^item> \<open>ThreadPoolExecutor\<close> (executors/ThreadPoolExecutor.h and .cpp): thread list, queue of stopped threads, counters,
    observers, and the critical sections of growing, shrinking and stopping;
  \<^item> \<open>CPUThreadPoolExecutor\<close> (executors/CPUThreadPoolExecutor.h and .cpp): clients that add tasks, change the number of
    threads, stop and join, and the loop of a worker thread; the thread ids of QueueObserver.cpp;
  \<^item> waiting: \<open>WaitOptions\<close>, the spin loops and \<open>Baton\<close> (synchronization), the futex layer (detail/Futex);
  \<^item> handles: \<open>Executor::KeepAlive\<close> (Executor.h), \<open>DefaultKeepAliveExecutor\<close> (DefaultKeepAliveExecutor.h) and
    \<open>ExecutorBlockingGuard\<close> (Executor.h, Executor.cpp).

  \<^bold>\<open>The theories.\<close>

  \<^item> \<open>Prelude\<close>: word types, the type \<open>outcome\<close> of a call (\<open>Done\<close>, blocked, or \<open>Undefined\<close> for what C++ leaves undefined
    or an assertion rejects), shared facts on words, lists and modular arithmetic.
  \<^item> \<open>Tickets\<close>: \<open>idx\<close>, \<open>turn\<close> and \<open>computeStride\<close> on 64 and 32 bit words; a window of capacity many tickets
    maps one to one onto the cells.
  \<^item> \<open>SingleElementQueue\<close>: the cell over a turn sequencer, which is a record of operations with a contract
    (\<open>turn_contract\<close>), since \<open>TurnSequencer\<close> is not part of the sources. \<open>SlotDispatch\<close>: the variants of moving values in
    and out of a cell all equal its \<open>enqueue\<close> and \<open>dequeue\<close>.
  \<^item> \<open>MPMCQueue\<close>: every operation of the fixed queue as a program with one step for each access to shared memory.
    \<open>MPMCSequential\<close>: used by one thread at a time it is a bounded list; the size queries.
    \<open>TicketRing\<close>: the abstract ring of tickets and its invariants. \<open>MPMCConcurrent\<close>: every interleaving simulates the
    ring. \<open>MPMCProperties\<close>: FIFO, no undefined behaviour, no blocking after \<open>write\<close> has its ticket, no deadlock.
  \<^item> \<open>DynamicMPMC\<close>: the dynamic queue in the same style. \<open>DynamicSeqlock\<close>: the invariant of seqlock and closed arrays,
    from which all threads agree on the array of a ticket. \<open>DynamicRings\<close>: each array as a fixed queue of its own, by a
    projection of the state. \<open>RingCut\<close>, \<open>DynamicClosing\<close>: what the publication of a new array does to the rings.
    \<open>DynamicFifo\<close>: every run simulates the rings of its arrays. \<open>DynamicProperties\<close>: FIFO across arrays, no undefined
    behaviour, no deadlock.
  \<^item> \<open>TaskQueues\<close>: the class \<open>BlockingQueue\<close> as a record of its virtual methods and its four implementations.
    \<open>BlockingQueues\<close>: the locales \<open>blocking_queue\<close> and \<open>lane_queue\<close>, what clients of a task queue rely on, with the two
    unbounded queues as interpretations; \<open>BoundedTaskQueues\<close>: the two bounded ones. \<open>ConcurrentTaskQueues\<close>: the bounded
    ones used by many threads, with the invariant of their wake-ups; \<open>TaskQueueWakeups\<close>: no wake-up is lost.
  \<^item> \<open>PoolTasks\<close>: tasks, running one, the queue of stopped threads. \<open>ThreadList\<close>: the sorted vector of threads.
    \<open>ThreadPoolExecutor\<close>: members and critical sections of the base class. \<open>CPUThreadPoolExecutor\<close>: workers and clients as
    step functions, and the system of a pool with any number of clients.
  \<^item> \<open>PoolSteps\<close>, \<open>PoolInvariants\<close>: what a step does to the accounts of the pool, and the invariants. \<open>PoolTaskFlow\<close>:
    where the tasks are (locale \<open>pool_queue\<close>). \<open>PoolShutdown\<close>: stop and join (locale \<open>draining_queue\<close>). \<open>PoolRuns\<close>: runs from the
    constructor, with the interpretations on the default queues. \<open>PoolProperties\<close>: the results. \<open>BoundedPools\<close>: pools
    with a bounded queue, their flow of tasks and their failing shutdown. \<open>PoolConstructors\<close>: the factories of queues,
    options and constructors a pool is made with, and the names of its threads.
  \<^item> \<open>Baton\<close>, \<open>Futex\<close>, \<open>KeepAlive\<close>, \<open>DefaultKeepAlive\<close>, \<open>BlockingGuard\<close>: one component each, with its properties.

  \<^bold>\<open>Conventions.\<close> Memory is sequentially consistent: an access to an atomic variable is one step, whatever its memory order.
  A critical section is one step. Counters keep their width; where a theorem needs that a 64 bit
  ticket has not wrapped, it says so by a bound on the length of the run (\<open>2 ^ 58\<close> steps for the dynamic queue, whose
  state packs the offset into 58 bits). Loops that may not end are options, and their termination is a theorem
  (\<open>spin_pause_until_returns\<close>, \<open>stop_terminates\<close>, \<open>priorityLifoSem_ctor_returns_iff\<close>, \<open>dynamic_queue_init\<close>).
  Turn sequencer, semaphores, \<open>folly::UMPMCQueue\<close>, \<open>folly::ParkingLot\<close>, clocks, the kernel, allocation and the functions of
  tasks are parameters; the contracts assumed of them are satisfiable, as the witnesses show on concrete instances.

  \<^bold>\<open>Steps that join several accesses.\<close> \<open>tryExpand\<close> allocates the new array and fills the closed entry in one step, under the
  lock of the sequence counter; \<open>post_step\<close> without blocking asserts and stores in one step, the poster being the only
  writer then; \<open>join_begin\<close> empties the handle and gives its token back in one step. A failed check of \<open>retireThread\<close>
  leaves its thread without a step; \<open>pool_threads_tracked\<close> shows that a running thread is in the list, so the check holds.
  The counters of \<open>DefaultKeepAlive\<close> and the seconds and nanoseconds of a timespec are unbounded integers.

  \<^bold>\<open>Not modelled.\<close> Weak memory; the private \<open>enqueueWithTicket\<close> of \<open>MPMCQueue\<close>, which nothing calls; the
  starting of a \<open>std::thread\<close> and what happens when that fails; assignment of one dynamic queue to another and
  the deletion of queue observers; \<open>KeepAlive::add\<close> and the wrapping of function objects; the \<open>DCHECK\<close>s of \<open>removeObserver\<close> and of
  the destructor of \<open>DefaultKeepAliveExecutor\<close>; logging, tracing and request contexts;
  SequencedExecutor.h, an empty interface; main.cpp; the build files.
\<close>

end
